(* ===== verification/Prelude.thy ===== *)
theory Prelude
  imports Main "HOL-Library.Word"
begin

text \<open>
  Shared vocabulary of the development: the machine integer types of the library, its error
  codes, the result type of operations that may throw, little-endian byte encoding of integers,
  and the list facts the components share.

  \<^item> \<open>InnerIdType\<close>, \<open>LabelType\<close> and the fixed-width integers come from
    \<^verbatim>\<open>src/src/basic_types.h\<close>. A label is an \<open>int64_t\<close> that the modelled code only compares
    for equality and copies, so its 64 bits are kept as a word.
  \<^item> \<open>ErrorType\<close> is the enumeration of \<^verbatim>\<open>src/include/vsag/errors.h\<close>. A thrown
    \<open>VsagException\<close> is \<open>Inl (Vsag t)\<close>; \<open>std::out_of_range\<close> thrown by a checked container
    access is \<open>Inl StdOutOfRange\<close>, \<open>std::length_error\<close> thrown by
    \<open>std::vector::resize\<close> is \<open>Inl StdLengthError\<close>, a thrown \<open>std::invalid_argument\<close> is
    \<open>Inl StdInvalidArgument\<close>, a thrown \<open>std::runtime_error\<close> is \<open>Inl StdRuntimeError\<close>; an access outside an array or vector, which C++ leaves
    undefined, is \<open>Inl UndefinedBehaviour\<close>, so that a theorem that an operation returns
    \<open>Inr\<close> also says that it stays inside its buffers.
\<close>

unbundle bit_operations_syntax

section \<open>Types\<close>

type_synonym byte = "8 word"
type_synonym u16 = "16 word"
type_synonym u32 = "32 word"
type_synonym u64 = "64 word"

type_synonym InnerIdType = "32 word"
type_synonym LabelType = "64 word"

datatype ErrorType =
    UNKNOWN_ERROR | INTERNAL_ERROR | INVALID_ARGUMENT
  | WRONG_STATUS | BUILD_TWICE | INDEX_NOT_EMPTY | UNSUPPORTED_INDEX
  | UNSUPPORTED_INDEX_OPERATION | DIMENSION_NOT_EQUAL | INDEX_EMPTY
  | NO_ENOUGH_MEMORY | READ_ERROR | MISSING_FILE | INVALID_BINARY

datatype error =
    Vsag ErrorType | StdOutOfRange | StdLengthError | StdInvalidArgument | StdRuntimeError | UndefinedBehaviour

type_synonym 'a result = "error + 'a"

definition INVALID_ID :: InnerIdType where
  "INVALID_ID = - 1"

section \<open>Sequencing results\<close>

definition bind_r :: "'a result \<Rightarrow> ('a \<Rightarrow> 'b result) \<Rightarrow> 'b result" where
  "bind_r m f = (case m of Inl e \<Rightarrow> Inl e | Inr x \<Rightarrow> f x)"

lemma bind_r_simps [simp]:
  "bind_r (Inl e) f = Inl e"
  "bind_r (Inr x) f = f x"
  by (simp_all add: bind_r_def)

lemma bind_r_eq_Inr_iff:
  "bind_r m f = Inr y \<longleftrightarrow> (\<exists>x. m = Inr x \<and> f x = Inr y)"
  by (cases m) auto

lemma bind_rE:
  assumes "bind_r m f = Inr y"
  obtains x where "m = Inr x" and "f x = Inr y"
  using assms by (cases m) auto

lemma bind_r_prodE:
  assumes "bind_r m (\<lambda>(x, y). f x y) = Inr z"
  obtains x y where "m = Inr (x, y)" and "f x y = Inr z"
  using assms by (cases m) auto

lemma bind_r_eq_Inl_iff:
  "bind_r m f = Inl e \<longleftrightarrow> m = Inl e \<or> (\<exists>x. m = Inr x \<and> f x = Inl e)"
  by (cases m) auto

lemma bind_r_cong [fundef_cong]:
  "m = m' \<Longrightarrow> (\<And>x. m' = Inr x \<Longrightarrow> f x = g x) \<Longrightarrow> bind_r m f = bind_r m' g"
  by (cases m') auto

lemma bind_r_assoc: "bind_r (bind_r m f) g = bind_r m (\<lambda>x. bind_r (f x) g)"
  by (cases m) auto

definition check_r :: "bool \<Rightarrow> error \<Rightarrow> unit result" where
  "check_r b e = (if b then Inr () else Inl e)"

lemma check_r_simps [simp]:
  "check_r True e = Inr ()"
  "check_r False e = Inl e"
  by (simp_all add: check_r_def)

lemma check_r_eq_Inr_iff [simp]: "check_r b e = Inr u \<longleftrightarrow> b"
  by (simp add: check_r_def)

lemma check_r_eq_Inl_iff [simp]: "check_r b e = Inl e' \<longleftrightarrow> \<not> b \<and> e' = e"
  by (auto simp: check_r_def)

section \<open>Words and sizes\<close>

lemma unat_u32_lt: "unat (w :: u32) < 4294967296"
  using unsigned_less [of w, where ?'a = nat] by simp

lemma unat_u64_lt: "unat (w :: u64) < 18446744073709551616"
  using unsigned_less [of w, where ?'a = nat] by simp

lemma unat_u8_lt: "unat (w :: byte) < 256"
  using unsigned_less [of w, where ?'a = nat] by simp

lemma byte_plus_1_eq_0: "(w :: byte) + 1 = 0 \<longleftrightarrow> w = 255"
proof -
  have m: "(255 :: byte) = - 1" by simp
  show ?thesis unfolding m by (simp only: eq_neg_iff_add_eq_0)
qed

lemma unat_word_of_nat_u32: "n < 4294967296 \<Longrightarrow> unat (word_of_nat n :: u32) = n"
  by (simp add: unat_of_nat)

lemma unat_word_of_nat_u64: "n < 18446744073709551616 \<Longrightarrow> unat (word_of_nat n :: u64) = n"
  by (simp add: unat_of_nat)

lemma unat_add_le_u64:
  fixes a b c :: u64
  assumes "unat a + unat b \<le> unat c"
  shows "unat (a + b) = unat a + unat b"
proof -
  have "unat a + unat b < 2 ^ 64"
    using assms unat_u64_lt [of c] by simp
  then show ?thesis by (simp add: unat_word_ariths)
qed

lemma unat_ucast_u32_u64: "unat (ucast (w :: u32) :: u64) = unat w"
  using unat_u32_lt [of w] by (simp add: unsigned_ucast_eq take_bit_nat_eq_self)

lemma unat_ucast_u8_u32: "unat (ucast (w :: byte) :: u32) = unat w"
  using unat_u8_lt [of w] by (simp add: unsigned_ucast_eq take_bit_nat_eq_self)

lemma ucast_u32_u64_u32 [simp]: "ucast (ucast (w :: u32) :: u64) = w"
  by (rule bit_word_eqI) (simp add: bit_ucast_iff)

lemma unat_INVALID_ID: "unat INVALID_ID = 4294967295"
  by (simp add: INVALID_ID_def unsigned_minus_1_eq_mask mask_eq_exp_minus_1)

lemma not_INVALID_ID: "unat i < 4294967295 \<Longrightarrow> i \<noteq> INVALID_ID"
  using unat_INVALID_ID by auto

section \<open>Little-endian integers\<close>

text \<open>
  The bytes of an unsigned integer object as \<open>reinterpret_cast<const char*>(&val)\<close> shows them
  on the little-endian targets of the library (x86-64, AArch64).
\<close>

fun enc_le :: "nat \<Rightarrow> nat \<Rightarrow> byte list" where
  "enc_le 0 n = []"
| "enc_le (Suc k) n = word_of_nat (n mod 256) # enc_le k (n div 256)"

fun dec_le :: "byte list \<Rightarrow> nat" where
  "dec_le [] = 0"
| "dec_le (b # bs) = unat b + 256 * dec_le bs"

lemma length_enc_le [simp]: "length (enc_le k n) = k"
  by (induction k arbitrary: n) auto

lemma unat_byte_mod [simp]: "unat (word_of_nat (n mod 256) :: byte) = n mod 256"
  by (simp add: unat_of_nat)

lemma dec_le_enc_le: "dec_le (enc_le k n) = n mod 256 ^ k"
proof (induction k arbitrary: n)
  case 0
  then show ?case by simp
next
  case (Suc k)
  have "dec_le (enc_le (Suc k) n) = n mod 256 + 256 * ((n div 256) mod 256 ^ k)"
    using Suc.IH by simp
  also have "\<dots> = n mod (256 * 256 ^ k)"
    by (simp add: mod_mult2_eq)
  finally show ?case by simp
qed

lemma dec_le_bound: "dec_le bs < 256 ^ length bs"
proof (induction bs)
  case Nil
  then show ?case by simp
next
  case (Cons b bs)
  have "unat b < 256" by (rule unat_u8_lt)
  then have "unat b + 256 * dec_le bs < 256 * (dec_le bs + 1)" by simp
  also have "\<dots> \<le> 256 * 256 ^ length bs"
    using Cons.IH by (intro mult_le_mono2) simp
  finally show ?case by simp
qed

lemma enc_le_dec_le: "length bs = k \<Longrightarrow> enc_le k (dec_le bs) = bs"
proof (induction bs arbitrary: k)
  case Nil
  then show ?case by simp
next
  case (Cons b bs)
  then obtain j where k: "k = Suc j" and j: "length bs = j" by auto
  have "unat b < 256" by (rule unat_u8_lt)
  then have "(unat b + 256 * dec_le bs) mod 256 = unat b"
    and "(unat b + 256 * dec_le bs) div 256 = dec_le bs"
    by simp_all
  then show ?case
    using Cons.IH [OF j] by (simp add: k)
qed

definition enc_u32 :: "u32 \<Rightarrow> byte list" where
  "enc_u32 w = enc_le 4 (unat w)"

definition dec_u32 :: "byte list \<Rightarrow> u32" where
  "dec_u32 bs = word_of_nat (dec_le bs)"

definition enc_u64 :: "u64 \<Rightarrow> byte list" where
  "enc_u64 w = enc_le 8 (unat w)"

definition dec_u64 :: "byte list \<Rightarrow> u64" where
  "dec_u64 bs = word_of_nat (dec_le bs)"

definition enc_u16 :: "u16 \<Rightarrow> byte list" where
  "enc_u16 w = enc_le 2 (unat w)"

definition dec_u16 :: "byte list \<Rightarrow> u16" where
  "dec_u16 bs = word_of_nat (dec_le bs)"

definition enc_bool :: "bool \<Rightarrow> byte list" where
  "enc_bool b = [if b then 1 else 0]"

definition dec_bool :: "byte list \<Rightarrow> bool" where
  "dec_bool bs = (bs \<noteq> [0])"

lemma length_enc [simp]:
  "length (enc_u16 x) = 2" "length (enc_u32 y) = 4" "length (enc_u64 z) = 8"
  "length (enc_bool b) = 1"
  by (simp_all add: enc_u16_def enc_u32_def enc_u64_def enc_bool_def)

lemma dec_enc_u16 [simp]: "dec_u16 (enc_u16 w) = w"
  using unsigned_less [of w, where ?'a = nat] by (simp add: dec_u16_def enc_u16_def dec_le_enc_le)

lemma dec_enc_u32 [simp]: "dec_u32 (enc_u32 w) = w"
  using unsigned_less [of w, where ?'a = nat] by (simp add: dec_u32_def enc_u32_def dec_le_enc_le)

lemma dec_enc_u64 [simp]: "dec_u64 (enc_u64 w) = w"
  using unsigned_less [of w, where ?'a = nat] by (simp add: dec_u64_def enc_u64_def dec_le_enc_le)

lemma dec_enc_bool [simp]: "dec_bool (enc_bool b) = b"
  by (simp add: dec_bool_def enc_bool_def)

section \<open>Fixed-width records in a byte buffer\<close>

text \<open>
  \<open>chunks_of w n bs\<close> reads \<open>n\<close> consecutive objects of \<open>w\<close> bytes, the way a
  \<open>Vector<T>\<close> filled by one \<open>Read\<close> of \<open>n * sizeof(T)\<close> bytes sees them.
\<close>

fun chunks_of :: "nat \<Rightarrow> nat \<Rightarrow> 'b list \<Rightarrow> 'b list list" where
  "chunks_of w 0 bs = []"
| "chunks_of w (Suc n) bs = take w bs # chunks_of w n (drop w bs)"

lemma length_chunks_of [simp]: "length (chunks_of w n bs) = n"
  by (induction n arbitrary: bs) auto

lemma chunks_of_concat:
  assumes "\<forall>x \<in> set xs. length x = w"
  shows "chunks_of w (length xs) (concat xs) = xs"
  using assms by (induction xs) auto

lemma concat_chunks_of:
  "length bs = n * w \<Longrightarrow> concat (chunks_of w n bs) = bs"
  by (induction n arbitrary: bs) auto

lemma length_filter_update:
  assumes "i < length xs" and "\<not> P (xs ! i)" and "P y"
  shows "length (filter P (xs[i := y])) = Suc (length (filter P xs))"
proof -
  have "xs = take i xs @ xs ! i # drop (Suc i) xs"
    using assms(1) by (rule id_take_nth_drop)
  moreover have "xs[i := y] = take i xs @ y # drop (Suc i) xs"
    using assms(1) by (rule upd_conv_take_nth_drop)
  ultimately have "filter P xs = filter P (take i xs) @ filter P (drop (Suc i) xs)"
    "filter P (xs[i := y]) = filter P (take i xs) @ y # filter P (drop (Suc i) xs)"
    using assms(2,3) by (metis filter.simps(2) filter_append)+
  then show ?thesis by simp
qed

lemma length_concat_const:
  "\<forall>x \<in> set xs. length x = w \<Longrightarrow> length (concat xs) = length xs * w"
  by (induction xs) auto

section \<open>Lists\<close>

lemma list_update_idem_same [simp]: "i < length xs \<Longrightarrow> xs[i := xs ! i] = xs"
  by simp

lemma nth_resize:
  "i < m \<Longrightarrow> (take m xs @ replicate (m - length xs) d) ! i = (if i < length xs then xs ! i else d)"
  by (auto simp: nth_append)

text \<open>\<open>std::vector::resize(m)\<close>: keep the first \<open>m\<close> elements, value-initialise the new ones.\<close>

definition vresize :: "nat \<Rightarrow> 'a \<Rightarrow> 'a list \<Rightarrow> 'a list" where
  "vresize m d xs = take m xs @ replicate (m - length xs) d"

lemma length_vresize [simp]: "length (vresize m d xs) = m"
  by (auto simp: vresize_def)

lemma nth_vresize [simp]:
  "i < m \<Longrightarrow> vresize m d xs ! i = (if i < length xs then xs ! i else d)"
  by (simp add: vresize_def nth_resize)

lemma vresize_same [simp]: "vresize (length xs) d xs = xs"
  by (simp add: vresize_def)

end
