(* ===== verification/Streams.thy ===== *)
theory Streams
  imports Prelude
begin

text \<open>
  The byte streams of \<^verbatim>\<open>src/src/storage/stream_writer.{h,cpp}\<close> and
  \<^verbatim>\<open>src/src/storage/stream_reader.{h,cpp}\<close>.

  A serializer talks to a \<open>StreamWriter\<close> through its virtual \<open>Write\<close> only, so a serializer is
  modelled by the list of the chunks it passes to \<open>Write\<close>, in order, and each concrete writer by
  its \<open>Write\<close>; \<open>run_writer\<close> applies a writer to a serializer. A deserializer talks to a
  \<open>StreamReader\<close> through its virtual \<open>Read\<close>, so it takes the reader's \<open>Read\<close> as an
  argument, of type \<open>'r \<Rightarrow> u64 \<Rightarrow> (byte list \<times> 'r) result\<close>. The locale \<open>byte_source\<close>
  is the contract of \<open>Read\<close>; the forward reader, the payload reader of a block, the slice
  reader and the bounded reader are shown to satisfy it, so a round trip proved once in the locale
  holds for each of them. A reader is abandoned once one of its calls has thrown.
\<close>

section \<open>Writers\<close>

definition WriteObj :: "byte list \<Rightarrow> byte list list" where
  "WriteObj bs = [bs]"

definition WriteString :: "byte list \<Rightarrow> byte list list" where
  "WriteString str = WriteObj (enc_u64 (word_of_nat (length str))) @ [str]"

definition WriteVector :: "('a \<Rightarrow> byte list) \<Rightarrow> 'a list \<Rightarrow> byte list list" where
  "WriteVector enc val =
     WriteObj (enc_u64 (word_of_nat (length val))) @
     (if length val > 0 then [concat (map enc val)] else [])"

fun run_writer :: "('w \<Rightarrow> byte list \<Rightarrow> 'w) \<Rightarrow> byte list list \<Rightarrow> 'w \<Rightarrow> 'w" where
  "run_writer wr [] w = w"
| "run_writer wr (c # cs) w = run_writer wr cs (wr w c)"

lemma length_WriteVector:
  assumes "\<And>x. length (enc x) = sz"
  shows "length (concat (WriteVector enc xs)) = 8 + length xs * sz"
proof -
  have "length (concat (map enc xs)) = length xs * sz"
    using length_concat_const [of "map enc xs" sz] assms by auto
  then show ?thesis by (cases xs) (simp_all add: WriteVector_def WriteObj_def)
qed

record io_writer =
  ostream :: "byte list"
  iow_bytes_written :: u64

definition IOStreamWriter_Write :: "io_writer \<Rightarrow> byte list \<Rightarrow> io_writer" where
  "IOStreamWriter_Write w data =
     w\<lparr>ostream := ostream w @ data,
       iow_bytes_written := iow_bytes_written w + word_of_nat (length data)\<rparr>"

definition CountingStreamWriter_Write :: "u64 \<Rightarrow> byte list \<Rightarrow> u64" where
  "CountingStreamWriter_Write bytes_written data = bytes_written + word_of_nat (length data)"

record buffer_writer =
  bw_memory :: "byte list"
  bw_pos :: nat
  bw_bytes_written :: u64

definition BufferStreamWriter_Write :: "buffer_writer result \<Rightarrow> byte list \<Rightarrow> buffer_writer result" where
  "BufferStreamWriter_Write rw data =
     bind_r rw (\<lambda>w.
       if bw_pos w + length data \<le> length (bw_memory w) then
         Inr (w\<lparr>bw_memory := take (bw_pos w) (bw_memory w) @ data @
                               drop (bw_pos w + length data) (bw_memory w),
                bw_pos := bw_pos w + length data,
                bw_bytes_written := bw_bytes_written w + word_of_nat (length data)\<rparr>)
       else Inl UndefinedBehaviour)"

record func_writer =
  fw_calls :: "(u64 \<times> u64 \<times> byte list) list"
  fw_cursor :: u64
  fw_bytes_written :: u64

definition WriteFuncStreamWriter_Write :: "func_writer \<Rightarrow> byte list \<Rightarrow> func_writer" where
  "WriteFuncStreamWriter_Write w data =
     w\<lparr>fw_calls := fw_calls w @ [(fw_cursor w, word_of_nat (length data), data)],
       fw_cursor := fw_cursor w + word_of_nat (length data),
       fw_bytes_written := fw_bytes_written w + word_of_nat (length data)\<rparr>"

section \<open>Reading objects\<close>

type_synonym 'r read_op = "'r \<Rightarrow> u64 \<Rightarrow> (byte list \<times> 'r) result"

definition ReadObj :: "'r read_op \<Rightarrow> nat \<Rightarrow> (byte list \<Rightarrow> 'a) \<Rightarrow> 'r \<Rightarrow> ('a \<times> 'r) result" where
  "ReadObj rd sz dec r = bind_r (rd r (word_of_nat sz)) (\<lambda>(bs, r'). Inr (dec bs, r'))"

definition ReadString :: "'r read_op \<Rightarrow> 'r \<Rightarrow> (byte list \<times> 'r) result" where
  "ReadString rd r =
     bind_r (ReadObj rd 8 dec_u64 r) (\<lambda>(len, r).
       if unat len \<le> 2 ^ 63 - 1 then rd r len else Inl StdLengthError)"

text \<open>
  \<open>val.resize(size)\<close> throws \<open>std::length_error\<close> above \<open>PTRDIFF_MAX / sizeof(T)\<close>, so the
  product \<open>size * sizeof(T)\<close> of the following \<open>Read\<close> does not wrap.
\<close>

definition ReadVector :: "'r read_op \<Rightarrow> nat \<Rightarrow> (byte list \<Rightarrow> 'a) \<Rightarrow> 'r \<Rightarrow> ('a list \<times> 'r) result" where
  "ReadVector rd sz dec r =
     bind_r (ReadObj rd 8 dec_u64 r) (\<lambda>(size, r).
       if unat size \<le> (2 ^ 63 - 1) div sz then
         bind_r (rd r (size * word_of_nat sz)) (\<lambda>(bs, r).
           Inr (map dec (chunks_of sz (unat size) bs), r))
       else Inl StdLengthError)"

lemma skip_step_less:
  fixes remaining :: u64
  assumes "remaining > 0" and "0 < lim"
  shows "unat (remaining - min remaining lim) < unat remaining"
proof -
  have pos: "0 < min remaining lim" and le: "min remaining lim \<le> remaining"
    using assms by (simp_all add: min_less_iff_conj)
  from pos have "0 < unat (min remaining lim)"
    by (metis unat_gt_0 less_irrefl)
  moreover have "unat (min remaining lim) \<le> unat remaining"
    using le by (simp add: word_le_nat_alt)
  ultimately show ?thesis
    by (simp add: unat_sub [OF le])
qed

text \<open>
  \<open>SkipForward\<close> drains \<open>size\<close> bytes through a buffer of 8192 bytes.
\<close>

function SkipForward :: "'r read_op \<Rightarrow> 'r \<Rightarrow> u64 \<Rightarrow> 'r result" where
  "SkipForward rd r remaining =
     (if remaining > 0 then
        (let read_size = min remaining 8192 in
         bind_r (rd r read_size) (\<lambda>(_, r'). SkipForward rd r' (remaining - read_size)))
      else Inr r)"
  by pat_completeness auto

termination
  by (relation "measure (\<lambda>(rd, r, remaining). unat remaining)") (auto intro: skip_step_less)

declare SkipForward.simps [simp del]

section \<open>Concrete readers\<close>

record forward_reader =
  fr_istream :: "byte list"
  fr_cursor :: u64
  fr_io_count :: u64

definition ForwardStreamReader_Read :: "forward_reader read_op" where
  "ForwardStreamReader_Read r n =
     (if n = 0 then Inr ([], r)
      else if unat n > 2 ^ 63 - 1 then Inl (Vsag READ_ERROR)
      else if length (fr_istream r) < unat n then Inl (Vsag READ_ERROR)
      else Inr (take (unat n) (fr_istream r),
                r\<lparr>fr_istream := drop (unat n) (fr_istream r),
                  fr_cursor := fr_cursor r + n, fr_io_count := fr_io_count r + 1\<rparr>))"

definition ForwardStreamReader_Seek :: "forward_reader \<Rightarrow> u64 \<Rightarrow> forward_reader result" where
  "ForwardStreamReader_Seek r cursor = Inl (Vsag UNSUPPORTED_INDEX_OPERATION)"

text \<open>The callback of a \<open>ReadFuncStreamReader\<close> maps an offset and a size to the bytes there.\<close>

record func_reader =
  rf_readFunc :: "u64 \<Rightarrow> u64 \<Rightarrow> byte list result"
  rf_cursor :: u64
  rf_length :: u64
  rf_io_count :: u64

definition ReadFuncStreamReader_Read :: "func_reader read_op" where
  "ReadFuncStreamReader_Read r n =
     bind_r (rf_readFunc r (rf_cursor r) n) (\<lambda>data.
       Inr (data, r\<lparr>rf_cursor := rf_cursor r + n, rf_io_count := rf_io_count r + 1\<rparr>))"

definition ReadFuncStreamReader_Seek :: "func_reader \<Rightarrow> u64 \<Rightarrow> func_reader result" where
  "ReadFuncStreamReader_Seek r cursor = Inr (r\<lparr>rf_cursor := cursor\<rparr>)"

record 'r slice_reader =
  sr_impl :: 'r
  sr_begin :: u64
  sr_cursor :: u64
  sr_length :: u64

definition SliceStreamReader_Read :: "'r read_op \<Rightarrow> 'r slice_reader read_op" where
  "SliceStreamReader_Read rd s n =
     (if sr_cursor s + n > sr_length s then Inl (Vsag READ_ERROR)
      else bind_r (rd (sr_impl s) n) (\<lambda>(data, impl).
             Inr (data, s\<lparr>sr_impl := impl, sr_cursor := sr_cursor s + n\<rparr>)))"

definition SliceStreamReader_Seek ::
    "('r \<Rightarrow> u64 \<Rightarrow> 'r result) \<Rightarrow> 'r slice_reader \<Rightarrow> u64 \<Rightarrow> 'r slice_reader result" where
  "SliceStreamReader_Seek sk s cursor =
     (if cursor > sr_length s then Inl (Vsag READ_ERROR)
      else bind_r (sk (sr_impl s) (sr_begin s + cursor)) (\<lambda>impl.
             Inr (s\<lparr>sr_impl := impl, sr_cursor := cursor\<rparr>)))"

record 'r bounded_reader =
  br_impl :: 'r
  br_cursor :: u64
  br_length :: u64

definition BoundedForwardReader_Read :: "'r read_op \<Rightarrow> 'r bounded_reader read_op" where
  "BoundedForwardReader_Read rd b n =
     (if br_cursor b > br_length b \<or> n > br_length b - br_cursor b then Inl (Vsag READ_ERROR)
      else bind_r (rd (br_impl b) n) (\<lambda>(data, impl).
             Inr (data, b\<lparr>br_impl := impl, br_cursor := br_cursor b + n\<rparr>)))"

definition BoundedForwardReader_SkipRemaining ::
    "'r read_op \<Rightarrow> 'r bounded_reader \<Rightarrow> 'r bounded_reader result" where
  "BoundedForwardReader_SkipRemaining rd b =
     (if br_cursor b > br_length b then Inl (Vsag READ_ERROR)
      else bind_r (SkipForward rd (br_impl b) (br_length b - br_cursor b)) (\<lambda>impl.
             Inr (b\<lparr>br_impl := impl, br_cursor := br_length b\<rparr>)))"

section \<open>The contract of \<open>Read\<close>\<close>

text \<open>
  \<open>rest r\<close> is what the reader has still to deliver. A read of at most that many bytes delivers
  them in order and advances; a longer one throws. Streams are shorter than \<open>2 ^ 63\<close> bytes, the
  limit of \<open>std::streamsize\<close>.
\<close>

definition yields ::
    "('r \<Rightarrow> byte list) \<Rightarrow> ('r \<Rightarrow> bool) \<Rightarrow> ('a \<times> 'r) result \<Rightarrow> 'a \<Rightarrow> byte list \<Rightarrow> bool" where
  "yields rest ok m v s \<longleftrightarrow> (\<exists>r'. m = Inr (v, r') \<and> rest r' = s \<and> ok r')"

lemma yields_Inr [intro]: "rest r = s \<Longrightarrow> ok r \<Longrightarrow> yields rest ok (Inr (v, r)) v s"
  by (auto simp: yields_def)

lemma yields_bind:
  assumes "yields rest ok m v s"
    and "\<And>r. rest r = s \<Longrightarrow> ok r \<Longrightarrow> yields rest ok (f (v, r)) w t"
  shows "yields rest ok (bind_r m f) w t"
  using assms by (auto simp: yields_def)

lemma yields_det: "yields rest ok m v s \<Longrightarrow> m = Inr (w, r) \<Longrightarrow> w = v \<and> rest r = s \<and> ok r"
  by (auto simp: yields_def)

locale byte_source =
  fixes rd :: "'r read_op"
    and rest :: "'r \<Rightarrow> byte list"
    and ok :: "'r \<Rightarrow> bool"
  assumes rd_enough: "ok r \<Longrightarrow> unat n \<le> length (rest r) \<Longrightarrow>
      yields rest ok (rd r n) (take (unat n) (rest r)) (drop (unat n) (rest r))"
    and rd_short: "ok r \<Longrightarrow> length (rest r) < unat n \<Longrightarrow> \<exists>e. rd r n = Inl e"
    and rest_bound: "ok r \<Longrightarrow> length (rest r) < 2 ^ 63"
begin

lemma rd_bytes:
  assumes "rest r = bs @ s" and "ok r" and "unat n = length bs"
  shows "yields rest ok (rd r n) bs s"
  using rd_enough [OF assms(2), of n] assms by simp

lemma ReadObj_yields:
  assumes "rest r = bs @ s" and "ok r" and "length bs = sz"
  shows "yields rest ok (ReadObj rd sz dec r) (dec bs) s"
proof -
  have "sz < 2 ^ 63"
    using rest_bound [OF assms(2)] assms(1,3) by simp
  then have "unat (word_of_nat sz :: u64) = sz"
    by (simp add: unat_word_of_nat_u64)
  then show ?thesis
    unfolding ReadObj_def using assms by (auto intro!: yields_bind [OF rd_bytes])
qed

lemma ReadObj_u32 [intro]:
  "rest r = enc_u32 w @ s \<Longrightarrow> ok r \<Longrightarrow> yields rest ok (ReadObj rd 4 dec_u32 r) w s"
  using ReadObj_yields [of r "enc_u32 w" s 4 dec_u32] by simp

lemma ReadObj_u64 [intro]:
  "rest r = enc_u64 w @ s \<Longrightarrow> ok r \<Longrightarrow> yields rest ok (ReadObj rd 8 dec_u64 r) w s"
  using ReadObj_yields [of r "enc_u64 w" s 8 dec_u64] by simp

lemma ReadObj_u16 [intro]:
  "rest r = enc_u16 w @ s \<Longrightarrow> ok r \<Longrightarrow> yields rest ok (ReadObj rd 2 dec_u16 r) w s"
  using ReadObj_yields [of r "enc_u16 w" s 2 dec_u16] by simp

lemma ReadObj_bool [intro]:
  "rest r = enc_bool b @ s \<Longrightarrow> ok r \<Longrightarrow> yields rest ok (ReadObj rd 1 dec_bool r) b s"
  using ReadObj_yields [of r "enc_bool b" s 1 dec_bool] by simp

lemma ReadObj_byte [intro]:
  "rest r = b # s \<Longrightarrow> ok r \<Longrightarrow> yields rest ok (ReadObj rd (Suc 0) hd r) b s"
  using ReadObj_yields [of r "[b]" s "Suc 0" hd] by simp

lemma ReadString_yields:
  assumes "rest r = concat (WriteString str) @ s" and "ok r"
  shows "yields rest ok (ReadString rd r) str s"
proof -
  have "length str < 2 ^ 63"
    using rest_bound [OF assms(2)] assms(1) by (simp add: WriteString_def WriteObj_def)
  then have len: "unat (word_of_nat (length str) :: u64) = length str"
    and "length str \<le> 2 ^ 63 - 1"
    by (simp_all add: unat_word_of_nat_u64)
  then show ?thesis
    unfolding ReadString_def using assms
    by (intro yields_bind [OF ReadObj_u64, where v = "word_of_nat (length str)"])
      (auto simp: WriteString_def WriteObj_def intro!: rd_bytes)
qed

lemma ReadVector_yields:
  assumes r: "rest r = concat (WriteVector enc xs) @ s" and ok: "ok r"
    and w: "0 < sz" "\<And>x. length (enc x) = sz" "\<And>x. x \<in> set xs \<Longrightarrow> dec (enc x) = x"
  shows "yields rest ok (ReadVector rd sz dec r) xs s"
proof -
  let ?n = "length xs" and ?bs = "concat (map enc xs)"
  have r': "rest r = enc_u64 (word_of_nat ?n) @ ?bs @ s"
    using r by (cases xs) (simp_all add: WriteVector_def WriteObj_def)
  have lbs: "length ?bs = ?n * sz"
    using length_concat_const [of "map enc xs" sz] w by auto
  then have fit: "?n * sz < 2 ^ 63"
    using rest_bound [OF ok] r' by simp
  then have n: "?n \<le> (2 ^ 63 - 1) div sz"
    using w(1) by (simp add: less_eq_div_iff_mult_less_eq)
  have "?n \<le> ?n * sz" using w(1) by simp
  then have n64: "?n < 2 ^ 63" using fit by (rule le_less_trans)
  have un: "unat (word_of_nat ?n :: u64) = ?n"
    using n64 by (simp add: unat_word_of_nat_u64)
  have "unat (word_of_nat ?n * word_of_nat sz :: u64) = unat (word_of_nat (?n * sz) :: u64)"
    by simp
  also have "\<dots> = length ?bs"
    using fit lbs by (subst unat_word_of_nat_u64) simp_all
  finally have prod: "unat (word_of_nat ?n * word_of_nat sz :: u64) = length ?bs" .
  have chunks: "chunks_of sz ?n ?bs = map enc xs"
    using chunks_of_concat [of "map enc xs" sz] w by simp
  have dec: "map dec (map enc xs) = xs"
    using w(3) by (simp add: map_idI)
  show ?thesis
    unfolding ReadVector_def
    by (rule yields_bind [OF ReadObj_u64 [OF r' ok]])
      (use n un chunks dec in \<open>auto intro!: yields_bind [OF rd_bytes [OF _ _ prod]]\<close>)
qed

lemma SkipForward_drop:
  "ok r \<Longrightarrow> unat n \<le> length (rest r) \<Longrightarrow>
   \<exists>r'. SkipForward rd r n = Inr r' \<and> rest r' = drop (unat n) (rest r) \<and> ok r'"
proof (induction "unat n" arbitrary: n r rule: less_induct)
  case less
  show ?case
  proof (cases "n > 0")
    case False
    then have "n = 0" using word_neq_0_conv by blast
    then show ?thesis
      using less.prems by (simp add: SkipForward.simps [of rd r 0])
  next
    case True
    let ?k = "min n 8192"
    have le: "?k \<le> n" by simp
    have smaller: "unat (n - ?k) < unat n"
      using True by (intro skip_step_less) simp_all
    have k: "unat ?k \<le> length (rest r)"
      using less.prems(2) le by (simp add: word_le_nat_alt)
    from rd_enough [OF less.prems(1) k] obtain r1 where r1: "rd r ?k = Inr (take (unat ?k) (rest r), r1)"
      "rest r1 = drop (unat ?k) (rest r)" "ok r1"
      by (auto simp: yields_def)
    have sub: "unat (n - ?k) = unat n - unat ?k"
      by (rule unat_sub [OF le])
    then have "unat (n - ?k) \<le> length (rest r1)"
      using less.prems(2) r1(2) by simp
    from less.hyps [OF smaller r1(3) this] obtain r2 where
      "SkipForward rd r1 (n - ?k) = Inr r2" "rest r2 = drop (unat (n - ?k)) (rest r1)" "ok r2"
      by blast
    moreover have "drop (unat (n - ?k)) (rest r1) = drop (unat n) (rest r)"
      using sub r1(2) word_le_nat_alt [THEN iffD1, OF le] by simp
    ultimately show ?thesis
      using True r1(1) by (simp add: SkipForward.simps [of rd r n] Let_def)
  qed
qed

text \<open>A bounded reader over a block that is all there delivers the block and nothing beyond it.\<close>

lemma bounded_source:
  "byte_source (BoundedForwardReader_Read rd)
     (\<lambda>b. take (unat (br_length b) - unat (br_cursor b)) (rest (br_impl b)))
     (\<lambda>b. ok (br_impl b) \<and> br_cursor b \<le> br_length b \<and>
          unat (br_length b) - unat (br_cursor b) \<le> length (rest (br_impl b)))"
    (is "byte_source ?rd ?rest ?ok")
proof
  fix b :: "'r bounded_reader" and n :: u64
  assume b: "?ok b"
  then have sub: "unat (br_length b - br_cursor b) = unat (br_length b) - unat (br_cursor b)"
    by (simp add: unat_sub)
  show "length (?rest b) < 2 ^ 63"
    using b rest_bound [of "br_impl b"] by simp
  show "\<exists>e. ?rd b n = Inl e" if "length (?rest b) < unat n"
    using that b sub by (auto simp: BoundedForwardReader_Read_def word_less_nat_alt)
  show "yields ?rest ?ok (?rd b n) (take (unat n) (?rest b)) (drop (unat n) (?rest b))"
    if n: "unat n \<le> length (?rest b)"
  proof -
    have small: "unat n \<le> unat (br_length b) - unat (br_cursor b)"
      and rest: "unat n \<le> length (rest (br_impl b))"
      using n b by simp_all
    have "unat (br_cursor b) \<le> unat (br_length b)"
      using b by (simp add: word_le_nat_alt)
    then have fits: "unat (br_cursor b) + unat n \<le> unat (br_length b)"
      using small by linarith
    then have cur: "unat (br_cursor b + n) = unat (br_cursor b) + unat n"
      by (rule unat_add_le_u64)
    from rd_enough [OF _ rest] b obtain impl where
      "rd (br_impl b) n = Inr (take (unat n) (rest (br_impl b)), impl)"
      "rest impl = drop (unat n) (rest (br_impl b))" "ok impl"
      by (auto simp: yields_def)
    then show ?thesis
      using b small sub fits cur
      by (auto simp: yields_def BoundedForwardReader_Read_def word_less_nat_alt word_le_nat_alt
          min_def drop_take)
  qed
qed

text \<open>
  A slice reader over a slice that is all there delivers the slice and nothing beyond it, as long
  as the slice is shorter than \<open>2 ^ 63\<close> bytes.
\<close>

lemma slice_source:
  "byte_source (SliceStreamReader_Read rd)
     (\<lambda>b. take (unat (sr_length b) - unat (sr_cursor b)) (rest (sr_impl b)))
     (\<lambda>b. ok (sr_impl b) \<and> sr_cursor b \<le> sr_length b \<and> unat (sr_length b) < 2 ^ 63 \<and>
          unat (sr_length b) - unat (sr_cursor b) \<le> length (rest (sr_impl b)))"
    (is "byte_source ?rd ?rest ?ok")
proof
  fix b :: "'r slice_reader" and n :: u64
  assume b: "?ok b"
  then have bound: "length (rest (sr_impl b)) < 2 ^ 63"
    using rest_bound by blast
  then show "length (?rest b) < 2 ^ 63" by simp
  have cl: "unat (sr_cursor b) \<le> unat (sr_length b)"
    using b by (simp add: word_le_nat_alt)
  show "\<exists>e. ?rd b n = Inl e" if n: "length (?rest b) < unat n"
  proof (cases "unat n < 2 ^ 63")
    case True
    then have "unat (sr_cursor b + n) = unat (sr_cursor b) + unat n"
      using b cl by (simp add: unat_word_ariths)
    then show ?thesis
      using n b cl by (auto simp: SliceStreamReader_Read_def word_less_nat_alt)
  next
    case False
    then have "length (rest (sr_impl b)) < unat n" using bound by simp
    then show ?thesis
      using b rd_short [of "sr_impl b" n] by (auto simp: SliceStreamReader_Read_def)
  qed
  show "yields ?rest ?ok (?rd b n) (take (unat n) (?rest b)) (drop (unat n) (?rest b))"
    if n: "unat n \<le> length (?rest b)"
  proof -
    have small: "unat n \<le> unat (sr_length b) - unat (sr_cursor b)"
      and rest: "unat n \<le> length (rest (sr_impl b))"
      using n b by simp_all
    have fits: "unat (sr_cursor b) + unat n \<le> unat (sr_length b)"
      using small cl by linarith
    then have cur: "unat (sr_cursor b + n) = unat (sr_cursor b) + unat n"
      by (rule unat_add_le_u64)
    from rd_enough [OF _ rest] b obtain impl where
      "rd (sr_impl b) n = Inr (take (unat n) (rest (sr_impl b)), impl)"
      "rest impl = drop (unat n) (rest (sr_impl b))" "ok impl"
      by (auto simp: yields_def)
    then show ?thesis
      using b small fits cur
      by (auto simp: yields_def SliceStreamReader_Read_def word_less_nat_alt word_le_nat_alt
          min_def drop_take)
  qed
qed

end

section \<open>The readers satisfy the contract\<close>

definition fr_ok :: "forward_reader \<Rightarrow> bool" where
  "fr_ok r \<longleftrightarrow> length (fr_istream r) < 2 ^ 63"

interpretation fwd: byte_source ForwardStreamReader_Read fr_istream fr_ok
proof
  fix r :: forward_reader and n :: u64
  assume r: "fr_ok r"
  then show "length (fr_istream r) < 2 ^ 63" by (simp add: fr_ok_def)
  show "\<exists>e. ForwardStreamReader_Read r n = Inl e" if "length (fr_istream r) < unat n"
    using that by (auto simp: ForwardStreamReader_Read_def)
  show "yields fr_istream fr_ok (ForwardStreamReader_Read r n)
      (take (unat n) (fr_istream r)) (drop (unat n) (fr_istream r))"
    if "unat n \<le> length (fr_istream r)"
    using that r by (auto simp: yields_def ForwardStreamReader_Read_def fr_ok_def)
qed

definition open_forward :: "byte list \<Rightarrow> forward_reader" where
  "open_forward bs = \<lparr>fr_istream = bs, fr_cursor = 0, fr_io_count = 0\<rparr>"

lemma fr_istream_open [simp]: "fr_istream (open_forward bs) = bs"
  by (simp add: open_forward_def)

lemma fr_ok_open [simp]: "fr_ok (open_forward bs) \<longleftrightarrow> length bs < 2 ^ 63"
  by (simp add: fr_ok_def)

interpretation fwd_bounded: byte_source "BoundedForwardReader_Read ForwardStreamReader_Read"
  "\<lambda>b. take (unat (br_length b) - unat (br_cursor b)) (fr_istream (br_impl b))"
  "\<lambda>b. fr_ok (br_impl b) \<and> br_cursor b \<le> br_length b \<and>
       unat (br_length b) - unat (br_cursor b) \<le> length (fr_istream (br_impl b))"
  by (rule fwd.bounded_source)

interpretation fwd_slice: byte_source "SliceStreamReader_Read ForwardStreamReader_Read"
  "\<lambda>b. take (unat (sr_length b) - unat (sr_cursor b)) (fr_istream (sr_impl b))"
  "\<lambda>b. fr_ok (sr_impl b) \<and> sr_cursor b \<le> sr_length b \<and> unat (sr_length b) < 2 ^ 63 \<and>
       unat (sr_length b) - unat (sr_cursor b) \<le> length (fr_istream (sr_impl b))"
  by (rule fwd.slice_source)

end
