(* ===== verification/TlvSection.thy ===== *)
theory TlvSection
  imports Streams
begin

text \<open>
  The checksummed, tagged blocks of the streaming serialization format:
  \<^verbatim>\<open>src/src/storage/tlv_section.{h,cpp}\<close>, the checksum of
  \<^verbatim>\<open>src/src/storage/serialization.{h,cpp}\<close> and the block tags of
  \<^verbatim>\<open>src/src/storage/serialization_tags.h\<close>.

  A block is a fixed header (tag, version, flags, payload length, payload checksum) followed by
  its payload. The lemmas show that a header and a block read back as they were written by every
  reader that satisfies \<open>byte_source\<close>, whether the payload is buffered or spilled to a temporary
  file, and that the checksum rejects a payload with one corrupted byte.

  The temporary file of an oversized payload is modelled by the bytes spilled into it; failures of
  \<open>std::tmpfile\<close>, \<open>fwrite\<close> and \<open>fread\<close> are not modelled.
\<close>

section \<open>Checksum\<close>

definition InitialChecksum :: u32 where
  "InitialChecksum = 0xFFFFFFFF"

definition crc_step :: "u32 \<Rightarrow> u32" where
  "crc_step crc = drop_bit 1 crc XOR (if crc AND 1 = 1 then 0xEDB88320 else 0)"

fun crc_steps :: "nat \<Rightarrow> u32 \<Rightarrow> u32" where
  "crc_steps 0 crc = crc"
| "crc_steps (Suc j) crc = crc_steps j (crc_step crc)"

fun UpdateChecksum :: "u32 \<Rightarrow> byte list \<Rightarrow> u32" where
  "UpdateChecksum crc [] = crc"
| "UpdateChecksum crc (b # bytes) = UpdateChecksum (crc_steps 8 (crc XOR ucast b)) bytes"

definition FinalizeChecksum :: "u32 \<Rightarrow> u32" where
  "FinalizeChecksum crc = crc XOR 0xFFFFFFFF"

definition CalculateChecksum :: "byte list \<Rightarrow> u32" where
  "CalculateChecksum bytes = FinalizeChecksum (UpdateChecksum InitialChecksum bytes)"

text \<open>
  The footer's own checksum loop adds \<open>char\<close>s without the cast to \<open>uint8_t\<close>: a \<open>char\<close> is
  signed on the x86-64 targets, so it is sign-extended.
\<close>

fun footer_checksum_loop :: "u32 \<Rightarrow> byte list \<Rightarrow> u32" where
  "footer_checksum_loop crc [] = crc"
| "footer_checksum_loop crc (b # bytes) = footer_checksum_loop (crc_steps 8 (crc XOR scast b)) bytes"

definition Footer_calculate_checksum :: "byte list \<Rightarrow> u32" where
  "Footer_calculate_checksum bytes = footer_checksum_loop 0xFFFFFFFF bytes XOR 0xFFFFFFFF"

section \<open>Tags\<close>

definition SERIAL_STREAM_SECTION_END :: u32 where
  "SERIAL_STREAM_SECTION_END = 0"

definition StreamSerializationTagCritical :: "u32 \<Rightarrow> bool" where
  "StreamSerializationTagCritical tag = (tag \<in> {1, 2, 4, 6, 9, 10, 5, 11, 12, 13, 14, 15})"

definition StreamSerializationBlockCurrentVersion :: "u32 \<Rightarrow> u32" where
  "StreamSerializationBlockCurrentVersion tag = 1"

definition StreamSerializationBlockVersionSupported :: "u32 \<Rightarrow> u32 \<Rightarrow> bool" where
  "StreamSerializationBlockVersionSupported tag version =
     (version = StreamSerializationBlockCurrentVersion tag)"

section \<open>Block headers\<close>

record StreamBlockHeader =
  tag :: u32
  block_version :: u32
  flags :: u64
  value_len :: u64
  payload_checksum :: u32

definition kCriticalFlag :: u64 where
  "kCriticalFlag = 1"

definition IsCritical :: "StreamBlockHeader \<Rightarrow> bool" where
  "IsCritical h = (flags h AND kCriticalFlag \<noteq> 0)"

definition IsSectionEnd :: "StreamBlockHeader \<Rightarrow> bool" where
  "IsSectionEnd h = (tag h = SERIAL_STREAM_SECTION_END)"

definition StreamBlockHeader_Write :: "StreamBlockHeader \<Rightarrow> byte list list" where
  "StreamBlockHeader_Write h =
     WriteObj (enc_u32 (tag h)) @ WriteObj (enc_u32 (block_version h)) @
     WriteObj (enc_u64 (flags h)) @ WriteObj (enc_u64 (value_len h)) @
     WriteObj (enc_u32 (payload_checksum h))"

definition WriteSectionEnd :: "byte list list" where
  "WriteSectionEnd =
     StreamBlockHeader_Write
       \<lparr>tag = SERIAL_STREAM_SECTION_END, block_version = 0, flags = 0, value_len = 0,
        payload_checksum = 0\<rparr>"

definition StreamBlockHeader_Read :: "'r read_op \<Rightarrow> 'r \<Rightarrow> (StreamBlockHeader \<times> 'r) result" where
  "StreamBlockHeader_Read rd r =
     bind_r (ReadObj rd 4 dec_u32 r) (\<lambda>(t, r).
     bind_r (ReadObj rd 4 dec_u32 r) (\<lambda>(v, r).
     bind_r (ReadObj rd 8 dec_u64 r) (\<lambda>(f, r).
     bind_r (ReadObj rd 8 dec_u64 r) (\<lambda>(l, r).
     bind_r (ReadObj rd 4 dec_u32 r) (\<lambda>(c, r).
       let h = \<lparr>tag = t, block_version = v, flags = f, value_len = l, payload_checksum = c\<rparr> in
       if IsSectionEnd h \<and>
          (block_version h \<noteq> 0 \<or> flags h \<noteq> 0 \<or> value_len h \<noteq> 0 \<or> payload_checksum h \<noteq> 0)
       then Inl (Vsag INVALID_BINARY)
       else if \<not> IsSectionEnd h \<and> value_len h = 0xFFFFFFFFFFFFFFFF
       then Inl (Vsag UNSUPPORTED_INDEX_OPERATION)
       else Inr (h, r))))))"

section \<open>Writing a block\<close>

record counting_checksum_writer =
  ccw_bytes_written :: u64
  ccw_crc :: u32

definition CountingChecksumStreamWriter_Write ::
    "counting_checksum_writer \<Rightarrow> byte list \<Rightarrow> counting_checksum_writer" where
  "CountingChecksumStreamWriter_Write w data =
     w\<lparr>ccw_bytes_written := ccw_bytes_written w + word_of_nat (length data),
       ccw_crc := UpdateChecksum (ccw_crc w) data\<rparr>"

definition new_counting_checksum_writer :: counting_checksum_writer where
  "new_counting_checksum_writer = \<lparr>ccw_bytes_written = 0, ccw_crc = InitialChecksum\<rparr>"

definition CountStreamingBlockPayload :: "byte list list \<Rightarrow> u64" where
  "CountStreamingBlockPayload serialize = run_writer CountingStreamWriter_Write serialize 0"

definition CalculateStreamingBlockPayloadChecksum :: "byte list list \<Rightarrow> u32" where
  "CalculateStreamingBlockPayloadChecksum serialize =
     FinalizeChecksum (ccw_crc
       (run_writer CountingChecksumStreamWriter_Write serialize new_counting_checksum_writer))"

text \<open>
  The serializer runs twice: \<open>pass1\<close> are the chunks of the first, counting pass, \<open>pass2\<close>
  those of the second pass, whose writer forwards to the stream while it counts and checksums. The
  result is what reaches the stream, and whether the final check throws.
\<close>

definition WriteStreamingBlock ::
    "u32 \<Rightarrow> bool \<Rightarrow> byte list list \<Rightarrow> byte list list \<Rightarrow> byte list list \<times> unit result" where
  "WriteStreamingBlock t critical pass1 pass2 =
     (let cw = run_writer CountingChecksumStreamWriter_Write pass1 new_counting_checksum_writer;
          header = \<lparr>tag = t, block_version = StreamSerializationBlockCurrentVersion t,
                    flags = (if critical then kCriticalFlag else 0),
                    value_len = ccw_bytes_written cw,
                    payload_checksum = FinalizeChecksum (ccw_crc cw)\<rparr>;
          pw = run_writer CountingChecksumStreamWriter_Write pass2 new_counting_checksum_writer
      in (StreamBlockHeader_Write header @ pass2,
          check_r (\<not> (ccw_bytes_written pw \<noteq> value_len header \<or>
                     FinalizeChecksum (ccw_crc pw) \<noteq> payload_checksum header))
            (Vsag INVALID_BINARY)))"

section \<open>Skipping and reading a payload\<close>

definition SkipBlockPayload ::
    "'r read_op \<Rightarrow> ('r \<Rightarrow> u64 \<Rightarrow> 'r result) \<Rightarrow> ('r \<Rightarrow> u64) \<Rightarrow> 'r \<Rightarrow> StreamBlockHeader \<Rightarrow> 'r result" where
  "SkipBlockPayload rd sk cursor_of r header =
     (if value_len header = 0xFFFFFFFFFFFFFFFF then Inl (Vsag UNSUPPORTED_INDEX_OPERATION)
      else
        (let current = cursor_of r in
         if value_len header > 0xFFFFFFFFFFFFFFFF - current then Inl (Vsag INVALID_BINARY)
         else (case sk r (current + value_len header) of
                 Inr r' \<Rightarrow> Inr r'
               | Inl e \<Rightarrow>
                   if e \<noteq> Vsag UNSUPPORTED_INDEX_OPERATION then Inl e
                   else SkipForward rd r (value_len header))))"

text \<open>
  Both the validating skip and the spill to a temporary file read the payload through a buffer of
  \<open>lim\<close> bytes and fold the checksum over the pieces. \<open>lim\<close> is 8192 for the skip and
  \<open>Options::block_size_limit()\<close> for the spill, which \<open>Options::set_block_size_limit\<close> keeps
  above 256K; with a limit of 0 the source would not make progress.
\<close>

function (sequential) drain_payload ::
    "'r read_op \<Rightarrow> u64 \<Rightarrow> 'r \<Rightarrow> u64 \<Rightarrow> u32 \<Rightarrow> byte list \<Rightarrow> (byte list \<times> u32 \<times> 'r) result" where
  "drain_payload rd lim r remaining crc spilled =
     (if remaining > 0 then
        if lim = 0 then Inl UndefinedBehaviour
        else
          (let read_size = min remaining lim in
           bind_r (rd r read_size) (\<lambda>(buffer, r').
             drain_payload rd lim r' (remaining - read_size) (UpdateChecksum crc buffer)
               (spilled @ buffer)))
      else Inr (spilled, crc, r))"
  by pat_completeness auto
termination
  by (relation "measure (\<lambda>(rd, lim, r, remaining, crc, spilled). unat remaining)")
    (auto intro: skip_step_less simp: word_neq_0_conv [symmetric])

declare drain_payload.simps [simp del]

definition ValidateAndSkipBlockPayload ::
    "'r read_op \<Rightarrow> 'r \<Rightarrow> StreamBlockHeader \<Rightarrow> 'r result" where
  "ValidateAndSkipBlockPayload rd r header =
     (if value_len header = 0xFFFFFFFFFFFFFFFF then Inl (Vsag UNSUPPORTED_INDEX_OPERATION)
      else
        bind_r (drain_payload rd 8192 r (value_len header) InitialChecksum [])
          (\<lambda>(_, crc, r').
             if FinalizeChecksum crc \<noteq> payload_checksum header then Inl (Vsag INVALID_BINARY)
             else Inr r'))"

text \<open>The callbacks of the two block readers: over the buffered payload, and over the file.\<close>

definition payload_read_func :: "byte list \<Rightarrow> u64 \<Rightarrow> u64 \<Rightarrow> byte list result" where
  "payload_read_func payload offset n =
     (let payload_size = word_of_nat (length payload) in
      if offset > payload_size \<or> n > payload_size - offset then Inl (Vsag READ_ERROR)
      else Inr (take (unat n) (drop (unat offset) payload)))"

definition file_read_func :: "byte list \<Rightarrow> u64 \<Rightarrow> u64 \<Rightarrow> u64 \<Rightarrow> byte list result" where
  "file_read_func file payload_size offset n =
     (if offset > payload_size \<or> n > payload_size - offset then Inl (Vsag READ_ERROR)
      else if unat offset > 2 ^ 63 - 1 then Inl (Vsag READ_ERROR)
      else if n > 0 \<and> length (take (unat n) (drop (unat offset) file)) \<noteq> unat n
      then Inl (Vsag READ_ERROR)
      else Inr (take (unat n) (drop (unat offset) file)))"

definition validate_seekable_block_cursor :: "u64 \<Rightarrow> StreamBlockHeader \<Rightarrow> unit result" where
  "validate_seekable_block_cursor cursor header =
     check_r (\<not> cursor > value_len header) (Vsag INVALID_BINARY)"

definition ReadSeekableBlockPayload ::
    "u64 \<Rightarrow> 'r read_op \<Rightarrow> 'r \<Rightarrow> StreamBlockHeader \<Rightarrow>
     (func_reader \<Rightarrow> ('a \<times> func_reader) result) \<Rightarrow> ('a \<times> 'r) result" where
  "ReadSeekableBlockPayload block_size_limit rd r header deserialize =
     (if value_len header \<le> block_size_limit then
        bind_r (if value_len header = 0 then Inr ([], r) else rd r (value_len header))
          (\<lambda>(payload, r').
             if CalculateChecksum payload \<noteq> payload_checksum header then Inl (Vsag INVALID_BINARY)
             else
               bind_r (deserialize
                   \<lparr>rf_readFunc = payload_read_func payload, rf_cursor = 0,
                    rf_length = value_len header, rf_io_count = 0\<rparr>)
                 (\<lambda>(x, block_reader).
                    bind_r (validate_seekable_block_cursor (rf_cursor block_reader) header)
                      (\<lambda>_. Inr (x, r'))))
      else
        bind_r (drain_payload rd block_size_limit r (value_len header) InitialChecksum [])
          (\<lambda>(file, crc, r').
             if FinalizeChecksum crc \<noteq> payload_checksum header then Inl (Vsag INVALID_BINARY)
             else
               bind_r (deserialize
                   \<lparr>rf_readFunc = file_read_func file (value_len header), rf_cursor = 0,
                    rf_length = value_len header, rf_io_count = 0\<rparr>)
                 (\<lambda>(x, block_reader).
                    bind_r (validate_seekable_block_cursor (rf_cursor block_reader) header)
                      (\<lambda>_. Inr (x, r')))))"

section \<open>Properties of the checksum\<close>

lemma UpdateChecksum_append:
  "UpdateChecksum crc (xs @ ys) = UpdateChecksum (UpdateChecksum crc xs) ys"
  by (induction xs arbitrary: crc) auto

lemma xor_cancel_word: "a XOR c = b XOR c \<longleftrightarrow> a = (b :: 'a::len word)"
  by (metis xor.right_neutral xor.assoc xor_self_eq)

lemma bit_31_crc_step: "bit (crc_step crc) 31 \<longleftrightarrow> odd crc"
proof -
  have low: "(crc AND 1 = 1) = odd crc"
    by (simp add: and_one_eq odd_iff_mod_2_eq_one)
  have "bit (0xEDB88320 :: u32) 31" by code_simp
  moreover have "\<not> bit (drop_bit 1 crc) 31"
    by (auto simp: bit_drop_bit_eq dest: bit_imp_le_length)
  ultimately show ?thesis
    by (simp add: crc_step_def low bit_xor_iff)
qed

lemma crc_step_inj: "inj crc_step"
proof
  fix c d :: u32
  assume eq: "crc_step c = crc_step d"
  then have par: "odd c = odd d"
    using bit_31_crc_step by metis
  have low: "(x AND 1 = 1) = odd x" for x :: u32
    by (simp add: and_one_eq odd_iff_mod_2_eq_one)
  have shift: "drop_bit 1 c = drop_bit 1 d"
    using eq par unfolding crc_step_def low by (simp add: xor_cancel_word)
  show "c = d"
  proof (rule bit_eqI)
    fix n
    show "bit c n = bit d n"
    proof (cases n)
      case 0
      then show ?thesis using par by (simp add: bit_0)
    next
      case (Suc m)
      have "bit (drop_bit 1 c) m = bit (drop_bit 1 d) m"
        using shift by simp
      then show ?thesis using Suc by (simp add: bit_drop_bit_eq)
    qed
  qed
qed

lemma crc_steps_inj: "crc_steps k c = crc_steps k d \<Longrightarrow> c = d"
  by (induction k arbitrary: c d) (auto dest: injD [OF crc_step_inj])

lemma UpdateChecksum_inj: "UpdateChecksum c bs = UpdateChecksum d bs \<Longrightarrow> c = d"
proof (induction bs arbitrary: c d)
  case Nil
  then show ?case by simp
next
  case (Cons b bs)
  have "crc_steps 8 (c XOR ucast b) = crc_steps 8 (d XOR ucast b)"
    by (rule Cons.IH) (use Cons.prems in simp)
  then have "c XOR ucast b = d XOR ucast b"
    by (rule crc_steps_inj)
  then show ?case by (simp add: xor_cancel_word)
qed

lemma ucast_byte_inj: "(ucast (a :: byte) :: u32) = ucast b \<longleftrightarrow> a = b"
proof
  assume "(ucast a :: u32) = ucast b"
  then have "unat (ucast a :: u32) = unat (ucast b :: u32)" by simp
  moreover have "unat (ucast x :: u32) = unat x" for x :: byte
    using unat_u8_lt [of x] by (simp add: unsigned_ucast_eq take_bit_nat_eq_self)
  ultimately show "a = b" by (simp add: word_unat_eq_iff)
qed simp

lemma checksum_one_byte:
  assumes "a \<noteq> b"
  shows "CalculateChecksum (xs @ a # ys) \<noteq> CalculateChecksum (xs @ b # ys)"
proof
  assume "CalculateChecksum (xs @ a # ys) = CalculateChecksum (xs @ b # ys)"
  then have "UpdateChecksum InitialChecksum (xs @ a # ys) = UpdateChecksum InitialChecksum (xs @ b # ys)"
    unfolding CalculateChecksum_def FinalizeChecksum_def xor_cancel_word .
  then have "UpdateChecksum (crc_steps 8 (UpdateChecksum InitialChecksum xs XOR ucast a)) ys =
      UpdateChecksum (crc_steps 8 (UpdateChecksum InitialChecksum xs XOR ucast b)) ys"
    unfolding UpdateChecksum_append UpdateChecksum.simps .
  then have "UpdateChecksum InitialChecksum xs XOR ucast a = UpdateChecksum InitialChecksum xs XOR ucast b"
    by (rule crc_steps_inj [OF UpdateChecksum_inj])
  then have "(ucast a :: u32) = ucast b"
    by (metis xor.commute xor_cancel_word)
  then show False using assms by (simp add: ucast_byte_inj)
qed

lemma scast_ascii:
  assumes "unat (b :: byte) < 128"
  shows "(scast b :: u32) = ucast b"
proof (rule bit_eqI)
  fix n
  have "\<not> bit (unat b) 7"
    using assms by (simp add: bit_iff_odd)
  then have top: "\<not> bit b 7"
    by (simp add: bit_unsigned_iff)
  show "bit (scast b :: u32) n = bit (ucast b :: u32) n"
  proof (cases "n \<le> 7")
    case True
    then show ?thesis by (simp add: bit_signed_iff bit_unsigned_iff min_def)
  next
    case False
    then have "\<not> bit b n" by (auto dest: bit_imp_le_length)
    then show ?thesis
      using False top by (simp add: bit_signed_iff bit_unsigned_iff min_def)
  qed
qed

lemma footer_checksum_ascii:
  "\<forall>b \<in> set bytes. unat b < 128 \<Longrightarrow> footer_checksum_loop crc bytes = UpdateChecksum crc bytes"
  by (induction bytes arbitrary: crc) (simp_all add: scast_ascii)

lemma run_CountingChecksum:
  "run_writer CountingChecksumStreamWriter_Write cs w =
     w\<lparr>ccw_bytes_written := ccw_bytes_written w + word_of_nat (length (concat cs)),
       ccw_crc := UpdateChecksum (ccw_crc w) (concat cs)\<rparr>"
  by (induction cs arbitrary: w)
    (simp_all add: CountingChecksumStreamWriter_Write_def UpdateChecksum_append)

lemma run_Counting:
  "run_writer CountingStreamWriter_Write cs n = n + word_of_nat (length (concat cs))"
  by (induction cs arbitrary: n) (simp_all add: CountingStreamWriter_Write_def)

lemma run_IOStreamWriter:
  "run_writer IOStreamWriter_Write cs w =
     w\<lparr>ostream := ostream w @ concat cs,
       iow_bytes_written := iow_bytes_written w + word_of_nat (length (concat cs))\<rparr>"
  by (induction cs arbitrary: w) (simp_all add: IOStreamWriter_Write_def)

section \<open>Reading back what was written\<close>

definition valid_header :: "StreamBlockHeader \<Rightarrow> bool" where
  "valid_header h \<longleftrightarrow>
     (if IsSectionEnd h
      then block_version h = 0 \<and> flags h = 0 \<and> value_len h = 0 \<and> payload_checksum h = 0
      else value_len h \<noteq> 0xFFFFFFFFFFFFFFFF)"

text \<open>What a block reader has still to deliver, for a buffered and for a spilled payload.\<close>

definition block_rest :: "byte list \<Rightarrow> func_reader \<Rightarrow> byte list" where
  "block_rest payload r = drop (unat (rf_cursor r)) payload"

definition block_ok :: "byte list \<Rightarrow> func_reader \<Rightarrow> bool" where
  "block_ok payload r \<longleftrightarrow>
     (rf_readFunc r = payload_read_func payload \<or>
      rf_readFunc r = file_read_func payload (word_of_nat (length payload))) \<and>
     length payload < 2 ^ 63 \<and> unat (rf_cursor r) \<le> length payload"

interpretation block: byte_source ReadFuncStreamReader_Read "block_rest payload" "block_ok payload"
  for payload
proof
  fix r :: func_reader and n :: u64
  let ?c = "rf_cursor r"
  assume r: "block_ok payload r"
  then show "length (block_rest payload r) < 2 ^ 63"
    by (auto simp: block_ok_def block_rest_def intro: less_imp_diff_less)
  have len: "length payload < 2 ^ 63" and cur: "unat ?c \<le> length payload"
    using r by (simp_all add: block_ok_def)
  have size: "unat (word_of_nat (length payload) :: u64) = length payload"
    using len by (simp add: unat_word_of_nat_u64)
  have sub: "unat (word_of_nat (length payload) - ?c) = length payload - unat ?c"
    using cur size by (subst unat_sub) (simp_all add: word_le_nat_alt)
  show "\<exists>e. ReadFuncStreamReader_Read r n = Inl e" if "length (block_rest payload r) < unat n"
    using that r sub
    by (auto simp: ReadFuncStreamReader_Read_def block_ok_def block_rest_def
        payload_read_func_def file_read_func_def Let_def word_less_nat_alt)
  show "yields (block_rest payload) (block_ok payload) (ReadFuncStreamReader_Read r n)
      (take (unat n) (block_rest payload r)) (drop (unat n) (block_rest payload r))"
    if n: "unat n \<le> length (block_rest payload r)"
  proof -
    have fits: "unat ?c + unat n \<le> length payload"
      using n cur by (simp add: block_rest_def)
    then have "unat (?c + n) = unat ?c + unat n"
      using unat_add_le_u64 [of ?c n "word_of_nat (length payload)"] size by simp
    moreover have "rf_readFunc r ?c n = Inr (take (unat n) (drop (unat ?c) payload))"
      using r sub size cur n fits len
      by (auto simp: block_ok_def block_rest_def payload_read_func_def file_read_func_def Let_def
          word_less_nat_alt)
    ultimately show ?thesis
      using r fits
      by (simp add: yields_def ReadFuncStreamReader_Read_def block_rest_def block_ok_def
          add.commute)
  qed
qed

context byte_source
begin

lemma StreamBlockHeader_Read_yields:
  assumes "rest r = concat (StreamBlockHeader_Write h) @ s" and "ok r" and "valid_header h"
  shows "yields rest ok (StreamBlockHeader_Read rd r) h s"
proof -
  have "rest r = enc_u32 (tag h) @ enc_u32 (block_version h) @ enc_u64 (flags h) @
      enc_u64 (value_len h) @ enc_u32 (payload_checksum h) @ s"
    using assms(1) by (simp add: StreamBlockHeader_Write_def WriteObj_def)
  then show ?thesis
    unfolding StreamBlockHeader_Read_def using assms(2,3)
    by (cases h) (auto intro!: yields_bind [OF ReadObj_u32] yields_bind [OF ReadObj_u64]
        simp: Let_def valid_header_def IsSectionEnd_def split: if_splits)
qed

lemma drain_payload_all:
  "ok r \<Longrightarrow> 0 < lim \<Longrightarrow> unat n \<le> length (rest r) \<Longrightarrow>
   \<exists>r'. drain_payload rd lim r n crc spilled =
          Inr (spilled @ take (unat n) (rest r), UpdateChecksum crc (take (unat n) (rest r)), r') \<and>
        rest r' = drop (unat n) (rest r) \<and> ok r'"
proof (induction "unat n" arbitrary: n r crc spilled rule: less_induct)
  case less
  show ?case
  proof (cases "n = 0")
    case True
    then show ?thesis
      using less.prems by (simp add: drain_payload.simps [of rd lim r 0])
  next
    case False
    let ?k = "min n lim"
    have pos: "n > 0" using False by (simp add: word_neq_0_conv)
    have le: "?k \<le> n" by simp
    then have lek: "unat ?k \<le> unat n" by (simp add: word_le_nat_alt)
    have smaller: "unat (n - ?k) < unat n"
      using pos less.prems(2) by (rule skip_step_less)
    have sub: "unat (n - ?k) = unat n - unat ?k"
      by (rule unat_sub [OF le])
    from rd_enough [OF less.prems(1), of ?k] less.prems(3) lek obtain r1 where
      r1: "rd r ?k = Inr (take (unat ?k) (rest r), r1)"
      "rest r1 = drop (unat ?k) (rest r)" "ok r1"
      by (auto simp: yields_def)
    have "unat (n - ?k) \<le> length (rest r1)"
      using less.prems(3) r1(2) sub by simp
    from less.hyps [OF smaller r1(3) less.prems(2) this] obtain r2 where
      r2: "drain_payload rd lim r1 (n - ?k) (UpdateChecksum crc (take (unat ?k) (rest r)))
             (spilled @ take (unat ?k) (rest r)) =
           Inr ((spilled @ take (unat ?k) (rest r)) @ take (unat (n - ?k)) (rest r1),
             UpdateChecksum (UpdateChecksum crc (take (unat ?k) (rest r)))
               (take (unat (n - ?k)) (rest r1)), r2)"
      "rest r2 = drop (unat (n - ?k)) (rest r1)" "ok r2"
      by blast
    have "take (unat ?k) (rest r) @ take (unat (n - ?k)) (rest r1) = take (unat n) (rest r)"
      using lek sub r1(2) by (metis le_add_diff_inverse take_add)
    moreover have "drop (unat (n - ?k)) (rest r1) = drop (unat n) (rest r)"
      using lek sub r1(2) by simp
    ultimately show ?thesis
      using r1(1) r2 pos less.prems(2)
      by (simp add: drain_payload.simps [of rd lim r n] Let_def UpdateChecksum_append [symmetric])
  qed
qed

lemma payload_length:
  assumes "rest r = payload @ s" and "ok r"
  shows "unat (word_of_nat (length payload) :: u64) = length payload"
    and "word_of_nat (length payload) \<noteq> (0xFFFFFFFFFFFFFFFF :: u64)"
proof -
  have len: "length payload < 2 ^ 63"
    using rest_bound [OF assms(2)] assms(1) by simp
  then show *: "unat (word_of_nat (length payload) :: u64) = length payload"
    by (simp add: unat_word_of_nat_u64)
  have "unat (0xFFFFFFFFFFFFFFFF :: u64) = 18446744073709551615" by simp
  then show "word_of_nat (length payload) \<noteq> (0xFFFFFFFFFFFFFFFF :: u64)"
    using len * by auto
qed

lemma ValidateAndSkip_iff:
  assumes "rest r = payload @ s" and "ok r" and "value_len h = word_of_nat (length payload)"
  shows "if CalculateChecksum payload = payload_checksum h
         then \<exists>r'. ValidateAndSkipBlockPayload rd r h = Inr r' \<and> rest r' = s \<and> ok r'
         else ValidateAndSkipBlockPayload rd r h = Inl (Vsag INVALID_BINARY)"
proof -
  note len = payload_length [OF assms(1,2)]
  obtain r' where "drain_payload rd 8192 r (value_len h) InitialChecksum [] =
      Inr (payload, UpdateChecksum InitialChecksum payload, r')" "rest r' = s" "ok r'"
    using drain_payload_all [OF assms(2), of 8192 "value_len h" InitialChecksum "[]"]
      assms(1,3) len by auto
  then show ?thesis
    using assms(3) len(2)
    by (auto simp: ValidateAndSkipBlockPayload_def CalculateChecksum_def)
qed

lemma ReadSeekable_yields:
  assumes r: "rest r = payload @ s" "ok r"
    and h: "value_len h = word_of_nat (length payload)"
      "payload_checksum h = CalculateChecksum payload"
    and lim: "0 < lim"
    and d: "\<And>br. block_rest payload br = payload \<Longrightarrow> block_ok payload br \<Longrightarrow>
      \<exists>t. yields (block_rest payload) (block_ok payload) (d br) x t"
  shows "yields rest ok (ReadSeekableBlockPayload lim rd r h d) x s"
proof -
  note len = payload_length [OF r]
  have len63: "length payload < 2 ^ 63"
    using rest_bound [OF r(2)] r(1) by simp
  have fin: "yields rest ok
      (bind_r (d \<lparr>rf_readFunc = f, rf_cursor = 0, rf_length = value_len h, rf_io_count = 0\<rparr>)
        (\<lambda>(x, br). bind_r (validate_seekable_block_cursor (rf_cursor br) h) (\<lambda>_. Inr (x, r1)))) x s"
    if f: "f = payload_read_func payload \<or> f = file_read_func payload (word_of_nat (length payload))"
      and r1: "rest r1 = s" "ok r1" for f r1
  proof -
    let ?br = "\<lparr>rf_readFunc = f, rf_cursor = 0, rf_length = value_len h, rf_io_count = 0\<rparr>"
    have "block_rest payload ?br = payload" "block_ok payload ?br"
      using f len63 by (auto simp: block_rest_def block_ok_def)
    from d [OF this] obtain br where "d ?br = Inr (x, br)" "block_ok payload br"
      by (auto simp: yields_def)
    then show ?thesis
      using r1 h(1) len(1)
      by (auto simp: validate_seekable_block_cursor_def block_ok_def word_less_nat_alt)
  qed
  show ?thesis
  proof (cases "value_len h \<le> lim")
    case True
    have pl: "yields rest ok (if value_len h = 0 then Inr ([], r) else rd r (value_len h)) payload s"
    proof (cases "payload = []")
      case True
      then show ?thesis using r h(1) by auto
    next
      case False
      then have "value_len h \<noteq> 0" using h(1) len(1) by (metis length_0_conv unat_0)
      then show ?thesis using rd_bytes [OF r] h(1) len(1) by simp
    qed
    show ?thesis
      unfolding ReadSeekableBlockPayload_def if_P [OF True]
      by (rule yields_bind [OF pl]) (use h(2) fin in auto)
  next
    case False
    obtain r1 where r1: "drain_payload rd lim r (value_len h) InitialChecksum [] =
        Inr (payload, UpdateChecksum InitialChecksum payload, r1)" "rest r1 = s" "ok r1"
      using drain_payload_all [OF r(2) lim, of "value_len h" InitialChecksum "[]"] r h len by auto
    then show ?thesis
      using False fin [of "file_read_func payload (word_of_nat (length payload))" r1] h
      by (simp add: ReadSeekableBlockPayload_def CalculateChecksum_def)
  qed
qed

end

lemma WriteStreamingBlock_same:
  assumes "length (concat cs) < 2 ^ 63"
  shows "WriteStreamingBlock t critical cs cs =
    (StreamBlockHeader_Write
       \<lparr>tag = t, block_version = 1, flags = (if critical then 1 else 0),
        value_len = word_of_nat (length (concat cs)),
        payload_checksum = CalculateChecksum (concat cs)\<rparr> @ cs, Inr ())"
  by (simp add: WriteStreamingBlock_def run_CountingChecksum new_counting_checksum_writer_def
      CalculateChecksum_def StreamSerializationBlockCurrentVersion_def kCriticalFlag_def)

section \<open>Properties\<close>

text \<open>C8: a block written by \<open>WriteStreamingBlock\<close> with a deterministic serializer is accepted by its
  own consistency check, and a forward reader over the written bytes reads back a header with the
  tag, the criticality and the payload length that were written, after which
  \<open>ValidateAndSkipBlockPayload\<close> accepts the payload and stops exactly at the next block.\<close>

theorem streaming_block_roundtrip:
  assumes "t \<noteq> SERIAL_STREAM_SECTION_END"
    and "WriteStreamingBlock t critical cs cs = (out, res)"
    and "length (concat out @ s) < 2 ^ 63"
  shows "res = Inr () \<and> (\<exists>h r1 r2.
      StreamBlockHeader_Read ForwardStreamReader_Read (open_forward (concat out @ s)) = Inr (h, r1) \<and>
      tag h = t \<and> IsCritical h = critical \<and> unat (value_len h) = length (concat cs) \<and>
      StreamSerializationBlockVersionSupported t (block_version h) \<and>
      fr_istream r1 = concat cs @ s \<and>
      ValidateAndSkipBlockPayload ForwardStreamReader_Read r1 h = Inr r2 \<and> fr_istream r2 = s)"
proof -
  have len: "length (concat cs) < 2 ^ 63"
    using assms(2,3) by (auto simp: WriteStreamingBlock_def Let_def)
  define h where "h = \<lparr>tag = t, block_version = 1, flags = (if critical then 1 else 0),
    value_len = word_of_nat (length (concat cs)), payload_checksum = CalculateChecksum (concat cs)\<rparr>"
  have out: "out = StreamBlockHeader_Write h @ cs" and res: "res = Inr ()"
    using WriteStreamingBlock_same [OF len] assms(2) by (simp_all add: h_def)
  let ?r = "open_forward (concat out @ s)"
  have r: "fr_istream ?r = concat (StreamBlockHeader_Write h) @ concat cs @ s" "fr_ok ?r"
    using assms(3) out by simp_all
  have un: "unat (word_of_nat (length (concat cs)) :: u64) = length (concat cs)"
    using len by (simp add: unat_word_of_nat_u64)
  have "unat (0xFFFFFFFFFFFFFFFF :: u64) = 18446744073709551615" by simp
  then have "word_of_nat (length (concat cs)) \<noteq> (0xFFFFFFFFFFFFFFFF :: u64)"
    using un len by auto
  then have valid: "valid_header h"
    using assms(1) by (simp add: h_def valid_header_def IsSectionEnd_def)
  obtain r1 where r1: "StreamBlockHeader_Read ForwardStreamReader_Read ?r = Inr (h, r1)"
    "fr_istream r1 = concat cs @ s" "fr_ok r1"
    using fwd.StreamBlockHeader_Read_yields [OF r valid] by (auto simp: yields_def)
  obtain r2 where "ValidateAndSkipBlockPayload ForwardStreamReader_Read r1 h = Inr r2"
    "fr_istream r2 = s"
    using fwd.ValidateAndSkip_iff [OF r1(2,3), of h] by (auto simp: h_def)
  moreover have "tag h = t" "IsCritical h = critical" "unat (value_len h) = length (concat cs)"
    "StreamSerializationBlockVersionSupported t (block_version h)"
    using un by (simp_all add: h_def IsCritical_def kCriticalFlag_def
        StreamSerializationBlockVersionSupported_def StreamSerializationBlockCurrentVersion_def)
  ultimately show ?thesis using r1 res by blast
qed

theorem streaming_block_roundtrip_witness:
  "\<exists>h r1 r2.
      StreamBlockHeader_Read ForwardStreamReader_Read
        (open_forward (concat (fst (WriteStreamingBlock 1 True [[7, 8], [9]] [[7, 8], [9]])) @ [3]))
        = Inr (h, r1) \<and>
      tag h = 1 \<and> IsCritical h = True \<and> unat (value_len h) = length (concat [[7, 8], [9 :: byte]]) \<and>
      StreamSerializationBlockVersionSupported 1 (block_version h) \<and>
      fr_istream r1 = concat [[7, 8], [9]] @ [3] \<and>
      ValidateAndSkipBlockPayload ForwardStreamReader_Read r1 h = Inr r2 \<and> fr_istream r2 = [3]"
  by (rule streaming_block_roundtrip [THEN conjunct2, OF _ prod.collapse [symmetric]])
    (simp_all add: SERIAL_STREAM_SECTION_END_def WriteStreamingBlock_def Let_def
      StreamBlockHeader_Write_def WriteObj_def)

text \<open>C10: the payload of a block reaches the deserializer unchanged whatever the buffer limit:
  \<open>ReadSeekableBlockPayload\<close> succeeds with the deserializer's value and leaves the stream at the
  next block, both when the payload is buffered and when it is spilled to a temporary file, for
  every deserializer that succeeds with that value on a reader over the payload.\<close>

theorem block_payload_reaches_deserializer:
  assumes "length (payload @ s) < 2 ^ 63"
    and "value_len h = word_of_nat (length payload)"
    and "payload_checksum h = CalculateChecksum payload"
    and "0 < block_size_limit"
    and "\<And>br. block_rest payload br = payload \<Longrightarrow> block_ok payload br \<Longrightarrow>
      \<exists>t. yields (block_rest payload) (block_ok payload) (deserialize br) x t"
  shows "\<exists>r. ReadSeekableBlockPayload block_size_limit ForwardStreamReader_Read
      (open_forward (payload @ s)) h deserialize = Inr (x, r) \<and> fr_istream r = s"
  using fwd.ReadSeekable_yields [of "open_forward (payload @ s)" payload s h block_size_limit
      deserialize x] assms
  by (auto simp: yields_def)

theorem block_payload_reaches_deserializer_witness:
  "\<exists>r. ReadSeekableBlockPayload 3 ForwardStreamReader_Read (open_forward (enc_u32 77 @ [5]))
      \<lparr>tag = 2, block_version = 1, flags = 1, value_len = word_of_nat (length (enc_u32 77)),
       payload_checksum = CalculateChecksum (enc_u32 77)\<rparr>
      (ReadObj ReadFuncStreamReader_Read 4 dec_u32) = Inr (77, r) \<and> fr_istream r = [5]"
proof (rule block_payload_reaches_deserializer)
  fix br
  assume br: "block_rest (enc_u32 77) br = enc_u32 77" "block_ok (enc_u32 77) br"
  show "\<exists>t. yields (block_rest (enc_u32 77)) (block_ok (enc_u32 77))
      (ReadObj ReadFuncStreamReader_Read 4 dec_u32 br) 77 t"
    by (rule exI [of _ "[]"], rule block.ReadObj_u32) (use br in simp_all)
qed simp_all

text \<open>C9: a payload in which one byte was changed after the block was written is refused: both the
  validating skip and the reader of the payload throw \<open>INVALID_BINARY\<close>, and the deserializer is
  not run.\<close>

theorem corrupted_byte_is_rejected:
  assumes "a \<noteq> b"
    and "length (xs @ b # ys @ s) < 2 ^ 63"
    and "value_len h = word_of_nat (length (xs @ a # ys))"
    and "payload_checksum h = CalculateChecksum (xs @ a # ys)"
    and "0 < block_size_limit"
  shows "ValidateAndSkipBlockPayload ForwardStreamReader_Read (open_forward (xs @ b # ys @ s)) h =
      Inl (Vsag INVALID_BINARY) \<and>
    ReadSeekableBlockPayload block_size_limit ForwardStreamReader_Read
      (open_forward (xs @ b # ys @ s)) h deserialize = Inl (Vsag INVALID_BINARY)"
proof
  let ?p = "xs @ b # ys" and ?r = "open_forward (xs @ b # ys @ s)"
  have r: "fr_istream ?r = ?p @ s" "fr_ok ?r"
    using assms(2) by simp_all
  have len: "value_len h = word_of_nat (length ?p)"
    using assms(3) by simp
  have bad: "CalculateChecksum ?p \<noteq> payload_checksum h"
    using checksum_one_byte [of a b xs ys] assms(1,4) by simp
  then show "ValidateAndSkipBlockPayload ForwardStreamReader_Read ?r h = Inl (Vsag INVALID_BINARY)"
    using fwd.ValidateAndSkip_iff [OF r len] by simp
  have un: "unat (value_len h) = length ?p"
    using assms(2) len by (simp add: unat_word_of_nat_u64 del: of_nat_Suc of_nat_add)
  then have nz: "value_len h \<noteq> 0" by auto
  obtain r1 where "ForwardStreamReader_Read ?r (value_len h) = Inr (?p, r1)"
    using fwd.rd_bytes [OF r un] by (auto simp: yields_def)
  moreover obtain r2 where "drain_payload ForwardStreamReader_Read block_size_limit ?r (value_len h)
      InitialChecksum [] = Inr (?p, UpdateChecksum InitialChecksum ?p, r2)"
    using fwd.drain_payload_all [OF r(2) assms(5), of "value_len h" InitialChecksum "[]"] un r
    by auto
  ultimately show "ReadSeekableBlockPayload block_size_limit ForwardStreamReader_Read ?r h
      deserialize = Inl (Vsag INVALID_BINARY)"
    using bad nz by (simp add: ReadSeekableBlockPayload_def CalculateChecksum_def)
qed

theorem corrupted_byte_is_rejected_witness:
  "ValidateAndSkipBlockPayload ForwardStreamReader_Read (open_forward ([1] @ 3 # [4] @ [9]))
     \<lparr>tag = 2, block_version = 1, flags = 1, value_len = word_of_nat (length ([1] @ 2 # [4 :: byte])),
      payload_checksum = CalculateChecksum ([1] @ 2 # [4])\<rparr> = Inl (Vsag INVALID_BINARY)"
  by (rule corrupted_byte_is_rejected [where a = 2 and block_size_limit = 8192, THEN conjunct1]) simp_all

end
