(* ===== verification/FastBitset.thy ===== *)
theory FastBitset
  imports Streams
begin

text \<open>
  The dense bitset of \<^verbatim>\<open>src/src/impl/bitset/fast_bitset.{h,cpp}\<close> and the byte-wise loops of
  \<^verbatim>\<open>src/src/simd/generic.cpp\<close> it calls.

  A bitset is an array of 64-bit words, the number of words in use, and a 32-bit field whose low 31
  bits are the capacity and whose top bit is the value of every position beyond the words in use.
  \<open>fb_mem\<close> is the infinite bit vector a bitset stands for; each operation is shown to act on it
  pointwise. Positions are \<open>int64_t\<close>, kept as integers; \<open>size_ * 64\<close> is computed in
  \<open>uint32_t\<close> and wraps.
\<close>

section \<open>Byte-wise loops\<close>

definition BitAnd :: "byte list \<Rightarrow> byte list \<Rightarrow> nat \<Rightarrow> byte list \<Rightarrow> byte list result" where
  "BitAnd x y num_byte res =
     (if num_byte \<le> length x \<and> num_byte \<le> length y \<and> num_byte \<le> length res
      then Inr (map2 (AND) (take num_byte x) (take num_byte y) @ drop num_byte res)
      else Inl UndefinedBehaviour)"

definition BitOr :: "byte list \<Rightarrow> byte list \<Rightarrow> nat \<Rightarrow> byte list \<Rightarrow> byte list result" where
  "BitOr x y num_byte res =
     (if num_byte \<le> length x \<and> num_byte \<le> length y \<and> num_byte \<le> length res
      then Inr (map2 (OR) (take num_byte x) (take num_byte y) @ drop num_byte res)
      else Inl UndefinedBehaviour)"

definition BitNot :: "byte list \<Rightarrow> nat \<Rightarrow> byte list \<Rightarrow> byte list result" where
  "BitNot x num_byte res =
     (if num_byte \<le> length x \<and> num_byte \<le> length res
      then Inr (map NOT (take num_byte x) @ drop num_byte res)
      else Inl UndefinedBehaviour)"

text \<open>\<open>reinterpret_cast<uint8_t*>(data_)\<close> and back.\<close>

definition as_bytes :: "u64 list \<Rightarrow> byte list" where
  "as_bytes data = concat (map enc_u64 data)"

definition of_bytes :: "byte list \<Rightarrow> u64 list" where
  "of_bytes bs = map dec_u64 (chunks_of 8 (length bs div 8) bs)"

section \<open>State and operations\<close>

record FastBitset =
  fb_data :: "u64 list"
  fb_size :: u32
  fb_capacity :: u32

definition FastBitset_new :: FastBitset where
  "FastBitset_new = \<lparr>fb_data = [], fb_size = 0, fb_capacity = 0\<rparr>"

definition FILL_ONE :: u64 where
  "FILL_ONE = 0xFFFFFFFFFFFFFFFF"

definition MAX_FAST_BITSET_WORDS :: u64 where
  "MAX_FAST_BITSET_WORDS = ucast (drop_bit 1 (0xFFFFFFFF :: u32))"

definition get_fill_bit :: "FastBitset \<Rightarrow> bool" where
  "get_fill_bit s = (drop_bit 31 (fb_capacity s) AND 1 \<noteq> 0)"

definition set_fill_bit :: "bool \<Rightarrow> FastBitset \<Rightarrow> FastBitset" where
  "set_fill_bit v s =
     (if v then s\<lparr>fb_capacity := fb_capacity s OR push_bit 31 1\<rparr>
      else s\<lparr>fb_capacity := fb_capacity s AND NOT (push_bit 31 1)\<rparr>)"

definition get_capacity :: "FastBitset \<Rightarrow> u32" where
  "get_capacity s = fb_capacity s AND 0x7FFFFFFF"

definition set_capacity :: "u32 \<Rightarrow> FastBitset \<Rightarrow> FastBitset" where
  "set_capacity cap s =
     s\<lparr>fb_capacity := (fb_capacity s AND push_bit 31 1) OR (cap AND 0x7FFFFFFF)\<rparr>"

text \<open>
  The words that \<open>new uint64_t[new_size]\<close> leaves uninitialised are exactly those that the
  \<open>std::fill\<close> below it writes, so the new array is given with the fill value at once.
\<close>

definition fb_resize :: "u32 \<Rightarrow> u64 \<Rightarrow> FastBitset \<Rightarrow> FastBitset result" where
  "fb_resize new_size fill s =
     (let s1 = (if new_size > get_capacity s
                then set_capacity new_size
                       (s\<lparr>fb_data := vresize (unat new_size) fill (take (unat (fb_size s)) (fb_data s))\<rparr>)
                else s) in
      if unat new_size \<le> length (fb_data s1) then
        Inr (s1\<lparr>fb_data := take (unat (fb_size s)) (fb_data s1) @
                            replicate (unat new_size - unat (fb_size s)) fill @
                            drop (max (unat new_size) (unat (fb_size s))) (fb_data s1),
                fb_size := new_size\<rparr>)
      else Inl UndefinedBehaviour)"

definition FastBitset_Set :: "FastBitset \<Rightarrow> int \<Rightarrow> bool \<Rightarrow> FastBitset result" where
  "FastBitset_Set s pos v =
     (let capacity = fb_size s * 64 in
      bind_r
        (if pos \<ge> uint capacity
         then fb_resize (word_of_int (pos div 64 + 1)) (if get_fill_bit s then FILL_ONE else 0) s
         else Inr s)
        (\<lambda>s.
           if pos < 0 \<or> \<not> nat (pos div 64) < length (fb_data s) then Inl UndefinedBehaviour
           else
             (let word_index = nat (pos div 64); bit_index = nat (pos mod 64) in
              Inr (s\<lparr>fb_data := (fb_data s)[word_index :=
                     (if v then fb_data s ! word_index OR push_bit bit_index 1
                      else fb_data s ! word_index AND NOT (push_bit bit_index 1))]\<rparr>))))"

definition FastBitset_Test :: "FastBitset \<Rightarrow> int \<Rightarrow> bool result" where
  "FastBitset_Test s pos =
     (let capacity = fb_size s * 64 in
      if pos \<ge> uint capacity then Inr (get_fill_bit s)
      else if pos < 0 \<or> \<not> nat (pos div 64) < length (fb_data s) then Inl UndefinedBehaviour
      else Inr ((fb_data s ! nat (pos div 64)) AND push_bit (nat (pos mod 64)) 1 \<noteq> 0))"

text \<open>\<open>__builtin_popcountll\<close> counts the bits of a word.\<close>

definition popcount64 :: "u64 \<Rightarrow> nat" where
  "popcount64 w = length (filter (bit w) [0..<64])"

definition FastBitset_Count :: "FastBitset \<Rightarrow> u64" where
  "FastBitset_Count s = fold (\<lambda>w count. count + word_of_nat (popcount64 w)) (take (unat (fb_size s)) (fb_data s)) 0"

definition FastBitset_Clear :: "FastBitset \<Rightarrow> FastBitset" where
  "FastBitset_Clear s = set_fill_bit False (s\<lparr>fb_size := 0\<rparr>)"

definition bytes_op :: "(byte list \<Rightarrow> byte list result) \<Rightarrow> FastBitset \<Rightarrow> FastBitset result" where
  "bytes_op f s = bind_r (f (as_bytes (fb_data s))) (\<lambda>bs. Inr (s\<lparr>fb_data := of_bytes bs\<rparr>))"

definition FastBitset_Or_ref :: "FastBitset \<Rightarrow> FastBitset \<Rightarrow> FastBitset result" where
  "FastBitset_Or_ref s fast_another =
     (if fb_size fast_another = 0 then
        (if get_fill_bit fast_another then Inr (set_fill_bit True (FastBitset_Clear s)) else Inr s)
      else if fb_size s \<ge> fb_size fast_another then
        (let min_size = fb_size fast_another in
         bind_r (bytes_op (\<lambda>d. BitOr d (as_bytes (fb_data fast_another)) (unat min_size * 8) d) s) (\<lambda>s.
           if get_fill_bit fast_another
           then bind_r (fb_resize min_size 0 s) (\<lambda>s. Inr (set_fill_bit True s))
           else Inr s))
      else
        bind_r (if get_fill_bit s then Inr (fb_size s, s)
                else bind_r (fb_resize (fb_size fast_another) 0 s) (\<lambda>s.
                       Inr (fb_size fast_another, set_fill_bit (get_fill_bit fast_another) s)))
          (\<lambda>(max_size, s).
             bytes_op (\<lambda>d. BitOr d (as_bytes (fb_data fast_another)) (unat max_size * 8) d) s))"

definition FastBitset_And_ref :: "FastBitset \<Rightarrow> FastBitset \<Rightarrow> FastBitset result" where
  "FastBitset_And_ref s fast_another =
     (if fb_size fast_another = 0 then
        (if \<not> get_fill_bit fast_another then Inr (FastBitset_Clear s) else Inr s)
      else
        bind_r
          (if fb_size s \<ge> fb_size fast_another then
             (let min_size = fb_size fast_another; max_size = fb_size s in
              bind_r (bytes_op (\<lambda>d. BitAnd d (as_bytes (fb_data fast_another)) (unat min_size * 8) d) s)
                (\<lambda>s. if max_size > min_size \<and> \<not> get_fill_bit fast_another
                     then if unat max_size \<le> length (fb_data s)
                       then Inr (s\<lparr>fb_data := take (unat min_size) (fb_data s) @
                                   replicate (unat max_size - unat min_size) 0 @
                                   drop (unat max_size) (fb_data s)\<rparr>)
                       else Inl UndefinedBehaviour
                     else Inr s))
           else
             (let max_size = fb_size fast_another in
              bind_r (fb_resize max_size (if get_fill_bit s then FILL_ONE else 0) s) (\<lambda>s.
                bytes_op (\<lambda>d. BitAnd d (as_bytes (fb_data fast_another)) (unat max_size * 8) d) s)))
          (\<lambda>s. Inr (set_fill_bit (get_fill_bit s \<and> get_fill_bit fast_another) s)))"

text \<open>The overloads that take a pointer, \<open>None\<close> for \<open>nullptr\<close>.\<close>

definition FastBitset_Or_ptr :: "FastBitset \<Rightarrow> FastBitset option \<Rightarrow> FastBitset result" where
  "FastBitset_Or_ptr s another = (case another of None \<Rightarrow> Inr s | Some a \<Rightarrow> FastBitset_Or_ref s a)"

definition FastBitset_And_ptr :: "FastBitset \<Rightarrow> FastBitset option \<Rightarrow> FastBitset result" where
  "FastBitset_And_ptr s another = (case another of None \<Rightarrow> Inr (FastBitset_Clear s) | Some a \<Rightarrow> FastBitset_And_ref s a)"

fun FastBitset_And_vec :: "FastBitset \<Rightarrow> FastBitset option list \<Rightarrow> FastBitset result" where
  "FastBitset_And_vec s [] = Inr s"
| "FastBitset_And_vec s (None # ptrs) = Inr (FastBitset_Clear s)"
| "FastBitset_And_vec s (Some a # ptrs) = bind_r (FastBitset_And_ref s a) (\<lambda>s. FastBitset_And_vec s ptrs)"

fun FastBitset_Or_vec :: "FastBitset \<Rightarrow> FastBitset option list \<Rightarrow> FastBitset result" where
  "FastBitset_Or_vec s [] = Inr s"
| "FastBitset_Or_vec s (None # ptrs) = FastBitset_Or_vec s ptrs"
| "FastBitset_Or_vec s (Some a # ptrs) = bind_r (FastBitset_Or_ref s a) (\<lambda>s. FastBitset_Or_vec s ptrs)"

definition FastBitset_Not :: "FastBitset \<Rightarrow> FastBitset result" where
  "FastBitset_Not s =
     bind_r (bytes_op (\<lambda>d. BitNot d (unat (fb_size s) * 8) d) s) (\<lambda>s.
       Inr (set_fill_bit (\<not> get_fill_bit s) s))"

definition FastBitset_Serialize :: "FastBitset \<Rightarrow> byte list list result" where
  "FastBitset_Serialize s =
     (let n = ucast (fb_size s) :: u64 in
      if unat n \<le> length (fb_data s) then
        Inr (WriteObj (enc_bool (get_fill_bit s)) @ WriteObj (enc_u64 n) @
             (if n > 0 then [take (unat n * 8) (as_bytes (fb_data s))] else []))
      else Inl UndefinedBehaviour)"

definition FastBitset_Deserialize :: "'r read_op \<Rightarrow> FastBitset \<Rightarrow> 'r \<Rightarrow> (FastBitset \<times> 'r) result" where
  "FastBitset_Deserialize rd s r =
     bind_r (ReadObj rd 1 dec_bool r) (\<lambda>(fill_bit, r).
     bind_r (ReadObj rd 8 dec_u64 r) (\<lambda>(n, r).
       if n > MAX_FAST_BITSET_WORDS then Inl (Vsag READ_ERROR)
       else if n > 0xFFFFFFFFFFFFFFFF div 8 then Inl (Vsag READ_ERROR)
       else
         bind_r (if n > 0 then rd r (n * 8) else Inr ([], r)) (\<lambda>(bs, r).
           let size32 = ucast n :: u32 in
           Inr (set_fill_bit fill_bit (set_capacity size32
                  (s\<lparr>fb_data := map dec_u64 (chunks_of 8 (unat n) bs), fb_size := size32\<rparr>)), r))))"

definition FastBitset_GetMemoryUsage :: "nat \<Rightarrow> FastBitset \<Rightarrow> u64" where
  "FastBitset_GetMemoryUsage sizeof_FastBitset s = word_of_nat sizeof_FastBitset + ucast (fb_size s) * 8"

section \<open>The byte loops act word by word\<close>

lemma enc_le_or: "enc_le k (m OR n) = map2 (OR) (enc_le k m) (enc_le k n)"
  by (induction k arbitrary: m n)
    (simp_all add: take_bit_eq_mod [of 8, simplified, symmetric] drop_bit_eq_div [of 8, simplified, symmetric]
      take_bit_or drop_bit_or of_nat_or_eq)

lemma enc_le_and: "enc_le k (m AND n) = map2 (AND) (enc_le k m) (enc_le k n)"
  by (induction k arbitrary: m n)
    (simp_all add: take_bit_eq_mod [of 8, simplified, symmetric] drop_bit_eq_div [of 8, simplified, symmetric]
      take_bit_and drop_bit_and of_nat_and_eq)

lemma enc_le_xor: "enc_le k (m XOR n) = map2 (XOR) (enc_le k m) (enc_le k n)"
  by (induction k arbitrary: m n)
    (simp_all add: take_bit_eq_mod [of 8, simplified, symmetric] drop_bit_eq_div [of 8, simplified, symmetric]
      take_bit_xor drop_bit_xor of_nat_xor_eq)

lemma enc_le_ones: "enc_le k (mask (8 * k)) = replicate k (- 1)"
proof (induction k)
  case 0
  then show ?case by simp
next
  case (Suc k)
  have "mask (8 * Suc k) mod 256 = take_bit 8 (mask (8 * Suc k) :: nat)"
    by (simp add: take_bit_eq_mod)
  also have "\<dots> = mask 8" by (simp add: take_bit_of_mask min_def)
  finally have 1: "mask (8 * Suc k) mod 256 = (255 :: nat)" by (simp add: mask_eq_exp_minus_1)
  have "mask (8 * Suc k) div 256 = drop_bit 8 (mask (8 * Suc k) :: nat)"
    by (simp add: drop_bit_eq_div)
  also have "\<dots> = mask (8 * k)" by (simp add: drop_bit_mask_eq)
  finally have 2: "mask (8 * Suc k) div 256 = (mask (8 * k) :: nat)" .
  show ?case unfolding enc_le.simps(2) 1 2 Suc.IH by simp
qed

lemma enc_u64_or: "enc_u64 (x OR y) = map2 (OR) (enc_u64 x) (enc_u64 y)"
  by (simp only: enc_u64_def unsigned_or_eq enc_le_or)

lemma enc_u64_and: "enc_u64 (x AND y) = map2 (AND) (enc_u64 x) (enc_u64 y)"
  by (simp only: enc_u64_def unsigned_and_eq enc_le_and)

lemma enc_u64_not: "enc_u64 (NOT x) = map NOT (enc_u64 x)"
proof -
  have ones: "enc_u64 (- 1) = replicate 8 (- 1)"
    using enc_le_ones [of 8] by (simp add: enc_u64_def unsigned_minus_1_eq_mask del: enc_le.simps)
  have "NOT x = x XOR - 1" by (simp add: bit_eq_iff bit_simps)
  then have "enc_u64 (NOT x) = map2 (XOR) (enc_u64 x) (enc_u64 (- 1))"
    by (simp only: enc_u64_def unsigned_xor_eq enc_le_xor)
  also have "\<dots> = map (\<lambda>b. b XOR - 1) (enc_u64 x)"
    unfolding ones by (rule nth_equalityI) simp_all
  also have "\<dots> = map NOT (enc_u64 x)"
    by (rule map_cong [OF refl]) (simp add: bit_eq_iff bit_simps)
  finally show ?thesis .
qed

lemma as_bytes_Nil [simp]: "as_bytes [] = []"
  by (simp add: as_bytes_def)

lemma as_bytes_Cons [simp]: "as_bytes (w # ws) = enc_u64 w @ as_bytes ws"
  by (simp add: as_bytes_def)

lemma length_as_bytes [simp]: "length (as_bytes ws) = 8 * length ws"
  by (induction ws) simp_all

lemma of_bytes_append: "length u = 8 \<Longrightarrow> of_bytes (u @ v) = dec_u64 u # of_bytes v"
  by (simp add: of_bytes_def div_add_self1 [of 8, simplified])

lemma of_bytes_as_bytes [simp]: "of_bytes (as_bytes ws) = ws"
  by (induction ws) (simp_all add: of_bytes_append, simp add: of_bytes_def)

lemma drop_as_bytes: "drop (8 * k) (as_bytes ws) = as_bytes (drop k ws)"
proof (induction ws arbitrary: k)
  case (Cons w ws)
  then show ?case by (cases k) simp_all
qed simp

lemma take_as_bytes: "take (8 * k) (as_bytes ws) = as_bytes (take k ws)"
proof (induction ws arbitrary: k)
  case (Cons w ws)
  then show ?case by (cases k) simp_all
qed simp

lemma map2_as_bytes:
  assumes "\<And>x y. enc_u64 (g x y) = map2 f (enc_u64 x) (enc_u64 y)" and "length xs = length ys"
  shows "map2 f (as_bytes xs) (as_bytes ys) = as_bytes (map2 g xs ys)"
  using assms(2) by (induction xs ys rule: list_induct2) (simp_all add: assms(1))

lemma map_as_bytes: "map NOT (as_bytes xs) = as_bytes (map NOT xs)"
  by (induction xs) (simp_all add: enc_u64_not)

lemma as_bytes_append [simp]: "as_bytes (xs @ ys) = as_bytes xs @ as_bytes ys"
  by (simp add: as_bytes_def)

lemma BitOr_words:
  assumes "k \<le> length a" and "k \<le> length b"
  shows "BitOr (as_bytes a) (as_bytes b) (k * 8) (as_bytes a) =
    Inr (as_bytes (map2 (OR) (take k a) (take k b) @ drop k a))"
  using assms
  by (simp add: BitOr_def mult.commute [of k] take_as_bytes drop_as_bytes
      map2_as_bytes [OF enc_u64_or])

lemma BitAnd_words:
  assumes "k \<le> length a" and "k \<le> length b"
  shows "BitAnd (as_bytes a) (as_bytes b) (k * 8) (as_bytes a) =
    Inr (as_bytes (map2 (AND) (take k a) (take k b) @ drop k a))"
  using assms
  by (simp add: BitAnd_def mult.commute [of k] take_as_bytes drop_as_bytes
      map2_as_bytes [OF enc_u64_and])

lemma BitNot_words:
  assumes "k \<le> length a"
  shows "BitNot (as_bytes a) (k * 8) (as_bytes a) = Inr (as_bytes (map NOT (take k a) @ drop k a))"
  using assms
  by (simp add: BitNot_def mult.commute [of k] take_as_bytes drop_as_bytes map_as_bytes)

section \<open>The two fields of \<open>capacity_\<close>\<close>

lemma get_fill_bit_iff: "get_fill_bit s = bit (fb_capacity s) 31"
  by (simp add: get_fill_bit_def and_one_eq bit_iff_odd_drop_bit odd_iff_mod_2_eq_one)

lemma low_mask: "(0x7FFFFFFF :: u32) = mask 31"
  by (simp add: mask_eq_exp_minus_1)

lemma top_bit: "bit (2147483648 :: int) n \<longleftrightarrow> n = 31" "bit (2147483648 :: nat) n \<longleftrightarrow> n = 31"
proof -
  have "bit (2147483648 :: int) n \<longleftrightarrow> bit (2 ^ 31 :: int) n"
    "bit (2147483648 :: nat) n \<longleftrightarrow> bit (2 ^ 31 :: nat) n" by simp_all
  then show "bit (2147483648 :: int) n \<longleftrightarrow> n = 31" "bit (2147483648 :: nat) n \<longleftrightarrow> n = 31"
    by (simp_all only: bit_exp_iff) auto
qed

lemma fill_simps [simp]:
  "get_fill_bit (set_fill_bit v s) = v"
  "get_fill_bit (set_capacity c s) = get_fill_bit s"
  "get_capacity (set_fill_bit v s) = get_capacity s"
  "get_capacity (set_capacity c s) = c AND 0x7FFFFFFF"
  "get_fill_bit (s\<lparr>fb_data := d\<rparr>) = get_fill_bit s"
  "get_fill_bit (s\<lparr>fb_size := n\<rparr>) = get_fill_bit s"
  "get_capacity (s\<lparr>fb_data := d\<rparr>) = get_capacity s"
  "get_capacity (s\<lparr>fb_size := n\<rparr>) = get_capacity s"
  by (auto simp: get_fill_bit_iff set_fill_bit_def set_capacity_def get_capacity_def bit_simps
      low_mask top_bit bit_eq_iff [where ?'a = u32])

lemma set_fill_fields [simp]:
  "fb_data (set_fill_bit v s) = fb_data s" "fb_size (set_fill_bit v s) = fb_size s"
  "fb_data (set_capacity c s) = fb_data s" "fb_size (set_capacity c s) = fb_size s"
  by (simp_all add: set_fill_bit_def set_capacity_def)

section \<open>Invariant and abstraction\<close>

text \<open>
  The representation invariant is that the array has the recorded capacity and that the words in
  use fit in it. Bits are addressed correctly while there are fewer than \<open>2 ^ 26\<close> words.
\<close>

definition fb_wf :: "FastBitset \<Rightarrow> bool" where
  "fb_wf s \<longleftrightarrow> length (fb_data s) = unat (get_capacity s) \<and> fb_size s \<le> get_capacity s"

definition fb_inv :: "FastBitset \<Rightarrow> bool" where
  "fb_inv s \<longleftrightarrow> fb_wf s \<and> unat (fb_size s) < 2 ^ 26"

definition fb_mem :: "FastBitset \<Rightarrow> nat \<Rightarrow> bool" where
  "fb_mem s n =
     (if n div 64 < unat (fb_size s) then bit (fb_data s ! (n div 64)) (n mod 64)
      else get_fill_bit s)"

lemma fb_invD:
  assumes "fb_inv s"
  shows "length (fb_data s) = unat (get_capacity s)" "unat (fb_size s) \<le> length (fb_data s)"
    "unat (fb_size s) < 2 ^ 26"
  using assms by (simp_all add: fb_inv_def fb_wf_def word_le_nat_alt)

lemma fb_inv_new [simp]: "fb_inv FastBitset_new"
  by (simp add: fb_inv_def fb_wf_def FastBitset_new_def get_capacity_def)

lemma fb_mem_new [simp]: "fb_mem FastBitset_new = (\<lambda>_. False)"
  by (simp add: fb_mem_def FastBitset_new_def get_fill_bit_def fun_eq_iff)

lemma fb_inv_set_fill [simp]: "fb_inv (set_fill_bit v s) = fb_inv s"
  by (simp add: fb_inv_def fb_wf_def)

lemma capacity_small: "unat n < 2 ^ 31 \<Longrightarrow> (n :: u32) AND 0x7FFFFFFF = n"
  by (simp add: low_mask word_unat_eq_iff unsigned_take_bit_eq take_bit_nat_eq_self
      flip: take_bit_eq_mask)

lemma fb_resize_ok:
  assumes inv: "fb_wf s" and n: "unat n < 2 ^ 31"
  obtains s' where "fb_resize n fill s = Inr s'" "fb_wf s'" "fb_size s' = n"
    "get_fill_bit s' = get_fill_bit s"
    "\<And>i. i < unat n \<Longrightarrow> fb_data s' ! i = (if i < unat (fb_size s) then fb_data s ! i else fill)"
proof -
  have D: "length (fb_data s) = unat (get_capacity s)" "unat (fb_size s) \<le> length (fb_data s)"
    using inv by (simp_all add: fb_wf_def word_le_nat_alt)
  define s1 where "s1 = (if n > get_capacity s
    then set_capacity n (s\<lparr>fb_data := vresize (unat n) fill (take (unat (fb_size s)) (fb_data s))\<rparr>)
    else s)"
  have len: "length (fb_data s1) = unat (get_capacity s1)" and le: "unat n \<le> length (fb_data s1)"
    "unat (fb_size s) \<le> length (fb_data s1)"
    and fill1: "get_fill_bit s1 = get_fill_bit s"
    using D n by (auto simp: s1_def capacity_small word_less_nat_alt)
  have old: "fb_data s1 ! i = fb_data s ! i" if "i < unat (fb_size s)" for i
    using that D by (auto simp: s1_def word_less_nat_alt)
  let ?d = "take (unat (fb_size s)) (fb_data s1) @ replicate (unat n - unat (fb_size s)) fill @
    drop (max (unat n) (unat (fb_size s))) (fb_data s1)"
  have "fb_resize n fill s = Inr (s1\<lparr>fb_data := ?d, fb_size := n\<rparr>)"
    using le(1) by (simp add: fb_resize_def Let_def flip: s1_def)
  moreover have "fb_wf (s1\<lparr>fb_data := ?d, fb_size := n\<rparr>)"
    using le len n by (auto simp: fb_wf_def word_le_nat_alt)
  moreover have "?d ! i = (if i < unat (fb_size s) then fb_data s ! i else fill)"
    if "i < unat n" for i
    using that le old by (auto simp: nth_append)
  ultimately show thesis
    using that [of "s1\<lparr>fb_data := ?d, fb_size := n\<rparr>"] fill1 by simp
qed

lemma bit_FILL_ONE [simp]: "bit FILL_ONE i \<longleftrightarrow> i < 64"
proof -
  have ones: "FILL_ONE = - 1" by (simp add: FILL_ONE_def)
  show ?thesis unfolding ones by (simp add: bit_simps)
qed

lemma beyond_capacity:
  assumes "fb_inv s"
  shows "uint (fb_size s * 64) \<le> int n \<longleftrightarrow> unat (fb_size s) \<le> n div 64"
proof -
  have "unat (fb_size s * 64) = unat (fb_size s) * 64"
    using fb_invD(3) [OF assms] by (simp add: unat_word_ariths)
  then have "uint (fb_size s * 64) = int (unat (fb_size s) * 64)"
    by (metis uint_nat)
  then have "uint (fb_size s * 64) \<le> int n \<longleftrightarrow> unat (fb_size s) * 64 \<le> n"
    by (simp only: of_nat_le_iff)
  then show ?thesis by (simp only: less_eq_div_iff_mult_less_eq zero_less_numeral)
qed

lemma nat_pos [simp]: "nat (int n div 64) = n div 64" "nat (int n mod 64) = n mod 64"
  by (simp_all add: nat_div_distrib nat_mod_distrib)

lemma FastBitset_Test_mem:
  assumes "fb_inv s"
  shows "FastBitset_Test s (int n) = Inr (fb_mem s n)"
  using fb_invD [OF assms]
  by (simp add: FastBitset_Test_def fb_mem_def Let_def beyond_capacity [OF assms]
      and_exp_eq_0_iff_not_bit push_bit_eq_mult)

lemma fb_resize_grow:
  assumes inv: "fb_inv s" and n: "unat n < 2 ^ 26" "unat (fb_size s) \<le> unat n"
  obtains s' where "fb_resize n (if get_fill_bit s then FILL_ONE else 0) s = Inr s'" "fb_inv s'"
    "fb_size s' = n" "get_fill_bit s' = get_fill_bit s" "fb_mem s' = fb_mem s"
proof -
  obtain s' where s': "fb_resize n (if get_fill_bit s then FILL_ONE else 0) s = Inr s'" "fb_inv s'"
    "fb_size s' = n" "get_fill_bit s' = get_fill_bit s"
    "\<And>i. i < unat n \<Longrightarrow> fb_data s' ! i =
       (if i < unat (fb_size s) then fb_data s ! i else (if get_fill_bit s then FILL_ONE else 0))"
    using fb_resize_ok [of s n "if get_fill_bit s then FILL_ONE else 0"] inv n(1)
    by (auto simp: fb_inv_def)
  have "fb_mem s' = fb_mem s"
    using n s'(3-5) by (auto simp: fb_mem_def fun_eq_iff)
  then show thesis using that s' by blast
qed

lemma fb_mem_update:
  assumes "n div 64 < unat (fb_size s)" "unat (fb_size s) \<le> length (fb_data s)"
  shows "fb_mem (s\<lparr>fb_data := (fb_data s)[n div 64 :=
      (if v then fb_data s ! (n div 64) OR push_bit (n mod 64) 1
       else fb_data s ! (n div 64) AND NOT (push_bit (n mod 64) 1))]\<rparr>) = (fb_mem s)(n := v)"
proof
  fix m
  have "m = n \<longleftrightarrow> m div 64 = n div 64 \<and> m mod 64 = n mod 64"
    by (metis div_mult_mod_eq)
  then show "fb_mem (s\<lparr>fb_data := (fb_data s)[n div 64 :=
      (if v then fb_data s ! (n div 64) OR push_bit (n mod 64) 1
       else fb_data s ! (n div 64) AND NOT (push_bit (n mod 64) 1))]\<rparr>) m = ((fb_mem s)(n := v)) m"
    using assms by (auto simp: fb_mem_def bit_simps nth_list_update)
qed

lemma FastBitset_Set_ok:
  assumes inv: "fb_inv s" and n: "n < 2 ^ 32 - 64"
  obtains s' where "FastBitset_Set s (int n) v = Inr s'" "fb_inv s'" "fb_mem s' = (fb_mem s)(n := v)"
proof -
  let ?w = "word_of_int (int n div 64 + 1) :: u32"
  have "int n div 64 + 1 = int (n div 64 + 1)" by (simp add: zdiv_int)
  then have "?w = word_of_nat (n div 64 + 1)" by (simp only: of_int_of_nat_eq)
  moreover have "n div 64 + 1 < 4294967296" using n by simp
  ultimately have w: "unat ?w = n div 64 + 1"
    by (simp only: unat_word_of_nat_u32)
  obtain s1 where s1: "(if int n \<ge> uint (fb_size s * 64)
      then fb_resize ?w (if get_fill_bit s then FILL_ONE else 0) s else Inr s) = Inr s1"
    "fb_inv s1" "fb_mem s1 = fb_mem s" "n div 64 < unat (fb_size s1)"
  proof (cases "unat (fb_size s) \<le> n div 64")
    case True
    have "unat ?w < 2 ^ 26" "unat (fb_size s) \<le> unat ?w"
      unfolding w using n True by simp_all
    then obtain s' where "fb_resize ?w (if get_fill_bit s then FILL_ONE else 0) s = Inr s'"
      "fb_inv s'" "fb_size s' = ?w" "fb_mem s' = fb_mem s"
      by (rule fb_resize_grow [OF inv]) blast
    then show thesis using that [of s'] True w by (simp add: beyond_capacity [OF inv])
  next
    case False
    then show thesis using that [of s] inv by (simp add: beyond_capacity [OF inv])
  qed
  note D = fb_invD [OF s1(2)]
  let ?s2 = "s1\<lparr>fb_data := (fb_data s1)[n div 64 :=
      (if v then fb_data s1 ! (n div 64) OR push_bit (n mod 64) 1
       else fb_data s1 ! (n div 64) AND NOT (push_bit (n mod 64) 1))]\<rparr>"
  have "FastBitset_Set s (int n) v = Inr ?s2"
    unfolding FastBitset_Set_def Let_def s1(1) using D s1(4) by simp
  moreover have "fb_inv ?s2" using s1(2) by (simp add: fb_inv_def fb_wf_def)
  ultimately show thesis
    using that [of ?s2] fb_mem_update [OF s1(4) D(2), of v] s1(3) by simp
qed

lemma FastBitset_Clear_ok [simp]:
  "fb_inv s \<Longrightarrow> fb_inv (FastBitset_Clear s)" "fb_mem (FastBitset_Clear s) = (\<lambda>_. False)"
  by (simp_all add: FastBitset_Clear_def fb_inv_def fb_wf_def fb_mem_def fun_eq_iff)

lemma fb_mem_all: "fb_size s = 0 \<Longrightarrow> fb_mem s = (\<lambda>_. get_fill_bit s)"
  by (simp add: fb_mem_def fun_eq_iff)

lemma bytes_op_or:
  assumes "k \<le> length (fb_data s)" and "k \<le> length b"
  shows "bytes_op (\<lambda>d. BitOr d (as_bytes b) (k * 8) d) s =
    Inr (s\<lparr>fb_data := map2 (OR) (take k (fb_data s)) (take k b) @ drop k (fb_data s)\<rparr>)"
  using assms by (simp add: bytes_op_def BitOr_words del: as_bytes_append)

lemma bytes_op_and:
  assumes "k \<le> length (fb_data s)" and "k \<le> length b"
  shows "bytes_op (\<lambda>d. BitAnd d (as_bytes b) (k * 8) d) s =
    Inr (s\<lparr>fb_data := map2 (AND) (take k (fb_data s)) (take k b) @ drop k (fb_data s)\<rparr>)"
  using assms by (simp add: bytes_op_def BitAnd_words del: as_bytes_append)

lemma bytes_op_not:
  assumes "k \<le> length (fb_data s)"
  shows "bytes_op (\<lambda>d. BitNot d (k * 8) d) s =
    Inr (s\<lparr>fb_data := map NOT (take k (fb_data s)) @ drop k (fb_data s)\<rparr>)"
  using assms by (simp add: bytes_op_def BitNot_words del: as_bytes_append)

lemma FastBitset_Not_ok:
  assumes "fb_inv s"
  obtains s' where "FastBitset_Not s = Inr s'" "fb_inv s'" "fb_mem s' = (\<lambda>n. \<not> fb_mem s n)"
proof -
  note D = fb_invD [OF assms]
  let ?s' = "set_fill_bit (\<not> get_fill_bit s)
    (s\<lparr>fb_data := map NOT (take (unat (fb_size s)) (fb_data s)) @ drop (unat (fb_size s)) (fb_data s)\<rparr>)"
  have "FastBitset_Not s = Inr ?s'"
    by (simp add: FastBitset_Not_def bytes_op_not [OF D(2)])
  moreover have "fb_inv ?s'" using assms D(2) by (simp add: fb_inv_def fb_wf_def)
  moreover have "fb_mem ?s' = (\<lambda>n. \<not> fb_mem s n)"
    using D(2) by (auto simp: fb_mem_def fun_eq_iff nth_append bit_simps)
  ultimately show thesis by (rule that)
qed

lemma fb_mem_or_prefix:
  assumes "fb_inv s" and "fb_inv a" and "k = min (unat (fb_size s)) (unat (fb_size a))"
    and "get_fill_bit s \<or> unat (fb_size a) \<le> unat (fb_size s)"
    and "get_fill_bit a \<Longrightarrow> get_fill_bit s \<and> unat (fb_size s) \<le> unat (fb_size a)"
  shows "fb_mem (s\<lparr>fb_data := map2 (OR) (take k (fb_data s)) (take k (fb_data a)) @ drop k (fb_data s)\<rparr>) =
    (\<lambda>n. fb_mem s n \<or> fb_mem a n)"
  using fb_invD(2) [OF assms(1)] fb_invD(2) [OF assms(2)] assms(3-5)
  by (auto simp: fb_mem_def fun_eq_iff nth_append bit_simps)

lemma FastBitset_Or_ok:
  assumes s: "fb_inv s" and a: "fb_inv a"
  obtains s' where "FastBitset_Or_ref s a = Inr s'" "fb_inv s'"
    "fb_mem s' = (\<lambda>n. fb_mem s n \<or> fb_mem a n)"
proof -
  note D = fb_invD [OF s] and E = fb_invD [OF a]
  consider (empty) "fb_size a = 0" | (longer) "fb_size a \<noteq> 0" "fb_size a \<le> fb_size s"
    | (shorter) "fb_size s < fb_size a" "fb_size a \<noteq> 0" by force
  then show thesis
  proof cases
    case empty
    then show thesis
      using that [of s] that [of "set_fill_bit True (FastBitset_Clear s)"] s fb_mem_all [of a]
        fb_mem_all [of "set_fill_bit True (FastBitset_Clear s)"]
      by (cases "get_fill_bit a") (simp_all add: FastBitset_Or_ref_def FastBitset_Clear_def fb_inv_def fb_wf_def)
  next
    case longer
    let ?k = "unat (fb_size a)"
    have k: "?k \<le> unat (fb_size s)" using longer by (simp add: word_le_nat_alt)
    define s1 where "s1 = s\<lparr>fb_data := map2 (OR) (take ?k (fb_data s)) (take ?k (fb_data a)) @
      drop ?k (fb_data s)\<rparr>"
    have op: "bytes_op (\<lambda>d. BitOr d (as_bytes (fb_data a)) (?k * 8) d) s = Inr s1"
      unfolding s1_def using D E k by (intro bytes_op_or) simp_all
    have inv1: "fb_inv s1" using s E k D by (simp add: s1_def fb_inv_def fb_wf_def)
    show thesis
    proof (cases "get_fill_bit a")
      case False
      have "fb_mem s1 = (\<lambda>n. fb_mem s n \<or> fb_mem a n)"
        unfolding s1_def using False k by (intro fb_mem_or_prefix [OF s a]) simp_all
      then show thesis
        using that [of s1] False longer inv1 op by (simp add: FastBitset_Or_ref_def)
    next
      case True
      obtain s2 where s2: "fb_resize (fb_size a) 0 s1 = Inr s2" "fb_inv s2"
        "fb_size s2 = fb_size a"
        "\<And>i. i < ?k \<Longrightarrow> fb_data s2 ! i = (if i < unat (fb_size s1) then fb_data s1 ! i else 0)"
        using fb_resize_ok [of s1 "fb_size a" 0] inv1 E(3) by (auto simp: fb_inv_def)
      have "fb_mem (set_fill_bit True s2) = (\<lambda>n. fb_mem s n \<or> fb_mem a n)"
        using s2(3,4) k True D E
        by (auto simp: fb_mem_def fun_eq_iff s1_def nth_append bit_simps)
      then show thesis
        using that [of "set_fill_bit True s2"] True longer op s2
        by (simp add: FastBitset_Or_ref_def)
    qed
  next
    case shorter
    then have k: "unat (fb_size s) < unat (fb_size a)" "\<not> fb_size a \<le> fb_size s"
      by (simp_all add: word_less_nat_alt word_le_nat_alt)
    show thesis
    proof (cases "get_fill_bit s")
      case True
      let ?k = "unat (fb_size s)"
      define s1 where "s1 = s\<lparr>fb_data := map2 (OR) (take ?k (fb_data s)) (take ?k (fb_data a)) @
        drop ?k (fb_data s)\<rparr>"
      have "bytes_op (\<lambda>d. BitOr d (as_bytes (fb_data a)) (?k * 8) d) s = Inr s1"
        unfolding s1_def using D E k by (intro bytes_op_or) simp_all
      moreover have "fb_inv s1" using s E k D by (simp add: s1_def fb_inv_def fb_wf_def)
      moreover have "fb_mem s1 = (\<lambda>n. fb_mem s n \<or> fb_mem a n)"
        unfolding s1_def using True k by (intro fb_mem_or_prefix [OF s a]) simp_all
      ultimately show thesis
        using that [of s1] True shorter k by (simp add: FastBitset_Or_ref_def)
    next
      case False
      let ?k = "unat (fb_size a)"
      obtain s1 where s1: "fb_resize (fb_size a) 0 s = Inr s1" "fb_inv s1"
        "fb_size s1 = fb_size a" "fb_mem s1 = fb_mem s"
        using fb_resize_grow [OF s E(3)] k(1) False by auto
      note D1 = fb_invD [OF s1(2)]
      define s2 where "s2 = set_fill_bit (get_fill_bit a) s1"
      let ?s3 = "s2\<lparr>fb_data := map2 (OR) (take ?k (fb_data s2)) (take ?k (fb_data a)) @
        drop ?k (fb_data s2)\<rparr>"
      have "bytes_op (\<lambda>d. BitOr d (as_bytes (fb_data a)) (?k * 8) d) s2 = Inr ?s3"
        using D1 E s1(3) by (intro bytes_op_or) (simp_all add: s2_def)
      moreover have "fb_inv ?s3" using s1(2,3) E D1 by (simp add: s2_def fb_inv_def fb_wf_def)
      moreover have "fb_mem ?s3 n \<longleftrightarrow> fb_mem s n \<or> fb_mem a n" for n
      proof -
        have "\<not> fb_mem s n" if "\<not> n div 64 < ?k"
          using that k(1) False by (simp add: fb_mem_def)
        then show ?thesis
          using D1 E s1(3) fun_cong [OF s1(4), of n]
          by (auto simp: s2_def fb_mem_def nth_append bit_simps)
      qed
      ultimately show thesis
        using that [of ?s3] False shorter k s1(1)
        by (simp add: FastBitset_Or_ref_def s2_def fun_eq_iff)
    qed
  qed
qed

lemma FastBitset_And_ok:
  assumes s: "fb_inv s" and a: "fb_inv a"
  obtains s' where "FastBitset_And_ref s a = Inr s'" "fb_inv s'"
    "fb_mem s' = (\<lambda>n. fb_mem s n \<and> fb_mem a n)"
proof -
  note D = fb_invD [OF s] and E = fb_invD [OF a]
  let ?k = "unat (fb_size a)"
  consider (empty) "fb_size a = 0" | (longer) "fb_size a \<noteq> 0" "fb_size a \<le> fb_size s"
    | (shorter) "fb_size s < fb_size a" "fb_size a \<noteq> 0" by force
  then show thesis
  proof cases
    case empty
    then show thesis
      using that [of s] that [of "FastBitset_Clear s"] s fb_mem_all [of a]
      by (cases "get_fill_bit a") (simp_all add: FastBitset_And_ref_def)
  next
    case longer
    have k: "?k \<le> unat (fb_size s)" using longer by (simp add: word_le_nat_alt)
    define s1 where "s1 = s\<lparr>fb_data := map2 (AND) (take ?k (fb_data s)) (take ?k (fb_data a)) @
      drop ?k (fb_data s)\<rparr>"
    have op: "bytes_op (\<lambda>d. BitAnd d (as_bytes (fb_data a)) (?k * 8) d) s = Inr s1"
      unfolding s1_def using D E k by (intro bytes_op_and) simp_all
    have len1: "length (fb_data s1) = length (fb_data s)" using E k D by (simp add: s1_def)
    define s2 where "s2 = (if fb_size s > fb_size a \<and> \<not> get_fill_bit a
      then s1\<lparr>fb_data := take ?k (fb_data s1) @ replicate (unat (fb_size s) - ?k) 0 @
             drop (unat (fb_size s)) (fb_data s1)\<rparr> else s1)"
    have eq: "FastBitset_And_ref s a = Inr (set_fill_bit (get_fill_bit s2 \<and> get_fill_bit a) s2)"
      using longer op D len1 by (simp add: FastBitset_And_ref_def s2_def Let_def)
    have s2_simps: "fb_size s2 = fb_size s" "get_fill_bit s2 = get_fill_bit s"
      "get_capacity s2 = get_capacity s" "length (fb_data s2) = length (fb_data s)"
      using D len1 k by (auto simp: s2_def s1_def)
    then have "fb_inv (set_fill_bit (get_fill_bit s2 \<and> get_fill_bit a) s2)"
      using s by (simp add: fb_inv_def fb_wf_def)
    moreover have "fb_mem (set_fill_bit (get_fill_bit s2 \<and> get_fill_bit a) s2) n \<longleftrightarrow>
        fb_mem s n \<and> fb_mem a n" for n
      using D E k s2_simps len1
      by (auto simp: fb_mem_def s2_def s1_def nth_append bit_simps word_less_nat_alt)
    ultimately show thesis using that eq by blast
  next
    case shorter
    then have k: "unat (fb_size s) < ?k" "\<not> fb_size a \<le> fb_size s"
      by (simp_all add: word_less_nat_alt word_le_nat_alt)
    obtain s1 where s1: "fb_resize (fb_size a) (if get_fill_bit s then FILL_ONE else 0) s = Inr s1"
      "fb_inv s1" "fb_size s1 = fb_size a" "get_fill_bit s1 = get_fill_bit s" "fb_mem s1 = fb_mem s"
      using fb_resize_grow [OF s E(3)] k(1) by auto
    note D1 = fb_invD [OF s1(2)]
    define s2 where "s2 = s1\<lparr>fb_data := map2 (AND) (take ?k (fb_data s1)) (take ?k (fb_data a)) @
        drop ?k (fb_data s1)\<rparr>"
    have "bytes_op (\<lambda>d. BitAnd d (as_bytes (fb_data a)) (?k * 8) d) s1 = Inr s2"
      unfolding s2_def using D1 E s1(3) by (intro bytes_op_and) simp_all
    then have "FastBitset_And_ref s a = Inr (set_fill_bit (get_fill_bit s2 \<and> get_fill_bit a) s2)"
      using shorter k s1(1) by (simp add: FastBitset_And_ref_def)
    moreover have "fb_inv (set_fill_bit (get_fill_bit s2 \<and> get_fill_bit a) s2)"
      using s1(2,3) D1 E by (simp add: s2_def fb_inv_def fb_wf_def)
    moreover have "fb_mem (set_fill_bit (get_fill_bit s2 \<and> get_fill_bit a) s2) n \<longleftrightarrow>
        fb_mem s n \<and> fb_mem a n" for n
      using D1 E s1(3,4) fun_cong [OF s1(5), of n]
      by (auto simp: s2_def fb_mem_def nth_append bit_simps split: if_splits)
    ultimately show thesis using that by blast
  qed
qed

section \<open>Serialization\<close>

lemma MAX_words: "MAX_FAST_BITSET_WORDS = 0x7FFFFFFF"
proof -
  have "drop_bit 1 (0xFFFFFFFF :: u32) = 0x7FFFFFFF" by simp
  then show ?thesis by (simp add: MAX_FAST_BITSET_WORDS_def)
qed

context byte_source
begin

lemma FastBitset_Deserialize_yields:
  assumes inv: "fb_inv s" and cs: "FastBitset_Serialize s = Inr cs"
    and r: "rest r = concat cs @ t" "ok r"
  shows "\<exists>s'. yields rest ok (FastBitset_Deserialize rd s0 r) s' t \<and> fb_inv s' \<and>
    fb_size s' = fb_size s \<and> fb_mem s' = fb_mem s"
proof -
  note D = fb_invD [OF inv]
  let ?n = "ucast (fb_size s) :: u64" and ?k = "unat (fb_size s)"
  let ?d = "take ?k (fb_data s)"
  let ?s' = "set_fill_bit (get_fill_bit s) (set_capacity (fb_size s)
    (s0\<lparr>fb_data := ?d, fb_size := fb_size s\<rparr>))"
  have n: "unat ?n = ?k" by (rule unat_ucast_u32_u64)
  have n8: "unat (?n * 8) = ?k * 8" using D(3) by (simp add: unat_word_ariths n)
  have cs': "concat cs @ t = enc_bool (get_fill_bit s) @ enc_u64 ?n @ as_bytes ?d @ t"
    using cs D(2) n take_as_bytes [of ?k "fb_data s"]
    by (auto simp: FastBitset_Serialize_def Let_def WriteObj_def mult.commute word_less_nat_alt
        split: if_splits)
  have guards: "\<not> ?n > MAX_FAST_BITSET_WORDS" "\<not> ?n > 0xFFFFFFFFFFFFFFFF div 8"
    using D(3) n by (simp_all add: MAX_words word_less_nat_alt)
  have payload: "yields rest ok (if ?n > 0 then rd r2 (?n * 8) else Inr ([], r2)) (as_bytes ?d) t"
    if "rest r2 = as_bytes ?d @ t" "ok r2" for r2
    using that D(2) n n8 by (auto simp: word_less_nat_alt intro!: rd_bytes yields_Inr)
  have words: "map dec_u64 (chunks_of 8 (unat ?n) (as_bytes ?d)) = ?d"
    using of_bytes_as_bytes [of ?d] D(2) n by (simp add: of_bytes_def)
  have tail: "yields rest ok
      (bind_r (if ?n > 0 then rd r2 (?n * 8) else Inr ([], r2)) (\<lambda>(bs, r).
         let size32 = ucast ?n :: u32 in
         Inr (set_fill_bit (get_fill_bit s) (set_capacity size32
               (s0\<lparr>fb_data := map dec_u64 (chunks_of 8 (unat ?n) bs), fb_size := size32\<rparr>)), r))) ?s' t"
    if "rest r2 = as_bytes ?d @ t" "ok r2" for r2
    by (rule yields_bind [OF payload [OF that]]) (use words in \<open>auto simp: Let_def\<close>)
  have "yields rest ok (FastBitset_Deserialize rd s0 r) ?s' t"
    unfolding FastBitset_Deserialize_def
  proof (rule yields_bind [OF ReadObj_bool])
    show "rest r = enc_bool (get_fill_bit s) @ enc_u64 ?n @ as_bytes ?d @ t" "ok r"
      using r cs' by simp_all
  next
    fix r1
    assume "rest r1 = enc_u64 ?n @ as_bytes ?d @ t" "ok r1"
    then show "yields rest ok (case (get_fill_bit s, r1) of (fill_bit, r) \<Rightarrow>
       bind_r (ReadObj rd 8 dec_u64 r) (\<lambda>(n, r).
         if n > MAX_FAST_BITSET_WORDS then Inl (Vsag READ_ERROR)
         else if n > 0xFFFFFFFFFFFFFFFF div 8 then Inl (Vsag READ_ERROR)
         else bind_r (if n > 0 then rd r (n * 8) else Inr ([], r)) (\<lambda>(bs, r).
             let size32 = ucast n :: u32 in
             Inr (set_fill_bit fill_bit (set_capacity size32
                    (s0\<lparr>fb_data := map dec_u64 (chunks_of 8 (unat n) bs), fb_size := size32\<rparr>)), r)))) ?s' t"
      unfolding prod.case
      by (rule yields_bind [OF ReadObj_u64])
        (simp only: prod.case if_not_P [OF guards(1)] if_not_P [OF guards(2)] tail)
  qed
  moreover have "fb_inv ?s'" "fb_mem ?s' = fb_mem s"
    using D by (auto simp: fb_inv_def fb_wf_def fb_mem_def capacity_small word_le_nat_alt fun_eq_iff)
  ultimately show ?thesis by auto
qed

end

section \<open>The interface of a bitset\<close>

text \<open>
  \<open>ComputableBitset\<close> is the interface the attribute index uses. Its default loops over a vector
  of pointers, of \<^verbatim>\<open>src/src/impl/bitset/computable_bitset.cpp\<close>, are written over the pointer
  overload \<open>op\<close>. A null pointer stands for the empty set in both of them.
\<close>

fun ComputableBitset_vec ::
    "('b \<Rightarrow> 'b option \<Rightarrow> 'b result) \<Rightarrow> 'b \<Rightarrow> 'b option list \<Rightarrow> 'b result" where
  "ComputableBitset_vec op s [] = Inr s"
| "ComputableBitset_vec op s (ptr # ptrs) = bind_r (op s ptr) (\<lambda>s. ComputableBitset_vec op s ptrs)"

definition ptr_mem :: "('b \<Rightarrow> nat \<Rightarrow> bool) \<Rightarrow> 'b option \<Rightarrow> nat \<Rightarrow> bool" where
  "ptr_mem mem p n = (case p of None \<Rightarrow> False | Some s \<Rightarrow> mem s n)"

locale computable_bitset =
  fixes inv :: "'b \<Rightarrow> bool" and mem :: "'b \<Rightarrow> nat \<Rightarrow> bool"
    and or_op :: "'b \<Rightarrow> 'b option \<Rightarrow> 'b result" and and_op :: "'b \<Rightarrow> 'b option \<Rightarrow> 'b result"
    and not_op :: "'b \<Rightarrow> 'b result"
  assumes or_ok: "inv s \<Longrightarrow> pred_option inv p \<Longrightarrow>
      \<exists>s'. or_op s p = Inr s' \<and> inv s' \<and> mem s' = (\<lambda>n. mem s n \<or> ptr_mem mem p n)"
    and and_ok: "inv s \<Longrightarrow> pred_option inv p \<Longrightarrow>
      \<exists>s'. and_op s p = Inr s' \<and> inv s' \<and> mem s' = (\<lambda>n. mem s n \<and> ptr_mem mem p n)"
    and not_ok: "inv s \<Longrightarrow> \<exists>s'. not_op s = Inr s' \<and> inv s' \<and> mem s' = (\<lambda>n. \<not> mem s n)"
begin

lemma or_vec_ok:
  assumes "inv s" and "\<forall>p \<in> set ps. pred_option inv p"
  shows "\<exists>s'. ComputableBitset_vec or_op s ps = Inr s' \<and> inv s' \<and>
    mem s' = (\<lambda>n. mem s n \<or> (\<exists>p \<in> set ps. ptr_mem mem p n))"
  using assms
proof (induction ps arbitrary: s)
  case (Cons p ps)
  obtain s1 where "or_op s p = Inr s1" "inv s1" "mem s1 = (\<lambda>n. mem s n \<or> ptr_mem mem p n)"
    using or_ok Cons.prems by fastforce
  then show ?case using Cons.IH [of s1] Cons.prems(2) by auto
qed simp

lemma and_vec_ok:
  assumes "inv s" and "\<forall>p \<in> set ps. pred_option inv p"
  shows "\<exists>s'. ComputableBitset_vec and_op s ps = Inr s' \<and> inv s' \<and>
    mem s' = (\<lambda>n. mem s n \<and> (\<forall>p \<in> set ps. ptr_mem mem p n))"
  using assms
proof (induction ps arbitrary: s)
  case (Cons p ps)
  obtain s1 where "and_op s p = Inr s1" "inv s1" "mem s1 = (\<lambda>n. mem s n \<and> ptr_mem mem p n)"
    using and_ok Cons.prems by fastforce
  then show ?case using Cons.IH [of s1] Cons.prems(2) by auto
qed simp

lemma diff_ok:
  assumes "inv s" and "inv a"
  shows "\<exists>s'. bind_r (not_op a) (\<lambda>a. and_op s (Some a)) = Inr s' \<and> inv s' \<and>
    mem s' = (\<lambda>n. mem s n \<and> \<not> mem a n)"
proof -
  obtain a' where "not_op a = Inr a'" "inv a'" "mem a' = (\<lambda>n. \<not> mem a n)"
    using not_ok [OF assms(2)] by blast
  then show ?thesis using and_ok [OF assms(1), of "Some a'"] by (auto simp: ptr_mem_def)
qed

end

interpretation fb: computable_bitset fb_inv fb_mem FastBitset_Or_ptr FastBitset_And_ptr FastBitset_Not
proof
  fix s :: FastBitset and p
  assume s: "fb_inv s"
  show "\<exists>s'. FastBitset_Or_ptr s p = Inr s' \<and> fb_inv s' \<and>
      fb_mem s' = (\<lambda>n. fb_mem s n \<or> ptr_mem fb_mem p n)" if "pred_option fb_inv p"
    using that s by (cases p) (auto simp: FastBitset_Or_ptr_def ptr_mem_def elim: FastBitset_Or_ok [OF s])
  show "\<exists>s'. FastBitset_And_ptr s p = Inr s' \<and> fb_inv s' \<and>
      fb_mem s' = (\<lambda>n. fb_mem s n \<and> ptr_mem fb_mem p n)" if "pred_option fb_inv p"
    using that s by (cases p) (auto simp: FastBitset_And_ptr_def ptr_mem_def elim: FastBitset_And_ok [OF s])
  show "\<exists>s'. FastBitset_Not s = Inr s' \<and> fb_inv s' \<and> fb_mem s' = (\<lambda>n. \<not> fb_mem s n)"
    using s by (auto elim: FastBitset_Not_ok)
qed

lemma FastBitset_Or_vec_eq: "FastBitset_Or_vec s ps = ComputableBitset_vec FastBitset_Or_ptr s ps"
  by (induction s ps rule: FastBitset_Or_vec.induct) (auto simp: FastBitset_Or_ptr_def [of _ "Some _"] FastBitset_Or_ptr_def [of _ None] intro: bind_r_cong)

lemma FastBitset_And_vec_ok:
  assumes "fb_inv s" and "\<forall>p \<in> set ps. pred_option fb_inv p"
  shows "\<exists>s'. FastBitset_And_vec s ps = Inr s' \<and> fb_inv s' \<and>
    fb_mem s' = (\<lambda>n. fb_mem s n \<and> (\<forall>p \<in> set ps. ptr_mem fb_mem p n))"
  using assms
proof (induction s ps rule: FastBitset_And_vec.induct)
  case (2 s ps)
  then show ?case by (auto simp: ptr_mem_def fun_eq_iff)
next
  case (3 s a ps)
  obtain s1 where "FastBitset_And_ref s a = Inr s1" "fb_inv s1"
    "fb_mem s1 = (\<lambda>n. fb_mem s n \<and> fb_mem a n)"
    using 3(2,3) by (auto elim: FastBitset_And_ok)
  then show ?case using 3 by (auto simp: ptr_mem_def fun_eq_iff)
qed simp

section \<open>Properties\<close>

text \<open>\<open>Set\<close> on a position below \<open>2 ^ 32 - 64\<close> stays inside its buffer, keeps the invariant,
  and changes the answer of \<open>Test\<close> at that position only, also when it has to grow the
  array and whatever the value of the bits beyond the words in use.\<close>

lemma fast_bitset_set_test:
  assumes "fb_inv s" and "n < 2 ^ 32 - 64"
  shows "\<exists>s'. FastBitset_Set s (int n) v = Inr s' \<and> fb_inv s' \<and>
    (\<forall>m. FastBitset_Test s' (int m) = (if m = n then Inr v else FastBitset_Test s (int m)))"
proof -
  obtain s' where "FastBitset_Set s (int n) v = Inr s'" "fb_inv s'" "fb_mem s' = (fb_mem s)(n := v)"
    by (rule FastBitset_Set_ok [OF assms])
  then show ?thesis using assms(1) by (auto simp: FastBitset_Test_mem)
qed

lemma fast_bitset_set_test_example:
  "\<exists>s'. FastBitset_Set FastBitset_new (int 130) True = Inr s' \<and> fb_inv s' \<and>
    (\<forall>m. FastBitset_Test s' (int m) =
      (if m = 130 then Inr True else FastBitset_Test FastBitset_new (int m)))"
  by (rule fast_bitset_set_test) simp_all

text \<open>C17: \<open>Or\<close>, \<open>And\<close> and \<open>Not\<close> are union, intersection and complement of the infinite
  bit vectors the operands stand for, for operands of any two lengths and fill bits; none of them
  leaves its buffers, and each keeps the invariant.\<close>

theorem fast_bitset_boolean_algebra:
  assumes "fb_inv s" and "fb_inv a"
  shows "(\<exists>s'. FastBitset_Or_ref s a = Inr s' \<and> fb_inv s' \<and> (\<forall>n. fb_mem s' n \<longleftrightarrow> fb_mem s n \<or> fb_mem a n)) \<and>
    (\<exists>s'. FastBitset_And_ref s a = Inr s' \<and> fb_inv s' \<and> (\<forall>n. fb_mem s' n \<longleftrightarrow> fb_mem s n \<and> fb_mem a n)) \<and>
    (\<exists>s'. FastBitset_Not s = Inr s' \<and> fb_inv s' \<and> (\<forall>n. fb_mem s' n \<longleftrightarrow> \<not> fb_mem s n))"
  using fb.or_ok [OF assms(1), of "Some a"] fb.and_ok [OF assms(1), of "Some a"]
    fb.not_ok [OF assms(1)] assms(2)
  by (auto simp: FastBitset_Or_ptr_def FastBitset_And_ptr_def ptr_mem_def)

definition fb_sample :: FastBitset where
  "fb_sample = \<lparr>fb_data = [5], fb_size = 1, fb_capacity = 0x80000001\<rparr>"

lemma fb_sample_inv: "fb_inv fb_sample"
  by (simp add: fb_sample_def fb_inv_def fb_wf_def get_capacity_def)

theorem fast_bitset_boolean_algebra_witness:
  "(\<exists>s'. FastBitset_Or_ref fb_sample FastBitset_new = Inr s' \<and> fb_inv s' \<and>
      (\<forall>n. fb_mem s' n \<longleftrightarrow> fb_mem fb_sample n \<or> fb_mem FastBitset_new n))"
  by (rule fast_bitset_boolean_algebra [THEN conjunct1]) (simp_all add: fb_sample_inv)

text \<open>The loops over a vector of bitset pointers compute the union and the intersection of
  all operands, a null pointer counting as the empty set. Both give the same set as the loops
  inherited from \<open>ComputableBitset\<close>; for \<open>And\<close> this includes the early return on a null pointer.\<close>

lemma fast_bitset_vector_ops:
  assumes "fb_inv s" and "\<forall>p \<in> set ps. pred_option fb_inv p"
  shows "(\<exists>s'. FastBitset_Or_vec s ps = Inr s' \<and> fb_inv s' \<and>
      ComputableBitset_vec FastBitset_Or_ptr s ps = Inr s' \<and>
      (\<forall>n. fb_mem s' n \<longleftrightarrow> fb_mem s n \<or> (\<exists>p \<in> set ps. ptr_mem fb_mem p n))) \<and>
    (\<exists>s' d. FastBitset_And_vec s ps = Inr s' \<and> fb_inv s' \<and>
      ComputableBitset_vec FastBitset_And_ptr s ps = Inr d \<and> fb_mem d = fb_mem s' \<and>
      (\<forall>n. fb_mem s' n \<longleftrightarrow> fb_mem s n \<and> (\<forall>p \<in> set ps. ptr_mem fb_mem p n)))"
proof
  show "\<exists>s'. FastBitset_Or_vec s ps = Inr s' \<and> fb_inv s' \<and>
      ComputableBitset_vec FastBitset_Or_ptr s ps = Inr s' \<and>
      (\<forall>n. fb_mem s' n \<longleftrightarrow> fb_mem s n \<or> (\<exists>p \<in> set ps. ptr_mem fb_mem p n))"
    using fb.or_vec_ok [OF assms] unfolding FastBitset_Or_vec_eq by auto
  obtain d where "ComputableBitset_vec FastBitset_And_ptr s ps = Inr d"
    "fb_mem d = (\<lambda>n. fb_mem s n \<and> (\<forall>p \<in> set ps. ptr_mem fb_mem p n))"
    using fb.and_vec_ok [OF assms] by blast
  then show "\<exists>s' d. FastBitset_And_vec s ps = Inr s' \<and> fb_inv s' \<and>
      ComputableBitset_vec FastBitset_And_ptr s ps = Inr d \<and> fb_mem d = fb_mem s' \<and>
      (\<forall>n. fb_mem s' n \<longleftrightarrow> fb_mem s n \<and> (\<forall>p \<in> set ps. ptr_mem fb_mem p n))"
    using FastBitset_And_vec_ok [OF assms] by auto
qed

lemma fast_bitset_vector_ops_example:
  "(\<exists>s'. FastBitset_Or_vec fb_sample [None, Some FastBitset_new] = Inr s' \<and>
      ComputableBitset_vec FastBitset_Or_ptr fb_sample [None, Some FastBitset_new] = Inr s' \<and>
      (\<forall>n. fb_mem s' n \<longleftrightarrow> fb_mem fb_sample n \<or> fb_mem FastBitset_new n)) \<and>
    (\<exists>s' d. FastBitset_And_vec fb_sample [Some fb_sample, None] = Inr s' \<and>
      ComputableBitset_vec FastBitset_And_ptr fb_sample [Some fb_sample, None] = Inr d \<and>
      fb_mem d = fb_mem s' \<and> (\<forall>n. \<not> fb_mem s' n))"
proof
  have ok: "\<forall>p \<in> set [None, Some FastBitset_new]. pred_option fb_inv p"
      "\<forall>p \<in> set [Some fb_sample, None]. pred_option fb_inv p"
    by (simp_all add: fb_sample_inv)
  show "\<exists>s'. FastBitset_Or_vec fb_sample [None, Some FastBitset_new] = Inr s' \<and>
      ComputableBitset_vec FastBitset_Or_ptr fb_sample [None, Some FastBitset_new] = Inr s' \<and>
      (\<forall>n. fb_mem s' n \<longleftrightarrow> fb_mem fb_sample n \<or> fb_mem FastBitset_new n)"
    using fast_bitset_vector_ops [OF fb_sample_inv ok(1), THEN conjunct1] by (auto simp: ptr_mem_def)
  show "\<exists>s' d. FastBitset_And_vec fb_sample [Some fb_sample, None] = Inr s' \<and>
      ComputableBitset_vec FastBitset_And_ptr fb_sample [Some fb_sample, None] = Inr d \<and>
      fb_mem d = fb_mem s' \<and> (\<forall>n. \<not> fb_mem s' n)"
    using fast_bitset_vector_ops [OF fb_sample_inv ok(2), THEN conjunct2] by (auto simp: ptr_mem_def)
qed

text \<open>What \<open>Serialize\<close> writes, \<open>Deserialize\<close> reads back into any bitset: the result has the
  invariant, the same number of words and the same answer at every position, and the stream is left
  right behind the written bytes.\<close>

lemma fast_bitset_roundtrip:
  assumes "fb_inv s" and "FastBitset_Serialize s = Inr cs" and "length (concat cs @ t) < 2 ^ 63"
  shows "\<exists>s' r. FastBitset_Deserialize ForwardStreamReader_Read s0 (open_forward (concat cs @ t)) =
      Inr (s', r) \<and> fr_istream r = t \<and> fb_inv s' \<and> fb_size s' = fb_size s \<and>
      (\<forall>n. FastBitset_Test s' (int n) = FastBitset_Test s (int n))"
  using fwd.FastBitset_Deserialize_yields [OF assms(1,2), of "open_forward (concat cs @ t)" t s0]
    assms(1,3)
  by (auto simp: yields_def FastBitset_Test_mem)

lemma fast_bitset_roundtrip_example:
  "\<exists>s' r. FastBitset_Deserialize ForwardStreamReader_Read FastBitset_new
        (open_forward (concat [enc_bool True, enc_u64 1, as_bytes [5]] @ [9])) = Inr (s', r) \<and>
      fr_istream r = [9] \<and> fb_inv s' \<and> fb_size s' = fb_size fb_sample \<and>
      (\<forall>n. FastBitset_Test s' (int n) = FastBitset_Test fb_sample (int n))"
  by (rule fast_bitset_roundtrip [OF fb_sample_inv])
    (simp_all add: FastBitset_Serialize_def fb_sample_def WriteObj_def get_fill_bit_def)

text \<open>C22: the bound on positions is needed: setting the bit at position \<open>2 ^ 32 - 1\<close> makes the
  array \<open>2 ^ 26\<close> words long, \<open>size_ * 64\<close> wraps to 0, and from then on \<open>Test\<close> answers the
  fill bit at every position, whatever was set before.\<close>

theorem fast_bitset_position_wrap:
  assumes "fb_inv s"
  shows "\<exists>s'. FastBitset_Set s (2 ^ 32 - 1) v = Inr s' \<and>
    (\<forall>n. FastBitset_Test s' (int n) = Inr (get_fill_bit s))"
proof -
  note D = fb_invD [OF assms]
  let ?w = "word_of_int ((2 ^ 32 - 1) div 64 + 1) :: u32"
    and ?f = "if get_fill_bit s then FILL_ONE else 0"
  have w: "?w = 0x4000000" by simp
  have cap: "uint (fb_size s * 64) \<le> 2 ^ 32 - 1"
    using beyond_capacity [OF assms, of "2 ^ 32 - 1"] D(3) by simp
  obtain s1 where s1: "fb_resize ?w ?f s = Inr s1" "fb_wf s1" "fb_size s1 = ?w"
    "get_fill_bit s1 = get_fill_bit s"
    using fb_resize_ok [of s ?w ?f] assms by (auto simp: fb_inv_def)
  have "2 ^ 26 \<le> length (fb_data s1)"
    using s1(2,3) by (simp add: fb_wf_def word_le_nat_alt)
  then have "\<exists>d. FastBitset_Set s (2 ^ 32 - 1) v = Inr (s1\<lparr>fb_data := d\<rparr>)"
    using cap s1(1) by (simp add: FastBitset_Set_def Let_def) blast
  then obtain d where "FastBitset_Set s (2 ^ 32 - 1) v = Inr (s1\<lparr>fb_data := d\<rparr>)" ..
  moreover have "FastBitset_Test (s1\<lparr>fb_data := d\<rparr>) (int n) = Inr (get_fill_bit s)" for n
    using s1(3,4) by (simp add: FastBitset_Test_def Let_def)
  ultimately show ?thesis by blast
qed

theorem fast_bitset_position_wrap_witness:
  "\<exists>s'. FastBitset_Set FastBitset_new (2 ^ 32 - 1) True = Inr s' \<and>
    (\<forall>n. FastBitset_Test s' (int n) = Inr (get_fill_bit FastBitset_new))"
  by (rule fast_bitset_position_wrap) simp

end
