(* ===== verification/LabelTable.thy ===== *)
theory LabelTable
  imports Streams
begin

text \<open>
  The label table of \<^verbatim>\<open>src/src/impl/label_table/label_table.{h,cpp}\<close> and its reverse map
  \<^verbatim>\<open>src/src/impl/label_table/label_remap.{h,cpp}\<close>.

  The table maps inner ids to labels; a hash map takes labels back to ids while the index is
  mutable; a set of ids records what was removed. The two hash map classes behind
  \<open>LabelRemap\<close> are finite maps. The duplicate tracker is an abstract interface in the source: its
  state is a type parameter and its virtual functions are arguments of the operations that call
  them. Mutexes are not modelled: each operation is one atomic step.
\<close>

section \<open>The reverse map\<close>

text \<open>
  \<open>LabelRemap\<close> owns exactly one of two hash maps, chosen in its constructor; the constructor of
  the datatype is that choice.
\<close>

datatype LabelRemapType = ROBIN | PG

datatype LabelRemap =
    robin_map "LabelType \<rightharpoonup> InnerIdType"
  | pg_map "LabelType \<rightharpoonup> InnerIdType"

definition LabelRemap_new :: "LabelRemapType \<Rightarrow> LabelRemap" where
  "LabelRemap_new remap_type =
     (if remap_type = ROBIN then robin_map Map.empty else pg_map Map.empty)"

fun LabelRemap_Reset :: "LabelRemap \<Rightarrow> LabelRemap" where
  "LabelRemap_Reset (robin_map m) = robin_map Map.empty"
| "LabelRemap_Reset (pg_map m) = pg_map Map.empty"

fun LabelRemap_Clear :: "LabelRemap \<Rightarrow> LabelRemap" where
  "LabelRemap_Clear (pg_map m) = pg_map Map.empty"
| "LabelRemap_Clear (robin_map m) = robin_map Map.empty"

fun LabelRemap_Size :: "LabelRemap \<Rightarrow> nat" where
  "LabelRemap_Size (pg_map m) = card (dom m)"
| "LabelRemap_Size (robin_map m) = card (dom m)"

fun LabelRemap_InsertOrAssign :: "LabelRemap \<Rightarrow> LabelType \<Rightarrow> InnerIdType \<Rightarrow> LabelRemap" where
  "LabelRemap_InsertOrAssign (pg_map m) label inner_id = pg_map (m(label \<mapsto> inner_id))"
| "LabelRemap_InsertOrAssign (robin_map m) label inner_id = robin_map (m(label \<mapsto> inner_id))"

fun LabelRemap_Emplace :: "LabelRemap \<Rightarrow> LabelType \<Rightarrow> InnerIdType \<Rightarrow> LabelRemap" where
  "LabelRemap_Emplace (pg_map m) label inner_id =
     pg_map (if m label = None then m(label \<mapsto> inner_id) else m)"
| "LabelRemap_Emplace (robin_map m) label inner_id =
     robin_map (if m label = None then m(label \<mapsto> inner_id) else m)"

fun LabelRemap_Erase :: "LabelRemap \<Rightarrow> LabelType \<Rightarrow> bool \<times> LabelRemap" where
  "LabelRemap_Erase (pg_map m) label = (m label \<noteq> None, pg_map (m(label := None)))"
| "LabelRemap_Erase (robin_map m) label = (m label \<noteq> None, robin_map (m(label := None)))"

text \<open>\<open>Find\<close> leaves its output argument alone when it fails.\<close>

fun LabelRemap_Find :: "LabelRemap \<Rightarrow> LabelType \<Rightarrow> InnerIdType \<Rightarrow> bool \<times> InnerIdType" where
  "LabelRemap_Find (pg_map m) label inner_id =
     (case m label of None \<Rightarrow> (False, inner_id) | Some i \<Rightarrow> (True, i))"
| "LabelRemap_Find (robin_map m) label inner_id =
     (case m label of None \<Rightarrow> (False, inner_id) | Some i \<Rightarrow> (True, i))"

section \<open>The table\<close>

record 'd LabelTable =
  label_table :: "LabelType list"
  is_legacy_duplicate_format :: bool
  use_reverse_map :: bool
  label_remap :: LabelRemap
  duplicate_tracker :: "'d option"
  total_count :: u64
  deleted_ids :: "InnerIdType set"
  source_id_table :: "string list"

definition LabelTable_new :: "bool \<Rightarrow> LabelRemapType \<Rightarrow> 'd LabelTable" where
  "LabelTable_new use_rev remap_type =
     \<lparr>label_table = [], is_legacy_duplicate_format = False, use_reverse_map = use_rev,
      label_remap = LabelRemap_new remap_type, duplicate_tracker = None, total_count = 0,
      deleted_ids = {}, source_id_table = []\<rparr>"

text \<open>\<open>id + 1\<close> is computed in \<open>uint32_t\<close>.\<close>

definition LabelTable_Insert :: "'d LabelTable \<Rightarrow> InnerIdType \<Rightarrow> LabelType \<Rightarrow> 'd LabelTable result" where
  "LabelTable_Insert t iid label =
     (let t = (if use_reverse_map t
               then t\<lparr>label_remap := LabelRemap_InsertOrAssign (label_remap t) label iid\<rparr> else t);
          t = (if unat (iid + 1) > length (label_table t)
               then t\<lparr>label_table := vresize (unat (iid + 1)) 0 (label_table t)\<rparr> else t) in
      if unat iid < length (label_table t) then
        Inr (t\<lparr>label_table := (label_table t)[unat iid := label], total_count := total_count t + 1\<rparr>)
      else Inl UndefinedBehaviour)"

definition LabelTable_SetImmutable :: "'d LabelTable \<Rightarrow> 'd LabelTable" where
  "LabelTable_SetImmutable t = t\<lparr>use_reverse_map := False, label_remap := LabelRemap_Reset (label_remap t)\<rparr>"

definition LabelTable_IsRemoved :: "'d LabelTable \<Rightarrow> InnerIdType \<Rightarrow> bool" where
  "LabelTable_IsRemoved t iid \<longleftrightarrow> iid \<in> deleted_ids t"

definition LabelTable_EraseFromDeletedIds :: "'d LabelTable \<Rightarrow> InnerIdType \<Rightarrow> 'd LabelTable" where
  "LabelTable_EraseFromDeletedIds t iid = t\<lparr>deleted_ids := deleted_ids t - {iid}\<rparr>"

text \<open>\<open>std::find\<close> over the table: the offset of the first match, the length when there is none.\<close>

fun find_offset :: "LabelType \<Rightarrow> LabelType list \<Rightarrow> nat" where
  "find_offset x [] = 0"
| "find_offset x (y # ys) = (if y = x then 0 else Suc (find_offset x ys))"

definition get_id_by_label_with_reverse_map :: "'d LabelTable \<Rightarrow> LabelType \<Rightarrow> InnerIdType" where
  "get_id_by_label_with_reverse_map t label =
     (case LabelRemap_Find (label_remap t) label INVALID_ID of
        (found, inner_id) \<Rightarrow> if \<not> found then INVALID_ID else inner_id)"

definition get_id_by_label_with_label_table :: "'d LabelTable \<Rightarrow> LabelType \<Rightarrow> InnerIdType" where
  "get_id_by_label_with_label_table t label =
     (let offset = find_offset label (label_table t) in
      if offset = length (label_table t) then INVALID_ID else word_of_nat offset)"

definition LabelTable_CheckLabel :: "'d LabelTable \<Rightarrow> LabelType \<Rightarrow> bool" where
  "LabelTable_CheckLabel t label =
     (let (is_exist, inner_id) =
            (if use_reverse_map t then LabelRemap_Find (label_remap t) label INVALID_ID
             else (let offset = find_offset label (label_table t) in
                   (offset \<noteq> length (label_table t), word_of_nat offset))) in
      if \<not> is_exist then False else inner_id \<notin> deleted_ids t)"

definition LabelTable_TryGetIdByLabel :: "'d LabelTable \<Rightarrow> LabelType \<Rightarrow> bool \<Rightarrow> bool \<times> InnerIdType" where
  "LabelTable_TryGetIdByLabel t label return_even_removed =
     (let iid = (if use_reverse_map t then get_id_by_label_with_reverse_map t label
                else get_id_by_label_with_label_table t label) in
      if iid = INVALID_ID then (False, 0)
      else if \<not> return_even_removed \<and> iid \<in> deleted_ids t then (False, 0)
      else (True, iid))"

definition LabelTable_GetIdByLabel :: "'d LabelTable \<Rightarrow> LabelType \<Rightarrow> bool \<Rightarrow> InnerIdType result" where
  "LabelTable_GetIdByLabel t label return_even_removed =
     (case LabelTable_TryGetIdByLabel t label return_even_removed of
        (success, inner_id) \<Rightarrow> if \<not> success then Inl (Vsag INTERNAL_ERROR) else Inr inner_id)"

fun mark_ids :: "InnerIdType list \<Rightarrow> InnerIdType set \<Rightarrow> u32 \<Rightarrow> InnerIdType set \<times> u32" where
  "mark_ids [] deleted removed_count = (deleted, removed_count)"
| "mark_ids (iid # ids) deleted removed_count =
     mark_ids ids (insert iid deleted) (if iid \<notin> deleted then removed_count + 1 else removed_count)"

definition LabelTable_MarkRemove :: "'d LabelTable \<Rightarrow> LabelType list \<Rightarrow> u32 \<times> 'd LabelTable" where
  "LabelTable_MarkRemove t labels =
     (let ids = filter (\<lambda>iid. iid \<noteq> INVALID_ID)
            (map (\<lambda>label. if use_reverse_map t then get_id_by_label_with_reverse_map t label
                          else get_id_by_label_with_label_table t label) labels);
          (deleted, removed_count) = mark_ids ids (deleted_ids t) 0 in
      (removed_count, t\<lparr>deleted_ids := deleted\<rparr>))"

text \<open>
  \<open>UpdateLabel\<close> can throw after it has changed the table, so it returns the state beside the
  result.
\<close>

definition LabelTable_UpdateLabel :: "'d LabelTable \<Rightarrow> LabelType \<Rightarrow> LabelType \<Rightarrow> 'd LabelTable \<times> unit result" where
  "LabelTable_UpdateLabel t old_label new_label =
     (if LabelTable_CheckLabel t new_label then (t, Inl (Vsag INTERNAL_ERROR))
      else
        (let found = (old_label \<in> set (label_table t));
             t = t\<lparr>label_table := map (\<lambda>l. if l = old_label then new_label else l) (label_table t)\<rparr> in
         if \<not> found then (t, Inl (Vsag INTERNAL_ERROR))
         else if use_reverse_map t then
           (let (remap_found, internal_id) = LabelRemap_Find (label_remap t) old_label INVALID_ID in
            if \<not> remap_found then (t, Inl (Vsag INVALID_ARGUMENT))
            else (t\<lparr>label_remap := LabelRemap_InsertOrAssign
                      (snd (LabelRemap_Erase (label_remap t) old_label)) new_label internal_id\<rparr>, Inr ()))
         else (t, Inr ())))"

definition LabelTable_GetLabelById :: "'d LabelTable \<Rightarrow> InnerIdType \<Rightarrow> LabelType result" where
  "LabelTable_GetLabelById t inner_id =
     (if unat inner_id \<ge> length (label_table t) then Inl (Vsag INTERNAL_ERROR)
      else Inr (label_table t ! unat inner_id))"

definition LabelTable_Serialize :: "'d LabelTable \<Rightarrow> byte list list" where
  "LabelTable_Serialize t = WriteVector enc_u64 (label_table t)"

text \<open>
  The loop that rebuilds the reverse map counts in \<open>InnerIdType\<close>; with \<open>2 ^ 32\<close> labels or
  more its counter wraps and it never ends, which the model gives as \<open>UndefinedBehaviour\<close>.
\<close>

definition rebuild_remap :: "LabelRemap \<Rightarrow> LabelType list \<Rightarrow> LabelRemap result" where
  "rebuild_remap remap labels =
     (if length labels < 2 ^ 32 then
        Inr (fold (\<lambda>iid m. LabelRemap_InsertOrAssign m (labels ! iid) (word_of_nat iid))
               [0..<length labels] (LabelRemap_Clear remap))
      else Inl UndefinedBehaviour)"

definition LabelTable_Deserialize_rvalue :: "'r read_op \<Rightarrow> 'd LabelTable \<Rightarrow> 'r \<Rightarrow> ('d LabelTable \<times> 'r) result" where
  "LabelTable_Deserialize_rvalue rd t r =
     bind_r (ReadVector rd 8 dec_u64 r) (\<lambda>(labels, r).
     bind_r (if use_reverse_map t then rebuild_remap (label_remap t) labels else Inr (label_remap t))
       (\<lambda>remap. Inr (t\<lparr>label_table := labels, label_remap := remap,
                      total_count := word_of_nat (length labels)\<rparr>, r)))"

definition LabelTable_Deserialize ::
    "('d \<Rightarrow> 'r \<Rightarrow> u64 \<Rightarrow> ('d \<times> 'r) result) \<Rightarrow> 'r read_op \<Rightarrow> 'd LabelTable \<Rightarrow> 'r \<Rightarrow> ('d LabelTable \<times> 'r) result" where
  "LabelTable_Deserialize dt_legacy rd t r =
     bind_r (ReadVector rd 8 dec_u64 r) (\<lambda>(labels, r).
     bind_r (if use_reverse_map t then rebuild_remap (label_remap t) labels else Inr (label_remap t))
       (\<lambda>remap.
     bind_r (if is_legacy_duplicate_format t \<and> duplicate_tracker t \<noteq> None then
               bind_r (dt_legacy (the (duplicate_tracker t)) r (word_of_nat (length labels)))
                 (\<lambda>(d, r). Inr (Some d, r))
             else Inr (duplicate_tracker t, r))
       (\<lambda>(dt, r). Inr (t\<lparr>label_table := labels, label_remap := remap, duplicate_tracker := dt,
                        is_legacy_duplicate_format := False,
                        total_count := word_of_nat (length labels)\<rparr>, r))))"

text \<open>\<open>new_size < total_count_\<close> compares in \<open>uint64_t\<close>.\<close>

definition LabelTable_Resize :: "'d LabelTable \<Rightarrow> u64 \<Rightarrow> 'd LabelTable" where
  "LabelTable_Resize t new_size =
     (if new_size < total_count t then t
      else t\<lparr>label_table := vresize (unat new_size) 0 (label_table t)\<rparr>)"

fun merge_labels ::
    "(LabelType \<Rightarrow> bool \<times> LabelType) \<Rightarrow> LabelType list \<Rightarrow> u64 \<Rightarrow> nat \<Rightarrow> nat \<Rightarrow> 'd LabelTable \<Rightarrow>
     'd LabelTable result" where
  "merge_labels id_map other_labels base i 0 t = Inr t"
| "merge_labels id_map other_labels base i (Suc n) t =
     (if i < length other_labels \<and> unat (word_of_nat i + base) < length (label_table t) then
        (let new_label = snd (id_map (other_labels ! i));
             pos = word_of_nat i + base;
             t = t\<lparr>label_table := (label_table t)[unat pos := new_label]\<rparr>;
             t = (if use_reverse_map t
                  then t\<lparr>label_remap := LabelRemap_InsertOrAssign (label_remap t) new_label (ucast pos)\<rparr>
                  else t) in
         merge_labels id_map other_labels base (Suc i) n t)
      else Inl UndefinedBehaviour)"

definition LabelTable_MergeOther ::
    "(LabelType \<Rightarrow> bool \<times> LabelType) \<Rightarrow> 'd LabelTable \<Rightarrow> 'd LabelTable \<Rightarrow> 'd LabelTable result" where
  "LabelTable_MergeOther id_map t other =
     (let other_size = total_count other; current_total_count = total_count t in
      if unat (current_total_count + other_size) \<le> (2 ^ 63 - 1) div 8 then
        bind_r (merge_labels id_map (label_table other) current_total_count 0 (unat other_size)
                  (t\<lparr>label_table := vresize (unat (current_total_count + other_size)) 0 (label_table t)\<rparr>))
          (\<lambda>t. Inr (t\<lparr>total_count := total_count t + other_size\<rparr>))
      else Inl StdLengthError)"

definition LabelTable_GetRemapSize :: "'d LabelTable \<Rightarrow> nat" where
  "LabelTable_GetRemapSize t = LabelRemap_Size (label_remap t)"

definition LabelTable_ResetRemap :: "'d LabelTable \<Rightarrow> 'd LabelTable" where
  "LabelTable_ResetRemap t = t\<lparr>label_remap := LabelRemap_Clear (label_remap t)\<rparr>"

definition LabelTable_InsertRemap :: "'d LabelTable \<Rightarrow> LabelType \<Rightarrow> InnerIdType \<Rightarrow> 'd LabelTable" where
  "LabelTable_InsertRemap t label inner_id =
     t\<lparr>label_remap := LabelRemap_Emplace (label_remap t) label inner_id\<rparr>"

text \<open>
  The deleted ids are delivered in the iteration order \<open>iter\<close> of the hash set, which the
  standard leaves open. The filter accepts the ids that are not deleted.
\<close>

definition RemoveListFilter_CheckValid :: "InnerIdType set \<Rightarrow> u64 \<Rightarrow> bool" where
  "RemoveListFilter_CheckValid remove_ids inner_id \<longleftrightarrow> ucast inner_id \<notin> remove_ids"

definition LabelTable_GetDeletedIdsFilter :: "'d LabelTable \<Rightarrow> (u64 \<Rightarrow> bool) option" where
  "LabelTable_GetDeletedIdsFilter t =
     (if deleted_ids t = {} then None else Some (RemoveListFilter_CheckValid (deleted_ids t)))"

definition LabelTable_GetDeletedIds :: "InnerIdType list \<Rightarrow> InnerIdType \<Rightarrow> InnerIdType list" where
  "LabelTable_GetDeletedIds iter max_count = (if iter = [] then [] else take (min (unat max_count) (length iter)) iter)"

definition LabelTable_InsertSourceId :: "'d LabelTable \<Rightarrow> InnerIdType \<Rightarrow> string \<Rightarrow> 'd LabelTable result" where
  "LabelTable_InsertSourceId t inner_id source_id =
     (let tbl = (if unat inner_id \<ge> length (source_id_table t)
                 then vresize (unat (inner_id + 1)) [] (source_id_table t) else source_id_table t) in
      if unat inner_id < length tbl then Inr (t\<lparr>source_id_table := tbl[unat inner_id := source_id]\<rparr>)
      else Inl UndefinedBehaviour)"

definition LabelTable_GetSourceId :: "'d LabelTable \<Rightarrow> InnerIdType \<Rightarrow> string" where
  "LabelTable_GetSourceId t inner_id =
     (if unat inner_id \<ge> length (source_id_table t) then [] else source_id_table t ! unat inner_id)"

definition LabelTable_Move :: "'d LabelTable \<Rightarrow> InnerIdType \<Rightarrow> InnerIdType \<Rightarrow> 'd LabelTable result" where
  "LabelTable_Move t from to =
     (if from = to then Inr t
      else
        (let from_removed = (from \<in> deleted_ids t);
             deleted = deleted_ids t - {from} - {to};
             deleted = (if from_removed then insert to deleted else deleted) in
         if unat from < length (label_table t) \<and> unat to < length (label_table t) then
           (let remap = (if use_reverse_map t
                         then snd (LabelRemap_Erase (label_remap t) (label_table t ! unat to))
                         else label_remap t);
                table = (label_table t)[unat to := label_table t ! unat from];
                remap = (if use_reverse_map t then LabelRemap_InsertOrAssign remap (table ! unat to) to
                         else remap) in
            Inr (t\<lparr>deleted_ids := deleted, label_table := table, label_remap := remap\<rparr>))
         else Inl UndefinedBehaviour))"

definition LabelTable_ShrinkToFit :: "('d \<Rightarrow> u64 \<Rightarrow> 'd result) \<Rightarrow> 'd LabelTable \<Rightarrow> InnerIdType \<Rightarrow> 'd LabelTable result" where
  "LabelTable_ShrinkToFit dt_resize t capacity =
     (let t = t\<lparr>label_table := vresize (unat capacity) 0 (label_table t)\<rparr> in
      case duplicate_tracker t of
        None \<Rightarrow> Inr t
      | Some d \<Rightarrow> bind_r (dt_resize d (ucast capacity)) (\<lambda>d. Inr (t\<lparr>duplicate_tracker := Some d\<rparr>)))"

definition LabelTable_ForceRemove :: "'d LabelTable \<Rightarrow> LabelType \<Rightarrow> InnerIdType \<Rightarrow> 'd LabelTable" where
  "LabelTable_ForceRemove t label inner_id =
     (let t = (if use_reverse_map t
               then t\<lparr>label_remap := snd (LabelRemap_Erase (label_remap t) label)\<rparr> else t) in
      t\<lparr>deleted_ids := deleted_ids t - {inner_id}, total_count := total_count t - 1\<rparr>)"

section \<open>The contract of the reverse map\<close>

locale label_index =
  fixes lookup :: "'m \<Rightarrow> LabelType \<Rightarrow> InnerIdType option"
    and find :: "'m \<Rightarrow> LabelType \<Rightarrow> InnerIdType \<Rightarrow> bool \<times> InnerIdType"
    and assign :: "'m \<Rightarrow> LabelType \<Rightarrow> InnerIdType \<Rightarrow> 'm"
    and emplace :: "'m \<Rightarrow> LabelType \<Rightarrow> InnerIdType \<Rightarrow> 'm"
    and erase :: "'m \<Rightarrow> LabelType \<Rightarrow> bool \<times> 'm"
    and clear :: "'m \<Rightarrow> 'm"
  assumes find_lookup: "find m l d = (case lookup m l of None \<Rightarrow> (False, d) | Some i \<Rightarrow> (True, i))"
    and lookup_assign: "lookup (assign m l i) = (lookup m)(l \<mapsto> i)"
    and lookup_emplace:
      "lookup (emplace m l i) = (if lookup m l = None then (lookup m)(l \<mapsto> i) else lookup m)"
    and lookup_erase: "lookup (snd (erase m l)) = (lookup m)(l := None)"
    and lookup_clear: "lookup (clear m) = Map.empty"
begin

lemma rebuild_lookup:
  assumes "n \<le> length labels"
  shows "lookup (fold (\<lambda>i m. assign m (labels ! i) (word_of_nat i)) [0..<n] (clear m)) l = Some j \<longleftrightarrow>
    (\<exists>i < n. j = word_of_nat i \<and> labels ! i = l \<and> (\<forall>k. i < k \<and> k < n \<longrightarrow> labels ! k \<noteq> l))"
  using assms
proof (induction n)
  case 0
  then show ?case by (simp add: lookup_clear)
next
  case (Suc n)
  then show ?case
    by (auto simp: lookup_assign less_Suc_eq split: if_splits)
qed

lemma rebuild_None:
  "lookup (fold (\<lambda>i m. assign m (labels ! i) (word_of_nat i)) [0..<n] (clear m)) l = None \<longleftrightarrow>
    (\<forall>i < n. labels ! i \<noteq> l)"
  by (induction n) (auto simp: lookup_clear lookup_assign less_Suc_eq)

lemma move_sound:
  assumes sound: "\<And>l i. lookup m l = Some i \<Longrightarrow> unat i < length tbl \<and> tbl ! unat i = l"
    and "unat to < length tbl" "unat from < length tbl"
    and "lookup (assign (snd (erase m (tbl ! unat to))) (tbl ! unat from) to) l = Some i"
  shows "unat i < length tbl \<and> tbl[unat to := tbl ! unat from] ! unat i = l"
  using assms(2-) sound [of l i]
  by (auto simp: lookup_assign lookup_erase nth_list_update split: if_splits)

end

definition remap_lookup :: "LabelRemap \<Rightarrow> LabelType \<Rightarrow> InnerIdType option" where
  "remap_lookup m = (case m of robin_map f \<Rightarrow> f | pg_map f \<Rightarrow> f)"

interpretation remap: label_index remap_lookup LabelRemap_Find LabelRemap_InsertOrAssign
  LabelRemap_Emplace LabelRemap_Erase LabelRemap_Clear
proof
  fix m l i d
  show "LabelRemap_Find m l d =
      (case remap_lookup m l of None \<Rightarrow> (False, d) | Some i \<Rightarrow> (True, i))"
    by (cases m) (auto simp: remap_lookup_def)
  show "remap_lookup (LabelRemap_InsertOrAssign m l i) = (remap_lookup m)(l \<mapsto> i)"
    "remap_lookup (LabelRemap_Emplace m l i) =
       (if remap_lookup m l = None then (remap_lookup m)(l \<mapsto> i) else remap_lookup m)"
    "remap_lookup (snd (LabelRemap_Erase m l)) = (remap_lookup m)(l := None)"
    "remap_lookup (LabelRemap_Clear m) = Map.empty"
    by (cases m; simp add: remap_lookup_def)+
qed

lemmas remap_laws [simp] =
  remap.find_lookup remap.lookup_assign remap.lookup_emplace remap.lookup_erase remap.lookup_clear

lemma remap_lookup_Reset [simp]: "remap_lookup (LabelRemap_Reset m) = Map.empty"
  by (cases m) (simp_all add: remap_lookup_def)

lemma remap_lookup_new [simp]: "remap_lookup (LabelRemap_new ty) = Map.empty"
  by (simp add: remap_lookup_def LabelRemap_new_def)

section \<open>Searching the table\<close>

lemma find_offset_le: "find_offset x ys \<le> length ys"
  by (induction ys) auto

lemma find_offset_less_iff: "find_offset x ys < length ys \<longleftrightarrow> x \<in> set ys"
  by (induction ys) auto

lemma find_offset_eq_iff: "find_offset x ys = length ys \<longleftrightarrow> x \<notin> set ys"
  by (induction ys) auto

lemma nth_find_offset: "x \<in> set ys \<Longrightarrow> ys ! find_offset x ys = x"
  by (induction ys) auto

lemma find_offset_first: "i < find_offset x ys \<Longrightarrow> ys ! i \<noteq> x"
proof (induction ys arbitrary: i)
  case (Cons y ys)
  then show ?case by (cases i) (auto split: if_splits)
qed simp

lemma find_offset_distinct:
  assumes "distinct ys" and "i < length ys"
  shows "find_offset (ys ! i) ys = i"
proof -
  have "find_offset (ys ! i) ys < length ys" "ys ! find_offset (ys ! i) ys = ys ! i"
    using assms(2) by (simp_all add: find_offset_less_iff nth_find_offset)
  then show ?thesis using assms nth_eq_iff_index_eq by metis
qed

section \<open>The two lookups\<close>

text \<open>
  \<open>label_id t l\<close> is the id a table has for a label: through the reverse map while there is one,
  otherwise the first position in the table.
\<close>

definition label_id :: "'d LabelTable \<Rightarrow> LabelType \<Rightarrow> InnerIdType option" where
  "label_id t l =
     (if use_reverse_map t then remap_lookup (label_remap t) l
      else if l \<in> set (label_table t) then Some (word_of_nat (find_offset l (label_table t)))
      else None)"

definition lt_inv :: "'d LabelTable \<Rightarrow> bool" where
  "lt_inv t \<longleftrightarrow> length (label_table t) < 2 ^ 32 \<and>
     (use_reverse_map t \<longrightarrow>
        (\<forall>l i. remap_lookup (label_remap t) l = Some i \<longrightarrow>
           unat i < length (label_table t) \<and> label_table t ! unat i = l))"

lemma label_id_sound:
  assumes "lt_inv t" and "label_id t l = Some i"
  shows "unat i < length (label_table t)" "label_table t ! unat i = l" "i \<noteq> INVALID_ID"
proof -
  have "find_offset l (label_table t) < length (label_table t)" if "l \<in> set (label_table t)"
    using that by (simp add: find_offset_less_iff)
  then show *: "unat i < length (label_table t)" "label_table t ! unat i = l"
    using assms by (auto simp: lt_inv_def label_id_def unat_word_of_nat_u32 nth_find_offset
        split: if_splits)
  then show "i \<noteq> INVALID_ID"
    using assms(1) by (intro not_INVALID_ID) (simp add: lt_inv_def)
qed

lemma raw_lookup:
  assumes "lt_inv t"
  shows "(if use_reverse_map t then get_id_by_label_with_reverse_map t l
          else get_id_by_label_with_label_table t l) =
    (case label_id t l of None \<Rightarrow> INVALID_ID | Some i \<Rightarrow> i)"
  by (auto simp: get_id_by_label_with_reverse_map_def get_id_by_label_with_label_table_def
      label_id_def Let_def find_offset_eq_iff split: option.splits)

lemma TryGetIdByLabel_eq:
  assumes "lt_inv t"
  shows "LabelTable_TryGetIdByLabel t l even_removed =
    (case label_id t l of None \<Rightarrow> (False, 0)
     | Some i \<Rightarrow> if \<not> even_removed \<and> i \<in> deleted_ids t then (False, 0) else (True, i))"
  using raw_lookup [OF assms, of l] label_id_sound(3) [OF assms, of l]
  by (auto simp: LabelTable_TryGetIdByLabel_def Let_def split: option.splits)

lemma CheckLabel_eq:
  "LabelTable_CheckLabel t l = (case label_id t l of None \<Rightarrow> False | Some i \<Rightarrow> i \<notin> deleted_ids t)"
  by (auto simp: LabelTable_CheckLabel_def label_id_def Let_def find_offset_eq_iff split: option.splits)

section \<open>Every operation keeps the invariant\<close>

lemma lt_inv_new [simp]: "lt_inv (LabelTable_new use_rev ty)"
  by (simp add: lt_inv_def LabelTable_new_def)

lemma unat_Suc_id: "i \<noteq> INVALID_ID \<Longrightarrow> unat (i + 1) = unat i + 1"
proof -
  assume "i \<noteq> INVALID_ID"
  then have "unat i \<noteq> unat INVALID_ID" by (simp add: word_unat_eq_iff)
  then have "unat i + 1 < 2 ^ 32"
    using unat_u32_lt [of i] unfolding unat_INVALID_ID by simp
  then show ?thesis by (simp add: unat_word_ariths)
qed

lemma id_bound: "i \<noteq> INVALID_ID \<Longrightarrow> unat i < 4294967295"
  using unat_Suc_id [of i] unat_u32_lt [of "i + 1"] by simp

lemma Insert_ok:
  assumes "iid \<noteq> INVALID_ID"
  shows "LabelTable_Insert t iid label = Inr
    (t\<lparr>label_remap := (if use_reverse_map t
                       then LabelRemap_InsertOrAssign (label_remap t) label iid else label_remap t),
       label_table := (vresize (max (length (label_table t)) (unat iid + 1)) 0 (label_table t))
                        [unat iid := label],
       total_count := total_count t + 1\<rparr>)"
  using assms by (simp add: LabelTable_Insert_def Let_def unat_Suc_id max_def)

lemma lt_inv_Insert:
  assumes inv: "lt_inv t" and iid: "iid \<noteq> INVALID_ID"
    and free: "\<And>l. l \<noteq> label \<Longrightarrow> remap_lookup (label_remap t) l \<noteq> Some iid"
    and "LabelTable_Insert t iid label = Inr t'"
  shows "lt_inv t'"
proof -
  have "unat iid + 1 < 2 ^ 32" using id_bound [OF iid] by simp
  then show ?thesis
    using assms unfolding Insert_ok [OF iid] lt_inv_def
    by (auto simp: nth_list_update word_unat_eq_iff [symmetric] less_max_iff_disj split: if_splits)
qed

lemma lt_inv_MarkRemove: "lt_inv t \<Longrightarrow> lt_inv (snd (LabelTable_MarkRemove t labels))"
  by (simp add: LabelTable_MarkRemove_def lt_inv_def Let_def split: prod.split)

lemma lt_inv_SetImmutable: "lt_inv t \<Longrightarrow> lt_inv (LabelTable_SetImmutable t)"
  by (simp add: LabelTable_SetImmutable_def lt_inv_def)

lemma lt_inv_EraseFromDeletedIds: "lt_inv t \<Longrightarrow> lt_inv (LabelTable_EraseFromDeletedIds t i)"
  by (simp add: LabelTable_EraseFromDeletedIds_def lt_inv_def)

lemma lt_inv_ForceRemove: "lt_inv t \<Longrightarrow> lt_inv (LabelTable_ForceRemove t l i)"
  by (auto simp: LabelTable_ForceRemove_def lt_inv_def Let_def split: if_splits)

lemma lt_inv_ResetRemap: "lt_inv t \<Longrightarrow> lt_inv (LabelTable_ResetRemap t)"
  by (simp add: LabelTable_ResetRemap_def lt_inv_def)

lemma lt_inv_InsertRemap:
  "lt_inv t \<Longrightarrow> LabelTable_GetLabelById t i = Inr l \<Longrightarrow> lt_inv (LabelTable_InsertRemap t l i)"
  by (auto simp: LabelTable_InsertRemap_def LabelTable_GetLabelById_def lt_inv_def split: if_splits)

lemma lt_inv_Move: "lt_inv t \<Longrightarrow> LabelTable_Move t from to = Inr t' \<Longrightarrow> lt_inv t'"
  by (auto simp: LabelTable_Move_def lt_inv_def Let_def nth_list_update
      split: if_splits)

lemma lt_inv_Resize:
  assumes "lt_inv t" "unat n < 2 ^ 32"
    and "\<And>l i. remap_lookup (label_remap t) l = Some i \<Longrightarrow> unat i < unat n"
  shows "lt_inv (LabelTable_Resize t n)"
  using assms by (auto simp: LabelTable_Resize_def lt_inv_def)

lemma lt_inv_ShrinkToFit:
  assumes "lt_inv t" "LabelTable_ShrinkToFit dt_resize t capacity = Inr t'"
    and "\<And>l i. remap_lookup (label_remap t) l = Some i \<Longrightarrow> unat i < unat capacity"
  shows "lt_inv t'"
  using assms unat_u32_lt [of capacity]
  by (auto simp: LabelTable_ShrinkToFit_def lt_inv_def Let_def bind_r_eq_Inr_iff split: option.splits)

lemma UpdateLabel_success:
  assumes "LabelTable_UpdateLabel t old new = (t', Inr ())"
  shows "\<not> LabelTable_CheckLabel t new" "old \<in> set (label_table t)"
    "label_table t' = map (\<lambda>l. if l = old then new else l) (label_table t)"
    "use_reverse_map t' = use_reverse_map t" "deleted_ids t' = deleted_ids t"
    "use_reverse_map t \<Longrightarrow> \<exists>i. remap_lookup (label_remap t) old = Some i \<and>
       remap_lookup (label_remap t') = ((remap_lookup (label_remap t))(old := None))(new \<mapsto> i)"
  using assms
  by (auto simp: LabelTable_UpdateLabel_def Let_def split: if_splits option.splits)

lemma lt_inv_UpdateLabel:
  assumes inv: "lt_inv t" and upd: "LabelTable_UpdateLabel t old new = (t', Inr ())"
  shows "lt_inv t'"
  unfolding lt_inv_def
proof (intro conjI impI allI)
  note U = UpdateLabel_success [OF upd]
  show "length (label_table t') < 2 ^ 32" using inv U(3) by (simp add: lt_inv_def)
  fix l i
  assume "use_reverse_map t'" and look: "remap_lookup (label_remap t') l = Some i"
  then obtain k where k: "remap_lookup (label_remap t) old = Some k"
    "remap_lookup (label_remap t') = ((remap_lookup (label_remap t))(old := None))(new \<mapsto> k)"
    and rev: "use_reverse_map t"
    using U(4,6) by auto
  have "if l = new then i = k else l \<noteq> old \<and> remap_lookup (label_remap t) l = Some i"
    using look k(2) by (auto split: if_splits)
  then show "unat i < length (label_table t')" "label_table t' ! unat i = l"
    using inv rev k(1) unfolding U(3) lt_inv_def by (auto split: if_splits)
qed

subsection \<open>Merging\<close>

lemma merge_labels_ok:
  assumes "lt_inv t" and "length (label_table t) = unat base + i + n"
    and "i + n \<le> length ol"
    and "\<And>l j. use_reverse_map t \<Longrightarrow> remap_lookup (label_remap t) l = Some j \<Longrightarrow> unat j < unat base + i"
  shows "\<exists>t'. merge_labels id_map ol base i n t = Inr t' \<and> lt_inv t' \<and>
    label_table t' = take (unat base + i) (label_table t) @ map (snd \<circ> id_map) (take n (drop i ol)) \<and>
    use_reverse_map t' = use_reverse_map t \<and> total_count t' = total_count t \<and>
    deleted_ids t' = deleted_ids t \<and>
    (use_reverse_map t \<longrightarrow>
      dom (remap_lookup (label_remap t')) =
        dom (remap_lookup (label_remap t)) \<union> set (map (snd \<circ> id_map) (take n (drop i ol))))"
  using assms
proof (induction n arbitrary: i t)
  case 0
  then show ?case by simp
next
  case (Suc n)
  have small: "unat base + i < 4294967296"
    using Suc.prems(1,2) by (simp add: lt_inv_def)
  then have "unat (word_of_nat i + base) = unat base + i"
    by (simp add: unat_word_ariths unat_word_of_nat_u64)
  note pos = this
  have cast: "unat (ucast (word_of_nat i + base :: u64) :: u32) = unat base + i"
    using small pos by (simp add: unsigned_ucast_eq take_bit_nat_eq_self)
  let ?l = "snd (id_map (ol ! i))" and ?p = "ucast (word_of_nat i + base :: u64) :: u32"
  define t1 where "t1 = t\<lparr>label_table := (label_table t)[unat base + i := ?l],
    label_remap := (if use_reverse_map t then LabelRemap_InsertOrAssign (label_remap t) ?l ?p
                    else label_remap t)\<rparr>"
  have step: "merge_labels id_map ol base i (Suc n) t = merge_labels id_map ol base (Suc i) n t1"
    using Suc.prems(2,3) pos by (simp add: t1_def Let_def)
  have drop: "take (Suc n) (drop i ol) = ol ! i # take n (drop (Suc i) ol)"
    using Suc.prems(3) by (simp add: Cons_nth_drop_Suc [symmetric])
  have tk: "take (Suc (unat base + i)) ((label_table t)[unat base + i := ?l]) =
      take (unat base + i) (label_table t) @ [?l]"
    using Suc.prems(2) by (simp add: take_Suc_conv_app_nth)
  have len1: "length (label_table t1) = unat base + Suc i + n" "Suc i + n \<le> length ol"
    using Suc.prems(2,3) by (simp_all add: t1_def)
  have "lt_inv t1"
    using Suc.prems(1,2,4) cast
    by (fastforce simp: t1_def lt_inv_def nth_list_update split: if_splits)
  moreover have "unat j < unat base + Suc i"
    if "use_reverse_map t1" "remap_lookup (label_remap t1) l = Some j" for l j
    using that Suc.prems(4) [of l j] cast by (auto simp: t1_def split: if_splits)
  ultimately obtain t' where "merge_labels id_map ol base (Suc i) n t1 = Inr t'" "lt_inv t'"
    "label_table t' = take (unat base + Suc i) (label_table t1) @ map (snd \<circ> id_map) (take n (drop (Suc i) ol))"
    "use_reverse_map t' = use_reverse_map t1" "total_count t' = total_count t1"
    "deleted_ids t' = deleted_ids t1"
    "use_reverse_map t1 \<longrightarrow> dom (remap_lookup (label_remap t')) =
        dom (remap_lookup (label_remap t1)) \<union> set (map (snd \<circ> id_map) (take n (drop (Suc i) ol)))"
    using Suc.IH [of t1 "Suc i"] len1 by blast
  then show ?case
    unfolding step drop using tk by (auto simp: t1_def)
qed

lemma LabelTable_MergeOther_ok:
  assumes inv: "lt_inv t" and fit: "unat (total_count t) + unat (total_count other) < 2 ^ 32"
    and avail: "unat (total_count other) \<le> length (label_table other)"
    and used: "\<And>l j. use_reverse_map t \<Longrightarrow> remap_lookup (label_remap t) l = Some j \<Longrightarrow>
      unat j < unat (total_count t)"
    and len: "unat (total_count t) \<le> length (label_table t)"
  shows "\<exists>t'. LabelTable_MergeOther id_map t other = Inr t' \<and> lt_inv t' \<and>
    label_table t' = take (unat (total_count t)) (label_table t) @
      map (snd \<circ> id_map) (take (unat (total_count other)) (label_table other)) \<and>
    unat (total_count t') = unat (total_count t) + unat (total_count other) \<and>
    deleted_ids t' = deleted_ids t \<and> use_reverse_map t' = use_reverse_map t \<and>
    (use_reverse_map t \<longrightarrow> dom (remap_lookup (label_remap t')) = dom (remap_lookup (label_remap t)) \<union>
      set (map (snd \<circ> id_map) (take (unat (total_count other)) (label_table other))))"
proof -
  let ?n = "unat (total_count other)" and ?b = "unat (total_count t)"
  have sum: "unat (total_count t + total_count other) = ?b + ?n"
    using fit by (simp add: unat_word_ariths)
  define t0 where "t0 = t\<lparr>label_table := vresize (?b + ?n) 0 (label_table t)\<rparr>"
  have "lt_inv t0"
    using inv fit used by (fastforce simp: t0_def lt_inv_def)
  then obtain t' where t': "merge_labels id_map (label_table other) (total_count t) 0 ?n t0 = Inr t'"
    "lt_inv t'"
    "label_table t' = take ?b (label_table t0) @ map (snd \<circ> id_map) (take ?n (label_table other))"
    "use_reverse_map t' = use_reverse_map t0" "total_count t' = total_count t0"
    "deleted_ids t' = deleted_ids t0"
    "use_reverse_map t0 \<longrightarrow> dom (remap_lookup (label_remap t')) =
        dom (remap_lookup (label_remap t0)) \<union> set (map (snd \<circ> id_map) (take ?n (label_table other)))"
    using merge_labels_ok [of t0 "total_count t" 0 ?n "label_table other" id_map] avail used
    by (auto simp: t0_def)
  have "?b + ?n \<le> (2 ^ 63 - 1) div 8" using fit by simp
  then have "LabelTable_MergeOther id_map t other =
      Inr (t'\<lparr>total_count := total_count t' + total_count other\<rparr>)"
    using t'(1) sum by (simp add: LabelTable_MergeOther_def Let_def t0_def)
  moreover have "take ?b (label_table t0) = take ?b (label_table t)"
    using len by (simp add: t0_def vresize_def)
  ultimately show ?thesis
    using t' sum by (auto simp: t0_def lt_inv_def)
qed

subsection \<open>Serialization\<close>

lemma rebuild_remap_sound:
  assumes "rebuild_remap m labels = Inr m'" and "remap_lookup m' l = Some i"
  shows "unat i < length labels \<and> labels ! unat i = l \<and>
    (\<forall>k. unat i < k \<and> k < length labels \<longrightarrow> labels ! k \<noteq> l)"
  using assms remap.rebuild_lookup [of "length labels" labels m l i]
  by (auto simp: rebuild_remap_def unat_word_of_nat_u32 split: if_splits)

lemma rebuild_remap_dom:
  assumes "rebuild_remap m labels = Inr m'"
  shows "dom (remap_lookup m') = set labels"
proof -
  have "remap_lookup m' l = None \<longleftrightarrow> l \<notin> set labels" for l
    using assms remap.rebuild_None [of labels "length labels" m l]
    by (auto simp: rebuild_remap_def in_set_conv_nth split: if_splits)
  then show ?thesis by (auto simp: dom_def)
qed

lemma lt_inv_Deserialize:
  assumes "LabelTable_Deserialize dt_legacy rd t r = Inr (t', r')" and "length (label_table t') < 2 ^ 32"
  shows "lt_inv t'"
proof -
  obtain labels remap dt where
    remap: "(if use_reverse_map t then rebuild_remap (label_remap t) labels
      else Inr (label_remap t)) = Inr remap"
    and t': "t\<lparr>label_table := labels, label_remap := remap, duplicate_tracker := dt,
      is_legacy_duplicate_format := False, total_count := word_of_nat (length labels)\<rparr> = t'"
    using assms(1) unfolding LabelTable_Deserialize_def
    by (elim bind_r_prodE bind_rE) (rule that, assumption, simp only: sum.inject prod.inject, elim conjE)
  have "rebuild_remap (label_remap t) labels = Inr remap" if "use_reverse_map t"
    using remap that by simp
  then show ?thesis
    using assms(2) rebuild_remap_sound [of "label_remap t" labels remap] by (simp add: t' [symmetric] lt_inv_def)
qed

context byte_source
begin

lemma LabelTable_Deserialize_yields:
  assumes r: "rest r = concat (LabelTable_Serialize t) @ s" "ok r"
    and len: "length (label_table t) < 2 ^ 32"
    and legacy: "\<not> is_legacy_duplicate_format t0 \<or> duplicate_tracker t0 = None"
  shows "\<exists>m. (use_reverse_map t0 \<longrightarrow> rebuild_remap (label_remap t0) (label_table t) = Inr m) \<and>
    yields rest ok (LabelTable_Deserialize dt_legacy rd t0 r)
      (t0\<lparr>label_table := label_table t, label_remap := m, is_legacy_duplicate_format := False,
          total_count := word_of_nat (length (label_table t))\<rparr>) s"
proof -
  obtain m where m: "(if use_reverse_map t0 then rebuild_remap (label_remap t0) (label_table t)
      else Inr (label_remap t0)) = Inr m"
    using len by (cases "use_reverse_map t0") (auto simp: rebuild_remap_def)
  have vec: "yields rest ok (ReadVector rd 8 dec_u64 r) (label_table t) s"
    using r by (intro ReadVector_yields [where enc = enc_u64]) (simp_all add: LabelTable_Serialize_def)
  have "yields rest ok (LabelTable_Deserialize dt_legacy rd t0 r)
      (t0\<lparr>label_table := label_table t, label_remap := m, is_legacy_duplicate_format := False,
          total_count := word_of_nat (length (label_table t))\<rparr>) s"
    unfolding LabelTable_Deserialize_def
    by (rule yields_bind [OF vec]) (use legacy in \<open>auto simp: m\<close>)
  moreover have "use_reverse_map t0 \<longrightarrow> rebuild_remap (label_remap t0) (label_table t) = Inr m"
    using m by (auto split: if_splits)
  ultimately show ?thesis by blast
qed

end

subsection \<open>Reachable tables\<close>

text \<open>
  The steps a caller may take. The guards are what the index code ensures: ids are handed out below
  \<open>INVALID_ID\<close>, an id that is given a label is not the target of another label, tables are not
  cut below the ids in use.
\<close>

inductive lt_reach :: "'d LabelTable \<Rightarrow> bool" where
  new: "lt_reach (LabelTable_new use_rev ty)"
| insert: "lt_reach t \<Longrightarrow> iid \<noteq> INVALID_ID \<Longrightarrow>
    (\<And>l. l \<noteq> label \<Longrightarrow> remap_lookup (label_remap t) l \<noteq> Some iid) \<Longrightarrow>
    LabelTable_Insert t iid label = Inr t' \<Longrightarrow> lt_reach t'"
| mark_remove: "lt_reach t \<Longrightarrow> lt_reach (snd (LabelTable_MarkRemove t labels))"
| set_immutable: "lt_reach t \<Longrightarrow> lt_reach (LabelTable_SetImmutable t)"
| erase_deleted: "lt_reach t \<Longrightarrow> lt_reach (LabelTable_EraseFromDeletedIds t iid)"
| force_remove: "lt_reach t \<Longrightarrow> lt_reach (LabelTable_ForceRemove t label iid)"
| update: "lt_reach t \<Longrightarrow> LabelTable_UpdateLabel t old_label new_label = (t', Inr ()) \<Longrightarrow> lt_reach t'"
| move: "lt_reach t \<Longrightarrow> LabelTable_Move t from to = Inr t' \<Longrightarrow> lt_reach t'"
| resize: "lt_reach t \<Longrightarrow> unat n < 2 ^ 32 \<Longrightarrow>
    (\<And>l i. remap_lookup (label_remap t) l = Some i \<Longrightarrow> unat i < unat n) \<Longrightarrow>
    lt_reach (LabelTable_Resize t n)"
| shrink: "lt_reach t \<Longrightarrow> LabelTable_ShrinkToFit dt_resize t capacity = Inr t' \<Longrightarrow>
    (\<And>l i. remap_lookup (label_remap t) l = Some i \<Longrightarrow> unat i < unat capacity) \<Longrightarrow> lt_reach t'"
| reset_remap: "lt_reach t \<Longrightarrow> lt_reach (LabelTable_ResetRemap t)"
| insert_remap: "lt_reach t \<Longrightarrow> LabelTable_GetLabelById t iid = Inr label \<Longrightarrow>
    lt_reach (LabelTable_InsertRemap t label iid)"
| deserialize: "lt_reach t \<Longrightarrow>
    LabelTable_Deserialize dt_legacy ForwardStreamReader_Read t r = Inr (t', r') \<Longrightarrow>
    length (label_table t') < 2 ^ 32 \<Longrightarrow> lt_reach t'"
| merge: "lt_reach t \<Longrightarrow> lt_reach other \<Longrightarrow>
    unat (total_count t) + unat (total_count other) < 2 ^ 32 \<Longrightarrow>
    unat (total_count other) \<le> length (label_table other) \<Longrightarrow>
    unat (total_count t) \<le> length (label_table t) \<Longrightarrow>
    (\<And>l j. remap_lookup (label_remap t) l = Some j \<Longrightarrow> unat j < unat (total_count t)) \<Longrightarrow>
    LabelTable_MergeOther id_map t other = Inr t' \<Longrightarrow> lt_reach t'"

lemma lt_reach_inv: "lt_reach t \<Longrightarrow> lt_inv t"
proof (induction rule: lt_reach.induct)
  case (merge t other id_map t')
  then show ?case using LabelTable_MergeOther_ok [of t other id_map] by auto
qed (auto intro: lt_inv_Insert lt_inv_MarkRemove lt_inv_SetImmutable lt_inv_EraseFromDeletedIds
    lt_inv_ForceRemove lt_inv_UpdateLabel lt_inv_Move lt_inv_Resize lt_inv_ShrinkToFit
    lt_inv_ResetRemap lt_inv_InsertRemap lt_inv_Deserialize)

lemma mark_ids_eq:
  "mark_ids ids deleted c = (deleted \<union> set ids, c + word_of_nat (card (set ids - deleted)))"
proof (induction ids arbitrary: deleted c)
  case (Cons x ids)
  show ?case
  proof (cases "x \<in> deleted")
    case True
    then show ?thesis using Cons.IH by (simp add: insert_absorb)
  next
    case False
    then have "set (x # ids) - deleted = insert x (set ids - insert x deleted)" by auto
    then have "card (set (x # ids) - deleted) = Suc (card (set ids - insert x deleted))" by simp
    then show ?thesis using Cons.IH False by (simp add: ac_simps)
  qed
qed simp

lemma MarkRemove_eq:
  assumes "lt_inv t"
  shows "LabelTable_MarkRemove t labels =
    (word_of_nat (card ({i. \<exists>l \<in> set labels. label_id t l = Some i} - deleted_ids t)),
     t\<lparr>deleted_ids := deleted_ids t \<union> {i. \<exists>l \<in> set labels. label_id t l = Some i}\<rparr>)"
proof -
  have "set (filter (\<lambda>i. i \<noteq> INVALID_ID)
      (map (\<lambda>l. if use_reverse_map t then get_id_by_label_with_reverse_map t l
                 else get_id_by_label_with_label_table t l) labels)) =
    {i. \<exists>l \<in> set labels. label_id t l = Some i}"
    using label_id_sound(3) [OF assms] unfolding raw_lookup [OF assms]
    by (fastforce split: option.splits)
  then show ?thesis by (simp add: LabelTable_MarkRemove_def mark_ids_eq)
qed

section \<open>Properties\<close>

text \<open>C11: in every table that the operations can produce, a lookup by label answers with an id whose
  label is the one asked for, and unless removed ids were asked for too, the id is not removed.
  \<open>GetIdByLabel\<close> and \<open>CheckLabel\<close> agree with it.\<close>

theorem label_lookup_sound:
  assumes "lt_reach t"
  shows "(\<forall>l b i. LabelTable_TryGetIdByLabel t l b = (True, i) \<longrightarrow>
      LabelTable_GetLabelById t i = Inr l \<and> i \<noteq> INVALID_ID \<and> (\<not> b \<longrightarrow> \<not> LabelTable_IsRemoved t i) \<and>
      LabelTable_GetIdByLabel t l b = Inr i) \<and>
    (\<forall>l. LabelTable_CheckLabel t l \<longleftrightarrow> fst (LabelTable_TryGetIdByLabel t l False))"
proof -
  note inv = lt_reach_inv [OF assms]
  show ?thesis
    by (auto simp: TryGetIdByLabel_eq [OF inv] CheckLabel_eq LabelTable_GetIdByLabel_def
        LabelTable_GetLabelById_def LabelTable_IsRemoved_def not_le
        dest: label_id_sound [OF inv] split: option.splits if_splits)
qed

definition lt_sample :: "unit LabelTable" where
  "lt_sample = \<lparr>label_table = [0, 70], is_legacy_duplicate_format = False, use_reverse_map = True,
     label_remap = pg_map [70 \<mapsto> 1], duplicate_tracker = None, total_count = 1,
     deleted_ids = {}, source_id_table = []\<rparr>"

lemma lt_sample_insert: "LabelTable_Insert (LabelTable_new True PG) 1 70 = Inr lt_sample"
proof -
  have "vresize 2 (0 :: LabelType) [] = [0, 0]" by (simp add: vresize_def numeral_2_eq_2)
  then show ?thesis
    by (simp add: LabelTable_Insert_def LabelTable_new_def LabelRemap_new_def lt_sample_def Let_def)
qed

lemma lt_sample_reach: "lt_reach lt_sample"
  by (rule lt_reach.insert [OF lt_reach.new _ _ lt_sample_insert])
    (simp_all add: INVALID_ID_def LabelTable_new_def)

theorem label_lookup_sound_witness:
  "LabelTable_TryGetIdByLabel lt_sample 70 False = (True, 1) \<and>
   LabelTable_GetLabelById lt_sample 1 = Inr 70 \<and> LabelTable_GetIdByLabel lt_sample 70 False = Inr 1"
proof -
  have *: "LabelTable_TryGetIdByLabel lt_sample 70 False = (True, 1)"
    by (simp add: LabelTable_TryGetIdByLabel_def lt_sample_def get_id_by_label_with_reverse_map_def
        INVALID_ID_def remap_lookup_def)
  then show ?thesis using label_lookup_sound [OF lt_sample_reach] by blast
qed

text \<open>\<open>Insert\<close> of a fresh label at a free id makes the id and the label find each other and
  leaves the answers for all other labels and ids alone, while the reverse map is in use.\<close>

lemma label_insert_lookup:
  assumes "lt_inv t" and "use_reverse_map t" and "iid \<noteq> INVALID_ID"
    and "\<And>l. l \<noteq> label \<Longrightarrow> remap_lookup (label_remap t) l \<noteq> Some iid"
  shows "\<exists>t'. LabelTable_Insert t iid label = Inr t' \<and> lt_inv t' \<and>
    LabelTable_TryGetIdByLabel t' label True = (True, iid) \<and>
    LabelTable_GetLabelById t' iid = Inr label \<and>
    (\<forall>l. l \<noteq> label \<longrightarrow> LabelTable_TryGetIdByLabel t' l b = LabelTable_TryGetIdByLabel t l b) \<and>
    (\<forall>j. j \<noteq> iid \<and> unat j < length (label_table t) \<longrightarrow>
      LabelTable_GetLabelById t' j = LabelTable_GetLabelById t j) \<and>
    total_count t' = total_count t + 1"
proof -
  obtain t' where t': "LabelTable_Insert t iid label = Inr t'" using Insert_ok [OF assms(3)] by blast
  have inv': "lt_inv t'" by (rule lt_inv_Insert [OF assms(1,3,4) t'])
  have "t' = t\<lparr>label_remap := LabelRemap_InsertOrAssign (label_remap t) label iid,
       label_table := (vresize (max (length (label_table t)) (unat iid + 1)) 0 (label_table t))
                        [unat iid := label], total_count := total_count t + 1\<rparr>"
    using t' Insert_ok [OF assms(3), of t label] assms(2) by simp
  note t'_eq = this
  have ids: "label_id t' l = (if l = label then Some iid else label_id t l)" for l
    using assms(2) by (simp add: t'_eq label_id_def)
  have get: "LabelTable_GetLabelById t' j = (if j = iid then Inr label else LabelTable_GetLabelById t j)"
    if "j = iid \<or> unat j < length (label_table t)" for j
    using that by (auto simp: t'_eq LabelTable_GetLabelById_def word_unat_eq_iff)
  have rest: "deleted_ids t' = deleted_ids t" "total_count t' = total_count t + 1"
    by (simp_all add: t'_eq)
  show ?thesis
    using t' inv' ids get rest
    by (simp add: TryGetIdByLabel_eq [OF inv'] TryGetIdByLabel_eq [OF assms(1)] split: option.split)
qed

lemma label_insert_lookup_example:
  "\<exists>t'. LabelTable_Insert lt_sample 3 90 = Inr t' \<and> lt_inv t' \<and>
    LabelTable_TryGetIdByLabel t' 90 True = (True, 3) \<and> LabelTable_GetLabelById t' 3 = Inr 90 \<and>
    (\<forall>l. l \<noteq> 90 \<longrightarrow> LabelTable_TryGetIdByLabel t' l False = LabelTable_TryGetIdByLabel lt_sample l False) \<and>
    (\<forall>j. j \<noteq> 3 \<and> unat j < length (label_table lt_sample) \<longrightarrow>
      LabelTable_GetLabelById t' j = LabelTable_GetLabelById lt_sample j) \<and>
    total_count t' = total_count lt_sample + 1"
  by (rule label_insert_lookup [OF lt_reach_inv [OF lt_sample_reach]])
    (simp_all add: lt_sample_def INVALID_ID_def remap_lookup_def)

text \<open>\<open>MarkRemove\<close> marks exactly the ids the given labels are found at, returns how many of
  them were not marked before, hides these labels from \<open>CheckLabel\<close> and from lookups
  that skip removed ids, and a second call with the same labels marks nothing.\<close>

lemma mark_remove_exact:
  assumes "lt_inv t"
  shows "\<exists>n t'. LabelTable_MarkRemove t labels = (n, t') \<and> lt_inv t' \<and>
    (\<forall>i. LabelTable_IsRemoved t' i \<longleftrightarrow> LabelTable_IsRemoved t i \<or>
      (\<exists>l \<in> set labels. LabelTable_TryGetIdByLabel t l True = (True, i))) \<and>
    n = word_of_nat (card {i. LabelTable_IsRemoved t' i \<and> \<not> LabelTable_IsRemoved t i}) \<and>
    (\<forall>l \<in> set labels. \<not> LabelTable_CheckLabel t' l \<and> LabelTable_TryGetIdByLabel t' l False = (False, 0)) \<and>
    (\<forall>l. LabelTable_TryGetIdByLabel t' l True = LabelTable_TryGetIdByLabel t l True) \<and>
    fst (LabelTable_MarkRemove t' labels) = 0"
proof -
  let ?S = "{i. \<exists>l \<in> set labels. label_id t l = Some i}"
  let ?t' = "t\<lparr>deleted_ids := deleted_ids t \<union> ?S\<rparr>"
  have inv': "lt_inv ?t'" using assms by (simp add: lt_inv_def)
  have eq: "LabelTable_MarkRemove t labels = (word_of_nat (card (?S - deleted_ids t)), ?t')"
    by (rule MarkRemove_eq [OF assms])
  have id': "label_id ?t' l = label_id t l" for l by (simp add: label_id_def)
  have card: "{i. LabelTable_IsRemoved ?t' i \<and> \<not> LabelTable_IsRemoved t i} = ?S - deleted_ids t"
    by (auto simp: LabelTable_IsRemoved_def)
  have again: "fst (LabelTable_MarkRemove ?t' labels) = 0"
    unfolding MarkRemove_eq [OF inv'] id' by (simp add: Diff_eq_empty_iff [THEN iffD2])
  have "(\<forall>i. LabelTable_IsRemoved ?t' i \<longleftrightarrow> LabelTable_IsRemoved t i \<or>
      (\<exists>l \<in> set labels. LabelTable_TryGetIdByLabel t l True = (True, i)))"
    by (auto simp: LabelTable_IsRemoved_def TryGetIdByLabel_eq [OF assms] split: option.splits)
  moreover have "\<forall>l \<in> set labels. \<not> LabelTable_CheckLabel ?t' l \<and>
      LabelTable_TryGetIdByLabel ?t' l False = (False, 0)"
    by (auto simp: CheckLabel_eq TryGetIdByLabel_eq [OF inv'] id' split: option.splits)
  moreover have "\<forall>l. LabelTable_TryGetIdByLabel ?t' l True = LabelTable_TryGetIdByLabel t l True"
    by (simp add: TryGetIdByLabel_eq [OF inv'] TryGetIdByLabel_eq [OF assms] id' split: option.split)
  ultimately show ?thesis using eq inv' card again by auto
qed

lemma mark_remove_exact_example:
  "\<exists>n t'. LabelTable_MarkRemove lt_sample [70, 71] = (n, t') \<and> lt_inv t' \<and>
    (\<forall>l \<in> set [70, 71]. \<not> LabelTable_CheckLabel t' l) \<and> fst (LabelTable_MarkRemove t' [70, 71]) = 0"
  using mark_remove_exact [OF lt_reach_inv [OF lt_sample_reach], of "[70, 71]"] by blast

text \<open>A successful \<open>UpdateLabel\<close> renames the label at every id that carried it, so that the
  new label is found where the old one was, the old label is found no more, and every other label
  and every removed mark is as before; it is refused without any change when the new label is live,
  and refused when the old label is in no slot.\<close>

lemma update_label_renames:
  assumes "lt_inv t" and "use_reverse_map t"
  shows "(\<forall>t'. LabelTable_UpdateLabel t old new = (t', Inr ()) \<longrightarrow> lt_inv t' \<and>
      LabelTable_TryGetIdByLabel t' new True = LabelTable_TryGetIdByLabel t old True \<and>
      (old \<noteq> new \<longrightarrow> LabelTable_TryGetIdByLabel t' old True = (False, 0)) \<and>
      (\<forall>l. l \<noteq> old \<and> l \<noteq> new \<longrightarrow> LabelTable_TryGetIdByLabel t' l b = LabelTable_TryGetIdByLabel t l b) \<and>
      (\<forall>i. LabelTable_GetLabelById t' i =
        (if LabelTable_GetLabelById t i = Inr old then Inr new else LabelTable_GetLabelById t i))) \<and>
    (LabelTable_CheckLabel t new \<longrightarrow> LabelTable_UpdateLabel t old new = (t, Inl (Vsag INTERNAL_ERROR))) \<and>
    (\<not> LabelTable_CheckLabel t new \<and> (\<forall>i. LabelTable_GetLabelById t i \<noteq> Inr old) \<longrightarrow>
      snd (LabelTable_UpdateLabel t old new) = Inl (Vsag INTERNAL_ERROR))"
proof (intro conjI allI impI)
  fix t'
  assume upd: "LabelTable_UpdateLabel t old new = (t', Inr ())"
  note U = UpdateLabel_success [OF upd] and inv' = lt_inv_UpdateLabel [OF assms(1) upd]
  note eqs = TryGetIdByLabel_eq [OF inv'] TryGetIdByLabel_eq [OF assms(1)] label_id_def
  obtain k where k: "remap_lookup (label_remap t) old = Some k"
    "remap_lookup (label_remap t') = ((remap_lookup (label_remap t))(old := None))(new \<mapsto> k)"
    using U(6) [OF assms(2)] by blast
  show "lt_inv t'" by (rule inv')
  show "LabelTable_TryGetIdByLabel t' new True = LabelTable_TryGetIdByLabel t old True"
    using k assms(2) U(4) by (simp add: eqs)
  show "LabelTable_TryGetIdByLabel t' old True = (False, 0)" if "old \<noteq> new"
    using k assms(2) U(4) that by (simp add: eqs)
  show "LabelTable_TryGetIdByLabel t' l b = LabelTable_TryGetIdByLabel t l b" if "l \<noteq> old \<and> l \<noteq> new" for l
    using k assms(2) U(4,5) that by (simp add: eqs split: option.split)
  show "LabelTable_GetLabelById t' i =
      (if LabelTable_GetLabelById t i = Inr old then Inr new else LabelTable_GetLabelById t i)" for i
    using U(3) by (auto simp: LabelTable_GetLabelById_def)
next
  show "LabelTable_UpdateLabel t old new = (t, Inl (Vsag INTERNAL_ERROR))" if "LabelTable_CheckLabel t new"
    using that by (simp add: LabelTable_UpdateLabel_def)
next
  assume *: "\<not> LabelTable_CheckLabel t new \<and> (\<forall>i. LabelTable_GetLabelById t i \<noteq> Inr old)"
  have "old \<notin> set (label_table t)"
  proof
    assume "old \<in> set (label_table t)"
    then obtain i where "i < length (label_table t)" "label_table t ! i = old"
      by (auto simp: in_set_conv_nth)
    then have "LabelTable_GetLabelById t (word_of_nat i) = Inr old"
      using assms(1) by (simp add: LabelTable_GetLabelById_def lt_inv_def unat_word_of_nat_u32)
    then show False using * by blast
  qed
  then show "snd (LabelTable_UpdateLabel t old new) = Inl (Vsag INTERNAL_ERROR)"
    using * by (simp add: LabelTable_UpdateLabel_def)
qed

lemma update_label_renames_example:
  "\<exists>t'. LabelTable_UpdateLabel lt_sample 70 80 = (t', Inr ()) \<and> lt_inv t' \<and>
    LabelTable_TryGetIdByLabel t' 80 True = LabelTable_TryGetIdByLabel lt_sample 70 True"
proof -
  have "\<exists>t'. LabelTable_UpdateLabel lt_sample 70 80 = (t', Inr ())"
    by (simp add: LabelTable_UpdateLabel_def LabelTable_CheckLabel_def lt_sample_def Let_def remap_lookup_def)
  then show ?thesis
    using update_label_renames [OF lt_reach_inv [OF lt_sample_reach], of 70 80]
    by (auto simp: lt_sample_def)
qed

text \<open>C21: a table read back from its serialized labels has the same label at every id, and its
  reverse map finds a label exactly when the table holds it, at the last id that holds it. When the
  labels are distinct, the scan of a table without reverse map gives the same answers.\<close>

theorem label_table_roundtrip:
  assumes "length (label_table t) < 2 ^ 32" and "length (concat (LabelTable_Serialize t) @ s) < 2 ^ 63"
    and "\<not> is_legacy_duplicate_format t0" and "use_reverse_map t0"
  shows "\<exists>t' r. LabelTable_Deserialize dt_legacy ForwardStreamReader_Read t0
        (open_forward (concat (LabelTable_Serialize t) @ s)) = Inr (t', r) \<and> fr_istream r = s \<and>
      lt_inv t' \<and> label_table t' = label_table t \<and>
      unat (total_count t') = length (label_table t) \<and>
      (\<forall>l. fst (LabelTable_TryGetIdByLabel t' l True) \<longleftrightarrow> l \<in> set (label_table t)) \<and>
      (distinct (label_table t) \<longrightarrow>
        (\<forall>l. LabelTable_TryGetIdByLabel t' l b =
             LabelTable_TryGetIdByLabel (LabelTable_SetImmutable t') l b))"
proof -
  let ?r = "open_forward (concat (LabelTable_Serialize t) @ s)"
  obtain m where m: "rebuild_remap (label_remap t0) (label_table t) = Inr m"
    and y: "yields fr_istream fr_ok (LabelTable_Deserialize dt_legacy ForwardStreamReader_Read t0 ?r)
      (t0\<lparr>label_table := label_table t, label_remap := m, is_legacy_duplicate_format := False,
          total_count := word_of_nat (length (label_table t))\<rparr>) s"
    using fwd.LabelTable_Deserialize_yields [of ?r t s t0 dt_legacy] assms by auto
  define t' where "t' = t0\<lparr>label_table := label_table t, label_remap := m,
    is_legacy_duplicate_format := False, total_count := word_of_nat (length (label_table t))\<rparr>"
  obtain r where r: "LabelTable_Deserialize dt_legacy ForwardStreamReader_Read t0 ?r = Inr (t', r)"
    "fr_istream r = s"
    using y by (auto simp: yields_def t'_def)
  have inv': "lt_inv t'" using lt_inv_Deserialize [OF r(1)] assms(1) by (simp add: t'_def)
  have immutable: "lt_inv (LabelTable_SetImmutable t')" by (rule lt_inv_SetImmutable [OF inv'])
  have dom: "remap_lookup m l = None \<longleftrightarrow> l \<notin> set (label_table t)" for l
    by (simp add: domIff flip: rebuild_remap_dom [OF m])
  have "remap_lookup m l = Some (word_of_nat (find_offset l (label_table t)))"
    if d: "distinct (label_table t)" and l: "l \<in> set (label_table t)" for l
  proof -
    obtain i where i: "remap_lookup m l = Some i" using dom l by fastforce
    have "unat i < length (label_table t)" "label_table t ! unat i = l"
      using rebuild_remap_sound [OF m i] by simp_all
    then have "find_offset l (label_table t) = unat i" using d find_offset_distinct by blast
    then show ?thesis using i by simp
  qed
  moreover have same: "deleted_ids (LabelTable_SetImmutable t') = deleted_ids t'"
    by (simp add: LabelTable_SetImmutable_def)
  ultimately have "label_id t' l = label_id (LabelTable_SetImmutable t') l" if "distinct (label_table t)" for l
    using dom that assms(4) by (auto simp: label_id_def t'_def LabelTable_SetImmutable_def)
  then have "LabelTable_TryGetIdByLabel t' l b = LabelTable_TryGetIdByLabel (LabelTable_SetImmutable t') l b"
    if "distinct (label_table t)" for l
    using that by (simp add: TryGetIdByLabel_eq [OF inv'] TryGetIdByLabel_eq [OF immutable] same split: option.split)
  moreover have "fst (LabelTable_TryGetIdByLabel t' l True) \<longleftrightarrow> l \<in> set (label_table t)" for l
  proof -
    have "fst (LabelTable_TryGetIdByLabel t' l True) \<longleftrightarrow> label_id t' l \<noteq> None"
      by (simp add: TryGetIdByLabel_eq [OF inv'] split: option.split)
    then show ?thesis using dom [of l] assms(4) by (auto simp: label_id_def t'_def)
  qed
  ultimately show ?thesis
    using r inv' assms(1) by (auto simp: t'_def unat_word_of_nat_u64)
qed

theorem label_table_roundtrip_witness:
  "\<exists>t' r. LabelTable_Deserialize (\<lambda>d r n. Inr (d, r)) ForwardStreamReader_Read lt_sample
        (open_forward (concat (LabelTable_Serialize lt_sample) @ [1])) = Inr (t', r) \<and> fr_istream r = [1] \<and>
      label_table t' = label_table lt_sample"
  using label_table_roundtrip [of lt_sample "[1]" lt_sample "\<lambda>d r n. Inr (d, r)" False]
  by (auto simp: lt_sample_def LabelTable_Serialize_def WriteVector_def WriteObj_def)

text \<open>\<open>MergeOther\<close> appends the mapped labels of the other table behind the ids in use: every
  merged label is found, at an id that carries it, every label that was found before still is, and
  the counts add up.\<close>

lemma merge_other_appends:
  assumes "lt_inv t" and "use_reverse_map t"
    and "unat (total_count t) + unat (total_count other) < 2 ^ 32"
    and "unat (total_count other) \<le> length (label_table other)"
    and "unat (total_count t) \<le> length (label_table t)"
    and "\<And>l j. remap_lookup (label_remap t) l = Some j \<Longrightarrow> unat j < unat (total_count t)"
  shows "\<exists>t'. LabelTable_MergeOther id_map t other = Inr t' \<and> lt_inv t' \<and>
    label_table t' = take (unat (total_count t)) (label_table t) @
      map (snd \<circ> id_map) (take (unat (total_count other)) (label_table other)) \<and>
    unat (total_count t') = unat (total_count t) + unat (total_count other) \<and>
    (\<forall>l. fst (LabelTable_TryGetIdByLabel t' l True) \<longleftrightarrow>
       fst (LabelTable_TryGetIdByLabel t l True) \<or>
       l \<in> set (map (snd \<circ> id_map) (take (unat (total_count other)) (label_table other))))"
proof -
  obtain t' where t': "LabelTable_MergeOther id_map t other = Inr t'" "lt_inv t'"
    "label_table t' = take (unat (total_count t)) (label_table t) @
      map (snd \<circ> id_map) (take (unat (total_count other)) (label_table other))"
    "unat (total_count t') = unat (total_count t) + unat (total_count other)"
    "use_reverse_map t' = use_reverse_map t"
    "dom (remap_lookup (label_remap t')) = dom (remap_lookup (label_remap t)) \<union>
      set (map (snd \<circ> id_map) (take (unat (total_count other)) (label_table other)))"
    using LabelTable_MergeOther_ok [of t other id_map] assms by blast
  have found: "fst (LabelTable_TryGetIdByLabel u l True) \<longleftrightarrow> l \<in> dom (remap_lookup (label_remap u))"
    if "lt_inv u" "use_reverse_map u" for u :: "'b LabelTable" and l
    using that by (auto simp: TryGetIdByLabel_eq label_id_def split: option.splits)
  show ?thesis
    using t' assms(1,2) by (auto simp: found simp del: set_map)
qed

definition lt_other :: "unit LabelTable" where
  "lt_other = lt_sample\<lparr>label_table := [70], label_remap := pg_map [70 \<mapsto> 0]\<rparr>"

lemma merge_other_appends_example:
  "\<exists>t'. LabelTable_MergeOther (\<lambda>l. (True, l + 100)) lt_other lt_sample = Inr t' \<and> lt_inv t' \<and>
    label_table t' = take (unat (total_count lt_other)) (label_table lt_other) @
      map (snd \<circ> (\<lambda>l. (True, l + 100))) (take (unat (total_count lt_sample)) (label_table lt_sample))"
proof -
  have look: "remap_lookup (label_remap lt_other) l = Some j \<longleftrightarrow> l = 70 \<and> j = 0" for l j
    by (auto simp: lt_other_def remap_lookup_def)
  have "lt_inv lt_other" unfolding lt_inv_def look by (simp add: lt_other_def)
  then show ?thesis
    using merge_other_appends [of lt_other lt_sample "\<lambda>l. (True, l + 100)"]
    by (auto simp: look) (auto simp: lt_other_def lt_sample_def)
qed

end
