(* ===== verification/CodeSlotMap.thy ===== *)
theory CodeSlotMap
  imports Streams "HOL-Library.Multiset"
begin

text \<open>
  The map from logical inner ids to physical code slots of
  \<^verbatim>\<open>src/src/datacell/code_slot_map.{h,cpp}\<close>.

  The first part takes every operation as one atomic step. The second part splits
  \<open>AllocateSlot\<close> at its atomic accesses and lets any number of calls interleave.
\<close>

section \<open>State and operations\<close>

type_synonym CodeSlotIdType = "32 word"

definition INVALID_CODE_SLOT :: CodeSlotIdType where
  "INVALID_CODE_SLOT = - 1"

record CodeSlotMap =
  inner_to_slot :: "CodeSlotIdType list"
  logical_capacity :: InnerIdType
  physical_count :: CodeSlotIdType
  published_logical_count :: InnerIdType

definition CodeSlotMap_new :: CodeSlotMap where
  "CodeSlotMap_new = \<lparr>inner_to_slot = [], logical_capacity = 0, physical_count = 0,
     published_logical_count = 0\<rparr>"

definition AllocateSlot :: "CodeSlotMap \<Rightarrow> CodeSlotIdType result \<times> CodeSlotMap" where
  "AllocateSlot m =
     (let slot_id = physical_count m;
          m = m\<lparr>physical_count := slot_id + 1\<rparr> in
      if slot_id \<ge> logical_capacity m
      then (Inl (Vsag INVALID_ARGUMENT), m\<lparr>physical_count := physical_count m - 1\<rparr>)
      else (Inr slot_id, m))"

definition PublishSlot :: "CodeSlotMap \<Rightarrow> InnerIdType \<Rightarrow> CodeSlotIdType \<Rightarrow> CodeSlotMap result" where
  "PublishSlot m inner_id code_slot_id =
     (if \<not> code_slot_id < physical_count m then Inl (Vsag INVALID_ARGUMENT)
      else if inner_id \<ge> logical_capacity m then Inl (Vsag INVALID_ARGUMENT)
      else if \<not> unat inner_id < length (inner_to_slot m) then Inl UndefinedBehaviour
      else if inner_to_slot m ! unat inner_id \<noteq> INVALID_CODE_SLOT then Inl (Vsag INVALID_ARGUMENT)
      else Inr (m\<lparr>inner_to_slot := (inner_to_slot m)[unat inner_id := code_slot_id],
                  published_logical_count := published_logical_count m + 1\<rparr>))"

definition Resolve :: "CodeSlotMap \<Rightarrow> InnerIdType \<Rightarrow> CodeSlotIdType result" where
  "Resolve m inner_id =
     (if inner_id \<ge> logical_capacity m then Inl (Vsag INVALID_ARGUMENT)
      else if \<not> unat inner_id < length (inner_to_slot m) then Inl UndefinedBehaviour
      else (let slot = inner_to_slot m ! unat inner_id in
            if slot = INVALID_CODE_SLOT then Inl (Vsag INVALID_ARGUMENT) else Inr slot))"

definition ResolvePair ::
    "CodeSlotMap \<Rightarrow> InnerIdType \<Rightarrow> InnerIdType \<Rightarrow> (CodeSlotIdType \<times> CodeSlotIdType) result" where
  "ResolvePair m inner_id1 inner_id2 =
     (if inner_id1 \<ge> logical_capacity m then Inl (Vsag INVALID_ARGUMENT)
      else if inner_id2 \<ge> logical_capacity m then Inl (Vsag INVALID_ARGUMENT)
      else if \<not> (unat inner_id1 < length (inner_to_slot m) \<and> unat inner_id2 < length (inner_to_slot m))
      then Inl UndefinedBehaviour
      else (let code_slot_id1 = inner_to_slot m ! unat inner_id1;
                code_slot_id2 = inner_to_slot m ! unat inner_id2 in
            if code_slot_id1 = INVALID_CODE_SLOT then Inl (Vsag INVALID_ARGUMENT)
            else if code_slot_id2 = INVALID_CODE_SLOT then Inl (Vsag INVALID_ARGUMENT)
            else Inr (code_slot_id1, code_slot_id2)))"

fun ResolveBatch :: "CodeSlotMap \<Rightarrow> InnerIdType list \<Rightarrow> CodeSlotIdType list result" where
  "ResolveBatch m [] = Inr []"
| "ResolveBatch m (inner_id # inner_ids) =
     (if inner_id \<ge> logical_capacity m then Inl (Vsag INVALID_ARGUMENT)
      else if \<not> unat inner_id < length (inner_to_slot m) then Inl UndefinedBehaviour
      else (let slot = inner_to_slot m ! unat inner_id in
            if slot = INVALID_CODE_SLOT then Inl (Vsag INVALID_ARGUMENT)
            else bind_r (ResolveBatch m inner_ids) (\<lambda>slots. Inr (slot # slots))))"

definition ReleaseSlots :: "CodeSlotMap \<Rightarrow> CodeSlotMap" where
  "ReleaseSlots m = m\<lparr>inner_to_slot := [], logical_capacity := 0\<rparr>"

text \<open>\<open>can_allocate n\<close> is whether the allocator finds \<open>n\<close> bytes.\<close>

definition EnsureLogicalSize :: "(u64 \<Rightarrow> bool) \<Rightarrow> InnerIdType \<Rightarrow> CodeSlotMap \<Rightarrow> CodeSlotMap result" where
  "EnsureLogicalSize can_allocate new_size m =
     (if new_size \<le> logical_capacity m then Inr m
      else if \<not> can_allocate (ucast new_size * 4) then Inl (Vsag NO_ENOUGH_MEMORY)
      else if \<not> unat (logical_capacity m) \<le> length (inner_to_slot m) then Inl UndefinedBehaviour
      else
        (let old_capacity = unat (logical_capacity m);
             new_slots = take old_capacity (inner_to_slot m) @
                         replicate (unat new_size - old_capacity) INVALID_CODE_SLOT;
             m = ReleaseSlots m in
         Inr (m\<lparr>inner_to_slot := new_slots, logical_capacity := new_size\<rparr>)))"

definition ReserveLogicalSize :: "(u64 \<Rightarrow> bool) \<Rightarrow> InnerIdType \<Rightarrow> CodeSlotMap \<Rightarrow> CodeSlotMap result" where
  "ReserveLogicalSize can_allocate new_size m = EnsureLogicalSize can_allocate new_size m"

text \<open>The loop of \<open>Serialize\<close> that drops the unbound ids at the end.\<close>

fun serialized_slot_count :: "CodeSlotIdType list \<Rightarrow> nat \<Rightarrow> nat" where
  "serialized_slot_count slots 0 = 0"
| "serialized_slot_count slots (Suc n) =
     (if slots ! n \<noteq> INVALID_CODE_SLOT then Suc n else serialized_slot_count slots n)"

definition CodeSlotMap_Serialize :: "CodeSlotMap \<Rightarrow> byte list list result" where
  "CodeSlotMap_Serialize m =
     (if unat (logical_capacity m) \<le> length (inner_to_slot m) then
        (let n = serialized_slot_count (inner_to_slot m) (unat (logical_capacity m)) in
         Inr (WriteObj (enc_u32 (physical_count m)) @ WriteVector enc_u32 (take n (inner_to_slot m))))
      else Inl UndefinedBehaviour)"

text \<open>
  The loop of \<open>Deserialize\<close>; it throws with the slots before the bad one stored. Its counter is
  32 bits wide, so it does not end on \<open>2 ^ 32\<close> slots or more.
\<close>

fun load_slots ::
    "CodeSlotIdType \<Rightarrow> CodeSlotIdType list \<Rightarrow> nat \<Rightarrow> InnerIdType \<Rightarrow> CodeSlotMap \<Rightarrow>
     InnerIdType result \<times> CodeSlotMap" where
  "load_slots physical [] i published m = (Inr published, m)"
| "load_slots physical (slot # slots) i published m =
     (if slot \<noteq> INVALID_CODE_SLOT \<and> slot \<ge> physical then (Inl (Vsag INVALID_BINARY), m)
      else if i < length (inner_to_slot m) then
        load_slots physical slots (Suc i)
          (if slot \<noteq> INVALID_CODE_SLOT then published + 1 else published)
          (m\<lparr>inner_to_slot := (inner_to_slot m)[i := slot]\<rparr>)
      else (Inl UndefinedBehaviour, m))"

definition CodeSlotMap_Deserialize ::
    "(u64 \<Rightarrow> bool) \<Rightarrow> 'r read_op \<Rightarrow> CodeSlotMap \<Rightarrow> 'r \<Rightarrow> 'r result \<times> CodeSlotMap" where
  "CodeSlotMap_Deserialize can_allocate rd m r =
     (case bind_r (ReadObj rd 4 dec_u32 r) (\<lambda>(physical, r).
             bind_r (ReadVector rd 4 dec_u32 r) (\<lambda>(slots, r). Inr (physical, slots, r))) of
        Inl e \<Rightarrow> (Inl e, m)
      | Inr (physical, slots, r) \<Rightarrow>
          if unat physical > length slots then (Inl (Vsag INVALID_BINARY), m)
          else if \<not> length slots < 2 ^ 32 then (Inl UndefinedBehaviour, m)
          else
            (let m = ReleaseSlots m in
             case EnsureLogicalSize can_allocate (word_of_nat (length slots)) m of
               Inl e \<Rightarrow> (Inl e, m)
             | Inr m \<Rightarrow>
                 (case load_slots physical slots 0 0 m of
                    (Inl e, m) \<Rightarrow> (Inl e, m)
                  | (Inr published, m) \<Rightarrow>
                      (Inr r, m\<lparr>physical_count := physical, published_logical_count := published\<rparr>))))"

definition CodeSlotMap_GetMemoryUsage :: "nat \<Rightarrow> CodeSlotMap \<Rightarrow> u64" where
  "CodeSlotMap_GetMemoryUsage sizeof_CodeSlotMap m =
     word_of_nat sizeof_CodeSlotMap + ucast (logical_capacity m) * 4"

section \<open>Invariant\<close>

definition csm_inv :: "CodeSlotMap \<Rightarrow> bool" where
  "csm_inv m \<longleftrightarrow> length (inner_to_slot m) = unat (logical_capacity m) \<and>
     physical_count m \<le> logical_capacity m \<and>
     (\<forall>s \<in> set (inner_to_slot m). s \<noteq> INVALID_CODE_SLOT \<longrightarrow> s < physical_count m) \<and>
     unat (published_logical_count m) = length (filter (\<lambda>s. s \<noteq> INVALID_CODE_SLOT) (inner_to_slot m))"

lemma csm_inv_new [simp]: "csm_inv CodeSlotMap_new"
  by (simp add: csm_inv_def CodeSlotMap_new_def)

lemma INVALID_CODE_SLOT_max: "s < c \<Longrightarrow> s \<noteq> INVALID_CODE_SLOT"
  by (auto simp: INVALID_CODE_SLOT_def)

lemma AllocateSlot_full: "physical_count m \<ge> logical_capacity m \<Longrightarrow>
    AllocateSlot m = (Inl (Vsag INVALID_ARGUMENT), m)"
  by (simp add: AllocateSlot_def)

lemma AllocateSlot_ok: "physical_count m < logical_capacity m \<Longrightarrow>
    AllocateSlot m = (Inr (physical_count m), m\<lparr>physical_count := physical_count m + 1\<rparr>)"
  by (simp add: AllocateSlot_def Let_def)

lemma unat_Suc_less: "(a :: u32) < b \<Longrightarrow> unat (a + 1) = unat a + 1"
  using unat_u32_lt [of b] by (simp add: word_less_nat_alt unat_word_ariths)

lemma csm_inv_AllocateSlot: "csm_inv m \<Longrightarrow> csm_inv (snd (AllocateSlot m))"
  by (cases "physical_count m < logical_capacity m")
    (auto simp: AllocateSlot_ok AllocateSlot_full csm_inv_def word_le_nat_alt word_less_nat_alt
      unat_Suc_less [of "physical_count m" "logical_capacity m"])

lemma length_filter_missing:
  assumes "i < length xs" and "\<not> P (xs ! i)"
  shows "length (filter P xs) < length xs"
  using assms length_filter_less [of "xs ! i" xs P] by simp

lemma PublishSlot_Inr:
  assumes inv: "csm_inv m" and ok: "PublishSlot m i s = Inr m'"
  shows "csm_inv m'" "unat i < length (inner_to_slot m)" "s < physical_count m"
    "inner_to_slot m ! unat i = INVALID_CODE_SLOT"
    "inner_to_slot m' = (inner_to_slot m)[unat i := s]" "logical_capacity m' = logical_capacity m"
    "physical_count m' = physical_count m"
proof -
  show *: "unat i < length (inner_to_slot m)" "s < physical_count m"
    "inner_to_slot m ! unat i = INVALID_CODE_SLOT"
    "inner_to_slot m' = (inner_to_slot m)[unat i := s]" "logical_capacity m' = logical_capacity m"
    "physical_count m' = physical_count m"
    using ok by (auto simp: PublishSlot_def split: if_splits)
  let ?P = "\<lambda>s. s \<noteq> INVALID_CODE_SLOT"
  have "published_logical_count m' = published_logical_count m + 1"
    using ok by (auto simp: PublishSlot_def split: if_splits)
  moreover have "length (filter ?P (inner_to_slot m)) < unat (logical_capacity m)"
    using length_filter_missing [OF *(1), of ?P] *(3) inv by (simp add: csm_inv_def)
  moreover have "length (filter ?P (inner_to_slot m')) = Suc (length (filter ?P (inner_to_slot m)))"
    unfolding *(4) using * INVALID_CODE_SLOT_max by (intro length_filter_update) auto
  ultimately have "unat (published_logical_count m') = length (filter ?P (inner_to_slot m'))"
    using inv unat_u32_lt [of "logical_capacity m"] by (simp add: csm_inv_def unat_word_ariths)
  then show "csm_inv m'"
    using inv * unfolding csm_inv_def by (auto dest!: set_update_subset_insert [THEN subsetD])
qed

lemma EnsureLogicalSize_Inr:
  assumes inv: "csm_inv m" and ok: "EnsureLogicalSize can n m = Inr m'"
  shows "csm_inv m'" "unat (logical_capacity m') = max (unat (logical_capacity m)) (unat n)"
    "inner_to_slot m' = inner_to_slot m @
       replicate (unat n - unat (logical_capacity m)) INVALID_CODE_SLOT"
    "physical_count m' = physical_count m"
  using assms
  by (auto simp: EnsureLogicalSize_def csm_inv_def ReleaseSlots_def Let_def word_le_nat_alt
      word_less_nat_alt split: if_splits)

section \<open>The map a state stands for\<close>

definition csm_abs :: "CodeSlotMap \<Rightarrow> InnerIdType \<rightharpoonup> CodeSlotIdType" where
  "csm_abs m i =
     (if i < logical_capacity m \<and> inner_to_slot m ! unat i \<noteq> INVALID_CODE_SLOT
      then Some (inner_to_slot m ! unat i) else None)"

lemma csm_invD:
  assumes "csm_inv m"
  shows "length (inner_to_slot m) = unat (logical_capacity m)"
    "i < logical_capacity m \<Longrightarrow> unat i < length (inner_to_slot m)"
  using assms by (simp_all add: csm_inv_def word_less_nat_alt)

lemma Resolve_abs:
  "csm_inv m \<Longrightarrow> Resolve m i = (case csm_abs m i of None \<Rightarrow> Inl (Vsag INVALID_ARGUMENT) | Some s \<Rightarrow> Inr s)"
  using csm_invD(2) [of m i] by (auto simp: Resolve_def csm_abs_def Let_def not_less)

lemma csm_abs_PublishSlot:
  assumes "csm_inv m" and "PublishSlot m i s = Inr m'"
  shows "csm_abs m i = None" "csm_abs m' = (csm_abs m)(i \<mapsto> s)"
proof -
  note P = PublishSlot_Inr [OF assms]
  show "csm_abs m i = None" using P(4) by (simp add: csm_abs_def)
  have "i < logical_capacity m" using P(2) csm_invD(1) [OF assms(1)] by (simp add: word_less_nat_alt)
  moreover have "s \<noteq> INVALID_CODE_SLOT" using P(3) by (rule INVALID_CODE_SLOT_max)
  ultimately show "csm_abs m' = (csm_abs m)(i \<mapsto> s)"
    using P csm_invD(1) [OF assms(1)]
    by (auto simp: csm_abs_def fun_eq_iff nth_list_update word_unat_eq_iff [symmetric])
qed

lemma csm_abs_EnsureLogicalSize:
  assumes "csm_inv m" and "EnsureLogicalSize can n m = Inr m'"
  shows "csm_abs m' = csm_abs m"
proof
  fix i
  note E = EnsureLogicalSize_Inr [OF assms] and D = csm_invD [OF assms(1)]
  show "csm_abs m' i = csm_abs m i"
  proof (cases "i < logical_capacity m")
    case True
    then show ?thesis using E(2,3) D by (auto simp: csm_abs_def nth_append word_less_nat_alt)
  next
    case False
    then show ?thesis
      using E(2,3) D by (auto simp: csm_abs_def nth_append word_less_nat_alt)
  qed
qed

section \<open>Serialization\<close>

lemma serialized_slot_count_le: "serialized_slot_count slots n \<le> n"
  by (induction n) auto

lemma serialized_slot_count_beyond:
  "serialized_slot_count slots n \<le> i \<Longrightarrow> i < n \<Longrightarrow> slots ! i = INVALID_CODE_SLOT"
  by (induction n) (auto simp: less_Suc_eq split: if_splits)

lemma load_slots_ok:
  assumes "\<forall>s \<in> set slots. s \<noteq> INVALID_CODE_SLOT \<longrightarrow> s < p"
    and "i + length slots = length (inner_to_slot m)"
  shows "load_slots p slots i pub m =
    (Inr (pub + word_of_nat (length (filter (\<lambda>s. s \<noteq> INVALID_CODE_SLOT) slots))),
     m\<lparr>inner_to_slot := take i (inner_to_slot m) @ slots\<rparr>)"
  using assms
proof (induction slots arbitrary: i pub m)
  case (Cons s slots)
  have "take (Suc i) ((inner_to_slot m)[i := s]) = take i (inner_to_slot m) @ [s]"
    using Cons.prems(2) by (simp add: take_Suc_conv_app_nth)
  then show ?case
    using Cons.prems
      Cons.IH [of "Suc i" "m\<lparr>inner_to_slot := (inner_to_slot m)[i := s]\<rparr>" pub]
      Cons.IH [of "Suc i" "m\<lparr>inner_to_slot := (inner_to_slot m)[i := s]\<rparr>" "pub + 1"]
    by (auto simp: ac_simps)
qed simp

text \<open>If every physical slot is bound, there are at least as many serialized ids as slots.\<close>

lemma all_bound_count:
  assumes inv: "csm_inv m"
    and bound: "\<forall>k < unat (physical_count m). word_of_nat k \<in> set (inner_to_slot m)"
  shows "unat (physical_count m) \<le>
    serialized_slot_count (inner_to_slot m) (unat (logical_capacity m))"
proof -
  let ?n = "serialized_slot_count (inner_to_slot m) (unat (logical_capacity m))"
  let ?f = "\<lambda>k. word_of_nat k :: u32"
  note D = csm_invD(1) [OF inv]
  have un: "unat (?f k) = k" if "k < unat (physical_count m)" for k
    using that unat_u32_lt [of "physical_count m"] by (simp add: unat_word_of_nat_u32)
  have "inj_on ?f {0..<unat (physical_count m)}"
    by (rule inj_onI) (metis un atLeastLessThan_iff)
  moreover have "?f ` {0..<unat (physical_count m)} \<subseteq> set (take ?n (inner_to_slot m))"
  proof
    fix s
    assume "s \<in> ?f ` {0..<unat (physical_count m)}"
    then obtain k where k: "k < unat (physical_count m)" "s = ?f k" by auto
    then obtain i where i: "i < unat (logical_capacity m)" "inner_to_slot m ! i = s"
      using bound D by (metis in_set_conv_nth)
    have "s < physical_count m" using k un by (simp add: word_less_nat_alt)
    then have "s \<noteq> INVALID_CODE_SLOT" by (rule INVALID_CODE_SLOT_max)
    then have "i < ?n" using serialized_slot_count_beyond [of "inner_to_slot m" _ i] i by force
    then show "s \<in> set (take ?n (inner_to_slot m))"
      using i D by (auto simp: in_set_conv_nth intro!: exI [of _ i])
  qed
  ultimately have "unat (physical_count m) \<le> card (set (take ?n (inner_to_slot m)))"
    using card_inj_on_le [of ?f "{0..<unat (physical_count m)}"] by simp
  also have "\<dots> \<le> length (take ?n (inner_to_slot m))" by (rule card_length)
  finally show ?thesis by simp
qed

lemma filter_bound_take:
  assumes "n \<le> length slots" and "\<And>i. n \<le> i \<Longrightarrow> i < length slots \<Longrightarrow> \<not> P (slots ! i)"
  shows "filter P (take n slots) = filter P slots"
proof -
  have "filter P (drop n slots) = []"
    using assms(2) by (auto simp: filter_empty_conv in_set_conv_nth)
  then show ?thesis
    using append_take_drop_id [of n slots] by (metis append_Nil2 filter_append)
qed

context byte_source
begin

lemma CodeSlotMap_Deserialize_written:
  assumes inv: "csm_inv m"
    and bound: "\<forall>k < unat (physical_count m). word_of_nat k \<in> set (inner_to_slot m)"
    and cs: "CodeSlotMap_Serialize m = Inr cs" and r: "rest r = concat cs @ s" "ok r"
    and mem: "can (ucast (word_of_nat (serialized_slot_count (inner_to_slot m)
      (unat (logical_capacity m))) :: u32) * 4)"
  shows "\<exists>r' m'. CodeSlotMap_Deserialize can rd m0 r = (Inr r', m') \<and> rest r' = s \<and> ok r' \<and>
    inner_to_slot m' = take (serialized_slot_count (inner_to_slot m) (unat (logical_capacity m)))
      (inner_to_slot m) \<and>
    unat (logical_capacity m') = serialized_slot_count (inner_to_slot m) (unat (logical_capacity m)) \<and>
    physical_count m' = physical_count m \<and> published_logical_count m' = published_logical_count m"
proof -
  let ?n = "serialized_slot_count (inner_to_slot m) (unat (logical_capacity m))"
  let ?slots = "take ?n (inner_to_slot m)" and ?P = "\<lambda>s. s \<noteq> INVALID_CODE_SLOT"
  note D = csm_invD(1) [OF inv]
  have n: "?n \<le> length (inner_to_slot m)" using serialized_slot_count_le D by simp
  then have n32: "?n < 4294967296" using D unat_u32_lt [of "logical_capacity m"] by simp
  have len: "length ?slots = ?n" using n by simp
  have phys: "\<not> unat (physical_count m) > ?n" using all_bound_count [OF inv bound] by simp
  have "concat cs = enc_u32 (physical_count m) @ concat (WriteVector enc_u32 ?slots)"
    using cs D by (auto simp: CodeSlotMap_Serialize_def WriteObj_def Let_def)
  then have r': "rest r = enc_u32 (physical_count m) @ concat (WriteVector enc_u32 ?slots) @ s"
    using r by simp
  obtain r1 where r1: "ReadObj rd 4 dec_u32 r = Inr (physical_count m, r1)"
    "rest r1 = concat (WriteVector enc_u32 ?slots) @ s" "ok r1"
    using ReadObj_u32 [OF r' r(2)] by (auto simp: yields_def)
  obtain r2 where r2: "ReadVector rd 4 dec_u32 r1 = Inr (?slots, r2)" "rest r2 = s" "ok r2"
    using ReadVector_yields [OF r1(2,3), of 4 dec_u32] by (auto simp: yields_def)
  let ?m1 = "m0\<lparr>inner_to_slot := replicate ?n INVALID_CODE_SLOT, logical_capacity := word_of_nat ?n\<rparr>"
  have ens: "EnsureLogicalSize can (word_of_nat ?n) (ReleaseSlots m0) = Inr ?m1"
    using mem n32 by (cases "?n = 0")
      (auto simp: EnsureLogicalSize_def ReleaseSlots_def unat_word_of_nat_u32 word_le_nat_alt)
  have valid: "\<forall>s \<in> set ?slots. ?P s \<longrightarrow> s < physical_count m"
    using inv by (auto simp: csm_inv_def dest: in_set_takeD)
  have cnt: "filter ?P ?slots = filter ?P (inner_to_slot m)"
    using n D by (intro filter_bound_take) (simp_all add: serialized_slot_count_beyond)
  have load: "load_slots (physical_count m) ?slots 0 0 ?m1 =
      (Inr (published_logical_count m), ?m1\<lparr>inner_to_slot := ?slots\<rparr>)"
    using load_slots_ok [OF valid, of 0 ?m1 0] inv n
    by (simp add: cnt csm_inv_def flip: word_unat_eq_iff)
      (metis unat_word_of_nat_u32 unat_u32_lt word_unat_eq_iff)
  show ?thesis
    using r1 r2 ens load phys len n32 n
    by (simp add: CodeSlotMap_Deserialize_def Let_def unat_word_of_nat_u32)
qed

end

section \<open>Concurrent allocation\<close>

text \<open>
  \<open>AllocateSlot\<close> is three accesses: \<open>fetch_add\<close>, the comparison with the capacity (which
  does not change while calls are running), and on failure \<open>fetch_sub\<close>. A state has the counter,
  the slots fetched by calls that have not compared yet, the number of calls that failed and have not
  undone their increment, and the slots that were returned. \<open>fetch_add\<close> is guarded by the
  counter not wrapping, that is, fewer than \<open>2 ^ 32\<close> slots and calls at a time.
\<close>

record alloc_state =
  al_count :: u32
  al_fetched :: "u32 list"
  al_failed :: nat
  al_returned :: "u32 list"

inductive alloc_step :: "u32 \<Rightarrow> alloc_state \<Rightarrow> alloc_state \<Rightarrow> bool" for cap where
  fetch_add: "unat (al_count a) + 1 < 2 ^ 32 \<Longrightarrow>
    alloc_step cap a (a\<lparr>al_count := al_count a + 1, al_fetched := al_count a # al_fetched a\<rparr>)"
| compare_ok: "al_fetched a = xs @ slot_id # ys \<Longrightarrow> \<not> slot_id \<ge> cap \<Longrightarrow>
    alloc_step cap a (a\<lparr>al_fetched := xs @ ys, al_returned := slot_id # al_returned a\<rparr>)"
| compare_full: "al_fetched a = xs @ slot_id # ys \<Longrightarrow> slot_id \<ge> cap \<Longrightarrow>
    alloc_step cap a (a\<lparr>al_fetched := xs @ ys, al_failed := Suc (al_failed a)\<rparr>)"
| fetch_sub: "al_failed a = Suc n \<Longrightarrow>
    alloc_step cap a (a\<lparr>al_count := al_count a - 1, al_failed := n\<rparr>)"

inductive_cases alloc_stepE: "alloc_step cap a b"

definition alloc_start :: "u32 \<Rightarrow> alloc_state" where
  "alloc_start n = \<lparr>al_count = n, al_fetched = [], al_failed = 0, al_returned = []\<rparr>"

text \<open>
  The slots that are or will be returned are, in some order, the numbers from the starting count up
  to \<open>g\<close>; all other calls are failures, and there are none before the capacity is reached.
\<close>

definition alloc_inv :: "u32 \<Rightarrow> u32 \<Rightarrow> alloc_state \<Rightarrow> bool" where
  "alloc_inv cap start a \<longleftrightarrow>
     (let good = filter (\<lambda>s. s < cap) (al_fetched a);
          bad = length (filter (\<lambda>s. \<not> s < cap) (al_fetched a)) + al_failed a;
          g = unat start + length (good @ al_returned a) in
      mset (map unat (good @ al_returned a)) = mset [unat start..<g] \<and>
      unat (al_count a) = g + bad \<and> g \<le> unat cap \<and> (bad > 0 \<longrightarrow> g = unat cap))"

lemma alloc_inv_start: "start \<le> cap \<Longrightarrow> alloc_inv cap start (alloc_start start)"
  by (simp add: alloc_inv_def alloc_start_def word_le_nat_alt)

lemma alloc_inv_step:
  assumes "alloc_step cap a b" and "alloc_inv cap start a"
  shows "alloc_inv cap start b"
  using assms(1)
proof (cases rule: alloc_step.cases)
  case fetch_add
  let ?good = "filter (\<lambda>s. s < cap) (al_fetched a)"
    and ?bad = "length (filter (\<lambda>s. \<not> s < cap) (al_fetched a)) + al_failed a"
  let ?g = "unat start + length (?good @ al_returned a)"
  have inv: "mset (map unat (?good @ al_returned a)) = mset [unat start..<?g]"
    "unat (al_count a) = ?g + ?bad" "?g \<le> unat cap" "?bad > 0 \<longrightarrow> ?g = unat cap"
    using assms(2) by (simp_all add: alloc_inv_def Let_def)
  have cnt: "unat (al_count a + 1) = unat (al_count a) + 1"
    using fetch_add(2) by (simp add: unat_word_ariths)
  show ?thesis
  proof (cases "al_count a < cap")
    case True
    then have "?bad = 0" "unat (al_count a) = ?g" using inv by (auto simp: word_less_nat_alt)
    then show ?thesis
      using inv cnt True unfolding alloc_inv_def fetch_add(1) Let_def
      by (simp add: word_less_nat_alt)
  next
    case False
    then show ?thesis
      using inv cnt unfolding alloc_inv_def fetch_add(1) Let_def
      by (auto simp: word_less_nat_alt)
  qed
next
  case (fetch_sub n)
  then have "0 < unat (al_count a)" using assms(2) by (auto simp: alloc_inv_def Let_def)
  then have "unat (al_count a - 1) = unat (al_count a) - 1"
    by (simp add: unat_sub word_le_nat_alt)
  then show ?thesis using assms(2) fetch_sub by (auto simp: alloc_inv_def Let_def)
qed (use assms(2) in \<open>auto simp: alloc_inv_def Let_def ac_simps\<close>)

lemma alloc_inv_reach:
  assumes "(alloc_step cap)\<^sup>*\<^sup>* a b" and "alloc_inv cap start a"
  shows "alloc_inv cap start b"
  using assms by (induction rule: rtranclp_induct) (auto intro: alloc_inv_step)

section \<open>Properties\<close>

text \<open>C19: publishing succeeds exactly for an allocated slot and a reserved id that is not bound yet;
  it binds that id and no other, and the binding cannot be replaced. \<open>Resolve\<close>,
  \<open>ResolvePair\<close> and \<open>ResolveBatch\<close> read the bindings.\<close>

theorem code_slot_publish_resolve:
  assumes "csm_inv m"
  shows "((\<exists>m'. PublishSlot m i s = Inr m') \<longleftrightarrow>
      s < physical_count m \<and> i < logical_capacity m \<and> Resolve m i = Inl (Vsag INVALID_ARGUMENT)) \<and>
    (\<forall>m'. PublishSlot m i s = Inr m' \<longrightarrow> csm_inv m' \<and> Resolve m' i = Inr s \<and>
      (\<forall>j. j \<noteq> i \<longrightarrow> Resolve m' j = Resolve m j) \<and>
      (\<forall>t. PublishSlot m' i t = Inl (Vsag INVALID_ARGUMENT))) \<and>
    (\<forall>x y. ResolvePair m i j = Inr (x, y) \<longleftrightarrow> Resolve m i = Inr x \<and> Resolve m j = Inr y) \<and>
    (\<forall>xs. ResolveBatch m ids = Inr xs \<longleftrightarrow> map (Resolve m) ids = map Inr xs)"
proof (intro conjI allI impI)
  note D = csm_invD [OF assms]
  show "(\<exists>m'. PublishSlot m i s = Inr m') \<longleftrightarrow>
      s < physical_count m \<and> i < logical_capacity m \<and> Resolve m i = Inl (Vsag INVALID_ARGUMENT)"
    using D(2) [of i] by (auto simp: PublishSlot_def Resolve_def Let_def not_less)
  show "ResolvePair m i j = Inr (x, y) \<longleftrightarrow> Resolve m i = Inr x \<and> Resolve m j = Inr y" for x y
    using D(2) [of i] D(2) [of j] by (auto simp: ResolvePair_def Resolve_def Let_def not_less)
  show "ResolveBatch m ids = Inr xs \<longleftrightarrow> map (Resolve m) ids = map Inr xs" for xs
  proof (induction ids arbitrary: xs)
    case (Cons k ids)
    show ?case using D(2) [of k] Cons.IH
      by (cases xs) (auto simp: Resolve_def Let_def not_less bind_r_eq_Inr_iff)
  qed auto
next
  fix m'
  assume ok: "PublishSlot m i s = Inr m'"
  note P = PublishSlot_Inr [OF assms ok] and A = csm_abs_PublishSlot [OF assms ok]
  show "csm_inv m'" by (rule P(1))
  show "Resolve m' i = Inr s" using A(2) P(1) by (simp add: Resolve_abs)
  show "Resolve m' j = Resolve m j" if "j \<noteq> i" for j
    using A(2) P(1) assms that by (simp add: Resolve_abs)
  have "inner_to_slot m' ! unat i = s" "unat i < length (inner_to_slot m')"
    using P(2,5) by simp_all
  then show "PublishSlot m' i t = Inl (Vsag INVALID_ARGUMENT)" for t
    using INVALID_CODE_SLOT_max [OF P(3)] by (simp add: PublishSlot_def)
qed

definition csm_sample :: CodeSlotMap where
  "csm_sample = \<lparr>inner_to_slot = [0, INVALID_CODE_SLOT], logical_capacity = 2, physical_count = 1,
     published_logical_count = 1\<rparr>"

lemma csm_sample_inv: "csm_inv csm_sample"
  by (simp add: csm_inv_def csm_sample_def INVALID_CODE_SLOT_def)

theorem code_slot_publish_resolve_witness:
  "\<exists>m'. PublishSlot csm_sample 1 0 = Inr m' \<and> csm_inv m' \<and> Resolve m' 1 = Inr 0 \<and>
    (\<forall>j. j \<noteq> 1 \<longrightarrow> Resolve m' j = Resolve csm_sample j)"
proof -
  have "\<exists>m'. PublishSlot csm_sample 1 0 = Inr m'"
    by (simp add: PublishSlot_def csm_sample_def word_le_nat_alt)
  then show ?thesis using code_slot_publish_resolve [OF csm_sample_inv, of 1 0] by blast
qed

text \<open>When every allocated slot is bound to some id, the map written by \<open>Serialize\<close> reads back
  with the same binding for every id, the same counts and the invariant, although the unbound ids
  at the end are not written.\<close>

lemma code_slot_map_roundtrip:
  assumes "csm_inv m"
    and "\<forall>k < unat (physical_count m). word_of_nat k \<in> set (inner_to_slot m)"
    and "CodeSlotMap_Serialize m = Inr cs" and "length (concat cs @ s) < 2 ^ 63"
  shows "\<exists>r m'. CodeSlotMap_Deserialize (\<lambda>n. True) ForwardStreamReader_Read m0
      (open_forward (concat cs @ s)) = (Inr r, m') \<and> fr_istream r = s \<and> csm_inv m' \<and>
    (\<forall>i. Resolve m' i = Resolve m i) \<and> physical_count m' = physical_count m \<and>
    published_logical_count m' = published_logical_count m"
proof -
  let ?n = "serialized_slot_count (inner_to_slot m) (unat (logical_capacity m))"
  note D = csm_invD(1) [OF assms(1)]
  obtain r m' where m': "CodeSlotMap_Deserialize (\<lambda>n. True) ForwardStreamReader_Read m0
      (open_forward (concat cs @ s)) = (Inr r, m')" "fr_istream r = s"
    "inner_to_slot m' = take ?n (inner_to_slot m)" "unat (logical_capacity m') = ?n"
    "physical_count m' = physical_count m" "published_logical_count m' = published_logical_count m"
    using fwd.CodeSlotMap_Deserialize_written [OF assms(1-3), of "open_forward (concat cs @ s)" s
        "\<lambda>n. True" m0] assms(4) by auto
  have n: "?n \<le> unat (logical_capacity m)" by (rule serialized_slot_count_le)
  have "filter (\<lambda>s. s \<noteq> INVALID_CODE_SLOT) (take ?n (inner_to_slot m)) =
      filter (\<lambda>s. s \<noteq> INVALID_CODE_SLOT) (inner_to_slot m)"
    using n D by (intro filter_bound_take) (simp_all add: serialized_slot_count_beyond)
  then have inv': "csm_inv m'"
    using assms(1) m' n D all_bound_count [OF assms(1,2)]
    by (auto simp: csm_inv_def word_le_nat_alt dest: in_set_takeD)
  have "csm_abs m' i = csm_abs m i" for i
  proof (cases "unat i < ?n")
    case False
    then have "csm_abs m i = None"
      using serialized_slot_count_beyond [of "inner_to_slot m" "unat (logical_capacity m)" "unat i"]
      by (simp add: csm_abs_def word_less_nat_alt)
    then show ?thesis using False m'(4) by (simp add: csm_abs_def word_less_nat_alt)
  qed (use m' n in \<open>simp add: csm_abs_def word_less_nat_alt\<close>)
  then show ?thesis using m' inv' assms(1) by (simp add: Resolve_abs)
qed

lemma code_slot_map_roundtrip_example:
  "\<exists>r m'. CodeSlotMap_Deserialize (\<lambda>n. True) ForwardStreamReader_Read CodeSlotMap_new
      (open_forward (concat (WriteObj (enc_u32 1) @ WriteVector enc_u32 [0]) @ [9])) = (Inr r, m') \<and>
    fr_istream r = [9] \<and> csm_inv m' \<and> (\<forall>i. Resolve m' i = Resolve csm_sample i) \<and>
    physical_count m' = physical_count csm_sample \<and>
    published_logical_count m' = published_logical_count csm_sample"
proof -
  have "serialized_slot_count [0, INVALID_CODE_SLOT] 2 = 1"
    by (simp add: numeral_2_eq_2 INVALID_CODE_SLOT_def)
  then have "CodeSlotMap_Serialize csm_sample = Inr (WriteObj (enc_u32 1) @ WriteVector enc_u32 [0])"
    by (simp add: csm_sample_def CodeSlotMap_Serialize_def)
  then show ?thesis
    by (rule code_slot_map_roundtrip [OF csm_sample_inv, rotated])
      (simp_all add: csm_sample_def WriteObj_def WriteVector_def)
qed

text \<open>C20: without that condition the round trip fails: when more slots were allocated than ids up to
  the last bound one, \<open>Deserialize\<close> refuses the bytes that \<open>Serialize\<close> wrote.\<close>

theorem unbound_slot_not_readable:
  assumes "csm_inv m" and "CodeSlotMap_Serialize m = Inr cs" and "length (concat cs @ s) < 2 ^ 63"
    and "serialized_slot_count (inner_to_slot m) (unat (logical_capacity m)) < unat (physical_count m)"
  shows "CodeSlotMap_Deserialize can ForwardStreamReader_Read m0 (open_forward (concat cs @ s)) =
    (Inl (Vsag INVALID_BINARY), m0)"
proof -
  let ?slots = "take (serialized_slot_count (inner_to_slot m) (unat (logical_capacity m))) (inner_to_slot m)"
  let ?r = "open_forward (concat cs @ s)"
  have "fr_istream ?r = enc_u32 (physical_count m) @ concat (WriteVector enc_u32 ?slots) @ s" "fr_ok ?r"
    using assms(2,3) csm_invD(1) [OF assms(1)]
    by (auto simp: CodeSlotMap_Serialize_def WriteObj_def Let_def)
  then obtain r1 where r1: "ReadObj ForwardStreamReader_Read 4 dec_u32 ?r = Inr (physical_count m, r1)"
    "fr_istream r1 = concat (WriteVector enc_u32 ?slots) @ s" "fr_ok r1"
    using fwd.ReadObj_u32 [of ?r] by (auto simp: yields_def)
  obtain r2 where "ReadVector ForwardStreamReader_Read 4 dec_u32 r1 = Inr (?slots, r2)"
    using fwd.ReadVector_yields [OF r1(2,3), of 4 dec_u32] by (auto simp: yields_def)
  moreover have "length ?slots < unat (physical_count m)" using assms(4) by simp
  ultimately show ?thesis
    using r1(1) by (simp add: CodeSlotMap_Deserialize_def del: length_take)
qed

theorem unbound_slot_not_readable_witness:
  "CodeSlotMap_Deserialize (\<lambda>n. True) ForwardStreamReader_Read CodeSlotMap_new
     (open_forward (concat (WriteObj (enc_u32 1) @ WriteVector enc_u32 []) @ [])) =
   (Inl (Vsag INVALID_BINARY), CodeSlotMap_new)"
  by (rule unbound_slot_not_readable
      [of "\<lparr>inner_to_slot = [INVALID_CODE_SLOT], logical_capacity = 1, physical_count = 1,
            published_logical_count = 0\<rparr>"])
    (simp_all add: csm_inv_def CodeSlotMap_Serialize_def WriteObj_def WriteVector_def)

text \<open>C13: however concurrent calls of \<open>AllocateSlot\<close> interleave, the slots they return are pairwise
  different, not below the first free slot and below the capacity, and when no call is running the
  counter is exactly the number of slots handed out: a failing call never gives a slot twice and
  never loses one.\<close>

theorem concurrent_allocation_unique:
  assumes "(alloc_step cap)\<^sup>*\<^sup>* (alloc_start start) a" and "start \<le> cap"
  shows "distinct (al_returned a) \<and> (\<forall>s \<in> set (al_returned a). start \<le> s \<and> s < cap) \<and>
    (al_fetched a = [] \<and> al_failed a = 0 \<longrightarrow>
      unat (al_count a) = unat start + length (al_returned a))"
proof -
  have inv: "alloc_inv cap start a"
    by (rule alloc_inv_reach [OF assms(1) alloc_inv_start [OF assms(2)]])
  let ?good = "filter (\<lambda>s. s < cap) (al_fetched a) @ al_returned a"
  have perm: "mset (map unat ?good) = mset [unat start..<unat start + length ?good]"
    and cap: "unat start + length ?good \<le> unat cap"
    using inv by (simp_all add: alloc_inv_def Let_def)
  from perm have "distinct (map unat ?good)" by (metis distinct_upt mset_eq_imp_distinct_iff)
  then have "distinct (al_returned a)" by (simp add: distinct_map)
  moreover have "start \<le> s \<and> s < cap" if "s \<in> set (al_returned a)" for s
  proof -
    have "unat s \<in> set (map unat ?good)" using that by simp
    then have "unat s \<in> set [unat start..<unat start + length ?good]"
      using perm by (metis set_mset_mset)
    then show ?thesis using cap by (simp add: word_le_nat_alt word_less_nat_alt)
  qed
  moreover have "unat (al_count a) = unat start + length (al_returned a)"
    if "al_fetched a = []" "al_failed a = 0"
    using inv that by (simp add: alloc_inv_def Let_def)
  ultimately show ?thesis by blast
qed

lemma two_calls_one_slot:
  "(alloc_step 1)\<^sup>*\<^sup>* (alloc_start 0)
     \<lparr>al_count = 1, al_fetched = [], al_failed = 0, al_returned = [0]\<rparr>"
proof -
  let ?S = "\<lambda>c f n r. \<lparr>al_count = c, al_fetched = f, al_failed = n, al_returned = r\<rparr>"
  have 1: "alloc_step 1 (alloc_start 0) (?S 1 [0] 0 [])"
    using alloc_step.fetch_add [of "?S 0 [] 0 []" 1] by (simp add: alloc_start_def)
  have 2: "alloc_step 1 (?S 1 [0] 0 []) (?S 2 [1, 0] 0 [])"
    using alloc_step.fetch_add [of "?S 1 [0] 0 []" 1] by simp
  have 3: "alloc_step 1 (?S 2 [1, 0] 0 []) (?S 2 [0] 1 [])"
    using alloc_step.compare_full [of "?S 2 [1, 0] 0 []" "[]" 1 "[0]" 1] by simp
  have 4: "alloc_step 1 (?S 2 [0] 1 []) (?S 2 [] 1 [0])"
    using alloc_step.compare_ok [of "?S 2 [0] 1 []" "[]" 0 "[]" 1] by simp
  have 5: "alloc_step 1 (?S 2 [] 1 [0]) (?S 1 [] 0 [0])"
    using alloc_step.fetch_sub [of "?S 2 [] 1 [0]" 0 1] by simp
  note chain = rtranclp.rtrancl_into_rtrancl [where r = "alloc_step 1"]
  show ?thesis
    by (rule chain [OF chain [OF chain [OF chain [OF chain [OF rtranclp.rtrancl_refl 1] 2] 3] 4] 5])
qed

theorem concurrent_allocation_unique_witness:
  "\<exists>a. (alloc_step 1)\<^sup>*\<^sup>* (alloc_start 0) a \<and> al_returned a = [0] \<and> distinct (al_returned a) \<and>
    (\<forall>s \<in> set (al_returned a). 0 \<le> s \<and> s < 1) \<and> unat (al_count a) = length (al_returned a)"
proof (intro exI conjI)
  let ?a = "\<lparr>al_count = 1, al_fetched = [], al_failed = 0, al_returned = [0]\<rparr>"
  note ok = concurrent_allocation_unique [OF two_calls_one_slot]
  show "(alloc_step 1)\<^sup>*\<^sup>* (alloc_start 0) ?a" by (rule two_calls_one_slot)
  show "distinct (al_returned ?a)" using ok by simp
  show "\<forall>s \<in> set (al_returned ?a). 0 \<le> s \<and> s < 1" using ok by simp
  show "unat (al_count ?a) = length (al_returned ?a)" using ok by simp
qed simp

end
