(* ===== verification/DuplicateTracker.thy ===== *)
theory DuplicateTracker
  imports Streams "HOL-Library.While_Combinator"
begin

text \<open>
  Duplicate groups: the interface \<^verbatim>\<open>src/src/datacell/duplicate_interface.h\<close> and its two
  implementations \<^verbatim>\<open>src/src/datacell/dense_duplicate_tracker.{h,cpp}\<close> and
  \<^verbatim>\<open>src/src/datacell/sparse_duplicate_tracker.{h,cpp}\<close>.

  Both keep the members of a group on a circular linked list and walk it in a \<open>while\<close> loop that
  ends when it meets its start again, which on a damaged list is never. The loops are
  \<open>while_option\<close>: a loop that does not end has the value \<open>None\<close>. That the loops end is
  therefore part of what is proved.
\<close>

section \<open>Loops that may not end\<close>

type_synonym 'a exec = "'a result option"

definition bind_e :: "'a exec \<Rightarrow> ('a \<Rightarrow> 'b exec) \<Rightarrow> 'b exec" where
  "bind_e m f = (case m of None \<Rightarrow> None | Some (Inl e) \<Rightarrow> Some (Inl e) | Some (Inr x) \<Rightarrow> f x)"

lemma bind_e_simps [simp]:
  "bind_e None f = None" "bind_e (Some (Inl e)) f = Some (Inl e)" "bind_e (Some (Inr x)) f = f x"
  by (simp_all add: bind_e_def)

text \<open>
  \<open>walk get stop upd acc current\<close> is the loop
  \<open>while (current != stop) { acc = upd(acc, current); current = get(current); }\<close>.
\<close>

definition walk ::
    "('i \<Rightarrow> 'i result) \<Rightarrow> 'i \<Rightarrow> ('a \<Rightarrow> 'i \<Rightarrow> 'a) \<Rightarrow> 'a \<Rightarrow> 'i \<Rightarrow> 'a exec" where
  "walk get stop upd acc current =
     map_option (\<lambda>s. bind_r s (\<lambda>(acc, _). Inr acc))
       (while_option
          (\<lambda>s. case s of Inl e \<Rightarrow> False | Inr (acc, current) \<Rightarrow> current \<noteq> stop)
          (\<lambda>s. bind_r s (\<lambda>(acc, current). bind_r (get current) (\<lambda>nx. Inr (upd acc current, nx))))
          (Inr (acc, current)))"

lemma walk_stop [simp]: "walk get stop upd acc stop = Some (Inr acc)"
  by (simp add: walk_def while_option_unfold)

lemma while_option_error [simp]:
  "while_option (\<lambda>s. case s of Inl e \<Rightarrow> False | Inr x \<Rightarrow> P x) c (Inl e) = Some (Inl e)"
  by (simp add: while_option_unfold)

lemma walk_step:
  "current \<noteq> stop \<Longrightarrow> walk get stop upd acc current =
    (case get current of Inl e \<Rightarrow> Some (Inl e) | Inr nx \<Rightarrow> walk get stop upd (upd acc current) nx)"
  unfolding walk_def
  by (subst while_option_unfold) (cases "get current"; simp)

section \<open>The interface\<close>

definition DuplicateInterface_GetGroupSize ::
    "('t \<Rightarrow> InnerIdType \<Rightarrow> InnerIdType exec) \<Rightarrow> ('t \<Rightarrow> InnerIdType \<Rightarrow> InnerIdType list exec) \<Rightarrow>
     't \<Rightarrow> InnerIdType \<Rightarrow> u64 exec" where
  "DuplicateInterface_GetGroupSize get_group get_dups t i =
     bind_e (get_group t i) (\<lambda>group_id.
     bind_e (get_dups t group_id) (\<lambda>ids. Some (Inr (word_of_nat (length ids) + 1))))"

fun merge_group ::
    "('t \<Rightarrow> InnerIdType \<Rightarrow> InnerIdType \<Rightarrow> 't) \<Rightarrow> InnerIdType \<Rightarrow> InnerIdType \<Rightarrow> InnerIdType list \<Rightarrow> 't \<Rightarrow> 't" where
  "merge_group set_dup bias i [] t = t"
| "merge_group set_dup bias i (d # ds) t = merge_group set_dup bias i ds (set_dup t (i + bias) (d + bias))"

text \<open>The loop over the ids \<open>i, i + 1, ...\<close> below \<open>count\<close>, \<open>n\<close> of them left.\<close>

fun merge_from ::
    "('t \<Rightarrow> InnerIdType \<Rightarrow> InnerIdType \<Rightarrow> 't) \<Rightarrow> ('o \<Rightarrow> InnerIdType \<Rightarrow> InnerIdType exec) \<Rightarrow>
     ('o \<Rightarrow> InnerIdType \<Rightarrow> InnerIdType list exec) \<Rightarrow> 'o \<Rightarrow> InnerIdType \<Rightarrow> InnerIdType \<Rightarrow> nat \<Rightarrow> 't \<Rightarrow> 't exec" where
  "merge_from set_dup get_group get_dups other bias i 0 t = Some (Inr t)"
| "merge_from set_dup get_group get_dups other bias i (Suc n) t =
     bind_e (get_group other i) (\<lambda>g.
       if g \<noteq> i then merge_from set_dup get_group get_dups other bias (i + 1) n t
       else bind_e (get_dups other i) (\<lambda>ds.
         merge_from set_dup get_group get_dups other bias (i + 1) n (merge_group set_dup bias i ds t)))"

definition DuplicateInterface_MergeOther ::
    "('t \<Rightarrow> InnerIdType \<Rightarrow> InnerIdType \<Rightarrow> 't) \<Rightarrow> ('o \<Rightarrow> InnerIdType \<Rightarrow> InnerIdType exec) \<Rightarrow>
     ('o \<Rightarrow> InnerIdType \<Rightarrow> InnerIdType list exec) \<Rightarrow> 't \<Rightarrow> 'o \<Rightarrow> InnerIdType \<Rightarrow> InnerIdType \<Rightarrow> 't exec" where
  "DuplicateInterface_MergeOther set_dup get_group get_dups t other bias count =
     merge_from set_dup get_group get_dups other bias 0 (unat count) t"

section \<open>The dense tracker\<close>

record DenseDuplicateTracker =
  dd_duplicate_ids :: "InnerIdType list"
  dd_duplicate_count :: u64
  dd_has_deserialized :: bool

definition DenseDuplicateTracker_new :: DenseDuplicateTracker where
  "DenseDuplicateTracker_new =
     \<lparr>dd_duplicate_ids = [], dd_duplicate_count = 0, dd_has_deserialized = False\<rparr>"

definition dense_get :: "InnerIdType list \<Rightarrow> InnerIdType \<Rightarrow> InnerIdType result" where
  "dense_get ids i = (if unat i < length ids then Inr (ids ! unat i) else Inl UndefinedBehaviour)"

definition Dense_SetDuplicateId ::
    "DenseDuplicateTracker \<Rightarrow> InnerIdType \<Rightarrow> InnerIdType \<Rightarrow> DenseDuplicateTracker" where
  "Dense_SetDuplicateId t group_id duplicate_id =
     (let ids = dd_duplicate_ids t in
      if group_id = duplicate_id \<or> length ids \<le> unat duplicate_id \<or> length ids \<le> unat group_id then t
      else if ids ! unat duplicate_id \<noteq> duplicate_id then t
      else
        t\<lparr>dd_duplicate_count :=
            (if ids ! unat group_id = group_id then dd_duplicate_count t + 1 else dd_duplicate_count t),
          dd_duplicate_ids :=
            (ids[unat duplicate_id := ids ! unat group_id])[unat group_id := duplicate_id]\<rparr>)"

text \<open>
  The loop tests \<open>duplicate_ids_[current_id]\<close>; the walk starts at the first of these values.
\<close>

definition Dense_GetDuplicateIds :: "DenseDuplicateTracker \<Rightarrow> InnerIdType \<Rightarrow> InnerIdType list exec" where
  "Dense_GetDuplicateIds t i =
     (if unat i \<ge> length (dd_duplicate_ids t) then Some (Inr [])
      else walk (dense_get (dd_duplicate_ids t)) i (\<lambda>ids current. ids @ [current]) []
             (dd_duplicate_ids t ! unat i))"

definition Dense_GetGroupId :: "DenseDuplicateTracker \<Rightarrow> InnerIdType \<Rightarrow> InnerIdType exec" where
  "Dense_GetGroupId t i =
     (if unat i \<ge> length (dd_duplicate_ids t) then Some (Inr i)
      else walk (dense_get (dd_duplicate_ids t)) i min i (dd_duplicate_ids t ! unat i))"

text \<open>
  \<open>Serialize\<close> visits the ids in order and writes each group when it meets its first member;
  \<open>i\<close> is 32 bits wide, so the loop needs fewer than \<open>2 ^ 32\<close> ids to end.
\<close>

fun dense_write_groups ::
    "InnerIdType list \<Rightarrow> InnerIdType list \<Rightarrow> InnerIdType set \<Rightarrow> byte list list exec" where
  "dense_write_groups ids [] visited = Some (Inr [])"
| "dense_write_groups ids (i # is) visited =
     (if ids ! unat i \<noteq> i \<and> i \<notin> visited then
        bind_e (walk (dense_get ids) i (\<lambda>l current. l @ [current]) [] (ids ! unat i)) (\<lambda>id_list.
        bind_e (dense_write_groups ids is (insert i (visited \<union> set id_list))) (\<lambda>out.
          Some (Inr (WriteObj (enc_u32 i) @ WriteVector enc_u32 id_list @ out))))
      else dense_write_groups ids is visited)"

definition Dense_Serialize :: "DenseDuplicateTracker \<Rightarrow> byte list list exec" where
  "Dense_Serialize t =
     (let ids = dd_duplicate_ids t in
      if \<not> length ids < 2 ^ 32 then None
      else bind_e (dense_write_groups ids (map word_of_nat [0..<length ids]) {}) (\<lambda>out.
             Some (Inr (WriteObj (enc_u64 (dd_duplicate_count t)) @
                        WriteObj (enc_u64 (word_of_nat (length ids))) @ out))))"

text \<open>
  The loop over one group's list, then over the groups. Both return the array as it is when they
  throw.
\<close>

fun dense_link ::
    "InnerIdType \<Rightarrow> InnerIdType list \<Rightarrow> InnerIdType \<Rightarrow> InnerIdType list \<Rightarrow> unit result \<times> InnerIdType list" where
  "dense_link head_id [] current_id ids = (Inr (), ids[unat current_id := head_id])"
| "dense_link head_id (dup_id # id_list) current_id ids =
     (if unat dup_id \<ge> length ids then (Inl (Vsag INVALID_BINARY), ids)
      else if ids ! unat dup_id \<noteq> dup_id then (Inl (Vsag INVALID_BINARY), ids)
      else dense_link head_id id_list dup_id (ids[unat current_id := dup_id]))"

definition dense_read_group ::
    "'r read_op \<Rightarrow> InnerIdType list \<Rightarrow> 'r \<Rightarrow> 'r result \<times> InnerIdType list" where
  "dense_read_group rd ids r =
     (case ReadObj rd 4 dec_u32 r of
        Inl e \<Rightarrow> (Inl e, ids)
      | Inr (head_id, r) \<Rightarrow>
          if unat head_id \<ge> length ids then (Inl (Vsag INVALID_BINARY), ids)
          else if ids ! unat head_id \<noteq> head_id then (Inl (Vsag INVALID_BINARY), ids)
          else (case ReadVector rd 4 dec_u32 r of
                  Inl e \<Rightarrow> (Inl e, ids)
                | Inr (id_list, r) \<Rightarrow>
                    (case dense_link head_id id_list head_id ids of
                       (Inl e, ids) \<Rightarrow> (Inl e, ids)
                     | (Inr _, ids) \<Rightarrow> (Inr r, ids))))"

fun dense_read_groups ::
    "'r read_op \<Rightarrow> nat \<Rightarrow> InnerIdType list \<Rightarrow> 'r \<Rightarrow> 'r result \<times> InnerIdType list" where
  "dense_read_groups rd 0 ids r = (Inr r, ids)"
| "dense_read_groups rd (Suc n) ids r =
     (case dense_read_group rd ids r of
        (Inl e, ids) \<Rightarrow> (Inl e, ids)
      | (Inr r, ids) \<Rightarrow> dense_read_groups rd n ids r)"

text \<open>What the same loop does when its counter can never reach the bound: it runs until it throws.\<close>

definition dense_read_until_error ::
    "'r read_op \<Rightarrow> InnerIdType list \<Rightarrow> 'r \<Rightarrow> ('r result \<times> InnerIdType list) option" where
  "dense_read_until_error rd ids r =
     while_option (\<lambda>(res, ids). \<not> isl res) (\<lambda>(res, ids). dense_read_group rd ids (projr res)) (Inr r, ids)"

definition Dense_Deserialize ::
    "'r read_op \<Rightarrow> DenseDuplicateTracker \<Rightarrow> 'r \<Rightarrow> ('r result \<times> DenseDuplicateTracker) option" where
  "Dense_Deserialize rd t r =
     (if dd_has_deserialized t then Some (Inr r, t)
      else
        (case ReadObj rd 8 dec_u64 r of
           Inl e \<Rightarrow> Some (Inl e, t)
         | Inr (count, r) \<Rightarrow>
             (let t = t\<lparr>dd_duplicate_count := count\<rparr> in
              case ReadObj rd 8 dec_u64 r of
                Inl e \<Rightarrow> Some (Inl e, t)
              | Inr (n, r) \<Rightarrow>
                  if unat n > (2 ^ 63 - 1) div 4 then Some (Inl StdLengthError, t)
                  else if \<not> unat n < 2 ^ 32 then None
                  else
                    (case dense_read_groups rd (unat count) (map word_of_nat [0..<unat n]) r of
                       (Inl e, ids) \<Rightarrow> Some (Inl e, t\<lparr>dd_duplicate_ids := ids\<rparr>)
                     | (Inr r, ids) \<Rightarrow>
                         Some (Inr r, t\<lparr>dd_duplicate_ids := ids, dd_has_deserialized := True\<rparr>)))))"

text \<open>
  The legacy reader differs in three points: the size comes from the caller, the ids are filled in
  by a 64-bit loop, and the groups are counted by a 32-bit one.
\<close>

definition Dense_DeserializeFromLegacyFormat ::
    "'r read_op \<Rightarrow> DenseDuplicateTracker \<Rightarrow> 'r \<Rightarrow> u64 \<Rightarrow> ('r result \<times> DenseDuplicateTracker) option" where
  "Dense_DeserializeFromLegacyFormat rd t r total_size =
     (if dd_has_deserialized t then Some (Inr r, t)
      else
        (case ReadObj rd 8 dec_u64 r of
           Inl e \<Rightarrow> Some (Inl e, t)
         | Inr (count, r) \<Rightarrow>
             (let t = t\<lparr>dd_duplicate_count := count\<rparr> in
              if unat total_size > (2 ^ 63 - 1) div 4 then Some (Inl StdLengthError, t)
              else
                (let ids = map word_of_nat [0..<unat total_size] in
                 map_option (\<lambda>(res, ids).
                     (res, case res of
                             Inl e \<Rightarrow> t\<lparr>dd_duplicate_ids := ids\<rparr>
                           | Inr _ \<Rightarrow> t\<lparr>dd_duplicate_ids := ids, dd_has_deserialized := True\<rparr>))
                   (if unat count < 2 ^ 32 then Some (dense_read_groups rd (unat count) ids r)
                    else dense_read_until_error rd ids r)))))"

definition Dense_Resize :: "DenseDuplicateTracker \<Rightarrow> InnerIdType \<Rightarrow> DenseDuplicateTracker" where
  "Dense_Resize t new_size =
     (let old_size = length (dd_duplicate_ids t) in
      if unat new_size \<le> old_size then t
      else t\<lparr>dd_duplicate_ids := dd_duplicate_ids t @ map word_of_nat [old_size..<unat new_size]\<rparr>)"

section \<open>The sparse tracker\<close>

record SparseDuplicateTracker =
  sd_next_ids :: "InnerIdType \<rightharpoonup> InnerIdType"
  sd_duplicate_count :: u64
  sd_has_deserialized :: bool

definition SparseDuplicateTracker_new :: SparseDuplicateTracker where
  "SparseDuplicateTracker_new =
     \<lparr>sd_next_ids = Map.empty, sd_duplicate_count = 0, sd_has_deserialized = False\<rparr>"

text \<open>\<open>next_ids_.at(i)\<close>.\<close>

definition sparse_get :: "(InnerIdType \<rightharpoonup> InnerIdType) \<Rightarrow> InnerIdType \<Rightarrow> InnerIdType result" where
  "sparse_get next_ids i = (case next_ids i of None \<Rightarrow> Inl StdOutOfRange | Some nx \<Rightarrow> Inr nx)"

definition collect_group_members ::
    "(InnerIdType \<rightharpoonup> InnerIdType) \<Rightarrow> InnerIdType \<Rightarrow> InnerIdType list exec" where
  "collect_group_members next_ids start_id =
     (case next_ids start_id of
        None \<Rightarrow> Some (Inr [])
      | Some nx \<Rightarrow> walk (sparse_get next_ids) start_id (\<lambda>ms current. ms @ [current]) [start_id] nx)"

definition canonical_group_id :: "InnerIdType list \<Rightarrow> InnerIdType result" where
  "canonical_group_id members =
     (if members = [] then Inl UndefinedBehaviour else Inr (fold min (tl members) (hd members)))"

definition rebuild_group ::
    "(InnerIdType \<rightharpoonup> InnerIdType) \<Rightarrow> u64 \<Rightarrow> InnerIdType list \<Rightarrow> (InnerIdType \<rightharpoonup> InnerIdType) \<times> u64" where
  "rebuild_group next_ids duplicate_group_count ordered_members =
     (if length ordered_members < 2 then (next_ids, duplicate_group_count)
      else
        (let next_ids = fold (\<lambda>(a, b) m. m(a \<mapsto> b)) (zip ordered_members (tl ordered_members)) next_ids;
             next_ids = next_ids(last ordered_members \<mapsto> hd ordered_members) in
         (next_ids, duplicate_group_count + 1)))"

definition write_group ::
    "(InnerIdType \<rightharpoonup> InnerIdType) \<Rightarrow> InnerIdType \<Rightarrow> byte list list exec" where
  "write_group next_ids group_id =
     bind_e (collect_group_members next_ids group_id) (\<lambda>members.
       Some (Inr (WriteObj (enc_u32 group_id) @ WriteVector enc_u32 (tl members))))"

definition to_ordered_members :: "InnerIdType list \<Rightarrow> InnerIdType list result" where
  "to_ordered_members members =
     (if length members < 2 then Inr members
      else bind_r (canonical_group_id members) (\<lambda>group_id.
             Inr (group_id # filter (\<lambda>m. m \<noteq> group_id) members)))"

definition Sparse_SetDuplicateId ::
    "SparseDuplicateTracker \<Rightarrow> InnerIdType \<Rightarrow> InnerIdType \<Rightarrow> SparseDuplicateTracker" where
  "Sparse_SetDuplicateId t group_id duplicate_id =
     (let next_ids = sd_next_ids t in
      if group_id = duplicate_id \<or> next_ids duplicate_id \<noteq> None then t
      else
        (case next_ids group_id of
           None \<Rightarrow>
             t\<lparr>sd_next_ids := next_ids(group_id \<mapsto> duplicate_id, duplicate_id \<mapsto> group_id),
               sd_duplicate_count := sd_duplicate_count t + 1\<rparr>
         | Some nx \<Rightarrow>
             t\<lparr>sd_next_ids := next_ids(duplicate_id \<mapsto> nx, group_id \<mapsto> duplicate_id)\<rparr>))"

definition Sparse_GetDuplicateIds :: "SparseDuplicateTracker \<Rightarrow> InnerIdType \<Rightarrow> InnerIdType list exec" where
  "Sparse_GetDuplicateIds t i =
     (case sd_next_ids t i of
        None \<Rightarrow> Some (Inr [])
      | Some nx \<Rightarrow> walk (sparse_get (sd_next_ids t)) i (\<lambda>ids current. ids @ [current]) [] nx)"

definition Sparse_GetGroupId :: "SparseDuplicateTracker \<Rightarrow> InnerIdType \<Rightarrow> InnerIdType exec" where
  "Sparse_GetGroupId t i =
     (case sd_next_ids t i of
        None \<Rightarrow> Some (Inr i)
      | Some nx \<Rightarrow> walk (sparse_get (sd_next_ids t)) i min i nx)"

text \<open>\<open>iter\<close> is the order in which the hash map delivers its keys.\<close>

fun sparse_write_groups ::
    "(InnerIdType \<rightharpoonup> InnerIdType) \<Rightarrow> InnerIdType list \<Rightarrow> InnerIdType set \<Rightarrow> byte list list exec" where
  "sparse_write_groups next_ids [] visited = Some (Inr [])"
| "sparse_write_groups next_ids (i # iter) visited =
     (if i \<in> visited then sparse_write_groups next_ids iter visited
      else
        bind_e (collect_group_members next_ids i) (\<lambda>members.
        bind_e (Some (canonical_group_id members)) (\<lambda>group_id.
        bind_e (write_group next_ids group_id) (\<lambda>out.
        bind_e (sparse_write_groups next_ids iter (visited \<union> set members)) (\<lambda>rest.
          Some (Inr (out @ rest)))))))"

definition Sparse_Serialize :: "SparseDuplicateTracker \<Rightarrow> InnerIdType list \<Rightarrow> byte list list exec" where
  "Sparse_Serialize t iter =
     bind_e (sparse_write_groups (sd_next_ids t) iter {}) (\<lambda>out.
       Some (Inr (WriteObj (enc_u64 (sd_duplicate_count t)) @ out)))"

text \<open>
  The two readers differ in \<open>skip_empty\<close>: the legacy one skips a group without duplicates
  before it is ordered, the other one leaves it to \<open>rebuild_group\<close>.
\<close>

fun sparse_read_groups ::
    "bool \<Rightarrow> 'r read_op \<Rightarrow> nat \<Rightarrow> SparseDuplicateTracker \<Rightarrow> 'r \<Rightarrow> 'r result \<times> SparseDuplicateTracker" where
  "sparse_read_groups skip_empty rd 0 t r = (Inr r, t)"
| "sparse_read_groups skip_empty rd (Suc n) t r =
     (case bind_r (ReadObj rd 4 dec_u32 r) (\<lambda>(group_id, r).
           bind_r (ReadVector rd 4 dec_u32 r) (\<lambda>(dup_list, r). Inr (group_id, dup_list, r))) of
        Inl e \<Rightarrow> (Inl e, t)
      | Inr (group_id, dup_list, r) \<Rightarrow>
          if skip_empty \<and> dup_list = [] then sparse_read_groups skip_empty rd n t r
          else
            (case to_ordered_members (group_id # dup_list) of
               Inl e \<Rightarrow> (Inl e, t)
             | Inr members \<Rightarrow>
                 (let (m, c) = rebuild_group (sd_next_ids t) (sd_duplicate_count t) members in
                  sparse_read_groups skip_empty rd n (t\<lparr>sd_next_ids := m, sd_duplicate_count := c\<rparr>) r)))"

definition sparse_deserialize ::
    "bool \<Rightarrow> 'r read_op \<Rightarrow> SparseDuplicateTracker \<Rightarrow> 'r \<Rightarrow> 'r result \<times> SparseDuplicateTracker" where
  "sparse_deserialize skip_empty rd t r =
     (if sd_has_deserialized t then (Inr r, t)
      else
        (let t = t\<lparr>sd_next_ids := Map.empty\<rparr> in
         case ReadObj rd 8 dec_u64 r of
           Inl e \<Rightarrow> (Inl e, t)
         | Inr (group_count, r) \<Rightarrow>
             (case sparse_read_groups skip_empty rd (unat group_count) (t\<lparr>sd_duplicate_count := 0\<rparr>) r of
                (Inl e, t) \<Rightarrow> (Inl e, t)
              | (Inr r, t) \<Rightarrow> (Inr r, t\<lparr>sd_has_deserialized := True\<rparr>))))"

definition Sparse_Deserialize ::
    "'r read_op \<Rightarrow> SparseDuplicateTracker \<Rightarrow> 'r \<Rightarrow> 'r result \<times> SparseDuplicateTracker" where
  "Sparse_Deserialize rd t r = sparse_deserialize False rd t r"

definition Sparse_DeserializeFromLegacyFormat ::
    "'r read_op \<Rightarrow> SparseDuplicateTracker \<Rightarrow> 'r \<Rightarrow> u64 \<Rightarrow> 'r result \<times> SparseDuplicateTracker" where
  "Sparse_DeserializeFromLegacyFormat rd t r total_size = sparse_deserialize True rd t r"

definition Sparse_Resize :: "SparseDuplicateTracker \<Rightarrow> InnerIdType \<Rightarrow> SparseDuplicateTracker" where
  "Sparse_Resize t new_size = t"

section \<open>Circular lists\<close>

text \<open>
  \<open>chain f x c y\<close>: following \<open>f\<close> from \<open>x\<close> leads through the elements of \<open>c\<close> to
  \<open>y\<close>. A successor map is \<open>cyclic\<close> when every element it knows lies on a circular list.
\<close>

fun chain :: "('i \<rightharpoonup> 'i) \<Rightarrow> 'i \<Rightarrow> 'i list \<Rightarrow> 'i \<Rightarrow> bool" where
  "chain f x [] y \<longleftrightarrow> f x = Some y"
| "chain f x (z # zs) y \<longleftrightarrow> f x = Some z \<and> chain f z zs y"

definition cycle :: "('i \<rightharpoonup> 'i) \<Rightarrow> 'i \<Rightarrow> 'i list \<Rightarrow> bool" where
  "cycle f i c \<longleftrightarrow> distinct (i # c) \<and> chain f i c i"

definition cyclic :: "('i \<rightharpoonup> 'i) \<Rightarrow> bool" where
  "cyclic f \<longleftrightarrow> (\<forall>i \<in> dom f. \<exists>c. cycle f i c)"

definition grp :: "('i \<rightharpoonup> 'i) \<Rightarrow> 'i \<Rightarrow> 'i set" where
  "grp f i = {j. (\<lambda>a b. f a = Some b)\<^sup>*\<^sup>* i j}"

lemma chain_append: "chain f x (xs @ z # ys) y \<longleftrightarrow> chain f x xs z \<and> chain f z ys y"
  by (induction xs arbitrary: x) auto

lemma chain_cong: "(\<And>a. a \<in> set (x # c) \<Longrightarrow> f a = g a) \<Longrightarrow> chain f x c y = chain g x c y"
  by (induction c arbitrary: x) auto

lemma chain_dom: "chain f x c y \<Longrightarrow> set (x # c) \<subseteq> dom f"
  by (induction c arbitrary: x) auto

lemma chain_succ: "chain f x c y \<Longrightarrow> a \<in> set (x # c) \<Longrightarrow> \<exists>b \<in> set (c @ [y]). f a = Some b"
  by (induction c arbitrary: x) auto

lemma chain_reach: "chain f x c y \<Longrightarrow> a \<in> set (x # c) \<Longrightarrow> (\<lambda>a b. f a = Some b)\<^sup>*\<^sup>* x a"
proof (induction c arbitrary: x)
  case (Cons z zs)
  then show ?case
    by (cases "a = x") (auto intro: converse_rtranclp_into_rtranclp [where r = "\<lambda>a b. f a = Some b"])
qed simp

lemma chain_fixpoint:
  assumes "chain f x c y" and "f d = Some d" and "d \<in> set (x # c)"
  shows "y = d \<or> \<not> distinct (x # c)"
  using assms by (induction c arbitrary: x) (fastforce split: if_splits)+

lemma cycle_rotate:
  assumes "cycle f x c" and "y \<in> set (x # c)"
  obtains c' where "cycle f y c'" "set (y # c') = set (x # c)"
proof (cases "y = x")
  case False
  then obtain xs ys where c: "c = xs @ y # ys" using assms(2) by (auto dest: split_list)
  have "cycle f y (ys @ x # xs)" using assms(1) by (auto simp: c cycle_def chain_append)
  then show thesis by (rule that) (auto simp: c)
qed (use assms that in blast)

lemma grp_cycle: "cycle f i c \<Longrightarrow> grp f i = set (i # c)"
proof (rule set_eqI)
  fix j
  assume c: "cycle f i c"
  show "j \<in> grp f i \<longleftrightarrow> j \<in> set (i # c)"
  proof
    assume "j \<in> grp f i"
    then have "(\<lambda>a b. f a = Some b)\<^sup>*\<^sup>* i j" by (simp add: grp_def)
    then show "j \<in> set (i # c)"
    proof (induction rule: rtranclp_induct)
      case (step y z)
      then show ?case using chain_succ [of f i c i y] c by (auto simp: cycle_def)
    qed simp
  next
    assume "j \<in> set (i # c)"
    then show "j \<in> grp f i" using chain_reach [of f i c i j] c by (simp add: grp_def cycle_def)
  qed
qed

lemma grp_outside: "f i = None \<Longrightarrow> grp f i = {i}"
proof (rule set_eqI)
  fix j
  assume "f i = None"
  then show "j \<in> grp f i \<longleftrightarrow> j \<in> {i}"
    by (auto simp: grp_def elim: converse_rtranclpE)
qed

lemma grp_refl [simp]: "i \<in> grp f i"
  by (simp add: grp_def)

lemma grp_cases:
  assumes "cyclic f"
  obtains "f i = None" "grp f i = {i}" | c where "cycle f i c" "grp f i = set (i # c)"
  using assms grp_outside [of f i] grp_cycle [of f i] by (cases "f i") (force simp: cyclic_def)+

lemma grp_eq:
  assumes "cyclic f" and "j \<in> grp f i"
  shows "grp f j = grp f i"
proof (rule grp_cases [OF assms(1), of i])
  fix c
  assume c: "cycle f i c" "grp f i = set (i # c)"
  obtain c' where "cycle f j c'" "set (j # c') = set (i # c)"
    using cycle_rotate [OF c(1), of j] assms(2) c(2) by auto
  then show ?thesis using c(2) grp_cycle by metis
qed (use assms(2) in simp)

lemma grp_finite: "cyclic f \<Longrightarrow> finite (grp f i)"
  by (rule grp_cases [of f i]) simp_all

lemma grp_subset: "cyclic f \<Longrightarrow> f i \<noteq> None \<Longrightarrow> grp f i \<subseteq> dom f"
  by (rule grp_cases [of f i]) (auto simp: cycle_def dest: chain_dom [of f i _ i, THEN subsetD, simplified])

lemma cyclic_closed: "cyclic f \<Longrightarrow> f a = Some b \<Longrightarrow> f b \<noteq> None"
  using grp_subset [of f a] by (auto simp: grp_def dest: r_into_rtranclp [where r = "\<lambda>a b. f a = Some b"])

section \<open>Walking a circular list\<close>

lemma walk_chain:
  assumes "\<And>a b. f a = Some b \<Longrightarrow> get a = Inr b"
    and "chain f x c stop" and "stop \<notin> set (x # c)"
  shows "walk get stop upd acc x = Some (Inr (foldl upd acc (x # c)))"
  using assms(2,3)
  by (induction c arbitrary: x acc) (auto simp: walk_step assms(1))

lemma walk_cycle:
  assumes "\<And>a b. f a = Some b \<Longrightarrow> get a = Inr b" and "cycle f i c" and "f i = Some nx"
  shows "walk get i upd acc nx = Some (Inr (foldl upd acc c))"
proof (cases c)
  case (Cons z zs)
  then show ?thesis
    using assms walk_chain [of f get nx zs i upd acc] by (auto simp: cycle_def)
qed (use assms in \<open>simp add: cycle_def\<close>)

lemma foldl_snoc: "foldl (\<lambda>l x. l @ [x]) acc xs = acc @ xs"
  by (induction xs arbitrary: acc) auto

lemma foldl_min: "foldl min (a :: 'i :: linorder) xs = Min (set (a # xs))"
proof (induction xs arbitrary: a)
  case (Cons x xs)
  have "Min (insert (min a x) (set xs)) = Min (insert a (insert x (set xs)))"
    by (cases "xs = []") (simp_all add: min.assoc)
  then show ?case using Cons.IH [of "min a x"] by simp
qed simp

lemma walk_diverges:
  assumes closed: "\<And>a. a \<in> S \<Longrightarrow> \<exists>b \<in> S. get a = Inr b" and "stop \<notin> S" and "x \<in> S"
  shows "walk get stop upd acc x = None"
proof (rule ccontr)
  assume "walk get stop upd acc x \<noteq> None"
  then obtain u where u: "while_option
      (\<lambda>s. case s of Inl e \<Rightarrow> False | Inr (acc, current) \<Rightarrow> current \<noteq> stop)
      (\<lambda>s. bind_r s (\<lambda>(acc, current). bind_r (get current) (\<lambda>nx. Inr (upd acc current, nx))))
      (Inr (acc, x)) = Some u"
    by (auto simp: walk_def)
  have "\<exists>a y. u = Inr (a, y) \<and> y \<in> S"
    by (rule while_option_rule [OF _ u]) (use closed assms(3) in fastforce)+
  moreover have "\<not> (case u of Inl e \<Rightarrow> False | Inr (acc, current) \<Rightarrow> current \<noteq> stop)"
    by (rule while_option_stop [OF u])
  ultimately show False using assms(2) by auto
qed

section \<open>Inserting into a circular list\<close>

definition cyc_insert :: "('i \<rightharpoonup> 'i) \<Rightarrow> 'i \<Rightarrow> 'i \<Rightarrow> ('i \<rightharpoonup> 'i)" where
  "cyc_insert f g d = f(d := f g, g := Some d)"

lemma isolated:
  assumes "cyclic f" and "f d = None \<or> f d = Some d" and "cycle f i c" and "i \<noteq> d"
  shows "d \<notin> set (i # c)"
proof
  assume "d \<in> set (i # c)"
  then show False
    using assms(2-4) chain_dom [of f i c i] chain_fixpoint [of f i c i d] by (auto simp: cycle_def)
qed

lemma cycle_insert_new:
  assumes "cyclic f" and "f d = None \<or> f d = Some d" and "g \<noteq> d" and "cycle f g c"
  shows "cycle (cyc_insert f g d) d (c @ [g])"
proof -
  have d: "d \<notin> set (g # c)" using isolated [OF assms(1,2,4,3)] .
  have "chain (cyc_insert f g d) d (c @ [g]) d"
  proof (cases c)
    case Nil
    then show ?thesis using assms(3,4) by (simp add: cyc_insert_def cycle_def)
  next
    case (Cons z zs)
    have "chain (cyc_insert f g d) z zs g = chain f z zs g"
      using assms(4) d Cons by (intro chain_cong) (auto simp: cyc_insert_def cycle_def)
    then show ?thesis
      using assms(3,4) d Cons by (auto simp: cycle_def chain_append [of _ z zs g "[]" d] cyc_insert_def)
  qed
  then show ?thesis using assms(4) d by (auto simp: cycle_def)
qed

lemma cycle_insert_other:
  assumes "cyclic f" and "f d = None \<or> f d = Some d" and "cycle f i c" and "i \<noteq> d"
    and "g \<notin> set (i # c)"
  shows "cycle (cyc_insert f g d) i c"
proof -
  have "chain (cyc_insert f g d) i c i = chain f i c i"
    using isolated [OF assms(1-4)] assms(5) by (intro chain_cong) (auto simp: cyc_insert_def)
  then show ?thesis using assms(3) by (simp add: cycle_def)
qed

lemma cyc_insert_laws:
  assumes cyc: "cyclic f" and d: "f d = None \<or> f d = Some d" and "g \<noteq> d" and g: "f g \<noteq> None"
  shows "cyclic (cyc_insert f g d)"
    and "grp (cyc_insert f g d) i =
      (if i \<in> insert d (grp f g) then insert d (grp f g) else grp f i)"
proof -
  let ?f = "cyc_insert f g d"
  obtain cg where cg: "cycle f g cg" using cyc g by (auto simp: cyclic_def)
  have new: "cycle ?f d (cg @ [g])" by (rule cycle_insert_new [OF cyc d assms(3) cg])
  have member: "\<exists>c. cycle ?f i c \<and> set (i # c) = insert d (grp f g)" if "i \<in> insert d (grp f g)" for i
  proof -
    have "i \<in> set (d # cg @ [g])" using that grp_cycle [OF cg] by auto
    then obtain c where "cycle ?f i c" "set (i # c) = set (d # cg @ [g])"
      by (rule cycle_rotate [OF new])
    then show ?thesis using grp_cycle [OF cg] by auto
  qed
  have other: "cycle ?f i c" if "cycle f i c" "i \<notin> insert d (grp f g)" for i c
  proof (rule cycle_insert_other [OF cyc d that(1)])
    show "i \<noteq> d" using that by blast
    show "g \<notin> set (i # c)"
      using that grp_eq [OF cyc, of g i] grp_cycle [OF that(1)] by auto
  qed
  show "cyclic ?f"
    unfolding cyclic_def
  proof
    fix i
    assume "i \<in> dom ?f"
    show "\<exists>c. cycle ?f i c"
    proof (cases "i \<in> insert d (grp f g)")
      case False
      then have "i \<noteq> d" "i \<noteq> g" by auto
      then have "i \<in> dom f" using \<open>i \<in> dom ?f\<close> by (simp add: cyc_insert_def dom_def)
      then show ?thesis using cyc other [of i] False by (auto simp: cyclic_def)
    qed (use member in blast)
  qed
  show "grp ?f i = (if i \<in> insert d (grp f g) then insert d (grp f g) else grp f i)"
  proof (cases "i \<in> insert d (grp f g)")
    case True
    then show ?thesis using member [of i] grp_cycle by force
  next
    case False
    then have "i \<noteq> d" "i \<noteq> g" by auto
    then show ?thesis
      using False other [of i] grp_outside [of ?f i] grp_cycle [of ?f i]
      by (rule_tac grp_cases [OF cyc, of i]) (simp_all add: cyc_insert_def)
  qed
qed

section \<open>The contract of a duplicate tracker\<close>

locale duplicate_tracker =
  fixes inv :: "'t \<Rightarrow> bool" and known :: "'t \<Rightarrow> InnerIdType \<Rightarrow> bool"
    and group :: "'t \<Rightarrow> InnerIdType \<Rightarrow> InnerIdType set"
    and set_dup :: "'t \<Rightarrow> InnerIdType \<Rightarrow> InnerIdType \<Rightarrow> 't"
    and get_dups :: "'t \<Rightarrow> InnerIdType \<Rightarrow> InnerIdType list exec"
    and get_group :: "'t \<Rightarrow> InnerIdType \<Rightarrow> InnerIdType exec"
  assumes group_refl: "i \<in> group t i"
    and group_eq: "inv t \<Longrightarrow> j \<in> group t i \<Longrightarrow> group t j = group t i"
    and group_finite: "inv t \<Longrightarrow> finite (group t i)"
    and get_dups_ok: "inv t \<Longrightarrow>
      \<exists>ds. get_dups t i = Some (Inr ds) \<and> distinct ds \<and> i \<notin> set ds \<and> insert i (set ds) = group t i"
    and get_group_ok: "inv t \<Longrightarrow> get_group t i = Some (Inr (Min (group t i)))"
    and set_dup_inv: "inv t \<Longrightarrow> inv (set_dup t g d)"
    and set_dup_known: "known (set_dup t g d) = known t"
    and set_dup_group: "inv t \<Longrightarrow> group (set_dup t g d) i =
      (if g \<noteq> d \<and> known t g \<and> known t d \<and> group t d = {d} \<and> i \<in> insert d (group t g)
       then insert d (group t g) else group t i)"
begin

lemma group_size_ok:
  assumes "inv t"
  shows "DuplicateInterface_GetGroupSize get_group get_dups t i = Some (Inr (word_of_nat (card (group t i))))"
proof -
  let ?g = "Min (group t i)"
  have "?g \<in> group t i" using group_finite [OF assms] group_refl by (intro Min_in) auto
  then have "group t ?g = group t i" by (rule group_eq [OF assms])
  moreover obtain ds where ds: "get_dups t ?g = Some (Inr ds)" "distinct ds" "?g \<notin> set ds"
    "insert ?g (set ds) = group t ?g"
    using get_dups_ok [OF assms] by blast
  moreover have "card (insert ?g (set ds)) = Suc (length ds)"
    using ds(2,3) by (simp add: distinct_card)
  ultimately have "card (group t i) = Suc (length ds)" by simp
  then show ?thesis
    using ds(1) by (simp add: DuplicateInterface_GetGroupSize_def get_group_ok [OF assms] add.commute)
qed

lemma merge_group_ok:
  assumes "inv t" and "distinct ds" and "i \<notin> A" and "set ds \<inter> insert i A = {}"
    and "group t (i + bias) = (\<lambda>j. j + bias) ` insert i A"
    and "\<And>d. d \<in> set ds \<Longrightarrow> group t (d + bias) = {d + bias} \<and> known t (d + bias)"
    and "known t (i + bias)"
  shows "inv (merge_group set_dup bias i ds t) \<and>
    known (merge_group set_dup bias i ds t) = known t \<and>
    (\<forall>x. group (merge_group set_dup bias i ds t) x =
      (if x \<in> (\<lambda>j. j + bias) ` insert i (A \<union> set ds)
       then (\<lambda>j. j + bias) ` insert i (A \<union> set ds) else group t x))"
  using assms
proof (induction ds arbitrary: t A)
  case Nil
  have "group t x = (\<lambda>j. j + bias) ` insert i A" if "x \<in> (\<lambda>j. j + bias) ` insert i A" for x
    using group_eq [OF Nil.prems(1), of x "i + bias"] Nil.prems(5) that by metis
  then show ?case using Nil.prems(1) by (simp del: image_insert)
next
  case (Cons d ds)
  let ?t = "set_dup t (i + bias) (d + bias)"
  have ne: "i + bias \<noteq> d + bias" using Cons.prems(4) by auto
  have d: "group t (d + bias) = {d + bias}" "known t (d + bias)" using Cons.prems(6) by auto
  have grp: "group ?t x = (if x \<in> (\<lambda>j. j + bias) ` insert i (insert d A)
      then (\<lambda>j. j + bias) ` insert i (insert d A) else group t x)" for x
    using set_dup_group [OF Cons.prems(1), of "i + bias" "d + bias" x] ne d Cons.prems(5,7)
    by (auto simp: insert_commute)
  have "inv (merge_group set_dup bias i ds ?t) \<and> known (merge_group set_dup bias i ds ?t) = known ?t \<and>
    (\<forall>x. group (merge_group set_dup bias i ds ?t) x =
      (if x \<in> (\<lambda>j. j + bias) ` insert i (insert d A \<union> set ds)
       then (\<lambda>j. j + bias) ` insert i (insert d A \<union> set ds) else group ?t x))"
  proof (rule Cons.IH)
    show "inv ?t" by (rule set_dup_inv [OF Cons.prems(1)])
    show "distinct ds" "i \<notin> insert d A" "set ds \<inter> insert i (insert d A) = {}"
      using Cons.prems(2,3,4) by auto
    show "group ?t (i + bias) = (\<lambda>j. j + bias) ` insert i (insert d A)" by (simp add: grp)
    show "known ?t (i + bias)" using Cons.prems(7) by (simp add: set_dup_known)
    show "group ?t (e + bias) = {e + bias} \<and> known ?t (e + bias)" if "e \<in> set ds" for e
      using that Cons.prems(2,4,6) by (auto simp: grp set_dup_known)
  qed
  moreover have "insert i (insert d A \<union> set ds) = insert i (A \<union> set (d # ds))" by auto
  ultimately show ?case by (simp add: grp set_dup_known del: image_insert) blast
qed

end

locale duplicate_merge =
  duplicate_tracker inv known group set_dup get_dups get_group +
  other: duplicate_tracker inv' known' group' set_dup' get_dups' get_group'
  for inv :: "'t \<Rightarrow> bool" and known group set_dup get_dups get_group
    and inv' :: "'o \<Rightarrow> bool" and known' group' set_dup' get_dups' get_group'
begin

text \<open>
  \<open>merged o bias k t0 t\<close>: the groups of \<open>o\<close> whose smallest member is below \<open>k\<close> have
  been copied, shifted by \<open>bias\<close>; the other shifted ids are still alone.
\<close>

definition merged :: "'o \<Rightarrow> InnerIdType \<Rightarrow> InnerIdType \<Rightarrow> nat \<Rightarrow> 't \<Rightarrow> 't \<Rightarrow> bool" where
  "merged other bias count k t0 t \<longleftrightarrow> inv t \<and> known t = known t0 \<and>
     (\<forall>j < count. group t (j + bias) =
        (if unat (Min (group' other j)) < k then (\<lambda>j. j + bias) ` group' other j else {j + bias})) \<and>
     (\<forall>x. \<not> x - bias < count \<longrightarrow> group t x = group t0 x)"

lemma merged_step:
  assumes inv': "inv' other" and m: "merged other bias count (unat i) t0 t" and i: "i < count"
    and closed: "\<And>j. j < count \<Longrightarrow> group' other j \<subseteq> {..<count}"
    and known: "\<And>j. j < count \<Longrightarrow> known t0 (j + bias)"
    and head: "Min (group' other i) = i"
    and ds: "distinct ds" "i \<notin> set ds" "insert i (set ds) = group' other i"
  shows "merged other bias count (Suc (unat i)) t0 (merge_group set_dup bias i ds t)"
proof -
  let ?f = "\<lambda>j. j + bias"
  have t: "inv t" "known t = known t0"
    and grp: "\<And>j. j < count \<Longrightarrow> group t (j + bias) =
      (if unat (Min (group' other j)) < unat i then ?f ` group' other j else {j + bias})"
    and out: "\<And>x. \<not> x - bias < count \<Longrightarrow> group t x = group t0 x"
    using m by (auto simp: merged_def)
  have alone: "group t (j + bias) = {j + bias} \<and> known t (j + bias)" if "j \<in> group' other i" for j
  proof -
    have "j < count" using closed [OF i] that by auto
    moreover have "group' other j = group' other i" by (rule other.group_eq [OF inv' that])
    ultimately show ?thesis using grp [of j] known [of j] head t(2) by simp
  qed
  have set_eq: "insert i ({} \<union> set ds) = group' other i" using ds(3) by simp
  have "inv (merge_group set_dup bias i ds t) \<and> known (merge_group set_dup bias i ds t) = known t \<and>
    (\<forall>x. group (merge_group set_dup bias i ds t) x =
      (if x \<in> ?f ` insert i ({} \<union> set ds) then ?f ` insert i ({} \<union> set ds) else group t x))"
    by (rule merge_group_ok [OF t(1) ds(1)]) (use alone ds(2,3) in auto)
  then have M: "inv (merge_group set_dup bias i ds t)" "known (merge_group set_dup bias i ds t) = known t"
    "\<And>x. group (merge_group set_dup bias i ds t) x =
      (if x \<in> ?f ` group' other i then ?f ` group' other i else group t x)"
    unfolding set_eq by blast+
  have "group (merge_group set_dup bias i ds t) (j + bias) =
      (if unat (Min (group' other j)) < Suc (unat i) then ?f ` group' other j else {j + bias})"
    if j: "j < count" for j
  proof (cases "j \<in> group' other i")
    case True
    then have "group' other j = group' other i" by (rule other.group_eq [OF inv'])
    then show ?thesis using True head by (simp add: M(3))
  next
    case False
    have "Min (group' other j) \<in> group' other j"
      using other.group_finite [OF inv'] other.group_refl by (intro Min_in) auto
    then have "Min (group' other j) \<noteq> i"
      using False other.group_eq [OF inv', of i j] other.group_refl by metis
    then have "unat (Min (group' other j)) < Suc (unat i) \<longleftrightarrow> unat (Min (group' other j)) < unat i"
      by (auto simp: less_Suc_eq word_unat_eq_iff)
    then show ?thesis using False grp [OF j] by (auto simp: M(3))
  qed
  moreover have "group (merge_group set_dup bias i ds t) x = group t0 x" if "\<not> x - bias < count" for x
  proof -
    have "x \<notin> ?f ` group' other i"
      using that closed [OF i] by (auto simp: image_iff)
    then show ?thesis using out [OF that] by (simp add: M(3))
  qed
  ultimately show ?thesis using M(1,2) t(2) by (simp add: merged_def)
qed

lemma merged_skip:
  assumes inv': "inv' other" and m: "merged other bias count (unat i) t0 t"
    and head: "Min (group' other i) \<noteq> i"
  shows "merged other bias count (Suc (unat i)) t0 t"
proof -
  have "unat (Min (group' other j)) < Suc (unat i) \<longleftrightarrow> unat (Min (group' other j)) < unat i" for j
  proof -
    have "Min (group' other j) \<in> group' other j"
      using other.group_finite [OF inv'] other.group_refl by (intro Min_in) auto
    then have "Min (group' other j) \<noteq> i"
      using head other.group_eq [OF inv', of "Min (group' other j)" j] by auto
    then show ?thesis by (auto simp: less_Suc_eq word_unat_eq_iff)
  qed
  then show ?thesis using m by (simp add: merged_def)
qed

lemma merge_from_ok:
  assumes inv': "inv' other"
    and closed: "\<And>j. j < count \<Longrightarrow> group' other j \<subseteq> {..<count}"
    and known: "\<And>j. j < count \<Longrightarrow> known t0 (j + bias)"
    and "unat i + n = unat count" and "merged other bias count (unat i) t0 t"
  shows "\<exists>t'. merge_from set_dup get_group' get_dups' other bias i n t = Some (Inr t') \<and>
    merged other bias count (unat count) t0 t'"
  using assms(4,5)
proof (induction n arbitrary: i t)
  case (Suc n)
  have i: "i < count" and i1: "unat (i + 1) = Suc (unat i)"
    using Suc.prems(1) unat_u32_lt [of count] by (simp_all add: word_less_nat_alt unat_word_ariths)
  note g = other.get_group_ok [OF inv', of i]
  show ?case
  proof (cases "Min (group' other i) = i")
    case True
    obtain ds where ds: "get_dups' other i = Some (Inr ds)" "distinct ds" "i \<notin> set ds"
      "insert i (set ds) = group' other i"
      using other.get_dups_ok [OF inv'] by blast
    have "merged other bias count (unat (i + 1)) t0 (merge_group set_dup bias i ds t)"
      unfolding i1 by (rule merged_step [OF inv' Suc.prems(2) i closed known True ds(2-4)])
    then show ?thesis using Suc.IH [of "i + 1"] Suc.prems(1) i1 True g ds(1) by simp
  next
    case False
    have "merged other bias count (unat (i + 1)) t0 t"
      unfolding i1 by (rule merged_skip [OF inv' Suc.prems(2) False])
    then show ?thesis using Suc.IH [of "i + 1"] Suc.prems(1) i1 False g by simp
  qed
qed simp

lemma merge_other_ok:
  assumes "inv t" and "inv' other"
    and closed: "\<And>j. j < count \<Longrightarrow> group' other j \<subseteq> {..<count}"
    and fresh: "\<And>j. j < count \<Longrightarrow> known t (j + bias) \<and> group t (j + bias) = {j + bias}"
  shows "\<exists>t'. DuplicateInterface_MergeOther set_dup get_group' get_dups' t other bias count = Some (Inr t') \<and>
    inv t' \<and> (\<forall>j < count. group t' (j + bias) = (\<lambda>j. j + bias) ` group' other j) \<and>
    (\<forall>x. \<not> x - bias < count \<longrightarrow> group t' x = group t x)"
proof -
  have "merged other bias count (unat (0 :: u32)) t t"
    using assms(1) fresh by (simp add: merged_def)
  then obtain t' where t': "merge_from set_dup get_group' get_dups' other bias 0 (unat count) t = Some (Inr t')"
    "merged other bias count (unat count) t t'"
    using merge_from_ok [OF assms(2) closed, where ?t0.0 = t and bias = bias and i = 0 and n = "unat count" and t = t]
      fresh by auto
  have "unat (Min (group' other j)) < unat count" if "j < count" for j
  proof -
    have "Min (group' other j) \<in> group' other j"
      using other.group_finite [OF assms(2)] other.group_refl by (intro Min_in) auto
    then show ?thesis using closed [OF that] by (auto simp: word_less_nat_alt)
  qed
  then show ?thesis
    using t' by (simp add: DuplicateInterface_MergeOther_def merged_def)
qed

end

section \<open>Both trackers satisfy the contract\<close>

definition dense_next :: "InnerIdType list \<Rightarrow> InnerIdType \<rightharpoonup> InnerIdType" where
  "dense_next ids i = (if unat i < length ids then Some (ids ! unat i) else None)"

definition dense_inv :: "DenseDuplicateTracker \<Rightarrow> bool" where
  "dense_inv t \<longleftrightarrow> cyclic (dense_next (dd_duplicate_ids t))"

definition dense_group :: "DenseDuplicateTracker \<Rightarrow> InnerIdType \<Rightarrow> InnerIdType set" where
  "dense_group t = grp (dense_next (dd_duplicate_ids t))"

definition dense_known :: "DenseDuplicateTracker \<Rightarrow> InnerIdType \<Rightarrow> bool" where
  "dense_known t i \<longleftrightarrow> unat i < length (dd_duplicate_ids t)"

definition sparse_inv :: "SparseDuplicateTracker \<Rightarrow> bool" where
  "sparse_inv t \<longleftrightarrow> cyclic (sd_next_ids t) \<and> (\<forall>i. sd_next_ids t i \<noteq> Some i)"

definition sparse_group :: "SparseDuplicateTracker \<Rightarrow> InnerIdType \<Rightarrow> InnerIdType set" where
  "sparse_group t = grp (sd_next_ids t)"

lemma cycle_next: "cycle f i c \<Longrightarrow> \<exists>nx. f i = Some nx"
  by (cases c) (simp_all add: cycle_def)

lemma dense_walk:
  assumes "cycle (dense_next ids) i c"
  shows "unat i < length ids"
    and "walk (dense_get ids) i upd acc (ids ! unat i) = Some (Inr (foldl upd acc c))"
proof -
  show *: "unat i < length ids"
    using cycle_next [OF assms] by (auto simp: dense_next_def split: if_splits)
  show "walk (dense_get ids) i upd acc (ids ! unat i) = Some (Inr (foldl upd acc c))"
    by (rule walk_cycle [where f = "dense_next ids"])
      (use assms * in \<open>simp_all add: dense_next_def dense_get_def split: if_splits\<close>)
qed

lemma sparse_walk:
  assumes "cycle m i c" and "m i = Some nx"
  shows "walk (sparse_get m) i upd acc nx = Some (Inr (foldl upd acc c))"
  by (rule walk_cycle [where f = m]) (use assms in \<open>simp_all add: sparse_get_def\<close>)

lemma alone_iff: "cyclic f \<Longrightarrow> grp f d = {d} \<longleftrightarrow> f d = None \<or> f d = Some d"
proof
  assume f: "cyclic f" and g: "grp f d = {d}"
  have "e = d" if "f d = Some e" for e
  proof -
    have "e \<in> grp f d" using that by (simp add: grp_def r_into_rtranclp [where r = "\<lambda>a b. f a = Some b"])
    then show ?thesis using g by simp
  qed
  then show "f d = None \<or> f d = Some d" by (cases "f d") auto
next
  assume "f d = None \<or> f d = Some d"
  then show "grp f d = {d}"
    using grp_outside [of f d] grp_cycle [of f d "[]"] by (auto simp: cycle_def)
qed

lemma add_fixpoint:
  assumes "cyclic f" and "f g = None"
  shows "cyclic (f(g \<mapsto> g))" and "grp (f(g \<mapsto> g)) i = grp f i"
proof -
  have old: "cycle (f(g \<mapsto> g)) i c" if "cycle f i c" for i c
  proof -
    have "g \<notin> set (i # c)" using that assms(2) chain_dom [of f i c i] by (auto simp: cycle_def)
    then have "chain (f(g \<mapsto> g)) i c i = chain f i c i" by (intro chain_cong) auto
    then show ?thesis using that by (simp add: cycle_def)
  qed
  have new: "cycle (f(g \<mapsto> g)) g []" by (simp add: cycle_def)
  show "cyclic (f(g \<mapsto> g))"
    unfolding cyclic_def
  proof
    fix i
    assume "i \<in> dom (f(g \<mapsto> g))"
    then consider "i = g" | "i \<in> dom f" by (auto split: if_splits)
    then show "\<exists>c. cycle (f(g \<mapsto> g)) i c"
    proof cases
      case 2
      then obtain c where "cycle f i c" using assms(1) by (auto simp: cyclic_def)
      then show ?thesis using old by blast
    qed (use new in blast)
  qed
  show "grp (f(g \<mapsto> g)) i = grp f i"
  proof (cases "i = g")
    case True
    then show ?thesis using grp_cycle [OF new] grp_outside [of f g] assms(2) by simp
  next
    case False
    then show ?thesis
      using old [of i] grp_outside [of "f(g \<mapsto> g)" i] grp_cycle [of "f(g \<mapsto> g)" i]
      by (rule_tac grp_cases [OF assms(1), of i]) simp_all
  qed
qed

lemma dense_next_set:
  assumes "unat g < length ids" "unat d < length ids" "g \<noteq> d"
  shows "dense_next ((ids[unat d := ids ! unat g])[unat g := d]) = cyc_insert (dense_next ids) g d"
  using assms by (auto simp: dense_next_def cyc_insert_def fun_eq_iff nth_list_update word_unat_eq_iff)

interpretation dense: duplicate_tracker dense_inv dense_known dense_group
  Dense_SetDuplicateId Dense_GetDuplicateIds Dense_GetGroupId
proof
  fix t :: DenseDuplicateTracker and g d i j :: InnerIdType
  let ?f = "dense_next (dd_duplicate_ids t)"
  show "i \<in> dense_group t i" by (simp add: dense_group_def)
  show "dense_known (Dense_SetDuplicateId t g d) = dense_known t"
    by (auto simp: Dense_SetDuplicateId_def dense_known_def Let_def fun_eq_iff)
  assume inv: "dense_inv t"
  then have cyc: "cyclic ?f" by (simp add: dense_inv_def)
  show "j \<in> dense_group t i \<Longrightarrow> dense_group t j = dense_group t i"
    by (simp add: dense_group_def grp_eq [OF cyc])
  show "finite (dense_group t i)" by (simp add: dense_group_def grp_finite [OF cyc])
  show "\<exists>ds. Dense_GetDuplicateIds t i = Some (Inr ds) \<and> distinct ds \<and> i \<notin> set ds \<and>
      insert i (set ds) = dense_group t i"
  proof (rule grp_cases [OF cyc, of i])
    fix c
    assume c: "cycle ?f i c" "grp ?f i = set (i # c)"
    then have "Dense_GetDuplicateIds t i = Some (Inr c)"
      using dense_walk(1) [OF c(1)] dense_walk(2) [OF c(1), of "\<lambda>ids current. ids @ [current]" "[]"]
      by (simp add: Dense_GetDuplicateIds_def foldl_snoc)
    then show ?thesis using c by (auto simp: dense_group_def cycle_def)
  qed (auto simp: Dense_GetDuplicateIds_def dense_group_def dense_next_def split: if_splits)
  show "Dense_GetGroupId t i = Some (Inr (Min (dense_group t i)))"
  proof (rule grp_cases [OF cyc, of i])
    fix c
    assume c: "cycle ?f i c" "grp ?f i = set (i # c)"
    then show ?thesis
      using dense_walk(1) [OF c(1)] dense_walk(2) [OF c(1), of min i]
      by (simp add: Dense_GetGroupId_def foldl_min dense_group_def)
  qed (auto simp: Dense_GetGroupId_def dense_group_def dense_next_def split: if_splits)
  have acts: "if g \<noteq> d \<and> dense_known t g \<and> dense_known t d \<and> dense_group t d = {d}
    then dense_next (dd_duplicate_ids (Dense_SetDuplicateId t g d)) = cyc_insert ?f g d \<and>
         (?f d = None \<or> ?f d = Some d) \<and> ?f g \<noteq> None
    else Dense_SetDuplicateId t g d = t"
    using alone_iff [OF cyc, of d] dense_next_set [of g "dd_duplicate_ids t" d]
    by (auto simp: Dense_SetDuplicateId_def Let_def dense_known_def dense_group_def dense_next_def not_le)
  then show "dense_inv (Dense_SetDuplicateId t g d)"
    using cyc_insert_laws(1) [OF cyc, of d g] inv by (auto simp: dense_inv_def split: if_splits)
  show "dense_group (Dense_SetDuplicateId t g d) i =
      (if g \<noteq> d \<and> dense_known t g \<and> dense_known t d \<and> dense_group t d = {d} \<and>
          i \<in> insert d (dense_group t g)
       then insert d (dense_group t g) else dense_group t i)"
    using acts cyc_insert_laws(2) [OF cyc, of d g i] by (auto simp: dense_group_def split: if_splits)
qed

interpretation sparse: duplicate_tracker sparse_inv "\<lambda>t i. True" sparse_group
  Sparse_SetDuplicateId Sparse_GetDuplicateIds Sparse_GetGroupId
proof
  fix t :: SparseDuplicateTracker and g d i j :: InnerIdType
  let ?f = "sd_next_ids t"
  show "i \<in> sparse_group t i" by (simp add: sparse_group_def)
  assume inv: "sparse_inv t"
  then have cyc: "cyclic ?f" and nofix: "\<And>i. ?f i \<noteq> Some i" by (simp_all add: sparse_inv_def)
  show "j \<in> sparse_group t i \<Longrightarrow> sparse_group t j = sparse_group t i"
    by (simp add: sparse_group_def grp_eq [OF cyc])
  show "finite (sparse_group t i)" by (simp add: sparse_group_def grp_finite [OF cyc])
  show "\<exists>ds. Sparse_GetDuplicateIds t i = Some (Inr ds) \<and> distinct ds \<and> i \<notin> set ds \<and>
      insert i (set ds) = sparse_group t i"
  proof (rule grp_cases [OF cyc, of i])
    fix c
    assume c: "cycle ?f i c" "grp ?f i = set (i # c)"
    obtain nx where nx: "?f i = Some nx" using cycle_next [OF c(1)] by blast
    then have "Sparse_GetDuplicateIds t i = Some (Inr c)"
      using sparse_walk [OF c(1) nx, of "\<lambda>ids current. ids @ [current]" "[]"]
      by (simp add: Sparse_GetDuplicateIds_def foldl_snoc)
    then show ?thesis using c by (auto simp: sparse_group_def cycle_def)
  qed (simp add: Sparse_GetDuplicateIds_def sparse_group_def)
  show "Sparse_GetGroupId t i = Some (Inr (Min (sparse_group t i)))"
  proof (rule grp_cases [OF cyc, of i])
    fix c
    assume c: "cycle ?f i c" "grp ?f i = set (i # c)"
    obtain nx where nx: "?f i = Some nx" using cycle_next [OF c(1)] by blast
    then show ?thesis
      using sparse_walk [OF c(1) nx, of min i] c(2)
      by (simp add: Sparse_GetGroupId_def foldl_min sparse_group_def)
  qed (simp add: Sparse_GetGroupId_def sparse_group_def)
  define f0 where "f0 = (if ?f g = None then ?f(g \<mapsto> g) else ?f)"
  have cyc0: "cyclic f0" and grp0: "grp f0 x = grp ?f x" for x
    using cyc add_fixpoint [OF cyc] by (simp_all add: f0_def)
  have acts: "if g \<noteq> d \<and> sparse_group t d = {d}
    then sd_next_ids (Sparse_SetDuplicateId t g d) = cyc_insert f0 g d \<and>
         (f0 d = None \<or> f0 d = Some d) \<and> f0 g \<noteq> None
    else Sparse_SetDuplicateId t g d = t"
  proof -
    have alone: "(sparse_group t d = {d}) = (sd_next_ids t d = None)"
      using alone_iff [OF cyc, of d] nofix [of d] unfolding sparse_group_def by blast
    show ?thesis
      unfolding alone
      by (cases "sd_next_ids t g = None")
        (auto simp: Sparse_SetDuplicateId_def cyc_insert_def f0_def fun_upd_twist split: if_splits)
  qed
  show "sparse_group (Sparse_SetDuplicateId t g d) i =
      (if g \<noteq> d \<and> True \<and> True \<and> sparse_group t d = {d} \<and> i \<in> insert d (sparse_group t g)
       then insert d (sparse_group t g) else sparse_group t i)"
    using acts cyc_insert_laws(2) [OF cyc0, of d g i]
    by (cases "g \<noteq> d \<and> sparse_group t d = {d}") (auto simp: sparse_group_def grp0)
  have "cyclic (sd_next_ids (Sparse_SetDuplicateId t g d))"
    using acts cyc_insert_laws(1) [OF cyc0, of d g] cyc
    by (cases "g \<noteq> d \<and> sparse_group t d = {d}") auto
  moreover have "sd_next_ids (Sparse_SetDuplicateId t g d) x \<noteq> Some x" for x
    using nofix [of x] nofix [of g] cyclic_closed [OF cyc, of g d]
    by (auto simp: Sparse_SetDuplicateId_def Let_def split: option.split)
  ultimately show "sparse_inv (Sparse_SetDuplicateId t g d)" by (simp add: sparse_inv_def)
qed (simp add: fun_eq_iff)

interpretation dense_dense: duplicate_merge dense_inv dense_known dense_group
  Dense_SetDuplicateId Dense_GetDuplicateIds Dense_GetGroupId
  dense_inv dense_known dense_group Dense_SetDuplicateId Dense_GetDuplicateIds Dense_GetGroupId
  by unfold_locales

interpretation sparse_sparse: duplicate_merge sparse_inv "\<lambda>t i. True" sparse_group
  Sparse_SetDuplicateId Sparse_GetDuplicateIds Sparse_GetGroupId
  sparse_inv "\<lambda>t i. True" sparse_group Sparse_SetDuplicateId Sparse_GetDuplicateIds Sparse_GetGroupId
  by unfold_locales

section \<open>Reading groups\<close>

lemma dense_next_fresh:
  assumes "n \<le> 2 ^ 32"
  shows "dense_next (map word_of_nat [0..<n]) i = (if unat i < n then Some i else None)"
  using assms by (simp add: dense_next_def)

lemma cyclic_fresh: "(\<And>i. f i = None \<or> f i = Some i) \<Longrightarrow> cyclic f"
  unfolding cyclic_def cycle_def by (metis chain.simps(1) distinct_singleton domIff)

lemma dense_next_upd:
  "unat i < length ids \<Longrightarrow> dense_next (ids[unat i := x]) = (dense_next ids)(i \<mapsto> x)"
  by (auto simp: dense_next_def fun_eq_iff nth_list_update word_unat_eq_iff)

lemma dense_link_cyclic:
  assumes "dense_link h l cur ids = (Inr u, ids')"
    and "cyclic ((dense_next ids)(cur \<mapsto> h))" and "dense_next ids cur = Some cur"
  shows "cyclic (dense_next ids') \<and> length ids' = length ids"
  using assms
proof (induction l arbitrary: cur ids)
  case Nil
  have "unat cur < length ids" using Nil.prems(3) by (simp add: dense_next_def split: if_splits)
  then show ?case using dense_next_upd [of cur ids h] Nil.prems(1,2) by auto
next
  case (Cons d l)
  have cur: "unat cur < length ids" using Cons.prems(3) by (simp add: dense_next_def split: if_splits)
  have d: "unat d < length ids" "ids ! unat d = d"
    and link: "dense_link h l d (ids[unat cur := d]) = (Inr u, ids')"
    using Cons.prems(1) by (simp_all split: if_splits)
  have upd: "dense_next (ids[unat cur := d]) = (dense_next ids)(cur \<mapsto> d)"
    by (rule dense_next_upd [OF cur])
  have fd: "dense_next ids d = Some d" using d by (simp add: dense_next_def)
  have "cyclic ((dense_next (ids[unat cur := d]))(d \<mapsto> h))"
  proof (cases "d = cur")
    case True
    then show ?thesis using Cons.prems(2) unfolding upd by (simp only: fun_upd_upd)
  next
    case False
    let ?F = "(dense_next ids)(cur \<mapsto> h)"
    have "cyclic (cyc_insert ?F cur d)"
      using False fd by (intro cyc_insert_laws(1) [OF Cons.prems(2)]) auto
    moreover have "cyc_insert ?F cur d = (dense_next ids)(cur \<mapsto> d, d \<mapsto> h)"
      using False by (auto simp: cyc_insert_def fun_eq_iff)
    ultimately show ?thesis by (simp add: upd)
  qed
  moreover have "dense_next (ids[unat cur := d]) d = Some d" using fd by (simp add: upd)
  ultimately have "cyclic (dense_next ids') \<and> length ids' = length (ids[unat cur := d])"
    by (rule Cons.IH [OF link])
  then show ?case by simp
qed

lemma dense_read_groups_cyclic:
  "dense_read_groups rd n ids r = (Inr r', ids') \<Longrightarrow> cyclic (dense_next ids) \<Longrightarrow> cyclic (dense_next ids')"
proof (induction n arbitrary: ids r)
  case (Suc n)
  obtain r1 ids1 where one: "dense_read_group rd ids r = (Inr r1, ids1)"
    and rest: "dense_read_groups rd n ids1 r1 = (Inr r', ids')"
    using Suc.prems(1) by (auto split: prod.splits sum.splits)
  obtain h l where h: "unat h < length ids" "ids ! unat h = h"
    and link: "dense_link h l h ids = (Inr (), ids1)"
    using one by (auto simp: dense_read_group_def not_le split: sum.splits prod.splits if_splits)
  have "dense_next ids h = Some h" using h by (simp add: dense_next_def)
  then have "cyclic (dense_next ids1)"
    using dense_link_cyclic [OF link] Suc.prems(2) by (simp add: fun_upd_idem)
  then show ?case using Suc.IH [OF rest] by blast
qed simp

lemma Dense_Deserialize_inv:
  assumes "Dense_Deserialize rd t r = Some (Inr r', t')" and "\<not> dd_has_deserialized t"
  shows "dense_inv t'"
proof -
  obtain c n r1 ids where n: "n < 2 ^ 32"
    and "dense_read_groups rd c (map word_of_nat [0..<n]) r1 = (Inr r', ids)"
    and t': "dd_duplicate_ids t' = ids"
    using assms
    by (auto simp: Dense_Deserialize_def Let_def split: sum.splits prod.splits if_splits)
  moreover have "cyclic (dense_next (map word_of_nat [0..<n]))"
    using n by (intro cyclic_fresh) (simp add: dense_next_fresh)
  ultimately show ?thesis by (auto simp: dense_inv_def dest: dense_read_groups_cyclic)
qed

lemma dense_inv_new: "dense_inv DenseDuplicateTracker_new"
  by (simp add: dense_inv_def DenseDuplicateTracker_new_def cyclic_def dense_next_def dom_def)

lemma Dense_Resize_next:
  "dense_next (dd_duplicate_ids (Dense_Resize t n)) i =
    (if unat i < length (dd_duplicate_ids t) then dense_next (dd_duplicate_ids t) i
     else if unat i < unat n then Some i else None)"
  by (auto simp: Dense_Resize_def Let_def dense_next_def nth_append)

lemma add_fixpoints:
  assumes "cyclic f" and "\<And>i. g i = (if f i \<noteq> None then f i else if i \<in> A then Some i else None)"
  shows "cyclic g" and "grp g i = grp f i"
proof -
  have old: "cycle g i c" if "cycle f i c" for i c
  proof -
    have "chain g i c i = chain f i c i"
      using that chain_dom [of f i c i] assms(2) by (intro chain_cong) (auto simp: cycle_def)
    then show ?thesis using that by (simp add: cycle_def)
  qed
  have new: "cycle g i []" if "f i = None" "i \<in> A" for i
    using that assms(2) [of i] by (simp add: cycle_def)
  show "cyclic g"
    unfolding cyclic_def
  proof
    fix i
    assume "i \<in> dom g"
    then consider "f i = None" "i \<in> A" | "i \<in> dom f" using assms(2) [of i] by (auto split: if_splits)
    then show "\<exists>c. cycle g i c"
    proof cases
      case 2
      then obtain c where "cycle f i c" using assms(1) by (auto simp: cyclic_def)
      then show ?thesis using old by blast
    qed (use new in blast)
  qed
  show "grp g i = grp f i"
  proof (rule grp_cases [OF assms(1), of i])
    assume "f i = None" "grp f i = {i}"
    then show ?thesis
      using new [of i] grp_cycle [of g i "[]"] grp_outside [of g i] assms(2) [of i]
      by (cases "i \<in> A") auto
  next
    fix c
    assume "cycle f i c" "grp f i = set (i # c)"
    then show ?thesis using grp_cycle [OF old] by simp
  qed
qed

lemma Dense_Resize_ok:
  assumes "dense_inv t"
  shows "dense_inv (Dense_Resize t n)" "dense_group (Dense_Resize t n) = dense_group t"
    "dense_known (Dense_Resize t n) i \<longleftrightarrow> dense_known t i \<or> i < n"
proof -
  let ?f = "dense_next (dd_duplicate_ids t)" and ?g = "dense_next (dd_duplicate_ids (Dense_Resize t n))"
  have g: "?g i = (if ?f i \<noteq> None then ?f i else if i \<in> {..<n} then Some i else None)" for i
    unfolding Dense_Resize_next by (simp add: dense_next_def word_less_nat_alt)
  note L = add_fixpoints [where f = ?f and g = ?g, OF _ g]
  show "dense_inv (Dense_Resize t n)" using assms L(1) by (simp add: dense_inv_def)
  show "dense_group (Dense_Resize t n) = dense_group t"
    using assms L(2) by (simp add: dense_inv_def dense_group_def fun_eq_iff)
  show "dense_known (Dense_Resize t n) i \<longleftrightarrow> dense_known t i \<or> i < n"
    by (auto simp: Dense_Resize_def dense_known_def Let_def word_less_nat_alt)
qed

section \<open>Properties\<close>

text \<open>C12: on a well-formed dense tracker every walk ends: \<open>GetDuplicateIds\<close> returns the other
  members of the group once each, \<open>GetGroupId\<close> the smallest member and \<open>GetGroupSize\<close> the
  number of members; \<open>SetDuplicateId\<close> keeps the tracker well-formed and moves an id that is alone
  into the group of another one, leaving all other groups alone; otherwise it does nothing.\<close>

theorem dense_tracker_groups:
  assumes "dense_inv t"
  shows "(\<exists>ds. Dense_GetDuplicateIds t i = Some (Inr ds) \<and> distinct ds \<and> i \<notin> set ds \<and>
      insert i (set ds) = dense_group t i) \<and>
    Dense_GetGroupId t i = Some (Inr (Min (dense_group t i))) \<and>
    DuplicateInterface_GetGroupSize Dense_GetGroupId Dense_GetDuplicateIds t i =
      Some (Inr (word_of_nat (card (dense_group t i)))) \<and>
    dense_inv (Dense_SetDuplicateId t g d) \<and>
    dense_group (Dense_SetDuplicateId t g d) i =
      (if g \<noteq> d \<and> dense_known t g \<and> dense_known t d \<and> dense_group t d = {d} \<and>
          i \<in> insert d (dense_group t g)
       then insert d (dense_group t g) else dense_group t i)"
  using dense.get_dups_ok [OF assms] dense.get_group_ok [OF assms] dense.group_size_ok [OF assms]
    dense.set_dup_inv [OF assms] dense.set_dup_group [OF assms]
  by simp

definition dd_sample :: DenseDuplicateTracker where
  "dd_sample = Dense_Resize DenseDuplicateTracker_new 4"

lemma dd_sample_inv: "dense_inv dd_sample"
  unfolding dd_sample_def by (rule Dense_Resize_ok(1) [OF dense_inv_new])

theorem dense_tracker_groups_witness:
  "Dense_GetGroupId (Dense_SetDuplicateId dd_sample 1 3) 3 =
     Some (Inr (Min (dense_group (Dense_SetDuplicateId dd_sample 1 3) 3)))"
  using dense_tracker_groups [of "Dense_SetDuplicateId dd_sample 1 3" 3]
    dense_tracker_groups [OF dd_sample_inv, of 1 1 3] by blast

text \<open>C23: the sparse tracker, which stores no entry for an id that is alone, has the same behaviour
  on every id, without the restriction to ids below its size.\<close>

theorem sparse_tracker_groups:
  assumes "sparse_inv t"
  shows "(\<exists>ds. Sparse_GetDuplicateIds t i = Some (Inr ds) \<and> distinct ds \<and> i \<notin> set ds \<and>
      insert i (set ds) = sparse_group t i) \<and>
    Sparse_GetGroupId t i = Some (Inr (Min (sparse_group t i))) \<and>
    DuplicateInterface_GetGroupSize Sparse_GetGroupId Sparse_GetDuplicateIds t i =
      Some (Inr (word_of_nat (card (sparse_group t i)))) \<and>
    sparse_inv (Sparse_SetDuplicateId t g d) \<and>
    sparse_group (Sparse_SetDuplicateId t g d) i =
      (if g \<noteq> d \<and> sparse_group t d = {d} \<and> i \<in> insert d (sparse_group t g)
       then insert d (sparse_group t g) else sparse_group t i)"
  using sparse.get_dups_ok [OF assms] sparse.get_group_ok [OF assms] sparse.group_size_ok [OF assms]
    sparse.set_dup_inv [OF assms] sparse.set_dup_group [OF assms]
  by simp

lemma sparse_inv_new: "sparse_inv SparseDuplicateTracker_new"
  by (simp add: sparse_inv_def SparseDuplicateTracker_new_def cyclic_def)

theorem sparse_tracker_groups_witness:
  "sparse_group (Sparse_SetDuplicateId SparseDuplicateTracker_new 4 9) 9 =
     (if (4 :: InnerIdType) \<noteq> 9 \<and> sparse_group SparseDuplicateTracker_new 9 = {9} \<and>
         9 \<in> insert 9 (sparse_group SparseDuplicateTracker_new 4)
      then insert 9 (sparse_group SparseDuplicateTracker_new 4)
      else sparse_group SparseDuplicateTracker_new 9)"
  using sparse_tracker_groups [OF sparse_inv_new, of 9 4 9] by blast

text \<open>Merging a tracker into another one at an offset gives each shifted id the shifted group it
  had, provided the shifted ids are free in the target and the groups of the source lie below the
  count; ids outside the shifted range keep their groups.\<close>

lemma merge_other_groups:
  assumes "dense_inv t" and "dense_inv other"
    and "\<And>j. j < count \<Longrightarrow> dense_group other j \<subseteq> {..<count}"
    and "\<And>j. j < count \<Longrightarrow> dense_known t (j + bias) \<and> dense_group t (j + bias) = {j + bias}"
  shows "\<exists>t'. DuplicateInterface_MergeOther Dense_SetDuplicateId Dense_GetGroupId Dense_GetDuplicateIds
        t other bias count = Some (Inr t') \<and> dense_inv t' \<and>
      (\<forall>j < count. dense_group t' (j + bias) = (\<lambda>j. j + bias) ` dense_group other j) \<and>
      (\<forall>x. \<not> x - bias < count \<longrightarrow> dense_group t' x = dense_group t x)"
  using dense_dense.merge_other_ok [of t other count bias] assms by blast

lemma dd_sample_group: "dense_group dd_sample i = {i}"
proof -
  have "dense_group dd_sample = dense_group DenseDuplicateTracker_new"
    unfolding dd_sample_def by (rule Dense_Resize_ok(2) [OF dense_inv_new])
  then show ?thesis
    by (simp add: dense_group_def grp_outside DenseDuplicateTracker_new_def dense_next_def)
qed

lemma dd_sample_known: "dense_known dd_sample i \<longleftrightarrow> i < 4"
  unfolding dd_sample_def Dense_Resize_ok(3) [OF dense_inv_new]
  by (simp add: dense_known_def DenseDuplicateTracker_new_def)

lemma shifted_below_four: "(j :: u32) < 2 \<Longrightarrow> j + 2 < 4"
  by (simp add: word_less_nat_alt unat_word_ariths)

lemma merge_other_groups_example:
  "\<exists>t'. DuplicateInterface_MergeOther Dense_SetDuplicateId Dense_GetGroupId Dense_GetDuplicateIds
        dd_sample (Dense_SetDuplicateId dd_sample 0 1) 2 2 = Some (Inr t') \<and> dense_inv t' \<and>
      (\<forall>j < 2. dense_group t' (j + 2) = (\<lambda>j. j + 2) ` dense_group (Dense_SetDuplicateId dd_sample 0 1) j) \<and>
      (\<forall>x. \<not> x - 2 < 2 \<longrightarrow> dense_group t' x = dense_group dd_sample x)"
proof (rule merge_other_groups [OF dd_sample_inv])
  show "dense_inv (Dense_SetDuplicateId dd_sample 0 1)" by (rule dense.set_dup_inv [OF dd_sample_inv])
  fix j :: InnerIdType
  assume j: "j < 2"
  then show "dense_known dd_sample (j + 2) \<and> dense_group dd_sample (j + 2) = {j + 2}"
    using shifted_below_four by (simp add: dd_sample_known dd_sample_group)
  show "dense_group (Dense_SetDuplicateId dd_sample 0 1) j \<subseteq> {..<2}"
    using j by (auto simp: dense.set_dup_group [OF dd_sample_inv] dd_sample_group)
qed

text \<open>C18: whatever bytes it is given, a dense tracker that \<open>Deserialize\<close> returns from without an
  exception is well-formed, so all later walks on it end: the checks on head and duplicate ids
  reject every list that would not close to a circle.\<close>

theorem dense_deserialize_safe:
  assumes "Dense_Deserialize rd t r = Some (Inr r', t')" and "\<not> dd_has_deserialized t"
  shows "dense_inv t' \<and> (\<forall>i. \<exists>ds. Dense_GetDuplicateIds t' i = Some (Inr ds)) \<and>
    (\<forall>i. \<exists>g. Dense_GetGroupId t' i = Some (Inr g))"
  using Dense_Deserialize_inv [OF assms] dense.get_dups_ok dense.get_group_ok by blast

definition one_group :: "byte list" where
  "one_group = enc_u64 1 @ enc_u64 3 @ enc_u32 0 @ concat (WriteVector enc_u32 [2])"

lemma one_group_read:
  "\<exists>r'. Dense_Deserialize ForwardStreamReader_Read DenseDuplicateTracker_new (open_forward one_group) =
    Some (Inr r', \<lparr>dd_duplicate_ids = [2, 1, 0], dd_duplicate_count = 1, dd_has_deserialized = True\<rparr>)"
proof -
  obtain r1 where r1: "ReadObj ForwardStreamReader_Read 8 dec_u64 (open_forward one_group) = Inr (1, r1)"
    "fr_istream r1 = enc_u64 3 @ enc_u32 0 @ concat (WriteVector enc_u32 [2])" "fr_ok r1"
    using fwd.ReadObj_u64 [of "open_forward one_group" 1] by (auto simp: yields_def one_group_def WriteVector_def WriteObj_def)
  obtain r2 where r2: "ReadObj ForwardStreamReader_Read 8 dec_u64 r1 = Inr (3, r2)"
    "fr_istream r2 = enc_u32 0 @ concat (WriteVector enc_u32 [2])" "fr_ok r2"
    using fwd.ReadObj_u64 [OF r1(2,3)] by (auto simp: yields_def)
  obtain r3 where r3: "ReadObj ForwardStreamReader_Read 4 dec_u32 r2 = Inr (0, r3)"
    "fr_istream r3 = concat (WriteVector enc_u32 [2]) @ []" "fr_ok r3"
    using fwd.ReadObj_u32 [OF r2(2,3)] by (auto simp: yields_def)
  obtain r4 where r4: "ReadVector ForwardStreamReader_Read 4 dec_u32 r3 = Inr ([2], r4)"
    using fwd.ReadVector_yields [OF r3(2,3), of 4 dec_u32] by (auto simp: yields_def)
  have ids: "map word_of_nat [0..<3] = [0, 1, 2 :: u32]" by (simp add: upt_rec)
  have "dense_read_groups ForwardStreamReader_Read (Suc 0) [0, 1, 2] r2 = (Inr r4, [2, 1, 0])"
    using r3(1) r4 by (simp add: dense_read_group_def)
  then show ?thesis
    using r1(1) r2(1) by (simp add: Dense_Deserialize_def DenseDuplicateTracker_new_def ids)
qed

theorem dense_deserialize_safe_witness:
  "dense_inv \<lparr>dd_duplicate_ids = [2, 1, 0], dd_duplicate_count = 1, dd_has_deserialized = True\<rparr>"
  using one_group_read dense_deserialize_safe
  by (fastforce simp: DenseDuplicateTracker_new_def)

text \<open>C24: the sparse reader makes no such check: from bytes in which two groups overlap it returns
  without an exception, and \<open>GetDuplicateIds\<close> of a member of the first group then never ends.\<close>

theorem sparse_deserialize_overlap:
  assumes abc: "a < b" "b < c"
  shows "\<exists>r' t'. Sparse_Deserialize ForwardStreamReader_Read SparseDuplicateTracker_new
      (open_forward (enc_u64 2 @ enc_u32 a @ concat (WriteVector enc_u32 [b]) @
                     enc_u32 b @ concat (WriteVector enc_u32 [c]))) = (Inr r', t') \<and>
    Sparse_GetDuplicateIds t' a = None"
proof -
  have assms: "a \<noteq> b" "a \<noteq> c" "b \<noteq> c" "a < b" "b < c" using abc by auto
  let ?g2 = "enc_u32 b @ concat (WriteVector enc_u32 [c])"
  let ?g1 = "enc_u32 a @ concat (WriteVector enc_u32 [b]) @ ?g2"
  let ?r = "open_forward (enc_u64 2 @ ?g1)"
  let ?rd = ForwardStreamReader_Read
  have r: "fr_istream ?r = enc_u64 2 @ ?g1" "fr_ok ?r" by (simp_all add: WriteVector_def WriteObj_def)
  obtain r0 where r0: "ReadObj ?rd 8 dec_u64 ?r = Inr (2, r0)" "fr_istream r0 = ?g1" "fr_ok r0"
    using fwd.ReadObj_u64 [OF r] by (auto simp: yields_def)
  obtain r1 where r1: "ReadObj ?rd 4 dec_u32 r0 = Inr (a, r1)"
    "fr_istream r1 = concat (WriteVector enc_u32 [b]) @ ?g2" "fr_ok r1"
    using fwd.ReadObj_u32 [OF r0(2,3)] by (auto simp: yields_def)
  obtain r2 where r2: "ReadVector ?rd 4 dec_u32 r1 = Inr ([b], r2)" "fr_istream r2 = ?g2" "fr_ok r2"
    using fwd.ReadVector_yields [OF r1(2,3), of 4 dec_u32] by (auto simp: yields_def)
  obtain r3 where r3: "ReadObj ?rd 4 dec_u32 r2 = Inr (b, r3)"
    "fr_istream r3 = concat (WriteVector enc_u32 [c]) @ []" "fr_ok r3"
    using fwd.ReadObj_u32 [OF r2(2,3)] by (auto simp: yields_def)
  obtain r4 where r4: "ReadVector ?rd 4 dec_u32 r3 = Inr ([c], r4)"
    using fwd.ReadVector_yields [OF r3(2,3), of 4 dec_u32] by (auto simp: yields_def)
  let ?m = "[a \<mapsto> b, b \<mapsto> a, b \<mapsto> c, c \<mapsto> b]"
  let ?t = "\<lparr>sd_next_ids = ?m, sd_duplicate_count = 2, sd_has_deserialized = True\<rparr>"
  have ordered: "to_ordered_members [a, b] = Inr [a, b]" "to_ordered_members [b, c] = Inr [b, c]"
    using assms by (auto simp: to_ordered_members_def canonical_group_id_def min_def)
  have two: "sparse_read_groups False ?rd (Suc (Suc 0))
      \<lparr>sd_next_ids = Map.empty, sd_duplicate_count = 0, sd_has_deserialized = False\<rparr> r0 =
      (Inr r4, \<lparr>sd_next_ids = ?m, sd_duplicate_count = 2, sd_has_deserialized = False\<rparr>)"
    using r1(1) r2(1) r3(1) r4 ordered by (simp add: rebuild_group_def)
  have "Sparse_Deserialize ?rd SparseDuplicateTracker_new ?r = (Inr r4, ?t)"
    using r0(1) two [folded numeral_2_eq_2]
    by (simp add: Sparse_Deserialize_def sparse_deserialize_def SparseDuplicateTracker_new_def)
  moreover have "Sparse_GetDuplicateIds ?t a = None"
  proof -
    have "walk (sparse_get ?m) a (\<lambda>ids current. ids @ [current]) [] b = None"
      by (rule walk_diverges [of "{b, c}"]) (use assms in \<open>auto simp: sparse_get_def\<close>)
    then show ?thesis using assms by (simp add: Sparse_GetDuplicateIds_def)
  qed
  ultimately show ?thesis by blast
qed

theorem sparse_deserialize_overlap_witness:
  "\<exists>r' t'. Sparse_Deserialize ForwardStreamReader_Read SparseDuplicateTracker_new
      (open_forward (enc_u64 2 @ enc_u32 1 @ concat (WriteVector enc_u32 [2]) @
                     enc_u32 2 @ concat (WriteVector enc_u32 [3]))) = (Inr r', t') \<and>
    Sparse_GetDuplicateIds t' 1 = None"
  by (rule sparse_deserialize_overlap) (simp_all add: word_less_nat_alt)

end
