(* ===== verification/GraphInterface.thy ===== *)
theory GraphInterface
  imports DuplicateTracker
begin

text \<open>
  The state and the operations every graph storage shares: the table of incoming edges
  (\<^verbatim>\<open>src/src/impl/reverse_edge.{h,cpp}\<close>) and the base class of
  \<^verbatim>\<open>src/src/datacell/graph_interface.{h,cpp}\<close>. The record \<open>GraphInterface\<close> is extended
  by the storages, as the classes derive from it; \<open>'d\<close> is the type of the attached duplicate
  tracker, whose virtual operations are arguments.

  The two storages contain the same code to redirect the edges of a moved vertex; it is
  \<open>relink_all\<close> here, over the \<open>GetNeighbors\<close> and \<open>InsertNeighborsById\<close> of the storage. The
  locale \<open>edge_store\<close> is the contract of these two operations and of \<open>GetIncomingNeighbors\<close>;
  in it the effect of a move is proved once.
\<close>

section \<open>Incoming edges\<close>

type_synonym ReverseEdge = "InnerIdType \<rightharpoonup> InnerIdType list"

definition AddReverseEdge :: "ReverseEdge \<Rightarrow> InnerIdType \<Rightarrow> InnerIdType \<Rightarrow> ReverseEdge" where
  "AddReverseEdge reverse_edges from to =
     (let incoming = (case reverse_edges to of None \<Rightarrow> [] | Some v \<Rightarrow> v) in
      if from \<in> set incoming then reverse_edges(to \<mapsto> incoming)
      else reverse_edges(to \<mapsto> incoming @ [from]))"

definition RemoveReverseEdge :: "ReverseEdge \<Rightarrow> InnerIdType \<Rightarrow> InnerIdType \<Rightarrow> ReverseEdge" where
  "RemoveReverseEdge reverse_edges from to =
     (case reverse_edges to of
        None \<Rightarrow> reverse_edges
      | Some incoming \<Rightarrow> reverse_edges(to \<mapsto> remove1 from incoming))"

definition ReverseEdge_GetIncomingNeighbors :: "ReverseEdge \<Rightarrow> InnerIdType \<Rightarrow> InnerIdType list" where
  "ReverseEdge_GetIncomingNeighbors reverse_edges i =
     (case reverse_edges i of None \<Rightarrow> [] | Some incoming \<Rightarrow> incoming)"

definition ClearIncomingNeighbors :: "ReverseEdge \<Rightarrow> InnerIdType \<Rightarrow> ReverseEdge" where
  "ClearIncomingNeighbors reverse_edges i =
     (case reverse_edges i of None \<Rightarrow> reverse_edges | Some incoming \<Rightarrow> reverse_edges(i \<mapsto> []))"

definition ReverseEdge_Clear :: "ReverseEdge \<Rightarrow> ReverseEdge" where
  "ReverseEdge_Clear reverse_edges = Map.empty"

section \<open>The base class\<close>

record 'd GraphInterface =
  max_capacity :: InnerIdType
  maximum_degree :: u32
  g_total_count :: InnerIdType
  g_duplicate_tracker :: "'d option"
  reverse_edges :: "ReverseEdge option"

definition update_reverse :: "ReverseEdge \<Rightarrow> InnerIdType \<Rightarrow> InnerIdType list \<Rightarrow> InnerIdType list \<Rightarrow> ReverseEdge" where
  "update_reverse re i old_neighbors new_neighbors =
     (let re = fold (\<lambda>old_n re. if old_n \<notin> set new_neighbors then RemoveReverseEdge re i old_n else re)
                 old_neighbors re in
      fold (\<lambda>new_n re. if new_n \<notin> set old_neighbors then AddReverseEdge re i new_n else re)
        new_neighbors re)"

definition UpdateReverseEdges ::
    "('d, 'm) GraphInterface_scheme \<Rightarrow> InnerIdType \<Rightarrow> InnerIdType list \<Rightarrow> InnerIdType list \<Rightarrow>
     ('d, 'm) GraphInterface_scheme" where
  "UpdateReverseEdges g i old_neighbors new_neighbors =
     (case reverse_edges g of
        None \<Rightarrow> g
      | Some re \<Rightarrow> g\<lparr>reverse_edges := Some (update_reverse re i old_neighbors new_neighbors)\<rparr>)"

definition GetIncomingNeighbors ::
    "('d, 'm) GraphInterface_scheme \<Rightarrow> InnerIdType \<Rightarrow> InnerIdType list" where
  "GetIncomingNeighbors g i =
     (case reverse_edges g of None \<Rightarrow> [] | Some re \<Rightarrow> ReverseEdge_GetIncomingNeighbors re i)"

definition SetMaxCapacity ::
    "('d, 'm) GraphInterface_scheme \<Rightarrow> InnerIdType \<Rightarrow> ('d, 'm) GraphInterface_scheme" where
  "SetMaxCapacity g capacity = g\<lparr>max_capacity := max capacity (g_total_count g)\<rparr>"

definition GraphInterface_Serialize ::
    "('d \<Rightarrow> byte list list exec) \<Rightarrow> ('d, 'm) GraphInterface_scheme \<Rightarrow> byte list list exec" where
  "GraphInterface_Serialize dt_ser g =
     bind_e (case g_duplicate_tracker g of None \<Rightarrow> Some (Inr []) | Some d \<Rightarrow> dt_ser d) (\<lambda>dt.
       Some (Inr (WriteObj (enc_u32 (g_total_count g)) @ WriteObj (enc_u32 (max_capacity g)) @
                  WriteObj (enc_u32 (maximum_degree g)) @ dt)))"

definition GraphInterface_Deserialize ::
    "('d \<Rightarrow> 'r \<Rightarrow> ('d \<times> 'r) result) \<Rightarrow> 'r read_op \<Rightarrow> ('d, 'm) GraphInterface_scheme \<Rightarrow> 'r \<Rightarrow>
     (('d, 'm) GraphInterface_scheme \<times> 'r) result" where
  "GraphInterface_Deserialize dt_deser rd g r =
     bind_r (ReadObj rd 4 dec_u32 r) (\<lambda>(total, r).
     bind_r (ReadObj rd 4 dec_u32 r) (\<lambda>(capacity, r).
     bind_r (ReadObj rd 4 dec_u32 r) (\<lambda>(degree, r).
     bind_r (case g_duplicate_tracker g of
               None \<Rightarrow> Inr (None, r)
             | Some d \<Rightarrow> bind_r (dt_deser d r) (\<lambda>(d, r). Inr (Some d, r))) (\<lambda>(dt, r).
       Inr (g\<lparr>g_total_count := total, max_capacity := capacity, maximum_degree := degree,
              g_duplicate_tracker := dt\<rparr>, r)))))"

definition Graph_SetDuplicateId ::
    "('d \<Rightarrow> InnerIdType \<Rightarrow> InnerIdType \<Rightarrow> 'd exec) \<Rightarrow> ('d, 'm) GraphInterface_scheme \<Rightarrow>
     InnerIdType \<Rightarrow> InnerIdType \<Rightarrow> ('d, 'm) GraphInterface_scheme exec" where
  "Graph_SetDuplicateId dt_set g group_id duplicate_id =
     (case g_duplicate_tracker g of
        None \<Rightarrow> Some (Inr g)
      | Some d \<Rightarrow> bind_e (dt_set d group_id duplicate_id) (\<lambda>d.
          Some (Inr (g\<lparr>g_duplicate_tracker := Some d\<rparr>))))"

definition Graph_GetDuplicateIds ::
    "('d \<Rightarrow> InnerIdType \<Rightarrow> InnerIdType list exec) \<Rightarrow> ('d, 'm) GraphInterface_scheme \<Rightarrow>
     InnerIdType \<Rightarrow> InnerIdType list exec" where
  "Graph_GetDuplicateIds dt_ids g i =
     (case g_duplicate_tracker g of None \<Rightarrow> Some (Inr []) | Some d \<Rightarrow> dt_ids d i)"

definition Graph_GetGroupId ::
    "('d \<Rightarrow> InnerIdType \<Rightarrow> InnerIdType exec) \<Rightarrow> ('d, 'm) GraphInterface_scheme \<Rightarrow>
     InnerIdType \<Rightarrow> InnerIdType exec" where
  "Graph_GetGroupId dt_group g i =
     (case g_duplicate_tracker g of None \<Rightarrow> Some (Inr i) | Some d \<Rightarrow> dt_group d i)"

text \<open>
  With deletion enabled both storages keep an edge as one word: the target in the low \<open>b\<close> bits,
  the version the target had when the edge was written above them.
\<close>

definition stamp :: "nat \<Rightarrow> InnerIdType \<Rightarrow> byte \<Rightarrow> u32" where
  "stamp b i version = i OR push_bit b (ucast version)"

definition stamp_version :: "nat \<Rightarrow> u32 \<Rightarrow> byte" where
  "stamp_version b n = ucast (drop_bit b n)"

definition stamp_id :: "u32 \<Rightarrow> u32 \<Rightarrow> InnerIdType" where
  "stamp_id flag_mask n = n AND flag_mask"

text \<open>
  \<open>(1 << id_bit_) - 1\<close> is computed in \<open>int\<close>, so it is defined for fewer than 31 bits.
\<close>

definition flag_mask_of :: "u32 \<Rightarrow> u32 result" where
  "flag_mask_of b = (if b < 31 then Inr (push_bit (unat b) 1 - 1) else Inl UndefinedBehaviour)"

text \<open>
  The loop of \<open>Move\<close> over the vertices that point to \<open>from\<close>. The buffer \<open>neighbors\<close> is empty at
  the start of each round; a \<open>GetNeighbors\<close> that does not find its vertex leaves it so.
\<close>

definition relink :: "InnerIdType \<Rightarrow> InnerIdType \<Rightarrow> InnerIdType list \<Rightarrow> InnerIdType list" where
  "relink from to neighbors =
     filter (\<lambda>nb. nb \<noteq> from) neighbors @ (if to \<in> set neighbors then [] else [to])"

fun relink_all ::
    "('g \<Rightarrow> InnerIdType \<Rightarrow> InnerIdType list \<Rightarrow> InnerIdType list result) \<Rightarrow>
     ('g \<Rightarrow> InnerIdType \<Rightarrow> InnerIdType list \<Rightarrow> 'g result) \<Rightarrow>
     InnerIdType \<Rightarrow> InnerIdType \<Rightarrow> InnerIdType list \<Rightarrow> 'g \<Rightarrow> 'g result" where
  "relink_all get ins from to [] g = Inr g"
| "relink_all get ins from to (reverse_nb # reverse_neighbors) g =
     bind_r (get g reverse_nb []) (\<lambda>neighbors.
     bind_r (ins g reverse_nb (relink from to neighbors)) (\<lambda>g.
       relink_all get ins from to reverse_neighbors g))"

definition move_edges ::
    "('g \<Rightarrow> InnerIdType \<Rightarrow> InnerIdType list \<Rightarrow> InnerIdType list result) \<Rightarrow>
     ('g \<Rightarrow> InnerIdType \<Rightarrow> InnerIdType list \<Rightarrow> 'g result) \<Rightarrow>
     ('g \<Rightarrow> InnerIdType \<Rightarrow> InnerIdType list) \<Rightarrow> 'g \<Rightarrow> InnerIdType \<Rightarrow> InnerIdType \<Rightarrow> 'g result" where
  "move_edges get ins inc g from to =
     (let reverse_neighbors = inc g from in
      bind_r (ins g to []) (\<lambda>g.
      bind_r (relink_all get ins from to reverse_neighbors g) (\<lambda>g.
      bind_r (get g from []) (\<lambda>from_neighbors.
      bind_r (ins g to from_neighbors) (\<lambda>g.
        ins g from [])))))"

section \<open>Facts about incoming edges\<close>

abbreviation incoming_ids :: "ReverseEdge \<Rightarrow> InnerIdType \<Rightarrow> InnerIdType list" where
  "incoming_ids \<equiv> ReverseEdge_GetIncomingNeighbors"

definition re_distinct :: "ReverseEdge \<Rightarrow> bool" where
  "re_distinct re \<longleftrightarrow> (\<forall>y. distinct (incoming_ids re y))"

lemma re_distinct_empty [simp]: "re_distinct Map.empty"
  by (simp add: re_distinct_def ReverseEdge_GetIncomingNeighbors_def)

lemma AddReverseEdge_upd:
  "AddReverseEdge re x y =
     re(y \<mapsto> (if x \<in> set (incoming_ids re y) then incoming_ids re y else incoming_ids re y @ [x]))"
  by (cases "re y") (auto simp: AddReverseEdge_def ReverseEdge_GetIncomingNeighbors_def)

lemma incoming_upd [simp]: "incoming_ids (re(y \<mapsto> v)) z = (if z = y then v else incoming_ids re z)"
  by (simp add: ReverseEdge_GetIncomingNeighbors_def)

lemma incoming_AddReverseEdge:
  "set (incoming_ids (AddReverseEdge re x y) z) =
     (if z = y then insert x (set (incoming_ids re z)) else set (incoming_ids re z))"
  by (auto simp: AddReverseEdge_upd)

lemma incoming_RemoveReverseEdge:
  "re_distinct re \<Longrightarrow> set (incoming_ids (RemoveReverseEdge re x y) z) =
     (if z = y then set (incoming_ids re z) - {x} else set (incoming_ids re z))"
  unfolding re_distinct_def
  by (cases "re y"; cases "z = y"; drule spec [of _ y])
    (auto simp: RemoveReverseEdge_def ReverseEdge_GetIncomingNeighbors_def)

lemma re_distinct_Add [simp]: "re_distinct re \<Longrightarrow> re_distinct (AddReverseEdge re x y)"
  unfolding re_distinct_def
  by (cases "re y"; frule spec [of _ y]) (auto simp: AddReverseEdge_def ReverseEdge_GetIncomingNeighbors_def Let_def)

lemma re_distinct_Remove [simp]: "re_distinct re \<Longrightarrow> re_distinct (RemoveReverseEdge re x y)"
  unfolding re_distinct_def
  by (cases "re y"; frule spec [of _ y]) (auto simp: RemoveReverseEdge_def ReverseEdge_GetIncomingNeighbors_def)

lemma fold_remove_edges:
  "re_distinct re \<Longrightarrow>
   re_distinct (fold (\<lambda>y re. if P y then RemoveReverseEdge re x y else re) ys re) \<and>
   (\<forall>z. set (incoming_ids (fold (\<lambda>y re. if P y then RemoveReverseEdge re x y else re) ys re) z) =
     (if z \<in> set ys \<and> P z then set (incoming_ids re z) - {x} else set (incoming_ids re z)))"
  by (induction ys arbitrary: re) (auto simp: incoming_RemoveReverseEdge)

lemma fold_add_edges:
  "re_distinct re \<Longrightarrow>
   re_distinct (fold (\<lambda>y re. if P y then AddReverseEdge re x y else re) ys re) \<and>
   (\<forall>z. set (incoming_ids (fold (\<lambda>y re. if P y then AddReverseEdge re x y else re) ys re) z) =
     (if z \<in> set ys \<and> P z then insert x (set (incoming_ids re z)) else set (incoming_ids re z)))"
  by (induction ys arbitrary: re) (auto simp: incoming_AddReverseEdge)

lemma update_reverse_distinct: "re_distinct re \<Longrightarrow> re_distinct (update_reverse re x old new)"
  unfolding update_reverse_def Let_def by (simp only: fold_add_edges fold_remove_edges)

lemma incoming_update_reverse:
  assumes "re_distinct re"
  shows "set (incoming_ids (update_reverse re x old new) z) =
    (if z \<in> set new \<and> z \<notin> set old then insert x (set (incoming_ids re z))
     else if z \<in> set old \<and> z \<notin> set new then set (incoming_ids re z) - {x}
     else set (incoming_ids re z))"
proof -
  define re1 where "re1 = fold (\<lambda>y re. if y \<notin> set new then RemoveReverseEdge re x y else re) old re"
  have 1: "re_distinct re1"
    "set (incoming_ids re1 z) =
      (if z \<in> set old \<and> z \<notin> set new then set (incoming_ids re z) - {x} else set (incoming_ids re z))"
    using fold_remove_edges [OF assms, of "\<lambda>y. y \<notin> set new" x old] by (simp_all add: re1_def)
  show ?thesis
    using fold_add_edges [OF 1(1), of "\<lambda>y. y \<notin> set old" x new] 1(2)
    by (simp add: update_reverse_def Let_def flip: re1_def)
qed

text \<open>
  \<open>re_exact re out\<close>: the table lists, without repetition, for every vertex exactly the
  vertices whose edge list \<open>out\<close> contains it.
\<close>

definition re_exact :: "ReverseEdge \<Rightarrow> (InnerIdType \<Rightarrow> InnerIdType list) \<Rightarrow> bool" where
  "re_exact re out \<longleftrightarrow> re_distinct re \<and> (\<forall>x y. x \<in> set (incoming_ids re y) \<longleftrightarrow> y \<in> set (out x))"

lemma re_exact_empty [simp]: "re_exact Map.empty (\<lambda>x. [])"
  by (simp add: re_exact_def ReverseEdge_GetIncomingNeighbors_def)

lemma re_exact_update:
  assumes "re_exact re out" and "set old = set (out x)"
  shows "re_exact (update_reverse re x old new) (out(x := new))"
  using assms by (auto simp: re_exact_def update_reverse_distinct incoming_update_reverse)

lemma re_exact_cong: "(\<And>x. set (out x) = set (out' x)) \<Longrightarrow> re_exact re out = re_exact re out'"
  by (simp add: re_exact_def)

lemma UpdateReverseEdges_eq:
  "UpdateReverseEdges g i old new =
     g\<lparr>reverse_edges := map_option (\<lambda>re. update_reverse re i old new) (reverse_edges g)\<rparr>"
  by (cases g) (simp add: UpdateReverseEdges_def split: option.split)

section \<open>Stamped edges\<close>

lemma flag_mask_of_mask: "flag_mask_of b = Inr m \<Longrightarrow> m = mask (unat b)"
  by (simp add: flag_mask_of_def push_bit_eq_mult mask_eq_exp_minus_1 split: if_splits)

lemma stamp_id_stamp: "take_bit b i = i \<Longrightarrow> stamp_id (mask b) (stamp b i v) = i"
  by (simp add: stamp_id_def stamp_def take_bit_eq_mask [symmetric] take_bit_or take_bit_push_bit)

lemma stamp_version_stamp:
  assumes "take_bit b i = i" and "b \<le> 24"
  shows "stamp_version b (stamp b i v) = v"
proof (rule bit_word_eqI)
  fix n :: nat
  assume n: "n < LENGTH(8)"
  have "\<not> bit i (b + n)"
    using assms(1) by (metis bit_take_bit_iff not_add_less1)
  then show "bit (stamp_version b (stamp b i v)) n = bit v n"
    using n assms(2)
    by (simp add: stamp_version_def stamp_def bit_ucast_iff bit_drop_bit_eq bit_or_iff bit_push_bit_iff add.commute)
qed

lemma take_bit_stamp_id [simp]: "take_bit b (stamp_id (mask b) n) = stamp_id (mask b) n"
  by (simp add: stamp_id_def take_bit_eq_mask [symmetric])

section \<open>Reading the shared fields\<close>

context byte_source
begin

lemma GraphInterface_Deserialize_yields:
  assumes "rest r = enc_u32 t @ enc_u32 c @ enc_u32 d @ s" and "ok r" and "g_duplicate_tracker h = None"
  shows "yields rest ok (GraphInterface_Deserialize dt rd h r)
    (h\<lparr>g_total_count := t, max_capacity := c, maximum_degree := d, g_duplicate_tracker := None\<rparr>) s"
  unfolding GraphInterface_Deserialize_def assms(3)
  by (rule yields_bind [OF ReadObj_u32 [OF assms(1,2)]], simp,
      rule yields_bind [OF ReadObj_u32, where v = c], assumption, assumption, simp,
      rule yields_bind [OF ReadObj_u32, where v = d]) auto

end

section \<open>The contract of an edge store\<close>

lemma set_relink: "from \<in> set ns \<Longrightarrow> from \<noteq> to \<Longrightarrow> set (relink from to ns) = (\<lambda>y. if y = from then to else y) ` set ns"
  by (auto simp: relink_def)

lemma length_relink:
  assumes "from \<in> set ns \<or> length ns < d" and "length ns \<le> d"
  shows "length (relink from to ns) \<le> d"
proof -
  have "length (filter (\<lambda>nb. nb \<noteq> from) ns) < d"
  proof (cases "from \<in> set ns")
    case True
    then have "length (filter (\<lambda>nb. nb \<noteq> from) ns) < length ns" by (rule length_filter_less) simp
    then show ?thesis using assms(2) by simp
  next
    case False
    then have "length ns < d" using assms(1) by simp
    then show ?thesis by (rule le_less_trans [OF length_filter_le])
  qed
  then show ?thesis by (simp add: relink_def)
qed

text \<open>
  \<open>nbrs g x\<close> are the edges of \<open>x\<close> in order, \<open>valid\<close> the ids the storage can hold and
  \<open>deg\<close> its maximum degree. \<open>InsertNeighborsById\<close> replaces the edges of one vertex,
  \<open>GetNeighbors\<close> reads them.
\<close>

locale edge_store =
  fixes inv :: "'g \<Rightarrow> bool"
    and valid :: "'g \<Rightarrow> InnerIdType \<Rightarrow> bool"
    and deg :: "'g \<Rightarrow> nat"
    and nbrs :: "'g \<Rightarrow> InnerIdType \<Rightarrow> InnerIdType list"
    and get :: "'g \<Rightarrow> InnerIdType \<Rightarrow> InnerIdType list \<Rightarrow> InnerIdType list result"
    and ins :: "'g \<Rightarrow> InnerIdType \<Rightarrow> InnerIdType list \<Rightarrow> 'g result"
  assumes ins_ok: "inv g \<Longrightarrow> valid g i \<Longrightarrow> (\<And>n. n \<in> set ns \<Longrightarrow> valid g n) \<Longrightarrow> length ns \<le> deg g \<Longrightarrow>
      \<exists>g'. ins g i ns = Inr g' \<and> inv g' \<and> nbrs g' = (nbrs g)(i := ns) \<and> deg g' = deg g \<and> valid g' = valid g"
    and get_ok: "inv g \<Longrightarrow> valid g i \<Longrightarrow> get g i [] = Inr (nbrs g i)"
    and nbrs_length: "inv g \<Longrightarrow> length (nbrs g x) \<le> deg g"
    and nbrs_valid: "inv g \<Longrightarrow> y \<in> set (nbrs g x) \<Longrightarrow> valid g x \<and> valid g y"
begin

lemma relink_all_ok:
  assumes "inv g" and "valid g to" and "distinct xs"
    and "\<And>x. x \<in> set xs \<Longrightarrow> valid g x \<and> (from \<in> set (nbrs g x) \<or> length (nbrs g x) < deg g)"
  shows "\<exists>g'. relink_all get ins from to xs g = Inr g' \<and> inv g' \<and> deg g' = deg g \<and> valid g' = valid g \<and>
    nbrs g' = (\<lambda>x. if x \<in> set xs then relink from to (nbrs g x) else nbrs g x)"
  using assms
proof (induction xs arbitrary: g)
  case Nil
  then show ?case by simp
next
  case (Cons x xs)
  have x: "valid g x" "from \<in> set (nbrs g x) \<or> length (nbrs g x) < deg g"
    using Cons.prems(4) by auto
  have "length (relink from to (nbrs g x)) \<le> deg g"
    by (rule length_relink [OF x(2) nbrs_length [OF Cons.prems(1)]])
  moreover have "valid g n" if "n \<in> set (relink from to (nbrs g x))" for n
    using that nbrs_valid [OF Cons.prems(1), of n x] Cons.prems(2) by (auto simp: relink_def split: if_splits)
  ultimately obtain g1 where g1: "ins g x (relink from to (nbrs g x)) = Inr g1" "inv g1"
      "nbrs g1 = (nbrs g)(x := relink from to (nbrs g x))" "deg g1 = deg g" "valid g1 = valid g"
    using ins_ok [OF Cons.prems(1) x(1), of "relink from to (nbrs g x)"] by blast
  have "valid g1 z \<and> (from \<in> set (nbrs g1 z) \<or> length (nbrs g1 z) < deg g1)" if "z \<in> set xs" for z
  proof -
    have "z \<noteq> x" using that Cons.prems(3) by auto
    then show ?thesis using Cons.prems(4) [of z] that by (simp add: g1)
  qed
  moreover have "valid g1 to" "distinct xs" using Cons.prems(2,3) by (simp_all add: g1)
  ultimately obtain g' where g': "relink_all get ins from to xs g1 = Inr g'" "inv g'" "deg g' = deg g1"
      "valid g' = valid g1" "nbrs g' = (\<lambda>x. if x \<in> set xs then relink from to (nbrs g1 x) else nbrs g1 x)"
    using Cons.IH [OF g1(2)] by blast
  have "nbrs g' = (\<lambda>z. if z \<in> set (x # xs) then relink from to (nbrs g z) else nbrs g z)"
    using Cons.prems(3) by (auto simp: g'(5) g1(3))
  then show ?case
    using g' g1(1,4,5) get_ok [OF Cons.prems(1) x(1)] by simp
qed

lemma move_edges_ok:
  assumes inv: "inv g" and v: "valid g from" "valid g to" and ne: "from \<noteq> to"
    and inc: "distinct (inc g from)" "\<And>x. x \<in> set (inc g from) \<longleftrightarrow> from \<in> set (nbrs g x)"
  shows "\<exists>g'. move_edges get ins inc g from to = Inr g' \<and> inv g' \<and> deg g' = deg g \<and> valid g' = valid g \<and>
    nbrs g' from = [] \<and>
    (\<forall>x. x \<noteq> from \<longrightarrow> set (nbrs g' x) =
      (\<lambda>y. if y = from then to else y) ` set (nbrs g (if x = to then from else x)))"
proof -
  obtain g1 where g1: "ins g to [] = Inr g1" "inv g1" "nbrs g1 = (nbrs g)(to := [])"
      "deg g1 = deg g" "valid g1 = valid g"
    using ins_ok [OF inv v(2), of "[]"] by auto
  have pos: "0 < deg g" if "x \<in> set (inc g from)" for x
    using nbrs_length [OF inv, of x] inc(2) [of x] that by (cases "nbrs g x") auto
  have "valid g1 x \<and> (from \<in> set (nbrs g1 x) \<or> length (nbrs g1 x) < deg g1)" if "x \<in> set (inc g from)" for x
    using inc(2) [of x] that nbrs_valid [OF inv, of "from" x] pos [OF that] by (simp add: g1)
  then obtain g2 where g2: "relink_all get ins from to (inc g from) g1 = Inr g2" "inv g2"
      "deg g2 = deg g" "valid g2 = valid g"
      "nbrs g2 = (\<lambda>x. if x \<in> set (inc g from) then relink from to (nbrs g1 x) else nbrs g1 x)"
    using relink_all_ok [OF g1(2), of to "inc g from" "from"] inc(1) v by (auto simp: g1)
  define ns where "ns = nbrs g2 from"
  have get: "get g2 from [] = Inr ns"
    unfolding ns_def by (rule get_ok) (simp_all add: g2 v)
  obtain g3 where g3: "ins g2 to ns = Inr g3" "inv g3" "nbrs g3 = (nbrs g2)(to := ns)"
      "deg g3 = deg g" "valid g3 = valid g"
    using ins_ok [OF g2(2), of to ns] nbrs_length [OF g2(2), of "from"] nbrs_valid [OF g2(2), of _ "from"] v
    by (auto simp: g2 ns_def)
  obtain g4 where g4: "ins g3 from [] = Inr g4" "inv g4" "nbrs g4 = (nbrs g3)(from := [])"
      "deg g4 = deg g" "valid g4 = valid g"
    using ins_ok [OF g3(2), of "from" "[]"] v by (auto simp: g3)
  have res: "move_edges get ins inc g from to = Inr g4"
    unfolding move_edges_def Let_def using g1(1) g2(1) get g3(1) g4(1) by simp
  have sets: "set (nbrs g2 x) = (\<lambda>y. if y = from then to else y) ` set (nbrs g x)" if "x \<noteq> to" for x
    using that inc(2) [of x] by (auto simp: g2 g1 set_relink [OF _ ne] image_iff)
  have "set (nbrs g4 x) = (\<lambda>y. if y = from then to else y) ` set (nbrs g (if x = to then from else x))"
    if "x \<noteq> from" for x
    using that sets [of x] sets [OF ne] by (simp add: g4(3) g3(3) ns_def)
  then show ?thesis using res g4 by auto
qed

text \<open>
  Without a table of incoming edges nothing is redirected: \<open>to\<close> takes over the edges of \<open>from\<close> and
  every other vertex keeps its list.
\<close>

lemma move_edges_no_incoming:
  assumes inv: "inv g" and v: "valid g from" "valid g to" and ne: "from \<noteq> to" and inc: "inc g from = []"
  shows "\<exists>g'. move_edges get ins inc g from to = Inr g' \<and> inv g' \<and> deg g' = deg g \<and> valid g' = valid g \<and>
    nbrs g' = (nbrs g)(to := nbrs g from, from := [])"
proof -
  obtain g1 where g1: "ins g to [] = Inr g1" "inv g1" "nbrs g1 = (nbrs g)(to := [])"
      "deg g1 = deg g" "valid g1 = valid g"
    using ins_ok [OF inv v(2), of "[]"] by auto
  have from1: "nbrs g1 from = nbrs g from" using ne by (simp add: g1(3))
  have get: "get g1 from [] = Inr (nbrs g from)" using get_ok [OF g1(2)] v(1) from1 by (simp add: g1(5))
  have len: "length (nbrs g from) \<le> deg g1" using nbrs_length [OF inv] by (simp add: g1(4))
  have val: "\<And>n. n \<in> set (nbrs g from) \<Longrightarrow> valid g1 n" using nbrs_valid [OF inv] by (simp add: g1(5))
  obtain g2 where g2: "ins g1 to (nbrs g from) = Inr g2" "inv g2" "nbrs g2 = (nbrs g1)(to := nbrs g from)"
      "deg g2 = deg g" "valid g2 = valid g"
    using ins_ok [OF g1(2), of to "nbrs g from"] v(2) len val by (auto simp: g1(4,5))
  obtain g3 where g3: "ins g2 from [] = Inr g3" "inv g3" "nbrs g3 = (nbrs g2)(from := [])"
      "deg g3 = deg g" "valid g3 = valid g"
    using ins_ok [OF g2(2), of "from" "[]"] v(1) by (auto simp: g2(4,5))
  have "move_edges get ins inc g from to = Inr g3"
    using inc get by (simp add: move_edges_def g1(1) g2(1) g3(1))
  then show ?thesis using g3 by (simp add: g2(3) g1(3))
qed

end

end
