(* ===== verification/SparseGraph.thy ===== *)
theory SparseGraph
  imports GraphInterface
begin

text \<open>
  The hash-map graph storage of \<^verbatim>\<open>src/src/datacell/sparse_graph_datacell.{h,cpp}\<close>.

  The two hash maps are HOL maps; where the code iterates over one, the iteration order is an
  argument (the keys of the map, each once). Each operation is one step: the lock it holds is not
  part of the state. The window of \<open>InsertNeighborsById\<close> between its two critical sections, in which
  it looks the vertex up again, is not interleaved with other operations here.

  A vertex that is found is read through \<open>sg_live\<close>, the edges whose stamp carries the current
  version of their target; \<open>sg_stored\<close> are all edges of a vertex, the stale ones included. The
  invariant \<open>sg_inv\<close> holds for a new graph and is kept by the operations; under it the storage is
  an \<open>edge_store\<close>.
\<close>

section \<open>State and operations\<close>

record 'd SparseGraphDataCell = "'d GraphInterface" +
  code_line_size :: u32
  neighbors :: "InnerIdType \<rightharpoonup> u32 list"
  is_support_delete :: bool
  remove_flag_bit :: u32
  id_bit :: u32
  remove_flag_mask :: u32
  node_version :: "InnerIdType \<rightharpoonup> byte"

definition SparseGraphDataCell_new ::
    "u32 \<Rightarrow> bool \<Rightarrow> u32 \<Rightarrow> bool \<Rightarrow> bool \<Rightarrow> SparseDuplicateTracker SparseGraphDataCell result" where
  "SparseGraphDataCell_new max_degree support_delete flag_bit support_duplicate use_reverse_edges =
     (let idb = 32 - flag_bit in
      bind_r (flag_mask_of idb) (\<lambda>flag_mask.
        Inr \<lparr>max_capacity = 100, maximum_degree = max_degree, g_total_count = 0,
             g_duplicate_tracker =
               (if support_duplicate then Some (Sparse_Resize SparseDuplicateTracker_new 100) else None),
             reverse_edges = (if use_reverse_edges then Some Map.empty else None),
             code_line_size = 0, neighbors = Map.empty, is_support_delete = support_delete,
             remove_flag_bit = flag_bit, id_bit = idb, remove_flag_mask = flag_mask,
             node_version = Map.empty\<rparr>))"

text \<open>\<open>node_version_[n]\<close> inserts version 0 for an id that has none.\<close>

fun stamp_neighbors ::
    "nat \<Rightarrow> InnerIdType list \<Rightarrow> (InnerIdType \<rightharpoonup> byte) \<Rightarrow> u32 list \<times> (InnerIdType \<rightharpoonup> byte)" where
  "stamp_neighbors b [] versions = ([], versions)"
| "stamp_neighbors b (n # ns) versions =
     (let version = (case versions n of None \<Rightarrow> 0 | Some v \<Rightarrow> v);
          (stamps, versions) = stamp_neighbors b ns (versions(n \<mapsto> version)) in
      (stamp b n version # stamps, versions))"

definition sg_find_or_emplace ::
    "'d SparseGraphDataCell \<Rightarrow> InnerIdType \<Rightarrow> 'd SparseGraphDataCell \<times> InnerIdType list" where
  "sg_find_or_emplace g i =
     (case neighbors g i of
        None \<Rightarrow>
          (g\<lparr>neighbors := (neighbors g)(i \<mapsto> []), g_total_count := g_total_count g + 1,
             node_version := (if is_support_delete g then (node_version g)(i \<mapsto> 0) else node_version g)\<rparr>,
           [])
      | Some v \<Rightarrow>
          (g, map (\<lambda>old_neighbor. if is_support_delete g then stamp_id (remove_flag_mask g) old_neighbor
                                   else old_neighbor) v))"

definition sg_store ::
    "'d SparseGraphDataCell \<Rightarrow> InnerIdType \<Rightarrow> InnerIdType list \<Rightarrow> 'd SparseGraphDataCell" where
  "sg_store g i neighbor_ids =
     (if is_support_delete g then
        (let (stamps, versions) = stamp_neighbors (unat (id_bit g)) neighbor_ids (node_version g) in
         g\<lparr>neighbors := (neighbors g)(i \<mapsto> stamps), node_version := versions\<rparr>)
      else g\<lparr>neighbors := (neighbors g)(i \<mapsto> neighbor_ids)\<rparr>)"

definition SparseGraph_InsertNeighborsById ::
    "'d SparseGraphDataCell \<Rightarrow> InnerIdType \<Rightarrow> InnerIdType list \<Rightarrow> 'd SparseGraphDataCell result" where
  "SparseGraph_InsertNeighborsById g i neighbor_ids =
     (if length neighbor_ids > unat (maximum_degree g) then Inl (Vsag INVALID_ARGUMENT)
      else
        (let size = min (maximum_degree g) (word_of_nat (length neighbor_ids));
             g = g\<lparr>max_capacity := max (max_capacity g) (i + 1)\<rparr>;
             (g, old_neighbors) = sg_find_or_emplace g i;
             g = UpdateReverseEdges g i old_neighbors neighbor_ids in
         Inr (sg_store g i (take (unat size) neighbor_ids))))"

definition SparseGraph_GetNeighborSize :: "'d SparseGraphDataCell \<Rightarrow> InnerIdType \<Rightarrow> u32" where
  "SparseGraph_GetNeighborSize g i =
     (case neighbors g i of None \<Rightarrow> 0 | Some v \<Rightarrow> word_of_nat (length v))"

text \<open>\<open>node_version_.at(real_id)\<close> throws for an id without version.\<close>

fun filter_versions ::
    "nat \<Rightarrow> u32 \<Rightarrow> (InnerIdType \<rightharpoonup> byte) \<Rightarrow> u32 list \<Rightarrow> InnerIdType list result" where
  "filter_versions b flag_mask versions [] = Inr []"
| "filter_versions b flag_mask versions (n # ns) =
     (let cur_version = stamp_version b n; real_id = stamp_id flag_mask n in
      case versions real_id of
        None \<Rightarrow> Inl StdOutOfRange
      | Some v \<Rightarrow> bind_r (filter_versions b flag_mask versions ns) (\<lambda>ids.
          Inr (if v = cur_version then real_id # ids else ids)))"

definition SparseGraph_GetNeighbors ::
    "'d SparseGraphDataCell \<Rightarrow> InnerIdType \<Rightarrow> InnerIdType list \<Rightarrow> InnerIdType list result" where
  "SparseGraph_GetNeighbors g i neighbor_ids =
     (case neighbors g i of
        None \<Rightarrow> Inr neighbor_ids
      | Some ngbrs \<Rightarrow>
          if is_support_delete g then
            filter_versions (unat (id_bit g)) (remove_flag_mask g) (node_version g) ngbrs
          else Inr ngbrs)"

definition SparseGraph_CheckIdExists :: "'d SparseGraphDataCell \<Rightarrow> InnerIdType \<Rightarrow> bool" where
  "SparseGraph_CheckIdExists g i \<longleftrightarrow> neighbors g i \<noteq> None"

text \<open>
  \<open>iter->second + 1 == 0\<close> adds in \<open>int\<close>: a \<open>uint8_t\<close> plus one is at least 1.
\<close>

definition SparseGraph_DeleteNeighborsById ::
    "'d SparseGraphDataCell \<Rightarrow> InnerIdType \<Rightarrow> 'd SparseGraphDataCell result" where
  "SparseGraph_DeleteNeighborsById g i =
     (if is_support_delete g then
        (case node_version g i of
           None \<Rightarrow> Inr g
         | Some v \<Rightarrow>
             if uint v + 1 = 0 then Inl (Vsag INTERNAL_ERROR)
             else Inr (g\<lparr>node_version := (node_version g)(i \<mapsto> v + 1)\<rparr>))
      else Inl (Vsag UNSUPPORTED_INDEX_OPERATION))"

definition SparseGraph_RecoverDeleteNeighborsById ::
    "'d SparseGraphDataCell \<Rightarrow> InnerIdType \<Rightarrow> 'd SparseGraphDataCell result" where
  "SparseGraph_RecoverDeleteNeighborsById g i =
     (if is_support_delete g then
        (case node_version g i of
           None \<Rightarrow> Inl (Vsag INTERNAL_ERROR)
         | Some v \<Rightarrow>
             if v = 0 then Inl (Vsag INTERNAL_ERROR)
             else Inr (g\<lparr>node_version := (node_version g)(i \<mapsto> v - 1)\<rparr>))
      else Inl (Vsag UNSUPPORTED_INDEX_OPERATION))"

text \<open>
  \<open>other\<close> is \<open>None\<close> when the pointer is not to a sparse graph. The buffer \<open>neighbor_ids\<close> lives
  across the rounds.
\<close>

fun sg_merge_loop ::
    "'d SparseGraphDataCell \<Rightarrow> u64 \<Rightarrow> InnerIdType list \<Rightarrow> InnerIdType list \<Rightarrow> 'd SparseGraphDataCell \<Rightarrow>
     'd SparseGraphDataCell result" where
  "sg_merge_loop other bias [] neighbor_ids g = Inr g"
| "sg_merge_loop other bias (i # iter) neighbor_ids g =
     bind_r (SparseGraph_GetNeighbors other i neighbor_ids) (\<lambda>neighbor_ids.
     let neighbor_ids = map (\<lambda>n. n + ucast bias) neighbor_ids in
     bind_r (SparseGraph_InsertNeighborsById g (i + ucast bias) neighbor_ids) (\<lambda>g.
     let g = (if is_support_delete g
              then g\<lparr>node_version := (node_version g)(i + ucast bias \<mapsto> 0)\<rparr> else g) in
       sg_merge_loop other bias iter neighbor_ids g))"

definition SparseGraph_MergeOther ::
    "'d SparseGraphDataCell \<Rightarrow> 'd SparseGraphDataCell option \<Rightarrow> InnerIdType list \<Rightarrow> u64 \<Rightarrow>
     'd SparseGraphDataCell result" where
  "SparseGraph_MergeOther g other iter bias =
     (case other of
        None \<Rightarrow> Inl (Vsag INTERNAL_ERROR)
      | Some other_graph \<Rightarrow>
          if maximum_degree g \<noteq> maximum_degree other_graph then Inl (Vsag INTERNAL_ERROR)
          else sg_merge_loop other_graph bias iter [] g)"

definition SparseGraph_Move ::
    "'d SparseGraphDataCell \<Rightarrow> InnerIdType \<Rightarrow> InnerIdType \<Rightarrow> 'd SparseGraphDataCell result" where
  "SparseGraph_Move g from to =
     (if from = to then Inr g
      else if neighbors g from = None then Inr g
      else
        bind_r (move_edges SparseGraph_GetNeighbors SparseGraph_InsertNeighborsById GetIncomingNeighbors
                  g from to) (\<lambda>g.
          Inr (g\<lparr>neighbors := (neighbors g)(from := None)\<rparr>)))"

section \<open>Serialization\<close>

definition sg_write_vertices :: "(InnerIdType \<rightharpoonup> u32 list) \<Rightarrow> InnerIdType list \<Rightarrow> byte list list" where
  "sg_write_vertices nbs iter =
     concat (map (\<lambda>key. WriteObj (enc_u32 key) @ WriteVector enc_u32 (the (nbs key))) iter)"

definition sg_write_versions :: "(InnerIdType \<rightharpoonup> byte) \<Rightarrow> InnerIdType list \<Rightarrow> byte list list" where
  "sg_write_versions versions iter =
     concat (map (\<lambda>key. WriteObj (enc_u32 key) @ WriteObj [the (versions key)]) iter)"

definition SparseGraph_Serialize ::
    "('d \<Rightarrow> byte list list exec) \<Rightarrow> 'd SparseGraphDataCell \<Rightarrow> InnerIdType list \<Rightarrow> InnerIdType list \<Rightarrow>
     byte list list exec" where
  "SparseGraph_Serialize dt_ser g iter_n iter_v =
     bind_e (GraphInterface_Serialize dt_ser g) (\<lambda>base.
       Some (Inr (base @ WriteObj (enc_u32 (code_line_size g)) @
                  WriteObj (enc_u64 (word_of_nat (length iter_n))) @
                  sg_write_vertices (neighbors g) iter_n @
                  (if is_support_delete g then sg_write_versions (node_version g) iter_v else []))))"

fun sg_read_vertices ::
    "'r read_op \<Rightarrow> nat \<Rightarrow> (InnerIdType \<rightharpoonup> u32 list) \<Rightarrow> 'r \<Rightarrow> ((InnerIdType \<rightharpoonup> u32 list) \<times> 'r) result" where
  "sg_read_vertices rd 0 nbs r = Inr (nbs, r)"
| "sg_read_vertices rd (Suc n) nbs r =
     bind_r (ReadObj rd 4 dec_u32 r) (\<lambda>(key, r).
     bind_r (ReadVector rd 4 dec_u32 r) (\<lambda>(v, r).
       sg_read_vertices rd n (nbs(key \<mapsto> v)) r))"

fun sg_read_versions ::
    "'r read_op \<Rightarrow> nat \<Rightarrow> (InnerIdType \<rightharpoonup> byte) \<Rightarrow> 'r \<Rightarrow> ((InnerIdType \<rightharpoonup> byte) \<times> 'r) result" where
  "sg_read_versions rd 0 versions r = Inr (versions, r)"
| "sg_read_versions rd (Suc n) versions r =
     bind_r (ReadObj rd 4 dec_u32 r) (\<lambda>(key, r).
     bind_r (ReadObj rd 1 hd r) (\<lambda>(value, r).
       sg_read_versions rd n (versions(key \<mapsto> value)) r))"

definition SparseGraph_Deserialize ::
    "('d \<Rightarrow> 'r \<Rightarrow> ('d \<times> 'r) result) \<Rightarrow> 'r read_op \<Rightarrow> 'd SparseGraphDataCell \<Rightarrow> 'r \<Rightarrow>
     ('d SparseGraphDataCell \<times> 'r) result" where
  "SparseGraph_Deserialize dt_deser rd g r =
     bind_r (GraphInterface_Deserialize dt_deser rd g r) (\<lambda>(g, r).
     bind_r (ReadObj rd 4 dec_u32 r) (\<lambda>(line_size, r).
     bind_r (ReadObj rd 8 dec_u64 r) (\<lambda>(size, r).
     bind_r (sg_read_vertices rd (unat size) (neighbors g) r) (\<lambda>(nbs, r).
     bind_r (if is_support_delete g then sg_read_versions rd (unat size) (node_version g) r
             else Inr (node_version g, r)) (\<lambda>(versions, r).
       Inr (g\<lparr>code_line_size := line_size, neighbors := nbs, g_total_count := ucast size,
              node_version := versions\<rparr>, r))))))"

section \<open>Invariant and abstraction\<close>

definition sg_ids :: "'d SparseGraphDataCell \<Rightarrow> u32 list \<Rightarrow> InnerIdType list" where
  "sg_ids g ns = (if is_support_delete g then map (stamp_id (remove_flag_mask g)) ns else ns)"

definition sg_stored :: "'d SparseGraphDataCell \<Rightarrow> InnerIdType \<Rightarrow> InnerIdType list" where
  "sg_stored g x = (case neighbors g x of None \<Rightarrow> [] | Some ns \<Rightarrow> sg_ids g ns)"

definition sg_current :: "'d SparseGraphDataCell \<Rightarrow> u32 \<Rightarrow> bool" where
  "sg_current g n \<longleftrightarrow>
     (is_support_delete g \<longrightarrow>
      node_version g (stamp_id (remove_flag_mask g) n) = Some (stamp_version (unat (id_bit g)) n))"

definition sg_live :: "'d SparseGraphDataCell \<Rightarrow> InnerIdType \<Rightarrow> InnerIdType list" where
  "sg_live g x = (case neighbors g x of None \<Rightarrow> [] | Some ns \<Rightarrow> sg_ids g (filter (sg_current g) ns))"

definition sg_valid :: "'d SparseGraphDataCell \<Rightarrow> InnerIdType \<Rightarrow> bool" where
  "sg_valid g i \<longleftrightarrow>
     (is_support_delete g \<longrightarrow> take_bit (unat (id_bit g)) i = i \<and>
        (neighbors g i = None \<longrightarrow> node_version g i \<in> {None, Some 0}))"

text \<open>
  A valid id fits under the version bits, and if it is no vertex it has no version or version 0, the
  one it gets when it is inserted. Every vertex and every target of an edge is valid and has a
  version.
\<close>

definition sg_inv :: "'d SparseGraphDataCell \<Rightarrow> bool" where
  "sg_inv g \<longleftrightarrow>
     (is_support_delete g \<longrightarrow> unat (id_bit g) \<le> 24 \<and> remove_flag_mask g = mask (unat (id_bit g))) \<and>
     (\<forall>x ns. neighbors g x = Some ns \<longrightarrow> length ns \<le> unat (maximum_degree g)) \<and>
     (is_support_delete g \<longrightarrow>
       (\<forall>x ns. neighbors g x = Some ns \<longrightarrow> sg_valid g x \<and> node_version g x \<noteq> None \<and>
         (\<forall>n \<in> set (sg_ids g ns). sg_valid g n \<and> node_version g n \<noteq> None))) \<and>
     (\<forall>re. reverse_edges g = Some re \<longrightarrow> re_exact re (sg_stored g))"

lemma sg_invD:
  assumes "sg_inv g"
  shows "is_support_delete g \<Longrightarrow> unat (id_bit g) \<le> 24"
    and "is_support_delete g \<Longrightarrow> remove_flag_mask g = mask (unat (id_bit g))"
    and "neighbors g x = Some ns \<Longrightarrow> length ns \<le> unat (maximum_degree g)"
    and "is_support_delete g \<Longrightarrow> neighbors g x = Some ns \<Longrightarrow> sg_valid g x"
    and "is_support_delete g \<Longrightarrow> neighbors g x = Some ns \<Longrightarrow> node_version g x \<noteq> None"
    and "is_support_delete g \<Longrightarrow> neighbors g x = Some ns \<Longrightarrow> n \<in> set ns \<Longrightarrow>
      node_version g (stamp_id (remove_flag_mask g) n) \<noteq> None"
    and "is_support_delete g \<Longrightarrow> neighbors g x = Some ns \<Longrightarrow> n \<in> set ns \<Longrightarrow>
      sg_valid g (stamp_id (remove_flag_mask g) n)"
    and "reverse_edges g = Some re \<Longrightarrow> re_exact re (sg_stored g)"
  using assms unfolding sg_inv_def sg_ids_def by fastforce+

lemma stamp_neighbors_eq:
  "stamp_neighbors b ns versions =
     (map (\<lambda>n. stamp b n (case versions n of None \<Rightarrow> 0 | Some v \<Rightarrow> v)) ns,
      (\<lambda>x. if x \<in> set ns \<and> versions x = None then Some 0 else versions x))"
  by (induction ns arbitrary: versions) (auto simp: Let_def split: option.splits if_splits)

lemma filter_versions_eq:
  "\<forall>n \<in> set ns. versions (stamp_id m n) \<noteq> None \<Longrightarrow>
   filter_versions b m versions ns =
     Inr (map (stamp_id m) (filter (\<lambda>n. versions (stamp_id m n) = Some (stamp_version b n)) ns))"
  by (induction ns) (auto simp: Let_def split: option.splits)

lemma sg_GetNeighbors:
  assumes "sg_inv g"
  shows "SparseGraph_GetNeighbors g i buf = Inr (if neighbors g i = None then buf else sg_live g i)"
proof (cases "neighbors g i")
  case None
  then show ?thesis by (simp add: SparseGraph_GetNeighbors_def)
next
  case (Some ns)
  then show ?thesis
    using sg_invD(6) [OF assms _ Some]
    by (simp add: SparseGraph_GetNeighbors_def filter_versions_eq sg_live_def sg_ids_def sg_current_def [abs_def])
qed

text \<open>The versions after \<open>InsertNeighborsById g i ns\<close> with deletion enabled.\<close>

definition versions1 :: "'d SparseGraphDataCell \<Rightarrow> InnerIdType \<Rightarrow> InnerIdType \<rightharpoonup> byte" where
  "versions1 g i = (if neighbors g i = None then (node_version g)(i \<mapsto> 0) else node_version g)"

definition versions2 ::
    "'d SparseGraphDataCell \<Rightarrow> InnerIdType \<Rightarrow> InnerIdType list \<Rightarrow> InnerIdType \<rightharpoonup> byte" where
  "versions2 g i ns = (\<lambda>x. if x \<in> set ns \<and> versions1 g i x = None then Some 0 else versions1 g i x)"

lemma sg_insert_fields:
  assumes "length ns \<le> unat (maximum_degree g)"
  obtains g' where "SparseGraph_InsertNeighborsById g i ns = Inr g'"
    and "neighbors g' = (neighbors g)(i \<mapsto>
      if is_support_delete g
      then map (\<lambda>n. stamp (unat (id_bit g)) n (case versions1 g i n of None \<Rightarrow> 0 | Some v \<Rightarrow> v)) ns else ns)"
    and "node_version g' = (if is_support_delete g then versions2 g i ns else node_version g)"
    and "reverse_edges g' = map_option (\<lambda>re. update_reverse re i (sg_stored g i) ns) (reverse_edges g)"
    and "maximum_degree g' = maximum_degree g" and "is_support_delete g' = is_support_delete g"
    and "id_bit g' = id_bit g" and "remove_flag_mask g' = remove_flag_mask g"
    and "g_total_count g' = (if neighbors g i = None then g_total_count g + 1 else g_total_count g)"
    and "g_duplicate_tracker g' = g_duplicate_tracker g"
proof -
  have "unat (word_of_nat (length ns) :: u32) = length ns"
    using assms unat_u32_lt [of "maximum_degree g"] by (simp add: unat_word_of_nat_u32)
  then have "unat (min (maximum_degree g) (word_of_nat (length ns))) = length ns"
    using assms by (simp add: min_def word_le_nat_alt)
  then obtain g' where ins: "SparseGraph_InsertNeighborsById g i ns = Inr g'"
      and g': "g' = (let g0 = g\<lparr>max_capacity := max (max_capacity g) (i + 1)\<rparr>;
                (g1, old) = sg_find_or_emplace g0 i in sg_store (UpdateReverseEdges g1 i old ns) i ns)"
    using assms by (simp add: SparseGraph_InsertNeighborsById_def Let_def split: prod.split)
  show thesis
    by (rule that [OF ins]; cases "neighbors g i"; cases "reverse_edges g")
      (simp_all add: g' sg_find_or_emplace_def Let_def sg_store_def UpdateReverseEdges_def stamp_neighbors_eq
        versions1_def versions2_def sg_stored_def sg_ids_def fun_eq_iff cong: map_cong)
qed

text \<open>Inserting the edges of one vertex changes the edges of that vertex only, first as a change of the fields and of
  the edges stored and visible, then with the invariant.\<close>

lemma sg_insert_edges:
  assumes inv: "sg_inv g" and i: "sg_valid g i" and ns: "\<And>n. n \<in> set ns \<Longrightarrow> sg_valid g n"
    and len: "length ns \<le> unat (maximum_degree g)"
  obtains g' where "SparseGraph_InsertNeighborsById g i ns = Inr g'"
    and "neighbors g' = (neighbors g)(i \<mapsto>
      if is_support_delete g
      then map (\<lambda>n. stamp (unat (id_bit g)) n (case versions1 g i n of None \<Rightarrow> 0 | Some v \<Rightarrow> v)) ns else ns)"
    and "node_version g' = (if is_support_delete g then versions2 g i ns else node_version g)"
    and "reverse_edges g' = map_option (\<lambda>re. update_reverse re i (sg_stored g i) ns) (reverse_edges g)"
    and "maximum_degree g' = maximum_degree g" and "is_support_delete g' = is_support_delete g"
      and "id_bit g' = id_bit g" and "remove_flag_mask g' = remove_flag_mask g"
      and "g_duplicate_tracker g' = g_duplicate_tracker g"
    and "sg_live g' = (sg_live g)(i := ns)" and "sg_stored g' = (sg_stored g)(i := ns)" and "sg_valid g' = sg_valid g"
proof -
  obtain g' where ins: "SparseGraph_InsertNeighborsById g i ns = Inr g'"
    and nb: "neighbors g' = (neighbors g)(i \<mapsto>
      if is_support_delete g
      then map (\<lambda>n. stamp (unat (id_bit g)) n (case versions1 g i n of None \<Rightarrow> 0 | Some v \<Rightarrow> v)) ns else ns)"
    and nv: "node_version g' = (if is_support_delete g then versions2 g i ns else node_version g)"
    and re: "reverse_edges g' = map_option (\<lambda>re. update_reverse re i (sg_stored g i) ns) (reverse_edges g)"
    and same: "maximum_degree g' = maximum_degree g" "is_support_delete g' = is_support_delete g"
      "id_bit g' = id_bit g" "remove_flag_mask g' = remove_flag_mask g"
      "g_duplicate_tracker g' = g_duplicate_tracker g"
    by (rule sg_insert_fields [OF len])
  have stable: "versions2 g i ns (stamp_id (remove_flag_mask g) n) = node_version g (stamp_id (remove_flag_mask g) n)"
    if "is_support_delete g" "neighbors g x = Some l" "n \<in> set l" for x l n
    using sg_invD(6,7) [OF inv that] that(1) by (auto simp: versions2_def versions1_def sg_valid_def)
  have ids: "sg_ids g' l = sg_ids g l" for l by (simp add: sg_ids_def same)
  have new_ids: "stamp_id (remove_flag_mask g) (stamp (unat (id_bit g)) n v) = n"
    "stamp_version (unat (id_bit g)) (stamp (unat (id_bit g)) n v) = v"
    if "is_support_delete g" "n \<in> set ns" for n v
    using ns [OF that(2)] that(1) sg_invD(1,2) [OF inv that(1)]
    by (simp_all add: stamp_id_stamp stamp_version_stamp sg_valid_def)
  define l0 where "l0 = (if is_support_delete g
      then map (\<lambda>n. stamp (unat (id_bit g)) n (case versions1 g i n of None \<Rightarrow> 0 | Some v \<Rightarrow> v)) ns else ns)"
  have nb0: "neighbors g' = (neighbors g)(i \<mapsto> l0)" by (simp add: nb l0_def)
  have l0: "sg_ids g l0 = ns"
    by (auto simp: l0_def sg_ids_def new_ids intro: map_idI)
  have stored: "sg_stored g' = (sg_stored g)(i := ns)"
    by (auto simp: fun_eq_iff sg_stored_def ids nb0 l0 split: option.split)
  have live_other: "sg_live g' x = sg_live g x" if "x \<noteq> i" for x
  proof (cases "neighbors g x")
    case (Some l)
    have "filter (sg_current g') l = filter (sg_current g) l"
      by (rule filter_cong [OF refl]) (simp add: sg_current_def same nv stable [OF _ Some])
    then show ?thesis using that Some by (simp add: sg_live_def nb0 ids)
  qed (use that in \<open>simp add: sg_live_def nb0\<close>)
  have "sg_current g' n" if "n \<in> set l0" for n
    using that by (auto simp: l0_def sg_current_def same nv new_ids versions2_def split: option.split if_splits)
  then have "sg_live g' i = ns"
    by (simp add: sg_live_def ids nb0 l0 filter_id_conv [THEN iffD2])
  then have live: "sg_live g' = (sg_live g)(i := ns)"
    using live_other by (auto simp: fun_eq_iff)
  have valid: "sg_valid g' = sg_valid g"
    using i by (auto simp: fun_eq_iff sg_valid_def same nb nv versions2_def versions1_def)
  show thesis by (rule that [OF ins nb nv re same live stored valid])
qed

lemma sg_insert_ok:
  assumes inv: "sg_inv g" and i: "sg_valid g i" and ns: "\<And>n. n \<in> set ns \<Longrightarrow> sg_valid g n"
    and len: "length ns \<le> unat (maximum_degree g)"
  obtains g' where "SparseGraph_InsertNeighborsById g i ns = Inr g'" and "sg_inv g'"
    and "sg_live g' = (sg_live g)(i := ns)" and "sg_stored g' = (sg_stored g)(i := ns)"
    and "maximum_degree g' = maximum_degree g" and "sg_valid g' = sg_valid g"
    and "dom (neighbors g') = insert i (dom (neighbors g))"
    and "is_support_delete g' = is_support_delete g"
    and "is_support_delete g \<Longrightarrow> node_version g' = versions2 g i ns"
    and "reverse_edges g' = None \<longleftrightarrow> reverse_edges g = None"
    and "g_duplicate_tracker g' = g_duplicate_tracker g"
proof -
  obtain g' where ins: "SparseGraph_InsertNeighborsById g i ns = Inr g'"
    and nb: "neighbors g' = (neighbors g)(i \<mapsto>
      if is_support_delete g
      then map (\<lambda>n. stamp (unat (id_bit g)) n (case versions1 g i n of None \<Rightarrow> 0 | Some v \<Rightarrow> v)) ns else ns)"
    and nv: "node_version g' = (if is_support_delete g then versions2 g i ns else node_version g)"
    and re: "reverse_edges g' = map_option (\<lambda>re. update_reverse re i (sg_stored g i) ns) (reverse_edges g)"
    and same: "maximum_degree g' = maximum_degree g" "is_support_delete g' = is_support_delete g"
      "id_bit g' = id_bit g" "remove_flag_mask g' = remove_flag_mask g"
      "g_duplicate_tracker g' = g_duplicate_tracker g"
    and live: "sg_live g' = (sg_live g)(i := ns)" and stored: "sg_stored g' = (sg_stored g)(i := ns)"
    and valid: "sg_valid g' = sg_valid g"
    by (rule sg_insert_edges [OF inv i ns len])
  have ids: "sg_ids g' l = sg_ids g l" for l by (simp add: sg_ids_def same)
  have "length l \<le> unat (maximum_degree g')" if "neighbors g' x = Some l" for x l
    using that len sg_invD(3) [OF inv, of x l] by (auto simp: nb same split: if_splits)
  moreover have "sg_valid g' x \<and> node_version g' x \<noteq> None \<and>
      (\<forall>n \<in> set (sg_ids g' l). sg_valid g' n \<and> node_version g' n \<noteq> None)"
    if "is_support_delete g" "neighbors g' x = Some l" for x l
  proof (cases "x = i")
    case True
    have "sg_ids g' l = ns"
      using that(2) stored True by (auto simp: sg_stored_def fun_eq_iff split: option.splits dest: spec [of _ i])
    then show ?thesis
      using True i ns sg_invD(5) [OF inv that(1), of i]
      by (auto simp: valid nv that(1) versions2_def versions1_def)
  next
    case False
    then have l: "neighbors g x = Some l" using that(2) by (simp add: nb)
    have grow: "node_version g y \<noteq> None \<Longrightarrow> node_version g' y \<noteq> None" for y
      by (auto simp: nv that(1) versions2_def versions1_def)
    have "sg_valid g n \<and> node_version g' n \<noteq> None" if "n \<in> set (sg_ids g l)" for n
      using that sg_invD(6,7) [OF inv \<open>is_support_delete g\<close> l] \<open>is_support_delete g\<close>
      by (auto simp only: sg_ids_def if_True set_map intro!: grow)
    then show ?thesis
      unfolding ids valid using sg_invD(4) [OF inv that(1) l] grow [OF sg_invD(5) [OF inv that(1) l]] by blast
  qed
  moreover have "re_exact re' (sg_stored g')" if "reverse_edges g' = Some re'" for re'
    using that sg_invD(8) [OF inv] by (auto simp: re stored intro!: re_exact_update)
  ultimately have inv': "sg_inv g'"
    using sg_invD(1,2) [OF inv] unfolding sg_inv_def by (simp add: same)
  show thesis
    by (rule that [OF ins inv' live stored same(1) valid]) (auto simp: nb nv re same)
qed

section \<open>The storage as an edge store\<close>

definition sg_no_stale :: "'d SparseGraphDataCell \<Rightarrow> InnerIdType \<Rightarrow> bool" where
  "sg_no_stale g f \<longleftrightarrow> (\<forall>x. f \<in> set (sg_stored g x) \<longrightarrow> f \<in> set (sg_live g x))"

lemma set_live_stored: "set (sg_live g x) \<subseteq> set (sg_stored g x)"
  by (cases "neighbors g x") (auto simp: sg_live_def sg_stored_def sg_ids_def)

lemma sg_stored_valid:
  assumes "sg_inv g" and "y \<in> set (sg_stored g x)"
  shows "sg_valid g x \<and> sg_valid g y \<and> neighbors g x \<noteq> None"
proof (cases "is_support_delete g")
  case True
  obtain ns where ns: "neighbors g x = Some ns" "y \<in> set (sg_ids g ns)"
    using assms(2) by (cases "neighbors g x") (simp_all add: sg_stored_def)
  have y: "y \<in> stamp_id (remove_flag_mask g) ` set ns"
    using ns(2) True by (simp add: sg_ids_def)
  then show ?thesis
    using ns(1) sg_invD(4) [OF assms(1) True ns(1)] sg_invD(7) [OF assms(1) True ns(1)] by blast
next
  case False
  then show ?thesis using assms(2) by (cases "neighbors g x") (simp_all add: sg_valid_def sg_stored_def)
qed

lemma length_sg_live: "sg_inv g \<Longrightarrow> length (sg_live g x) \<le> unat (maximum_degree g)"
  using sg_invD(3) [of g x]
  by (auto simp: sg_live_def sg_ids_def split: option.split intro: order_trans [OF length_filter_le])

lemma sg_no_stale_insert:
  assumes "sg_no_stale g f" and "sg_live g' = (sg_live g)(i := ns)" and "sg_stored g' = (sg_stored g)(i := ns)"
  shows "sg_no_stale g' f"
  using assms(1) unfolding sg_no_stale_def assms(2,3) by simp

interpretation sparse_store: edge_store "\<lambda>g. sg_inv g \<and> sg_no_stale g f" sg_valid
  "\<lambda>g. unat (maximum_degree g)" sg_live SparseGraph_GetNeighbors SparseGraph_InsertNeighborsById
  for f :: InnerIdType
proof unfold_locales
  fix g :: "'d SparseGraphDataCell" and i ns
  assume g: "sg_inv g \<and> sg_no_stale g f" and i: "sg_valid g i" and ns: "\<And>n. n \<in> set ns \<Longrightarrow> sg_valid g n"
    and len: "length ns \<le> unat (maximum_degree g)"
  from sg_insert_ok [OF conjunct1 [OF g] i ns len]
  obtain g' where g': "SparseGraph_InsertNeighborsById g i ns = Inr g'" "sg_inv g'"
      "sg_live g' = (sg_live g)(i := ns)" "sg_stored g' = (sg_stored g)(i := ns)"
      "maximum_degree g' = maximum_degree g" "sg_valid g' = sg_valid g" .
  show "\<exists>g'. SparseGraph_InsertNeighborsById g i ns = Inr g' \<and> (sg_inv g' \<and> sg_no_stale g' f) \<and>
      sg_live g' = (sg_live g)(i := ns) \<and> unat (maximum_degree g') = unat (maximum_degree g) \<and>
      sg_valid g' = sg_valid g"
    using g' sg_no_stale_insert [OF conjunct2 [OF g] g'(3,4)] by simp
next
  fix g :: "'d SparseGraphDataCell" and i
  assume "sg_inv g \<and> sg_no_stale g f"
  then show "SparseGraph_GetNeighbors g i [] = Inr (sg_live g i)"
    by (cases "neighbors g i") (simp_all add: sg_GetNeighbors, simp add: sg_live_def)
next
  fix g :: "'d SparseGraphDataCell" and x y
  assume "sg_inv g \<and> sg_no_stale g f" and "y \<in> set (sg_live g x)"
  then show "sg_valid g x \<and> sg_valid g y"
    using sg_stored_valid [of g y x] set_live_stored [of g x] by blast
qed (simp add: length_sg_live)

section \<open>Operations keep the invariant\<close>

lemma sg_inv_new:
  assumes "SparseGraphDataCell_new md sd fb dup re = Inr g" and "sd \<Longrightarrow> 8 \<le> fb \<and> fb \<le> 32"
  shows "sg_inv g"
proof -
  obtain m where m: "flag_mask_of (32 - fb) = Inr m" and g: "neighbors g = Map.empty"
      "is_support_delete g = sd" "id_bit g = 32 - fb" "remove_flag_mask g = m"
      "reverse_edges g = (if re then Some Map.empty else None)"
    using assms(1) by (auto simp: SparseGraphDataCell_new_def Let_def elim!: bind_rE)
  have "unat (32 - fb) \<le> 24" if sd
    using assms(2) [OF that] by (auto simp: unat_sub word_le_nat_alt)
  moreover have "sg_stored g = (\<lambda>x. [])" by (simp add: fun_eq_iff sg_stored_def g)
  ultimately show ?thesis
    using flag_mask_of_mask [OF m] by (auto simp: sg_inv_def g)
qed

lemma sg_set_version:
  assumes "sg_inv g" and "neighbors g i \<noteq> None" and "is_support_delete g"
  shows "sg_inv (g\<lparr>node_version := (node_version g)(i \<mapsto> v)\<rparr>)"
proof -
  define g' where "g' = g\<lparr>node_version := (node_version g)(i \<mapsto> v)\<rparr>"
  have same: "neighbors g' = neighbors g" "sg_ids g' = sg_ids g" "sg_stored g' = sg_stored g"
      "is_support_delete g' = is_support_delete g" "id_bit g' = id_bit g"
      "remove_flag_mask g' = remove_flag_mask g" "maximum_degree g' = maximum_degree g"
      "reverse_edges g' = reverse_edges g" "node_version g' = (node_version g)(i \<mapsto> v)"
    by (simp_all add: g'_def fun_eq_iff sg_ids_def sg_stored_def split: option.split)
  have "sg_valid g' = sg_valid g"
    using assms(2) by (auto simp: fun_eq_iff sg_valid_def same)
  then show ?thesis
    using assms(1,3) unfolding g'_def [symmetric] sg_inv_def same by auto
qed

lemma uint_byte_plus_1 [simp]: "uint (w :: byte) + 1 \<noteq> 0"
  using uint_ge_0 [of w] by linarith

lemma sg_Delete_ok:
  assumes "sg_inv g" and "is_support_delete g" and "neighbors g i \<noteq> None"
  obtains v where "node_version g i = Some v"
    and "SparseGraph_DeleteNeighborsById g i = Inr (g\<lparr>node_version := (node_version g)(i \<mapsto> v + 1)\<rparr>)"
    and "sg_inv (g\<lparr>node_version := (node_version g)(i \<mapsto> v + 1)\<rparr>)"
proof -
  obtain ns where "neighbors g i = Some ns" using assms(3) by blast
  then obtain v where "node_version g i = Some v" using sg_invD(5) [OF assms(1,2)] by blast
  then show thesis
    using that [of v] assms(2) sg_set_version [OF assms(1,3,2), of "v + 1"]
    by (simp add: SparseGraph_DeleteNeighborsById_def)
qed

lemma sg_Recover_inv:
  assumes "sg_inv g" and "neighbors g i \<noteq> None" and "SparseGraph_RecoverDeleteNeighborsById g i = Inr g'"
  shows "sg_inv g'"
  using assms(3) sg_set_version [OF assms(1,2)]
  by (auto simp: SparseGraph_RecoverDeleteNeighborsById_def split: if_splits option.splits)

lemma sg_erase_inv:
  assumes "sg_inv g" and "sg_stored g from = []" and "\<And>x. from \<notin> set (sg_stored g x)"
  shows "sg_inv (g\<lparr>neighbors := (neighbors g)(from := None)\<rparr>)"
proof -
  define g' where "g' = g\<lparr>neighbors := (neighbors g)(from := None)\<rparr>"
  have same: "neighbors g' = (neighbors g)(from := None)" "sg_ids g' = sg_ids g"
      "is_support_delete g' = is_support_delete g" "id_bit g' = id_bit g"
      "remove_flag_mask g' = remove_flag_mask g" "maximum_degree g' = maximum_degree g"
      "reverse_edges g' = reverse_edges g" "node_version g' = node_version g"
    by (simp_all add: g'_def fun_eq_iff sg_ids_def)
  have stored: "sg_stored g' = sg_stored g"
    using assms(2) by (auto simp: fun_eq_iff sg_stored_def same split: option.split)
  have valid: "sg_valid g' x = sg_valid g x" if "x \<noteq> from" for x
    using that by (simp add: sg_valid_def same)
  have "n \<noteq> from" if "neighbors g x = Some ns" "n \<in> set (sg_ids g ns)" for x ns n
    using assms(3) [of x] that by (auto simp: sg_stored_def)
  then show ?thesis
    using assms(1) unfolding g'_def [symmetric] sg_inv_def stored
    by (auto simp: same valid split: if_splits)
qed

lemma sg_Move_ok:
  assumes inv: "sg_inv g" and from_: "neighbors g from \<noteq> None" "sg_no_stale g from"
    and to: "sg_valid g to" "from \<noteq> to" and re: "reverse_edges g \<noteq> None"
  obtains g' where "SparseGraph_Move g from to = Inr g'" and "sg_inv g'"
    and "neighbors g' from = None" and "unat (maximum_degree g') = unat (maximum_degree g)"
    and "\<And>x. x \<noteq> from \<Longrightarrow> set (sg_live g' x) =
      (\<lambda>y. if y = from then to else y) ` set (sg_live g (if x = to then from else x))"
proof -
  obtain re where re: "reverse_edges g = Some re" using assms(6) by blast
  have ex: "re_exact re (sg_stored g)" by (rule sg_invD(8) [OF inv re])
  have inc: "distinct (GetIncomingNeighbors g from)"
      "x \<in> set (GetIncomingNeighbors g from) \<longleftrightarrow> from \<in> set (sg_live g x)" for x
    using ex from_(2) set_live_stored [of g x]
    by (auto simp: GetIncomingNeighbors_def re re_exact_def re_distinct_def sg_no_stale_def)
  have v: "sg_valid g from"
    using from_(1) sg_invD(4) [OF inv] by (auto simp: sg_valid_def)
  obtain g1 where g1: "move_edges SparseGraph_GetNeighbors SparseGraph_InsertNeighborsById
        GetIncomingNeighbors g from to = Inr g1" "sg_inv g1" "sg_no_stale g1 from"
      "unat (maximum_degree g1) = unat (maximum_degree g)" "sg_live g1 from = []"
      "\<And>x. x \<noteq> from \<Longrightarrow> set (sg_live g1 x) =
        (\<lambda>y. if y = from then to else y) ` set (sg_live g (if x = to then from else x))"
    using sparse_store.move_edges_ok [of g "from" "from" to GetIncomingNeighbors, OF _ v to inc] inv from_(2)
    by blast
  have no_live: "from \<notin> set (sg_live g1 x)" for x
    using g1(5) g1(6) [of x] to(2) by (cases "x = from") auto
  then have no: "from \<notin> set (sg_stored g1 x)" for x
    using g1(3) by (auto simp: sg_no_stale_def)
  obtain g2 where "SparseGraph_InsertNeighborsById g2 from [] = Inr g1"
    using g1(1) unfolding move_edges_def Let_def by (elim bind_rE)
  then have "neighbors g1 from = Some []"
    by (rule_tac sg_insert_fields [of "[]" g2 "from"]) auto
  then have "sg_stored g1 from = []" by (simp add: sg_stored_def sg_ids_def)
  then have inv': "sg_inv (g1\<lparr>neighbors := (neighbors g1)(from := None)\<rparr>)"
    using no by (rule sg_erase_inv [OF g1(2)])
  have cur: "sg_current (g1\<lparr>neighbors := (neighbors g1)(from := None)\<rparr>) = sg_current g1"
    by (simp add: fun_eq_iff sg_current_def)
  have live: "sg_live (g1\<lparr>neighbors := (neighbors g1)(from := None)\<rparr>) x = sg_live g1 x" if "x \<noteq> from" for x
    using that by (simp add: sg_live_def cur sg_ids_def split: option.split)
  have "SparseGraph_Move g from to = Inr (g1\<lparr>neighbors := (neighbors g1)(from := None)\<rparr>)"
    using from_(1) to(2) by (auto simp: SparseGraph_Move_def g1(1))
  then show thesis
    using that inv' g1(4,6) live by simp
qed

lemma sg_Move_plain:
  assumes inv: "sg_inv g" and from_: "neighbors g from \<noteq> None" and nost: "sg_no_stale g from"
    and to: "sg_valid g to" "from \<noteq> to" and re: "reverse_edges g = None"
  obtains g' where "SparseGraph_Move g from to = Inr g'" and "neighbors g' from = None"
    and "\<And>x. x \<noteq> from \<Longrightarrow> SparseGraph_GetNeighbors g' x [] =
      SparseGraph_GetNeighbors g (if x = to then from else x) []"
proof -
  have v: "sg_valid g from" using from_ sg_invD(4) [OF inv] by (auto simp: sg_valid_def)
  have inc: "GetIncomingNeighbors g from = []" by (simp add: GetIncomingNeighbors_def re)
  obtain g1 where g1: "move_edges SparseGraph_GetNeighbors SparseGraph_InsertNeighborsById
        GetIncomingNeighbors g from to = Inr g1" "sg_inv g1"
      "sg_live g1 = (sg_live g)(to := sg_live g from, from := [])"
    using sparse_store.move_edges_no_incoming [of g "from" "from" to GetIncomingNeighbors, OF _ v to inc] inv nost
    by blast
  have get: "SparseGraph_GetNeighbors h x [] = Inr (sg_live h x)" if "sg_inv h" for h :: "'a SparseGraphDataCell" and x
    using sg_GetNeighbors [OF that] by (cases "neighbors h x") (simp_all add: sg_live_def)
  let ?g = "g1\<lparr>neighbors := (neighbors g1)(from := None)\<rparr>"
  have "SparseGraph_Move g from to = Inr ?g"
    using from_ to(2) by (auto simp: SparseGraph_Move_def g1(1))
  moreover have "SparseGraph_GetNeighbors ?g x [] = SparseGraph_GetNeighbors g1 x []" if "x \<noteq> from" for x
    using that by (simp add: SparseGraph_GetNeighbors_def split: option.split)
  ultimately show thesis
    using that [of ?g] get [OF inv] get [OF g1(2)] by (simp add: g1(3))
qed

text \<open>Appending the vertices of another graph, their ids shifted by \<open>bias\<close>.\<close>

abbreviation shift :: "u64 \<Rightarrow> InnerIdType \<Rightarrow> InnerIdType" where
  "shift bias i \<equiv> i + ucast bias"

lemma sg_merge_loop_ok:
  assumes "sg_inv other" and "unat (maximum_degree other) \<le> unat (maximum_degree g)"
    and "\<And>y x. y \<in> set (sg_live other x) \<Longrightarrow> sg_valid g (shift bias y)"
    and "sg_inv g" and "distinct xs"
    and "\<And>i. i \<in> set xs \<Longrightarrow> neighbors other i \<noteq> None \<and> sg_valid g (shift bias i) \<and> neighbors g (shift bias i) = None"
  shows "\<exists>g'. sg_merge_loop other bias xs buf g = Inr g' \<and> sg_inv g' \<and>
    dom (neighbors g') = dom (neighbors g) \<union> shift bias ` set xs \<and>
    sg_live g' = (\<lambda>x. if x \<in> shift bias ` set xs then map (shift bias) (sg_live other (x - ucast bias))
                      else sg_live g x)"
  using assms(2-)
proof (induction xs arbitrary: g buf)
  case Nil
  then show ?case by simp
next
  case (Cons i xs)
  note prems = Cons.prems
  let ?j = "shift bias i" and ?ns = "map (shift bias) (sg_live other i)"
  have i: "neighbors other i \<noteq> None" "sg_valid g ?j" "neighbors g ?j = None"
    using prems(5) by auto
  have get: "SparseGraph_GetNeighbors other i buf = Inr (sg_live other i)"
    using sg_GetNeighbors [OF assms(1)] i(1) by auto
  have len: "length ?ns \<le> unat (maximum_degree g)"
    using length_sg_live [OF assms(1), of i] prems(1) by simp
  have vns: "\<And>n. n \<in> set ?ns \<Longrightarrow> sg_valid g n" using prems(2) by auto
  from sg_insert_ok [OF prems(3) i(2) vns len]
  obtain g1 where g1: "SparseGraph_InsertNeighborsById g ?j ?ns = Inr g1" "sg_inv g1"
      "sg_live g1 = (sg_live g)(?j := ?ns)" "maximum_degree g1 = maximum_degree g" "sg_valid g1 = sg_valid g"
      "dom (neighbors g1) = insert ?j (dom (neighbors g))" "is_support_delete g1 = is_support_delete g"
      "is_support_delete g \<Longrightarrow> node_version g1 = versions2 g ?j ?ns" by metis
  have "(node_version g1)(?j \<mapsto> 0) = node_version g1" if "is_support_delete g1"
    using that g1(7,8) i(3) by (intro fun_upd_idem) (simp add: versions2_def versions1_def)
  then have reset: "(if is_support_delete g1 then g1\<lparr>node_version := (node_version g1)(?j \<mapsto> 0)\<rparr> else g1) = g1"
    by simp
  have step: "sg_merge_loop other bias (i # xs) buf g = sg_merge_loop other bias xs ?ns g1"
    using reset by (simp add: get g1(1) Let_def)
  have "neighbors other z \<noteq> None \<and> sg_valid g1 (shift bias z) \<and> neighbors g1 (shift bias z) = None"
    if "z \<in> set xs" for z
  proof -
    have z: "neighbors other z \<noteq> None" "sg_valid g (shift bias z)" "neighbors g (shift bias z) = None"
      using prems(5) that by auto
    moreover have "shift bias z \<noteq> ?j" using that prems(4) by auto
    ultimately have "shift bias z \<notin> dom (neighbors g1)" by (simp add: g1(6) domIff)
    then show ?thesis using z by (simp add: g1(5) domIff)
  qed
  then obtain g' where g': "sg_merge_loop other bias xs ?ns g1 = Inr g'" "sg_inv g'"
      "dom (neighbors g') = dom (neighbors g1) \<union> shift bias ` set xs"
      "sg_live g' = (\<lambda>x. if x \<in> shift bias ` set xs then map (shift bias) (sg_live other (x - ucast bias))
                        else sg_live g1 x)"
    using Cons.IH [of g1 ?ns] prems(1,2,4) g1(2,4,5) by auto
  have "sg_live g' = (\<lambda>x. if x \<in> shift bias ` set (i # xs) then map (shift bias) (sg_live other (x - ucast bias))
                        else sg_live g x)"
    unfolding g'(4) g1(3) by (auto simp: fun_eq_iff)
  then show ?case using step g'(1-3) g1(6) by auto
qed

section \<open>Reachable graphs\<close>

text \<open>
  The graphs that construction, \<open>InsertNeighborsById\<close>, \<open>DeleteNeighborsById\<close>,
  \<open>RecoverDeleteNeighborsById\<close>, \<open>Move\<close> and \<open>MergeOther\<close> build from an empty one. Deletion needs at least
  eight version bits, so that a \<open>uint8_t\<close> version fits above the id; \<open>Move\<close> needs incoming edges and no
  stale edge to its source, \<open>MergeOther\<close> a graph whose shifted ids are valid and unused.
  \<open>Deserialize\<close> is not among them: it does not rebuild the incoming edges, see
  \<open>sparse_deserialize_keeps_incoming\<close>.
\<close>

inductive sg_reach :: "SparseDuplicateTracker SparseGraphDataCell \<Rightarrow> bool" where
  new: "SparseGraphDataCell_new md sd fb dup re = Inr g \<Longrightarrow> (sd \<longrightarrow> 8 \<le> fb \<and> fb \<le> 32) \<Longrightarrow> sg_reach g"
| insert: "sg_reach g \<Longrightarrow> sg_valid g i \<Longrightarrow> (\<forall>n \<in> set ns. sg_valid g n) \<Longrightarrow>
    SparseGraph_InsertNeighborsById g i ns = Inr g' \<Longrightarrow> sg_reach g'"
| delete: "sg_reach g \<Longrightarrow> SparseGraph_CheckIdExists g i \<Longrightarrow>
    SparseGraph_DeleteNeighborsById g i = Inr g' \<Longrightarrow> sg_reach g'"
| recover: "sg_reach g \<Longrightarrow> SparseGraph_CheckIdExists g i \<Longrightarrow>
    SparseGraph_RecoverDeleteNeighborsById g i = Inr g' \<Longrightarrow> sg_reach g'"
| move: "sg_reach g \<Longrightarrow> sg_valid g to \<Longrightarrow> sg_no_stale g from \<Longrightarrow> reverse_edges g \<noteq> None \<Longrightarrow>
    SparseGraph_Move g from to = Inr g' \<Longrightarrow> sg_reach g'"
| merge: "sg_reach g \<Longrightarrow> sg_reach other \<Longrightarrow> distinct iter \<Longrightarrow> set iter = dom (neighbors other) \<Longrightarrow>
    (\<forall>i \<in> set iter. sg_valid g (shift bias i) \<and> \<not> SparseGraph_CheckIdExists g (shift bias i)) \<Longrightarrow>
    (\<forall>x. \<forall>y \<in> set (sg_live other x). sg_valid g (shift bias y)) \<Longrightarrow>
    SparseGraph_MergeOther g (Some other) iter bias = Inr g' \<Longrightarrow> sg_reach g'"

lemma sg_reach_inv: "sg_reach g \<Longrightarrow> sg_inv g"
proof (induction rule: sg_reach.induct)
  case (new md sd fb dup re g)
  then show ?case using sg_inv_new by blast
next
  case (insert g i ns g')
  have len: "length ns \<le> unat (maximum_degree g)"
    using insert.hyps(4) by (simp add: SparseGraph_InsertNeighborsById_def split: if_splits)
  have v: "\<And>n. n \<in> set ns \<Longrightarrow> sg_valid g n" using insert.hyps(3) by blast
  show ?case
    by (rule sg_insert_ok [OF insert.IH insert.hyps(2) v len]) (use insert.hyps(4) in auto)
next
  case (delete g i g')
  have "is_support_delete g"
    using delete.hyps(3) by (simp add: SparseGraph_DeleteNeighborsById_def split: if_splits)
  then show ?case
    using sg_Delete_ok [OF delete.IH, of i] delete.hyps(2,3) by (auto simp: SparseGraph_CheckIdExists_def)
next
  case (recover g i g')
  then show ?case using sg_Recover_inv by (auto simp: SparseGraph_CheckIdExists_def)
next
  case (move g to "from" g')
  show ?case
  proof (cases "from = to \<or> neighbors g from = None")
    case True
    then show ?thesis using move.hyps(5) move.IH by (auto simp: SparseGraph_Move_def split: if_splits)
  next
    case False
    then show ?thesis
      using sg_Move_ok [OF move.IH, of "from" to] move.hyps by auto
  qed
next
  case (merge g other iter bias g')
  have "maximum_degree g = maximum_degree other"
    and loop: "sg_merge_loop other bias iter [] g = Inr g'"
    using merge.hyps(7) by (simp_all add: SparseGraph_MergeOther_def split: if_splits)
  then have deg: "unat (maximum_degree other) \<le> unat (maximum_degree g)" by simp
  have val: "sg_valid g (shift bias y)" if "y \<in> set (sg_live other x)" for x y
    using merge.hyps(6) that by blast
  have pre: "neighbors other i \<noteq> None \<and> sg_valid g (shift bias i) \<and> neighbors g (shift bias i) = None"
    if "i \<in> set iter" for i
    using that merge.hyps(4,5) by (auto simp: SparseGraph_CheckIdExists_def)
  show ?case
    using sg_merge_loop_ok [OF merge.IH(2) deg val merge.IH(1) merge.hyps(3) pre, where buf = "[]"] loop by auto
qed

text \<open>A small graph with deletion and incoming edges, built by the operations.\<close>

definition sg_built :: "SparseDuplicateTracker SparseGraphDataCell result" where
  "sg_built =
     bind_r (SparseGraphDataCell_new 4 True 8 False True) (\<lambda>g.
     bind_r (SparseGraph_InsertNeighborsById g 1 [2, 3]) (\<lambda>g.
     bind_r (SparseGraph_InsertNeighborsById g 2 [1]) (\<lambda>g.
       SparseGraph_InsertNeighborsById g 3 [2])))"

definition built_edges :: "InnerIdType \<Rightarrow> InnerIdType list" where
  "built_edges = (\<lambda>x. [])(1 := [2, 3], 2 := [1], 3 := [2])"

lemma sg_built_ok:
  obtains g where "sg_built = Inr g" and "sg_reach g" and "sg_inv g" and "sg_live g = built_edges"
    and "sg_stored g = built_edges" and "unat (maximum_degree g) = 4"
    and "\<forall>i. take_bit 24 i = i \<longrightarrow> sg_valid g i" and "reverse_edges g \<noteq> None"
    and "dom (neighbors g) = {1, 2, 3}" and "is_support_delete g"
    and "node_version g = [1 \<mapsto> 0, 2 \<mapsto> 0, 3 \<mapsto> 0]" and "g_duplicate_tracker g = None"
proof -
  obtain g0 :: "SparseDuplicateTracker SparseGraphDataCell"
    where g0: "SparseGraphDataCell_new 4 True 8 False True = Inr g0" "neighbors g0 = Map.empty"
      "node_version g0 = Map.empty" "unat (maximum_degree g0) = 4" "is_support_delete g0"
      "id_bit g0 = 24" "reverse_edges g0 = Some Map.empty"
      "g_duplicate_tracker g0 = None"
    by (auto simp: SparseGraphDataCell_new_def flag_mask_of_def)
  have r0: "sg_reach g0" by (rule sg_reach.new [OF g0(1)]) simp
  have v: "sg_valid g0 i" if "take_bit 24 i = i" for i using that by (simp add: sg_valid_def g0)
  have e0: "sg_live g0 = (\<lambda>x. [])" "sg_stored g0 = (\<lambda>x. [])"
    by (simp_all add: fun_eq_iff sg_live_def sg_stored_def g0)
  obtain g1 where g1: "SparseGraph_InsertNeighborsById g0 1 [2, 3] = Inr g1" "sg_inv g1"
      "sg_live g1 = (sg_live g0)(1 := [2, 3])" "sg_stored g1 = (sg_stored g0)(1 := [2, 3])"
      "maximum_degree g1 = maximum_degree g0" "sg_valid g1 = sg_valid g0"
      "dom (neighbors g1) = insert 1 (dom (neighbors g0))" "is_support_delete g1 = is_support_delete g0"
      "is_support_delete g0 \<Longrightarrow> node_version g1 = versions2 g0 1 [2, 3]"
      "reverse_edges g1 = None \<longleftrightarrow> reverse_edges g0 = None"
      "g_duplicate_tracker g1 = g_duplicate_tracker g0"
    by (rule sg_insert_ok [OF sg_reach_inv [OF r0], of 1 "[2, 3]"]) (auto intro!: v simp: g0)
  obtain g2 where g2: "SparseGraph_InsertNeighborsById g1 2 [1] = Inr g2" "sg_inv g2"
      "sg_live g2 = (sg_live g1)(2 := [1])" "sg_stored g2 = (sg_stored g1)(2 := [1])"
      "maximum_degree g2 = maximum_degree g1" "sg_valid g2 = sg_valid g1"
      "dom (neighbors g2) = insert 2 (dom (neighbors g1))" "is_support_delete g2 = is_support_delete g1"
      "is_support_delete g1 \<Longrightarrow> node_version g2 = versions2 g1 2 [1]"
      "reverse_edges g2 = None \<longleftrightarrow> reverse_edges g1 = None"
      "g_duplicate_tracker g2 = g_duplicate_tracker g1"
    by (rule sg_insert_ok [OF g1(2), of 2 "[1]"]) (auto intro!: v simp: g1 g0)
  obtain g3 where g3: "SparseGraph_InsertNeighborsById g2 3 [2] = Inr g3" "sg_inv g3"
      "sg_live g3 = (sg_live g2)(3 := [2])" "sg_stored g3 = (sg_stored g2)(3 := [2])"
      "maximum_degree g3 = maximum_degree g2" "sg_valid g3 = sg_valid g2"
      "dom (neighbors g3) = insert 3 (dom (neighbors g2))" "is_support_delete g3 = is_support_delete g2"
      "is_support_delete g2 \<Longrightarrow> node_version g3 = versions2 g2 3 [2]"
      "reverse_edges g3 = None \<longleftrightarrow> reverse_edges g2 = None"
      "g_duplicate_tracker g3 = g_duplicate_tracker g2"
    by (rule sg_insert_ok [OF g2(2), of 3 "[2]"]) (auto intro!: v simp: g2 g1 g0)
  have "sg_reach g1" by (rule sg_reach.insert [OF r0 _ _ g1(1)]) (auto intro!: v)
  then have "sg_reach g2" by (rule sg_reach.insert [OF _ _ _ g2(1)]) (auto intro!: v simp: g1)
  then have r3: "sg_reach g3" by (rule sg_reach.insert [OF _ _ _ g3(1)]) (auto intro!: v simp: g2 g1)
  have "2 \<notin> dom (neighbors g1)" "3 \<notin> dom (neighbors g2)"
    by (simp_all add: g1(7) g2(7) g0(2))
  then have "neighbors g1 2 = None" "neighbors g2 3 = None" by (simp_all only: domIff not_not)
  then have nv: "node_version g3 = [1 \<mapsto> 0, 2 \<mapsto> 0, 3 \<mapsto> 0]"
    using g1(9) g2(9) g3(9) g0 g1(8) g2(8) by (auto simp: fun_eq_iff versions2_def versions1_def)
  have built: "sg_built = Inr g3" using g0(1) g1(1) g2(1) g3(1) by (simp add: sg_built_def)
  show thesis
  proof (rule that [OF built r3 g3(2)])
    show "sg_live g3 = built_edges" "sg_stored g3 = built_edges"
      by (simp_all add: g3 g2 g1 e0 built_edges_def)
    show "\<forall>i. take_bit 24 i = i \<longrightarrow> sg_valid g3 i" using v by (simp add: g3 g2 g1)
  qed (auto simp: g3(5,7,8,10,11) g2(5,7,8,10,11) g1(5,7,8,10,11) g0 nv)
qed

section \<open>Deletion, merging and serialization\<close>

definition sg_stamps :: "'d SparseGraphDataCell \<Rightarrow> InnerIdType \<Rightarrow> byte set" where
  "sg_stamps g i = {stamp_version (unat (id_bit g)) n | x ns n.
     neighbors g x = Some ns \<and> n \<in> set ns \<and> stamp_id (remove_flag_mask g) n = i}"

lemma sg_live_bump:
  assumes "is_support_delete g" and "node_version g i = Some v" and "v + 1 \<notin> sg_stamps g i"
  shows "sg_live (g\<lparr>node_version := (node_version g)(i \<mapsto> v + 1)\<rparr>) x = filter (\<lambda>y. y \<noteq> i) (sg_live g x)"
proof (cases "neighbors g x")
  case (Some ns)
  define g' where "g' = g\<lparr>node_version := (node_version g)(i \<mapsto> v + 1)\<rparr>"
  have same: "neighbors g' = neighbors g" "sg_ids g' = sg_ids g"
    by (simp_all add: g'_def fun_eq_iff sg_ids_def)
  have ver: "stamp_version (unat (id_bit g)) n \<noteq> v + 1"
    if "n \<in> set ns" "stamp_id (remove_flag_mask g) n = i" for n
    using assms(3) that Some unfolding sg_stamps_def by force
  have "sg_current g' n \<longleftrightarrow> stamp_id (remove_flag_mask g) n \<noteq> i \<and> sg_current g n" if "n \<in> set ns" for n
    using that assms(1,2) ver [of n] by (cases "stamp_id (remove_flag_mask g) n = i") (auto simp: sg_current_def g'_def)
  then have "filter (sg_current g') ns = filter (\<lambda>n. stamp_id (remove_flag_mask g) n \<noteq> i) (filter (sg_current g) ns)"
    unfolding filter_filter by (intro filter_cong [OF refl]) auto
  then have "sg_live g' x = filter (\<lambda>y. y \<noteq> i) (sg_live g x)"
    using assms(1) by (simp add: sg_live_def same Some sg_ids_def filter_map comp_def)
  then show ?thesis by (simp add: g'_def)
qed (simp add: sg_live_def)

lemma sg_delete_iterate:
  assumes "is_support_delete g" and "node_version g i = Some v"
  shows "((\<lambda>m. bind_r m (\<lambda>g. SparseGraph_DeleteNeighborsById g i)) ^^ n) (Inr g) =
    Inr (g\<lparr>node_version := (node_version g)(i \<mapsto> v + word_of_nat n)\<rparr>)"
proof (induction n)
  case 0
  have "(node_version g)(i \<mapsto> v) = node_version g" using assms(2) by (simp add: fun_upd_idem)
  then show ?case by simp
next
  case (Suc n)
  have step: "SparseGraph_DeleteNeighborsById (g\<lparr>node_version := (node_version g)(i \<mapsto> w)\<rparr>) i =
      Inr (g\<lparr>node_version := (node_version g)(i \<mapsto> w + 1)\<rparr>)" for w
    using assms(1) by (simp add: SparseGraph_DeleteNeighborsById_def)
  have "v + word_of_nat (Suc n) = v + word_of_nat n + 1" by simp
  then show ?case by (simp only: funpow.simps o_apply Suc.IH bind_r_simps step)
qed

definition assign_all :: "('k \<Rightarrow> 'v) \<Rightarrow> 'k list \<Rightarrow> ('k \<rightharpoonup> 'v) \<Rightarrow> ('k \<rightharpoonup> 'v)" where
  "assign_all f ks m = (\<lambda>k. if k \<in> set ks then Some (f k) else m k)"

lemma assign_all_Nil [simp]: "assign_all f [] m = m"
  by (simp add: assign_all_def)

lemma assign_all_Cons: "assign_all f (k # ks) m = assign_all f ks (m(k \<mapsto> f k))"
  by (auto simp: assign_all_def fun_eq_iff)

lemma assign_all_the: "set ks = dom m \<Longrightarrow> assign_all (\<lambda>k. the (m k)) ks Map.empty = m"
  by (auto simp: assign_all_def fun_eq_iff domIff)

context byte_source
begin

lemma sg_read_vertices_yields:
  "rest r = concat (sg_write_vertices nbs ks) @ s \<Longrightarrow> ok r \<Longrightarrow>
   yields rest ok (sg_read_vertices rd (length ks) m r) (assign_all (\<lambda>k. the (nbs k)) ks m) s"
proof (induction ks arbitrary: m r)
  case Nil
  then show ?case by (auto simp: sg_write_vertices_def)
next
  case (Cons k ks)
  have r: "rest r = enc_u32 k @ concat (WriteVector enc_u32 (the (nbs k))) @ concat (sg_write_vertices nbs ks) @ s"
    using Cons.prems(1) by (simp add: sg_write_vertices_def WriteObj_def)
  show ?case
    by (simp, rule yields_bind [OF ReadObj_u32 [OF r Cons.prems(2)]])
      (auto intro!: yields_bind [OF ReadVector_yields, where v = "the (nbs k)"] Cons.IH simp: assign_all_Cons)
qed

lemma sg_read_versions_yields:
  "rest r = concat (sg_write_versions vs ks) @ s \<Longrightarrow> ok r \<Longrightarrow>
   yields rest ok (sg_read_versions rd (length ks) m r) (assign_all (\<lambda>k. the (vs k)) ks m) s"
proof (induction ks arbitrary: m r)
  case Nil
  then show ?case by (auto simp: sg_write_versions_def)
next
  case (Cons k ks)
  have r: "rest r = enc_u32 k @ [the (vs k)] @ concat (sg_write_versions vs ks) @ s"
    using Cons.prems(1) by (simp add: sg_write_versions_def WriteObj_def)
  show ?case
    by (simp, rule yields_bind [OF ReadObj_u32 [OF r Cons.prems(2)]])
      (auto intro!: yields_bind [OF ReadObj_byte, where v = "the (vs k)"] Cons.IH simp: assign_all_Cons)
qed

lemma SparseGraph_Deserialize_yields:
  assumes r: "rest r = enc_u32 t @ enc_u32 c @ enc_u32 d @ enc_u32 l @ enc_u64 (word_of_nat (length ks)) @
      concat (sg_write_vertices nbs ks) @ (if is_support_delete h then concat (sg_write_versions vs ks') else []) @ s"
    and ok: "ok r" and h: "g_duplicate_tracker h = None"
    and ks: "length ks < 2 ^ 64" "is_support_delete h \<Longrightarrow> length ks' = length ks"
  shows "yields rest ok (SparseGraph_Deserialize dt rd h r)
    (h\<lparr>max_capacity := c, maximum_degree := d, g_duplicate_tracker := None, code_line_size := l,
       neighbors := assign_all (\<lambda>k. the (nbs k)) ks (neighbors h), g_total_count := word_of_nat (length ks),
       node_version := (if is_support_delete h then assign_all (\<lambda>k. the (vs k)) ks' (node_version h)
                        else node_version h)\<rparr>) s"
proof -
  have len: "unat (word_of_nat (length ks) :: u64) = length ks"
    using ks(1) by (simp add: unat_word_of_nat_u64)
  have cast: "ucast (word_of_nat (length ks) :: u64) = (word_of_nat (length ks) :: u32)"
    by transfer (simp add: take_bit_take_bit)
  have r1: "rest r = enc_u32 t @ enc_u32 c @ enc_u32 d @ (enc_u32 l @ enc_u64 (word_of_nat (length ks)) @
      concat (sg_write_vertices nbs ks) @ (if is_support_delete h then concat (sg_write_versions vs ks') else []) @ s)"
    using r by simp
  have vers: "yields rest ok (sg_read_versions rd (length ks) m r') (assign_all (\<lambda>k. the (vs k)) ks' m) s"
    if "is_support_delete h" "rest r' = concat (sg_write_versions vs ks') @ s" "ok r'" for r' m
    using sg_read_versions_yields [OF that(2,3), of m] ks(2) [OF that(1)] by simp
  show ?thesis
    unfolding SparseGraph_Deserialize_def
    apply (rule yields_bind [OF GraphInterface_Deserialize_yields [OF r1 ok h]])
    apply (simp only: prod.case)
    apply (rule yields_bind [OF ReadObj_u32, where v = l], assumption, assumption)
    apply (simp only: prod.case)
    apply (rule yields_bind [OF ReadObj_u64, where v = "word_of_nat (length ks)"], assumption, assumption)
    apply (simp only: prod.case len)
    apply (rule yields_bind [OF sg_read_vertices_yields], assumption, assumption)
    by (cases "is_support_delete h") (auto simp: cast intro!: yields_bind [OF vers])
qed

end

text \<open>
  Reading a graph replaces the edges and leaves the table of incoming edges as it was, whatever the
  bytes say: in a new graph it stays empty.
\<close>

lemma sparse_deserialize_keeps_incoming:
  assumes "SparseGraph_Deserialize dt_deser rd g r = Inr (g', r')"
  shows "reverse_edges g' = reverse_edges g"
  using assms
  by (auto simp: SparseGraph_Deserialize_def GraphInterface_Deserialize_def
      split: option.splits if_splits elim!: bind_rE)

section \<open>Properties\<close>

text \<open>C25: in every graph built by construction, insertion, deletion, recovery, \<open>Move\<close> and \<open>MergeOther\<close> under
  the conditions of \<open>sg_reach\<close> (with deletion enabled a \<open>remove_flag_bit\<close> of 8 to 32; not by \<open>Deserialize\<close>,
  which leaves the incoming edges alone), \<open>GetNeighbors\<close> never throws, every vertex keeps at most
  \<open>maximum_degree_\<close> edges, and with incoming edges enabled \<open>GetIncomingNeighbors y\<close> lists, each once,
  exactly the vertices that store an edge to \<open>y\<close>; in particular every vertex whose
  \<open>GetNeighbors\<close> delivers \<open>y\<close>.\<close>

theorem sparse_graph_edges_consistent:
  assumes "sg_reach g"
  shows "(\<exists>ns. SparseGraph_GetNeighbors g x [] = Inr ns \<and> set ns \<subseteq> set (sg_stored g x)) \<and>
    unat (SparseGraph_GetNeighborSize g x) \<le> unat (maximum_degree g) \<and>
    (reverse_edges g \<noteq> None \<longrightarrow>
      distinct (GetIncomingNeighbors g y) \<and>
      (x \<in> set (GetIncomingNeighbors g y) \<longleftrightarrow> y \<in> set (sg_stored g x)) \<and>
      (\<forall>ns. SparseGraph_GetNeighbors g x [] = Inr ns \<longrightarrow> y \<in> set ns \<longrightarrow> x \<in> set (GetIncomingNeighbors g y)))"
proof -
  have inv: "sg_inv g" by (rule sg_reach_inv [OF assms])
  have get: "SparseGraph_GetNeighbors g x [] = Inr (sg_live g x)"
    using sg_GetNeighbors [OF inv] by (cases "neighbors g x") (simp_all add: sg_live_def)
  have "unat (SparseGraph_GetNeighborSize g x) \<le> unat (maximum_degree g)"
  proof (cases "neighbors g x")
    case (Some l)
    have l: "length l \<le> unat (maximum_degree g)" by (rule sg_invD(3) [OF inv Some])
    then have "length l < 4294967296" using unat_u32_lt [of "maximum_degree g"] by simp
    then show ?thesis using l Some by (simp add: SparseGraph_GetNeighborSize_def unat_word_of_nat_u32)
  qed (simp add: SparseGraph_GetNeighborSize_def)
  moreover have "distinct (GetIncomingNeighbors g y) \<and>
      (x \<in> set (GetIncomingNeighbors g y) \<longleftrightarrow> y \<in> set (sg_stored g x))" if "reverse_edges g = Some re" for re
    using sg_invD(8) [OF inv that] by (simp add: that GetIncomingNeighbors_def re_exact_def re_distinct_def)
  ultimately show ?thesis
    using get set_live_stored [of g x] by auto
qed

theorem sparse_graph_edges_consistent_witness:
  "\<exists>g. sg_built = Inr g \<and> distinct (GetIncomingNeighbors g 2) \<and> 1 \<in> set (GetIncomingNeighbors g 2)"
proof -
  obtain g where "sg_built = Inr g" "sg_reach g" "sg_stored g = built_edges" "reverse_edges g \<noteq> None"
    by (rule sg_built_ok)
  then show ?thesis
    using sparse_graph_edges_consistent [of g 1 2] by (auto simp: built_edges_def)
qed

text \<open>\<open>InsertNeighborsById\<close> with at most \<open>maximum_degree_\<close> ids replaces the edges of one vertex: it
  reads back with exactly these ids in order, every other vertex reads back as before, the vertex
  exists afterwards and the count grows when it is new. A longer list is refused with
  \<open>INVALID_ARGUMENT\<close>.\<close>

lemma sparse_graph_insert_get:
  assumes "sg_inv g" and "sg_valid g i" and "\<forall>n \<in> set ns. sg_valid g n"
  shows "if length ns \<le> unat (maximum_degree g) then
      \<exists>g'. SparseGraph_InsertNeighborsById g i ns = Inr g' \<and> sg_inv g' \<and>
        SparseGraph_GetNeighbors g' i buf = Inr ns \<and>
        (\<forall>x. x \<noteq> i \<longrightarrow> SparseGraph_GetNeighbors g' x buf = SparseGraph_GetNeighbors g x buf) \<and>
        (\<forall>x. SparseGraph_CheckIdExists g' x \<longleftrightarrow> x = i \<or> SparseGraph_CheckIdExists g x) \<and>
        g_total_count g' = (if SparseGraph_CheckIdExists g i then g_total_count g else g_total_count g + 1)
    else SparseGraph_InsertNeighborsById g i ns = Inl (Vsag INVALID_ARGUMENT)"
proof (cases "length ns \<le> unat (maximum_degree g)")
  case True
  obtain g' where g': "SparseGraph_InsertNeighborsById g i ns = Inr g'" "sg_inv g'"
      "sg_live g' = (sg_live g)(i := ns)" "dom (neighbors g') = insert i (dom (neighbors g))"
    by (rule sg_insert_ok [OF assms(1,2) _ True]) (use assms(3) in auto)
  have d: "neighbors g' x = None \<longleftrightarrow> x \<noteq> i \<and> neighbors g x = None" for x
    using g'(4) by (metis domIff insert_iff)
  have t: "g_total_count g' = (if neighbors g i = None then g_total_count g + 1 else g_total_count g)"
    by (rule sg_insert_fields [OF True, of i]) (use g'(1) in simp)
  have e: "SparseGraph_CheckIdExists g' x \<longleftrightarrow> x = i \<or> SparseGraph_CheckIdExists g x" for x
    using d [of x] by (auto simp: SparseGraph_CheckIdExists_def)
  have t': "g_total_count g' = (if SparseGraph_CheckIdExists g i then g_total_count g else g_total_count g + 1)"
    using t by (simp add: SparseGraph_CheckIdExists_def)
  show ?thesis
    using True g'(1-3) d e t' by (simp add: sg_GetNeighbors [OF g'(2)] sg_GetNeighbors [OF assms(1)])
qed (simp add: SparseGraph_InsertNeighborsById_def)

lemma sparse_graph_insert_get_example:
  "\<exists>g g'. sg_built = Inr g \<and> SparseGraph_InsertNeighborsById g 3 [1, 7] = Inr g' \<and>
    SparseGraph_GetNeighbors g' 3 [] = Inr [1, 7] \<and>
    SparseGraph_InsertNeighborsById g 3 [1, 2, 4, 5, 6] = Inl (Vsag INVALID_ARGUMENT)"
proof -
  obtain g where g: "sg_built = Inr g" "sg_inv g" "unat (maximum_degree g) = 4"
      "\<forall>i. take_bit 24 i = i \<longrightarrow> sg_valid g i"
    by (rule sg_built_ok)
  show ?thesis
    using sparse_graph_insert_get [OF g(2), of 3 "[1, 7]" "[]"]
      sparse_graph_insert_get [OF g(2), of 3 "[1, 2, 4, 5, 6]" "[]"] g(1,3,4) by auto
qed

text \<open>C26: \<open>Move from to\<close> for an existing \<open>from\<close>, a valid \<open>to\<close> other than \<open>from\<close> and no stale edge to \<open>from\<close>
  returns normally and \<open>from\<close> is gone. With the table of incoming edges it renames \<open>from\<close> to \<open>to\<close> in the
  whole graph: \<open>to\<close> takes over the edges of \<open>from\<close>, every edge to \<open>from\<close> becomes an edge to \<open>to\<close> and all
  other edges stay. Without the table, which is the default, \<open>to\<close> takes over the list of \<open>from\<close> and every
  other vertex keeps its list, so edges to the erased \<open>from\<close> remain.\<close>

theorem sparse_graph_move_renames:
  assumes "sg_inv g" and "SparseGraph_CheckIdExists g from" and "sg_no_stale g from"
    and "sg_valid g to" and "from \<noteq> to"
  shows "\<exists>g'. SparseGraph_Move g from to = Inr g' \<and> \<not> SparseGraph_CheckIdExists g' from \<and>
    (reverse_edges g \<noteq> None \<longrightarrow> sg_inv g' \<and>
      (\<forall>x. x \<noteq> from \<longrightarrow>
        (\<exists>ns ns'. SparseGraph_GetNeighbors g (if x = to then from else x) [] = Inr ns \<and>
          SparseGraph_GetNeighbors g' x [] = Inr ns' \<and>
          set ns' = (\<lambda>y. if y = from then to else y) ` set ns))) \<and>
    (reverse_edges g = None \<longrightarrow>
      (\<forall>x. x \<noteq> from \<longrightarrow>
        SparseGraph_GetNeighbors g' x [] = SparseGraph_GetNeighbors g (if x = to then from else x) []))"
proof (cases "reverse_edges g = None")
  case True
  have "neighbors g from \<noteq> None" using assms(2) by (simp add: SparseGraph_CheckIdExists_def)
  then obtain g' where g': "SparseGraph_Move g from to = Inr g'" "neighbors g' from = None"
      "\<And>x. x \<noteq> from \<Longrightarrow> SparseGraph_GetNeighbors g' x [] =
        SparseGraph_GetNeighbors g (if x = to then from else x) []"
    by (rule sg_Move_plain [OF assms(1) _ assms(3-5) True]) blast
  then show ?thesis using True by (simp add: SparseGraph_CheckIdExists_def)
next
  case False
  obtain g' where g': "SparseGraph_Move g from to = Inr g'" "sg_inv g'" "neighbors g' from = None"
      "\<And>x. x \<noteq> from \<Longrightarrow> set (sg_live g' x) =
        (\<lambda>y. if y = from then to else y) ` set (sg_live g (if x = to then from else x))"
    by (rule sg_Move_ok [OF assms(1) _ assms(3-5) False]) (use assms(2) in \<open>auto simp: SparseGraph_CheckIdExists_def\<close>)
  have get: "SparseGraph_GetNeighbors h x [] = Inr (sg_live h x)" if "sg_inv h" for h :: "'a SparseGraphDataCell" and x
    using sg_GetNeighbors [OF that] by (cases "neighbors h x") (simp_all add: sg_live_def)
  show ?thesis
    using g' get [OF assms(1)] get [OF g'(2)] False by (auto simp: SparseGraph_CheckIdExists_def)
qed

theorem sparse_graph_move_renames_witness:
  "\<exists>g g' ns. sg_built = Inr g \<and> SparseGraph_Move g 3 9 = Inr g' \<and>
    SparseGraph_GetNeighbors g' 1 [] = Inr ns \<and> set ns = {2, 9}"
proof -
  obtain g where g: "sg_built = Inr g" "sg_inv g" "sg_live g = built_edges" "sg_stored g = built_edges"
      "\<forall>i. take_bit 24 i = i \<longrightarrow> sg_valid g i" "reverse_edges g \<noteq> None" "dom (neighbors g) = {1, 2, 3}"
    by (rule sg_built_ok)
  have ex: "SparseGraph_CheckIdExists g 3"
    unfolding SparseGraph_CheckIdExists_def using g(7) by (metis domIff insertCI)
  have "sg_no_stale g 3" by (simp add: sg_no_stale_def g)
  then obtain g' where g': "SparseGraph_Move g 3 9 = Inr g'"
      "\<forall>x. x \<noteq> 3 \<longrightarrow> (\<exists>ns ns'. SparseGraph_GetNeighbors g (if x = 9 then 3 else x) [] = Inr ns \<and>
        SparseGraph_GetNeighbors g' x [] = Inr ns' \<and> set ns' = (\<lambda>y. if y = 3 then 9 else y) ` set ns)"
    using sparse_graph_move_renames [OF g(2) ex, of 9] g(5,6) by (auto simp del: if_image_distrib)
  have "SparseGraph_GetNeighbors g 1 [] = Inr [2, 3]"
    using sg_GetNeighbors [OF g(2), of 1 "[]"] g(7) by (auto simp: g(3) built_edges_def domIff)
  then show ?thesis using g(1) g'(1) spec [OF g'(2), of 1] by auto
qed

text \<open>Deleting a vertex hides exactly the edges to it: every \<open>GetNeighbors\<close> delivers what it delivered
  before without the deleted id. Recovering it restores the graph as it was, unless the version has
  wrapped to 0. This needs that no edge carries the version the vertex gets.\<close>

lemma sparse_graph_delete_hides:
  assumes "sg_inv g" and "is_support_delete g" and "SparseGraph_CheckIdExists g i"
    and "node_version g i = Some v" and "v + 1 \<notin> sg_stamps g i"
  shows "\<exists>g'. SparseGraph_DeleteNeighborsById g i = Inr g' \<and> sg_inv g' \<and>
    (\<forall>x. \<exists>ns. SparseGraph_GetNeighbors g x [] = Inr ns \<and>
      SparseGraph_GetNeighbors g' x [] = Inr (filter (\<lambda>y. y \<noteq> i) ns)) \<and>
    SparseGraph_RecoverDeleteNeighborsById g' i = (if v = 255 then Inl (Vsag INTERNAL_ERROR) else Inr g)"
proof -
  define g' where "g' = g\<lparr>node_version := (node_version g)(i \<mapsto> v + 1)\<rparr>"
  have del: "SparseGraph_DeleteNeighborsById g i = Inr g'" "sg_inv g'"
    using sg_Delete_ok [OF assms(1,2), of i] assms(3,4) by (auto simp: SparseGraph_CheckIdExists_def g'_def)
  have get: "SparseGraph_GetNeighbors h x [] = Inr (sg_live h x)" if "sg_inv h" for h :: "'a SparseGraphDataCell" and x
    using sg_GetNeighbors [OF that] by (cases "neighbors h x") (simp_all add: sg_live_def)
  have live: "sg_live g' x = filter (\<lambda>y. y \<noteq> i) (sg_live g x)" for x
    unfolding g'_def by (rule sg_live_bump [OF assms(2,4,5)])
  have "(node_version g)(i \<mapsto> v) = node_version g" using assms(4) by (simp add: fun_upd_idem)
  then have "SparseGraph_RecoverDeleteNeighborsById g' i = (if v = 255 then Inl (Vsag INTERNAL_ERROR) else Inr g)"
    using assms(2) by (simp add: SparseGraph_RecoverDeleteNeighborsById_def g'_def byte_plus_1_eq_0)
  then show ?thesis
    using del get [OF assms(1)] get [OF del(2)] live by simp
qed

lemma sparse_graph_delete_hides_example:
  "\<exists>g g'. sg_built = Inr g \<and> SparseGraph_DeleteNeighborsById g 2 = Inr g' \<and>
    SparseGraph_GetNeighbors g' 1 [] = Inr [3] \<and> SparseGraph_RecoverDeleteNeighborsById g' 2 = Inr g"
proof -
  obtain g where g: "sg_built = Inr g" "sg_inv g" "sg_live g = built_edges" "sg_stored g = built_edges"
      "dom (neighbors g) = {1, 2, 3}" "is_support_delete g" "node_version g = [1 \<mapsto> 0, 2 \<mapsto> 0, 3 \<mapsto> 0]"
    by (rule sg_built_ok)
  have ex: "SparseGraph_CheckIdExists g 2"
    unfolding SparseGraph_CheckIdExists_def using g(5) by (metis domIff insertCI)
  have "0 + 1 \<notin> sg_stamps g 2"
  proof
    assume "0 + 1 \<in> sg_stamps g 2"
    then obtain x ns n where n: "neighbors g x = Some ns" "n \<in> set ns"
        "stamp_id (remove_flag_mask g) n = 2" "stamp_version (unat (id_bit g)) n = 1"
      unfolding sg_stamps_def by auto
    have "length (sg_live g x) = length (sg_stored g x)" by (simp add: g)
    then have "filter (sg_current g) ns = ns"
      using n(1) by (simp add: sg_live_def sg_stored_def sg_ids_def g(6) filter_id_conv) 
        (metis length_filter_less nat_neq_iff)
    then have "sg_current g n" using n(2) by (metis filter_id_conv)
    then show False using n(3,4) by (simp add: sg_current_def g)
  qed
  then obtain g' where g': "SparseGraph_DeleteNeighborsById g 2 = Inr g'"
      "\<forall>x. \<exists>ns. SparseGraph_GetNeighbors g x [] = Inr ns \<and>
        SparseGraph_GetNeighbors g' x [] = Inr (filter (\<lambda>y. y \<noteq> 2) ns)"
      "SparseGraph_RecoverDeleteNeighborsById g' 2 = Inr g"
    using sparse_graph_delete_hides [OF g(2,6) ex, of 0] by (auto simp: g(7))
  have "SparseGraph_GetNeighbors g 1 [] = Inr [2, 3]"
    using sg_GetNeighbors [OF g(2), of 1 "[]"] g(5) by (auto simp: g(3) built_edges_def domIff)
  then show ?thesis using g(1) g'(1,3) spec [OF g'(2), of 1] by auto
qed

text \<open>\<open>DeleteNeighborsById\<close> never reports that a vertex was removed too many times: its guard
  compares an \<open>int\<close> that is at least 1 with 0. Deleting one vertex 256 times succeeds each time and
  ends in the graph it started from, with all edges to the vertex visible again.\<close>

lemma sparse_graph_delete_wraps:
  assumes "is_support_delete g" and "node_version g i = Some v"
  shows "((\<lambda>m. bind_r m (\<lambda>g. SparseGraph_DeleteNeighborsById g i)) ^^ 256) (Inr g) = Inr g"
proof -
  have "(node_version g)(i \<mapsto> v) = node_version g" using assms(2) by (simp add: fun_upd_idem)
  moreover have "v + word_of_nat 256 = v" by simp
  ultimately show ?thesis
    by (simp only: sg_delete_iterate [OF assms]) simp
qed

lemma sparse_graph_delete_wraps_example:
  "\<exists>g. sg_built = Inr g \<and>
    ((\<lambda>m. bind_r m (\<lambda>g. SparseGraph_DeleteNeighborsById g 2)) ^^ 256) (Inr g) = Inr g"
proof -
  obtain g where g: "sg_built = Inr g" "is_support_delete g" "node_version g = [1 \<mapsto> 0, 2 \<mapsto> 0, 3 \<mapsto> 0]"
    by (rule sg_built_ok)
  have "node_version g 2 = Some 0" by (simp add: g(3))
  then show ?thesis using g(1) sparse_graph_delete_wraps [OF g(2)] by blast
qed

text \<open>Merging a graph with the same degree, all of whose shifted ids are unused and valid, appends it: the
  vertices are the old ones and the shifted ones, a shifted vertex delivers the shifted neighbours of
  its original, every other vertex delivers what it did. A graph of another kind or degree is refused.\<close>

lemma sparse_graph_merge_appends:
  assumes "sg_inv g" and "sg_inv other" and "distinct iter" and "set iter = dom (neighbors other)"
    and "\<forall>i \<in> set iter. sg_valid g (shift bias i) \<and> \<not> SparseGraph_CheckIdExists g (shift bias i)"
    and "\<forall>x. \<forall>y \<in> set (sg_live other x). sg_valid g (shift bias y)"
  shows "if maximum_degree g = maximum_degree other then
      \<exists>g'. SparseGraph_MergeOther g (Some other) iter bias = Inr g' \<and> sg_inv g' \<and>
        (\<forall>x. SparseGraph_CheckIdExists g' x \<longleftrightarrow>
          SparseGraph_CheckIdExists g x \<or> SparseGraph_CheckIdExists other (x - ucast bias)) \<and>
        (\<forall>x. if SparseGraph_CheckIdExists other (x - ucast bias)
          then \<exists>ns. SparseGraph_GetNeighbors other (x - ucast bias) [] = Inr ns \<and>
            SparseGraph_GetNeighbors g' x [] = Inr (map (shift bias) ns)
          else SparseGraph_GetNeighbors g' x [] = SparseGraph_GetNeighbors g x [])
    else SparseGraph_MergeOther g (Some other) iter bias = Inl (Vsag INTERNAL_ERROR)"
proof (cases "maximum_degree g = maximum_degree other")
  case True
  have get: "SparseGraph_GetNeighbors h x [] = Inr (sg_live h x)" if "sg_inv h" for h :: "'a SparseGraphDataCell" and x
    using sg_GetNeighbors [OF that] by (cases "neighbors h x") (simp_all add: sg_live_def)
  have ex: "SparseGraph_CheckIdExists h x \<longleftrightarrow> x \<in> dom (neighbors h)" for h :: "'a SparseGraphDataCell" and x
    by (simp add: SparseGraph_CheckIdExists_def domIff)
  have img: "x \<in> shift bias ` set iter \<longleftrightarrow> x - ucast bias \<in> dom (neighbors other)" for x
  proof
    assume "x \<in> shift bias ` set iter"
    then show "x - ucast bias \<in> dom (neighbors other)" unfolding assms(4) by auto
  next
    assume "x - ucast bias \<in> dom (neighbors other)"
    then show "x \<in> shift bias ` set iter"
      unfolding assms(4) by (rule rev_image_eqI) simp
  qed
  have deg: "unat (maximum_degree other) \<le> unat (maximum_degree g)" by (simp add: True)
  have val: "sg_valid g (shift bias y)" if "y \<in> set (sg_live other x)" for x y
    using assms(6) that by blast
  have pre: "neighbors other i \<noteq> None \<and> sg_valid g (shift bias i) \<and> neighbors g (shift bias i) = None"
    if "i \<in> set iter" for i
    using that assms(4,5) by (auto simp: SparseGraph_CheckIdExists_def)
  have "\<exists>g'. sg_merge_loop other bias iter [] g = Inr g' \<and> sg_inv g' \<and>
      dom (neighbors g') = dom (neighbors g) \<union> shift bias ` set iter \<and>
      sg_live g' = (\<lambda>x. if x \<in> shift bias ` set iter then map (shift bias) (sg_live other (x - ucast bias))
                        else sg_live g x)"
    by (rule sg_merge_loop_ok [OF assms(2) deg _ assms(1,3)]) (erule val, erule pre)
  then obtain g' where g': "sg_merge_loop other bias iter [] g = Inr g'" "sg_inv g'"
      "dom (neighbors g') = dom (neighbors g) \<union> shift bias ` set iter"
      "sg_live g' = (\<lambda>x. if x \<in> shift bias ` set iter then map (shift bias) (sg_live other (x - ucast bias))
                        else sg_live g x)"
    by blast
  have merge: "SparseGraph_MergeOther g (Some other) iter bias = Inr g'"
    using True g'(1) by (simp add: SparseGraph_MergeOther_def)
  have "SparseGraph_CheckIdExists g' x \<longleftrightarrow>
      SparseGraph_CheckIdExists g x \<or> SparseGraph_CheckIdExists other (x - ucast bias)" for x
    unfolding ex g'(3) Un_iff img ..
  moreover have "if SparseGraph_CheckIdExists other (x - ucast bias)
      then \<exists>ns. SparseGraph_GetNeighbors other (x - ucast bias) [] = Inr ns \<and>
        SparseGraph_GetNeighbors g' x [] = Inr (map (shift bias) ns)
      else SparseGraph_GetNeighbors g' x [] = SparseGraph_GetNeighbors g x []" for x
    unfolding ex get [OF assms(1)] get [OF assms(2)] get [OF g'(2)] g'(4) img by simp
  ultimately show ?thesis
    using True merge g'(2) by simp
qed (simp add: SparseGraph_MergeOther_def)

lemma sparse_graph_merge_appends_example:
  "\<exists>g g'. sg_built = Inr g \<and> SparseGraph_MergeOther g (Some g) [2, 1, 3] 10 = Inr g' \<and>
    SparseGraph_GetNeighbors g' 11 [] = Inr [12, 13] \<and> SparseGraph_GetNeighbors g' 3 [] = Inr [2]"
proof -
  obtain g where g: "sg_built = Inr g" "sg_inv g" "sg_live g = built_edges"
      "\<forall>i. take_bit 24 i = i \<longrightarrow> sg_valid g i" "dom (neighbors g) = {1, 2, 3}"
    by (rule sg_built_ok)
  have n: "neighbors g x = None \<longleftrightarrow> x \<notin> {1, 2, 3}" for x using g(5) by (metis domIff)
  have get: "SparseGraph_GetNeighbors g 1 [] = Inr [2, 3]" "SparseGraph_GetNeighbors g 3 [] = Inr [2]"
    using sg_GetNeighbors [OF g(2)] by (simp_all add: n g(3) built_edges_def)
  have live: "\<forall>x. \<forall>y \<in> set (sg_live g x). sg_valid g (shift 10 y)"
    using g(4) by (auto simp: g(3) built_edges_def)
  have dom: "set [2, 1, 3] = dom (neighbors g)" by (auto simp: g(5))
  have free: "\<forall>i \<in> set [2, 1, 3]. sg_valid g (shift 10 i) \<and> \<not> SparseGraph_CheckIdExists g (shift 10 i)"
    using g(4) by (simp add: SparseGraph_CheckIdExists_def n)
  obtain g' where g': "SparseGraph_MergeOther g (Some g) [2, 1, 3] 10 = Inr g'"
      "\<forall>x. if SparseGraph_CheckIdExists g (x - ucast (10 :: u64))
        then \<exists>ns. SparseGraph_GetNeighbors g (x - ucast (10 :: u64)) [] = Inr ns \<and>
          SparseGraph_GetNeighbors g' x [] = Inr (map (shift 10) ns)
        else SparseGraph_GetNeighbors g' x [] = SparseGraph_GetNeighbors g x []"
    using sparse_graph_merge_appends [OF g(2,2) _ dom free live] by auto
  show ?thesis
    using g(1) g'(1) spec [OF g'(2), of 11] spec [OF g'(2), of 3] get
    by (auto simp: SparseGraph_CheckIdExists_def n)
qed

lemma sparse_serialize_bytes:
  assumes "SparseGraph_Serialize dt_ser g iter_n iter_v = Some (Inr out)" and "g_duplicate_tracker g = None"
  shows "concat out = enc_u32 (g_total_count g) @ enc_u32 (max_capacity g) @ enc_u32 (maximum_degree g) @
    enc_u32 (code_line_size g) @ enc_u64 (word_of_nat (length iter_n)) @
    concat (sg_write_vertices (neighbors g) iter_n) @
    (if is_support_delete g then concat (sg_write_versions (node_version g) iter_v) else [])"
  using assms by (auto simp: SparseGraph_Serialize_def GraphInterface_Serialize_def WriteObj_def)

lemma length_sg_write_versions: "length (concat (sg_write_versions vs ks)) = 5 * length ks"
  by (induction ks) (simp_all add: sg_write_versions_def WriteObj_def)

lemma sg_write_versions_append:
  "sg_write_versions vs (ks @ ls) = sg_write_versions vs ks @ sg_write_versions vs ls"
  by (simp add: sg_write_versions_def)

text \<open>What the reader of a sparse graph returns on the bytes of its writer, and the bytes it leaves: with deletion
  enabled the versions after the first \<open>length iter_n\<close>, and what follows the graph.\<close>

lemma sparse_graph_reads:
  assumes "distinct iter_n" and "is_support_delete g \<Longrightarrow> length iter_n \<le> length iter_v"
    and "g_duplicate_tracker g = None" "g_duplicate_tracker h = None" "is_support_delete h = is_support_delete g"
    and "SparseGraph_Serialize dt_ser g iter_n iter_v = Some (Inr out)" and "length (concat out @ s) < 2 ^ 63"
  obtains r where "SparseGraph_Deserialize dt_deser ForwardStreamReader_Read h (open_forward (concat out @ s)) =
      Inr (h\<lparr>max_capacity := max_capacity g, maximum_degree := maximum_degree g, g_duplicate_tracker := None,
        code_line_size := code_line_size g, neighbors := assign_all (\<lambda>k. the (neighbors g k)) iter_n (neighbors h),
        g_total_count := word_of_nat (length iter_n),
        node_version := (if is_support_delete h
          then assign_all (\<lambda>k. the (node_version g k)) (take (length iter_n) iter_v) (node_version h) else node_version h)\<rparr>, r)"
    and "fr_istream r = (if is_support_delete g
      then concat (sg_write_versions (node_version g) (drop (length iter_n) iter_v)) @ s else s)"
proof -
  let ?n = "length iter_n"
  define s' where "s' = (if is_support_delete g then
      concat (sg_write_versions (node_version g) (drop ?n iter_v)) @ s else s)"
  have split_v: "sg_write_versions (node_version g) iter_v =
      sg_write_versions (node_version g) (take ?n iter_v) @ sg_write_versions (node_version g) (drop ?n iter_v)"
    by (simp flip: sg_write_versions_append)
  have bytes: "concat out @ s = enc_u32 (g_total_count g) @ enc_u32 (max_capacity g) @ enc_u32 (maximum_degree g) @
      enc_u32 (code_line_size g) @ enc_u64 (word_of_nat ?n) @ concat (sg_write_vertices (neighbors g) iter_n) @
      (if is_support_delete h then concat (sg_write_versions (node_version g) (take ?n iter_v)) else []) @ s'"
    using split_v by (simp add: sparse_serialize_bytes [OF assms(6,3)] assms(5) s'_def)
  have "card (set iter_n) \<le> card (UNIV :: InnerIdType set)" by (rule card_mono) simp_all
  then have n64: "?n < 2 ^ 64" using distinct_card [OF assms(1)] by (simp add: card_word)
  have len: "is_support_delete h \<Longrightarrow> length (take ?n iter_v) = ?n" using assms(2) assms(5) by simp
  have rest: "fr_istream (open_forward (concat out @ s)) =
      enc_u32 (g_total_count g) @ enc_u32 (max_capacity g) @ enc_u32 (maximum_degree g) @
      enc_u32 (code_line_size g) @ enc_u64 (word_of_nat ?n) @ concat (sg_write_vertices (neighbors g) iter_n) @
      (if is_support_delete h then concat (sg_write_versions (node_version g) (take ?n iter_v)) else []) @ s'"
    unfolding fr_istream_open by (rule bytes)
  have ok: "fr_ok (open_forward (concat out @ s))" unfolding fr_ok_open by (rule assms(7))
  from fwd.SparseGraph_Deserialize_yields [OF rest ok assms(4) n64 len, of dt_deser]
  show thesis using that unfolding yields_def s'_def by blast
qed

text \<open>C27: a graph without duplicate tracker reads back from its own bytes with the same edges, capacity and
  degree. With deletion enabled the versions come back and the reader stops at the end of the graph
  when every id with a version is a vertex. Otherwise, five bytes remain unread for every id that has
  a version and is no vertex, and the next object is read from the wrong place.\<close>

theorem sparse_graph_roundtrip:
  assumes "sg_inv g"
    and "distinct iter_n" "set iter_n = dom (neighbors g)"
    and "distinct iter_v" "set iter_v = dom (node_version g)"
    and "g_duplicate_tracker g = None" "g_duplicate_tracker h = None"
    and "neighbors h = Map.empty" "node_version h = Map.empty" "is_support_delete h = is_support_delete g"
    and "SparseGraph_Serialize dt_ser g iter_n iter_v = Some (Inr out)" and "length (concat out @ s) < 2 ^ 63"
  shows "\<exists>h' r. SparseGraph_Deserialize dt_deser ForwardStreamReader_Read h (open_forward (concat out @ s)) = Inr (h', r) \<and>
    neighbors h' = neighbors g \<and> max_capacity h' = max_capacity g \<and> maximum_degree h' = maximum_degree g \<and>
    g_total_count h' = word_of_nat (card (dom (neighbors g))) \<and>
    (if is_support_delete g then
       length (fr_istream r) = length s + 5 * (card (dom (node_version g)) - card (dom (neighbors g))) \<and>
       (dom (node_version g) = dom (neighbors g) \<longrightarrow> fr_istream r = s \<and> node_version h' = node_version g)
     else fr_istream r = s)"
proof -
  let ?n = "length iter_n"
  have n: "card (dom (neighbors g)) = ?n" using distinct_card [OF assms(2)] assms(3) by simp
  have m: "card (dom (node_version g)) = length iter_v" using distinct_card [OF assms(4)] assms(5) by simp
  have sub: "?n \<le> length iter_v" if "is_support_delete g"
  proof -
    have "dom (neighbors g) \<subseteq> dom (node_version g)"
      using sg_invD(5) [OF assms(1) that] by blast
    then have "card (dom (neighbors g)) \<le> card (dom (node_version g))"
      by (rule card_mono [rotated]) (simp flip: assms(5))
    then show ?thesis by (simp add: n m)
  qed
  obtain r where r: "SparseGraph_Deserialize dt_deser ForwardStreamReader_Read h (open_forward (concat out @ s)) =
      Inr (h\<lparr>max_capacity := max_capacity g, maximum_degree := maximum_degree g, g_duplicate_tracker := None,
        code_line_size := code_line_size g, neighbors := assign_all (\<lambda>k. the (neighbors g k)) iter_n (neighbors h),
        g_total_count := word_of_nat ?n,
        node_version := (if is_support_delete h
          then assign_all (\<lambda>k. the (node_version g k)) (take ?n iter_v) (node_version h) else node_version h)\<rparr>, r)"
      "fr_istream r = (if is_support_delete g
        then concat (sg_write_versions (node_version g) (drop ?n iter_v)) @ s else s)"
    by (rule sparse_graph_reads [OF assms(2) sub assms(6,7,10,11,12)]) blast
  have nbs: "assign_all (\<lambda>k. the (neighbors g k)) iter_n (neighbors h) = neighbors g"
    unfolding assms(8) by (rule assign_all_the [OF assms(3)])
  have vs: "assign_all (\<lambda>k. the (node_version g k)) (take ?n iter_v) (node_version h) = node_version g"
    if "dom (node_version g) = dom (neighbors g)"
  proof -
    have "length iter_v = ?n" using n m that by simp
    then show ?thesis unfolding assms(9) using assign_all_the [OF assms(5)] by simp
  qed
  have "fr_istream r = s" if "dom (node_version g) = dom (neighbors g)"
    using that n m by (simp add: r(2) sg_write_versions_def)
  moreover have "length (fr_istream r) = length s + 5 * (length iter_v - ?n)" if "is_support_delete g"
    using that by (simp add: r(2) length_sg_write_versions)
  ultimately show ?thesis
    using r(1) vs by (auto simp: nbs n m assms(10) r(2))
qed

theorem sparse_graph_roundtrip_witness:
  "\<exists>g out h' r. sg_built = Inr g \<and>
    SparseGraph_Serialize (\<lambda>d. None) g [2, 3, 1] [1, 2, 3] = Some (Inr out) \<and>
    SparseGraph_Deserialize (\<lambda>d r. Inl UndefinedBehaviour) ForwardStreamReader_Read
      (g\<lparr>neighbors := Map.empty, node_version := Map.empty\<rparr>) (open_forward (concat out @ [7])) = Inr (h', r) \<and>
    fr_istream r = [7] \<and> neighbors h' = neighbors g \<and> node_version h' = node_version g"
proof -
  obtain g where g: "sg_built = Inr g" "sg_inv g" "sg_stored g = built_edges" "dom (neighbors g) = {1, 2, 3}"
      "is_support_delete g" "node_version g = [1 \<mapsto> 0, 2 \<mapsto> 0, 3 \<mapsto> 0]" "g_duplicate_tracker g = None"
    by (rule sg_built_ok)
  obtain out where out: "SparseGraph_Serialize (\<lambda>d. None) g [2, 3, 1] [1, 2, 3] = Some (Inr out)"
    using g(7) by (simp add: SparseGraph_Serialize_def GraphInterface_Serialize_def)
  have len: "length (the (neighbors g x)) = length (built_edges x)" if "x \<in> {1, 2, 3}" for x
  proof -
    have "x \<in> dom (neighbors g)" using that g(4) by simp
    then obtain l where l: "neighbors g x = Some l" by blast
    then have "built_edges x = map (stamp_id (remove_flag_mask g)) l"
      using g(5) by (simp add: sg_stored_def sg_ids_def flip: g(3))
    then show ?thesis by (simp add: l)
  qed
  have "length (concat out @ [7]) < 2 ^ 63"
    using len [of 1] len [of 2] len [of 3]
    by (simp add: sparse_serialize_bytes [OF out g(7)] g(5) length_sg_write_versions sg_write_vertices_def
        WriteObj_def built_edges_def length_WriteVector [where sz = 4] del: length_concat)
  moreover have "set [2, 3, 1] = dom (neighbors g)" "set [1, 2, 3] = dom (node_version g)"
    by (auto simp: g(4,6))
  ultimately show ?thesis
    using sparse_graph_roundtrip [OF g(2) _ _ _ _ g(7) _ _ _ _ out,
        of "g\<lparr>neighbors := Map.empty, node_version := Map.empty\<rparr>" "[7]" "\<lambda>d r. Inl UndefinedBehaviour"]
      g(1) out g(4-7) by auto
qed

end
