(* ===== verification/BasicIO.thy ===== *)
theory BasicIO
  imports Streams
begin

text \<open>
  Random-access byte storage: the base class of \<^verbatim>\<open>src/src/io/common/basic_io.h\<close> with its
  chunked \<open>Serialize\<close>, \<open>Deserialize\<close>, \<open>Resize\<close> and \<open>Shrink\<close> loops, the contiguous buffer of
  \<^verbatim>\<open>src/src/io/memory_io/\<close> and the block list of \<^verbatim>\<open>src/src/io/memory_block_io/\<close>.

  Offsets and sizes are \<open>uint64_t\<close>; they are natural numbers below \<open>2 ^ 64\<close> here, and every sum the
  code forms is taken through \<open>wrap64\<close>. A read delivers \<open>Inr None\<close> for a \<open>false\<close> result and
  \<open>Inr (Some bytes)\<close> for \<open>true\<close>; touching memory outside a buffer is \<open>Inl UndefinedBehaviour\<close>.
  The virtual class \<open>Allocator\<close> (\<^verbatim>\<open>src/include/vsag/allocator.h\<close>) is a record of functions, since
  a user may supply it.

  The locale \<open>random_io\<close> is the contract of such a storage: a growing byte string with positioned
  writes and reads. Both memory storages satisfy it for every allocator that serves all requests
  (locale \<open>heap_allocator\<close>), and the serialization round trip is proved in it once.
\<close>

definition wrap64 :: "nat \<Rightarrow> nat" where
  "wrap64 n = n mod 2 ^ 64"

lemma wrap64_less [simp]: "n < 2 ^ 64 \<Longrightarrow> wrap64 n = n"
  by (simp add: wrap64_def)

section \<open>Allocators\<close>

record Allocator =
  Allocate :: "nat \<Rightarrow> byte list option"
  Reallocate :: "byte list \<Rightarrow> nat \<Rightarrow> byte list option"

section \<open>One contiguous buffer\<close>

record MemoryIO =
  mio_buffer :: "byte list"
  mio_size :: nat

definition MemoryIO_check_and_realloc :: "Allocator \<Rightarrow> MemoryIO \<Rightarrow> nat \<Rightarrow> MemoryIO result" where
  "MemoryIO_check_and_realloc A io sz =
     (if sz \<le> mio_size io then Inr io
      else case Reallocate A (mio_buffer io) sz of
             None \<Rightarrow> Inl (Vsag NO_ENOUGH_MEMORY)
           | Some new_buffer \<Rightarrow> Inr (io\<lparr>mio_buffer := new_buffer, mio_size := sz\<rparr>))"

definition MemoryIO_WriteImpl :: "Allocator \<Rightarrow> MemoryIO \<Rightarrow> byte list \<Rightarrow> nat \<Rightarrow> MemoryIO result" where
  "MemoryIO_WriteImpl A io data offset =
     bind_r (MemoryIO_check_and_realloc A io (wrap64 (length data + offset))) (\<lambda>io.
       if offset + length data \<le> length (mio_buffer io) then
         Inr (io\<lparr>mio_buffer := take offset (mio_buffer io) @ data @
                                drop (offset + length data) (mio_buffer io)\<rparr>)
       else Inl UndefinedBehaviour)"

definition MemoryIO_ResizeImpl :: "Allocator \<Rightarrow> MemoryIO \<Rightarrow> nat \<Rightarrow> MemoryIO result" where
  "MemoryIO_ResizeImpl A io sz =
     (if sz \<le> mio_size io then Inr (io\<lparr>mio_size := sz\<rparr>)
      else bind_r (MemoryIO_check_and_realloc A io sz) (\<lambda>io. Inr (io\<lparr>mio_size := sz\<rparr>)))"

definition MemoryIO_ReadImpl :: "MemoryIO \<Rightarrow> nat \<Rightarrow> nat \<Rightarrow> byte list option result" where
  "MemoryIO_ReadImpl io sz offset =
     (if wrap64 (sz + offset) \<le> mio_size io then
        (if offset + sz \<le> length (mio_buffer io)
         then Inr (Some (take sz (drop offset (mio_buffer io)))) else Inl UndefinedBehaviour)
      else Inr None)"

text \<open>
  \<open>MultiReadImpl\<close> reads several pieces one after the other into \<open>datas\<close>; a piece that cannot be
  read keeps what the buffer held. The loop is the same in all storages.
\<close>

fun multi_read ::
    "('io \<Rightarrow> nat \<Rightarrow> nat \<Rightarrow> byte list option result) \<Rightarrow> 'io \<Rightarrow> byte list \<Rightarrow> (nat \<times> nat) list \<Rightarrow>
     (bool \<times> byte list) result" where
  "multi_read rd io datas [] = Inr (True, [])"
| "multi_read rd io datas ((sz, offset) # reqs) =
     bind_r (rd io sz offset) (\<lambda>d.
     bind_r (multi_read rd io (drop sz datas) reqs) (\<lambda>(ret, out).
       Inr (d \<noteq> None \<and> ret, (case d of None \<Rightarrow> take sz datas | Some bs \<Rightarrow> bs) @ out)))"

section \<open>A list of blocks\<close>

text \<open>The loops that size the blocks.\<close>

fun shift_count :: "nat \<Rightarrow> nat \<Rightarrow> nat" where
  "shift_count value k = (if value > 0 then shift_count (value div 2) (k + 1) else k)"

declare shift_count.simps [simp del]

definition NearestPowerOfTwo :: "nat \<Rightarrow> nat" where
  "NearestPowerOfTwo value =
     (if value = 0 then 0
      else if value AND (value - 1) = 0 then value
      else push_bit (shift_count value 0 - 1) 1)"

fun countr_zero_loop :: "nat \<Rightarrow> nat \<Rightarrow> nat" where
  "countr_zero_loop x count =
     (if x = 0 then count else if x AND 1 = 0 then countr_zero_loop (x div 2) (count + 1) else count)"

declare countr_zero_loop.simps [simp del]

definition countr_zero :: "nat \<Rightarrow> nat" where
  "countr_zero x = (if x = 0 then 64 else countr_zero_loop x 0)"

record MemoryBlockIO =
  mb_block_size :: nat
  mb_blocks :: "byte list list"
  mb_block_bit :: nat
  mb_in_block_mask :: nat
  mb_size :: nat

definition update_by_block_size :: "MemoryBlockIO \<Rightarrow> MemoryBlockIO" where
  "update_by_block_size io =
     io\<lparr>mb_block_bit := countr_zero (mb_block_size io),
        mb_in_block_mask := wrap64 (mb_block_size io + (2 ^ 64 - 1))\<rparr>"

definition MemoryBlockIO_new :: "nat \<Rightarrow> MemoryBlockIO" where
  "MemoryBlockIO_new block_size =
     update_by_block_size
       \<lparr>mb_block_size = NearestPowerOfTwo block_size, mb_blocks = [], mb_block_bit = 27,
        mb_in_block_mask = 2 ^ 27 - 1, mb_size = 0\<rparr>"

fun mb_add_blocks :: "Allocator \<Rightarrow> nat \<Rightarrow> nat \<Rightarrow> byte list list \<Rightarrow> byte list list result" where
  "mb_add_blocks A block_size 0 blocks = Inr blocks"
| "mb_add_blocks A block_size (Suc n) blocks =
     (case Allocate A block_size of
        None \<Rightarrow> Inl (Vsag NO_ENOUGH_MEMORY)
      | Some ptr \<Rightarrow> mb_add_blocks A block_size n (blocks @ [replicate block_size 0 @ drop block_size ptr]))"

definition MemoryBlockIO_check_and_realloc :: "Allocator \<Rightarrow> MemoryBlockIO \<Rightarrow> nat \<Rightarrow> MemoryBlockIO result" where
  "MemoryBlockIO_check_and_realloc A io sz =
     (if sz \<le> wrap64 (push_bit (mb_block_bit io) (length (mb_blocks io))) then Inr io
      else
        (let new_block_count = drop_bit (mb_block_bit io) (wrap64 (sz + mb_block_size io - 1)) in
         bind_r (mb_add_blocks A (mb_block_size io) (new_block_count - length (mb_blocks io)) (mb_blocks io))
           (\<lambda>blocks. Inr (io\<lparr>mb_blocks := blocks\<rparr>))))"

text \<open>
  The copy loops. A round that copies nothing would repeat for ever; it cannot occur with a block
  size above 0 and is \<open>UndefinedBehaviour\<close> here.
\<close>

function mb_write_loop ::
    "nat \<Rightarrow> nat \<Rightarrow> nat \<Rightarrow> nat \<Rightarrow> byte list \<Rightarrow> byte list list \<Rightarrow> byte list list result" where
  "mb_write_loop block_size start_no start_off max_size data blocks =
     (if data = [] then Inr blocks
      else
        (let cur_length = min (length data) max_size in
         if cur_length = 0 \<or> \<not> start_no < length blocks \<or> \<not> start_off + cur_length \<le> length (blocks ! start_no)
         then Inl UndefinedBehaviour
         else
           mb_write_loop block_size (start_no + 1) 0 block_size (drop cur_length data)
             (blocks[start_no := take start_off (blocks ! start_no) @ take cur_length data @
                                 drop (start_off + cur_length) (blocks ! start_no)])))"
  by pat_completeness auto

termination
  by (relation "measure (\<lambda>(bs, no, off, m, data, blocks). length data)") auto

declare mb_write_loop.simps [simp del]

function mb_read_loop ::
    "nat \<Rightarrow> nat \<Rightarrow> nat \<Rightarrow> nat \<Rightarrow> nat \<Rightarrow> byte list list \<Rightarrow> byte list result" where
  "mb_read_loop block_size start_no start_off max_size remaining blocks =
     (if remaining = 0 then Inr []
      else
        (let cur_length = min remaining max_size in
         if cur_length = 0 \<or> \<not> start_no < length blocks \<or> \<not> start_off + cur_length \<le> length (blocks ! start_no)
         then Inl UndefinedBehaviour
         else
           bind_r (mb_read_loop block_size (start_no + 1) 0 block_size (remaining - cur_length) blocks)
             (\<lambda>rest. Inr (take cur_length (drop start_off (blocks ! start_no)) @ rest))))"
  by pat_completeness auto

termination
  by (relation "measure (\<lambda>(bs, no, off, m, remaining, blocks). remaining)") auto

declare mb_read_loop.simps [simp del]

definition MemoryBlockIO_WriteImpl ::
    "Allocator \<Rightarrow> MemoryBlockIO \<Rightarrow> byte list \<Rightarrow> nat \<Rightarrow> MemoryBlockIO result" where
  "MemoryBlockIO_WriteImpl A io data offset =
     bind_r (MemoryBlockIO_check_and_realloc A io (wrap64 (length data + offset))) (\<lambda>io.
     let start_no = drop_bit (mb_block_bit io) offset;
         start_off = offset AND mb_in_block_mask io;
         max_size = mb_block_size io - start_off in
     bind_r (mb_write_loop (mb_block_size io) start_no start_off max_size data (mb_blocks io)) (\<lambda>blocks.
       Inr (io\<lparr>mb_blocks := blocks,
               mb_size := (if wrap64 (length data + offset) > mb_size io
                           then wrap64 (length data + offset) else mb_size io)\<rparr>)))"

definition MemoryBlockIO_ReadImpl :: "MemoryBlockIO \<Rightarrow> nat \<Rightarrow> nat \<Rightarrow> byte list option result" where
  "MemoryBlockIO_ReadImpl io sz offset =
     (if wrap64 (sz + offset) \<le> mb_size io then
        (let start_no = drop_bit (mb_block_bit io) offset;
             start_off = offset AND mb_in_block_mask io;
             max_size = mb_block_size io - start_off in
         bind_r (mb_read_loop (mb_block_size io) start_no start_off max_size sz (mb_blocks io))
           (\<lambda>data. Inr (Some data)))
      else Inr None)"

definition check_in_one_block :: "MemoryBlockIO \<Rightarrow> nat \<Rightarrow> nat \<Rightarrow> bool" where
  "check_in_one_block io off1 off2 \<longleftrightarrow> off1 XOR off2 < mb_block_size io"

text \<open>
  \<open>DirectReadImpl\<close> delivers the bytes its pointer shows and \<open>need_release\<close>.
\<close>

definition MemoryBlockIO_DirectReadImpl ::
    "MemoryBlockIO \<Rightarrow> nat \<Rightarrow> nat \<Rightarrow> (byte list \<times> bool) option result" where
  "MemoryBlockIO_DirectReadImpl io sz offset =
     (if wrap64 (sz + offset) \<le> mb_size io then
        (if check_in_one_block io offset (wrap64 (sz + offset)) then
           (let block_no = drop_bit (mb_block_bit io) offset;
                block_off = offset AND mb_in_block_mask io in
            if block_no < length (mb_blocks io) \<and> block_off + sz \<le> length (mb_blocks io ! block_no)
            then Inr (Some (take sz (drop block_off (mb_blocks io ! block_no)), False))
            else Inl UndefinedBehaviour)
         else bind_r (MemoryBlockIO_ReadImpl io sz offset) (\<lambda>d.
                case d of None \<Rightarrow> Inl UndefinedBehaviour | Some bs \<Rightarrow> Inr (Some (bs, True))))
      else Inr None)"

definition MemoryBlockIO_ResizeImpl :: "Allocator \<Rightarrow> MemoryBlockIO \<Rightarrow> nat \<Rightarrow> MemoryBlockIO result" where
  "MemoryBlockIO_ResizeImpl A io sz =
     (if sz \<le> mb_size io then Inr (io\<lparr>mb_size := sz\<rparr>)
      else bind_r (MemoryBlockIO_check_and_realloc A io sz) (\<lambda>io. Inr (io\<lparr>mb_size := sz\<rparr>)))"

definition MemoryBlockIO_ShrinkImpl :: "MemoryBlockIO \<Rightarrow> nat \<Rightarrow> MemoryBlockIO" where
  "MemoryBlockIO_ShrinkImpl io sz =
     (if sz \<ge> mb_size io then io
      else
        (let new_block_count = drop_bit (mb_block_bit io) (wrap64 (sz + mb_block_size io + (2 ^ 64 - 1))) in
         io\<lparr>mb_blocks := take new_block_count (mb_blocks io), mb_size := sz\<rparr>))"

section \<open>The loops of the base class\<close>

text \<open>
  Storage contents travel through one buffer of 2 MiB. \<open>Serialize\<close> ignores the result of
  \<open>Read\<close>: after a failed read it writes what the buffer held.
\<close>

definition SERIALIZE_BUFFER_SIZE :: nat where
  "SERIALIZE_BUFFER_SIZE = 1024 * 1024 * 2"

lemma SERIALIZE_BUFFER_SIZE_pos [simp]: "0 < SERIALIZE_BUFFER_SIZE"
  by (simp add: SERIALIZE_BUFFER_SIZE_def)

lemma chunk_progress:
  "offset < n \<Longrightarrow> n - (offset + min SERIALIZE_BUFFER_SIZE (n - offset)) < n - offset"
  by (auto simp: SERIALIZE_BUFFER_SIZE_def min_def)

lemma drop_split: "drop k xs = take c (drop k xs) @ drop (k + c) xs"
  by (metis append_take_drop_id drop_drop add.commute)

function io_serialize_loop ::
    "('io \<Rightarrow> nat \<Rightarrow> nat \<Rightarrow> byte list option result) \<Rightarrow> 'io \<Rightarrow> nat \<Rightarrow> byte list \<Rightarrow> nat \<Rightarrow> byte list list result" where
  "io_serialize_loop rd io tot buffer offset =
     (if offset < tot then
        (let cur_size = min SERIALIZE_BUFFER_SIZE (tot - offset) in
         bind_r (rd io cur_size offset) (\<lambda>d.
         let buffer = (case d of None \<Rightarrow> buffer | Some bs \<Rightarrow> bs @ drop cur_size buffer) in
         bind_r (io_serialize_loop rd io tot buffer (offset + cur_size)) (\<lambda>out.
           Inr (take cur_size buffer # out))))
      else Inr [])"
  by pat_completeness auto

termination
  by (relation "measure (\<lambda>(rd, io, tot, buffer, offset). tot - offset)") (auto intro: chunk_progress)

declare io_serialize_loop.simps [simp del]

definition BasicIO_Serialize ::
    "('io \<Rightarrow> nat \<Rightarrow> nat \<Rightarrow> byte list option result) \<Rightarrow> 'io \<Rightarrow> nat \<Rightarrow> byte list \<Rightarrow> byte list list result" where
  "BasicIO_Serialize rd io tot buffer =
     bind_r (io_serialize_loop rd io tot buffer 0) (\<lambda>out.
       Inr (WriteObj (enc_u64 (word_of_nat tot)) @ out))"

function io_deserialize_loop ::
    "'r read_op \<Rightarrow> ('io \<Rightarrow> byte list \<Rightarrow> nat \<Rightarrow> 'io result) \<Rightarrow> nat \<Rightarrow> nat \<Rightarrow> 'io \<Rightarrow> 'r \<Rightarrow> ('io \<times> 'r) result" where
  "io_deserialize_loop rdr wr tot offset io r =
     (if offset < tot then
        (let cur_size = min SERIALIZE_BUFFER_SIZE (tot - offset) in
         bind_r (rdr r (word_of_nat cur_size)) (\<lambda>(buffer, r).
         bind_r (wr io buffer offset) (\<lambda>io.
           io_deserialize_loop rdr wr tot (offset + cur_size) io r)))
      else Inr (io, r))"
  by pat_completeness auto

termination
  by (relation "measure (\<lambda>(rdr, wr, tot, offset, io, r). tot - offset)") (auto intro: chunk_progress)

declare io_deserialize_loop.simps [simp del]

definition BasicIO_Deserialize ::
    "'r read_op \<Rightarrow> ('io \<Rightarrow> byte list \<Rightarrow> nat \<Rightarrow> 'io result) \<Rightarrow> 'io \<Rightarrow> 'r \<Rightarrow> ('io \<times> 'r) result" where
  "BasicIO_Deserialize rdr wr io r =
     bind_r (ReadObj rdr 8 dec_u64 r) (\<lambda>(tot, r). io_deserialize_loop rdr wr (unat tot) 0 io r)"

text \<open>
  \<open>Resize\<close> of a storage without \<open>ResizeImpl\<close> appends zeros and never shrinks; \<open>Shrink\<close> without
  \<open>ShrinkImpl\<close> only lowers the size field.
\<close>

function io_zero_loop ::
    "('io \<Rightarrow> byte list \<Rightarrow> nat \<Rightarrow> 'io result) \<Rightarrow> nat \<Rightarrow> nat \<Rightarrow> 'io \<Rightarrow> 'io result" where
  "io_zero_loop wr tot offset io =
     (if offset < tot then
        (let cur_size = min SERIALIZE_BUFFER_SIZE (tot - offset) in
         bind_r (wr io (replicate cur_size 0) offset) (\<lambda>io. io_zero_loop wr tot (offset + cur_size) io))
      else Inr io)"
  by pat_completeness auto

termination
  by (relation "measure (\<lambda>(wr, tot, offset, io). tot - offset)") (auto intro: chunk_progress)

declare io_zero_loop.simps [simp del]

definition BasicIO_Resize ::
    "('io \<Rightarrow> byte list \<Rightarrow> nat \<Rightarrow> 'io result) \<Rightarrow> 'io \<Rightarrow> nat \<Rightarrow> nat \<Rightarrow> 'io result" where
  "BasicIO_Resize wr io cur tot = (if tot \<le> cur then Inr io else io_zero_loop wr tot cur io)"

definition BasicIO_Shrink :: "nat \<Rightarrow> nat \<Rightarrow> nat" where
  "BasicIO_Shrink cur tot = (if tot \<le> cur then tot else cur)"

section \<open>Powers of two\<close>

lemma and_pred_zero: "0 < v \<Longrightarrow> v AND (v - 1) = (0 :: nat) \<Longrightarrow> \<exists>k. v = 2 ^ k"
proof (induction v rule: less_induct)
  case (less v)
  show ?case
  proof (cases "even v")
    case True
    then obtain w where w: "v = 2 * w" by blast
    then have pos: "0 < w" using less.prems by simp
    have "2 * w - 1 = 1 + 2 * (w - 1)" using pos by simp
    then have "v AND (v - 1) = 2 * (w AND (w - 1))"
      unfolding w by (simp add: and_nat_rec [of "2 * w"])
    then have "w AND (w - 1) = 0" using less.prems(2) by simp
    then obtain k where "w = 2 ^ k" using less.IH [of w] w pos by auto
    then have "v = 2 ^ Suc k" by (simp add: w)
    then show ?thesis ..
  next
    case False
    then obtain w where w: "v = 2 * w + 1" by (blast elim: oddE)
    have "v AND (v - 1) = 2 * (w AND w)"
      unfolding w by (simp add: and_nat_rec [of "Suc (2 * w)"])
    then have "w = 0" using less.prems(2) by simp
    then show ?thesis using w by (intro exI [of _ 0]) simp
  qed
qed

lemma shift_count_bounds:
  "0 < v \<Longrightarrow> \<exists>k. shift_count v b = b + k + 1 \<and> 2 ^ k \<le> v \<and> v < 2 ^ (k + 1)"
proof (induction v b rule: shift_count.induct)
  case (1 v b)
  show ?case
  proof (cases "v div 2 = 0")
    case True
    then have "v = 1" using "1.prems" by (cases v) auto
    then show ?thesis
      by (intro exI [of _ 0]) (simp add: shift_count.simps)
  next
    case False
    then obtain k where k: "shift_count (v div 2) (b + 1) = b + 1 + k + 1" "2 ^ k \<le> v div 2" "v div 2 < 2 ^ (k + 1)"
      using "1.IH" "1.prems" by auto
    have "2 ^ Suc k \<le> v" "v < 2 ^ (Suc k + 1)" using k(2,3) by simp_all
    then show ?thesis
      using k(1) "1.prems" by (intro exI [of _ "Suc k"]) (simp add: shift_count.simps [of v])
  qed
qed

lemma NearestPowerOfTwo_bounds:
  assumes "0 < v"
  obtains k where "NearestPowerOfTwo v = 2 ^ k" and "2 ^ k \<le> v" and "v < 2 ^ (k + 1)"
proof (cases "v AND (v - 1) = 0")
  case True
  then obtain k where "v = 2 ^ k" using and_pred_zero assms by blast
  then show thesis using that [of k] True assms by (simp add: NearestPowerOfTwo_def)
next
  case False
  obtain k where "shift_count v 0 = 0 + k + 1" "2 ^ k \<le> v" "v < 2 ^ (k + 1)"
    using shift_count_bounds [OF assms] by blast
  then show thesis using that [of k] False assms by (simp add: NearestPowerOfTwo_def push_bit_eq_mult)
qed

lemma countr_zero_pow: "countr_zero (2 ^ k) = k"
proof -
  have "countr_zero_loop (2 ^ k) c = c + k" for c
  proof (induction k arbitrary: c)
    case 0
    then show ?case by (simp add: countr_zero_loop.simps)
  next
    case (Suc k)
    have "(2 ^ Suc k :: nat) AND 1 = 0" by (simp add: and_one_eq)
    then show ?case using Suc [of "c + 1"] by (simp add: countr_zero_loop.simps [of "2 * 2 ^ k"])
  qed
  then show ?thesis by (simp add: countr_zero_def)
qed

definition overwrite :: "'a list \<Rightarrow> nat \<Rightarrow> 'a list \<Rightarrow> 'a list" where
  "overwrite xs pos d = take pos xs @ d @ drop (pos + length d) xs"

lemma overwrite_Nil [simp]: "overwrite xs pos [] = xs"
  by (simp add: overwrite_def)

lemma length_overwrite [simp]: "pos + length d \<le> length xs \<Longrightarrow> length (overwrite xs pos d) = length xs"
  by (simp add: overwrite_def)

lemma overwrite_append:
  assumes "pos + length d \<le> length xs"
  shows "overwrite (overwrite xs pos d) (pos + length d) e = overwrite xs pos (d @ e)"
  using assms by (simp add: overwrite_def ac_simps)

lemma take_drop_overwrite: "pos \<le> length xs \<Longrightarrow> take (length d) (drop pos (overwrite xs pos d)) = d"
  by (simp add: overwrite_def)

lemma nth_overwrite:
  assumes "pos + length d \<le> length xs" and "i < length xs"
  shows "overwrite xs pos d ! i = (if pos \<le> i \<and> i < pos + length d then d ! (i - pos) else xs ! i)"
  using assms by (auto simp: overwrite_def nth_append min_def)

lemma overwrite_nested:
  assumes "pos + n \<le> length xs" and "off + length d \<le> n"
  shows "overwrite xs pos (overwrite (take n (drop pos xs)) off d) = overwrite xs (pos + off) d"
proof -
  define P B S where "P = take pos xs" and "B = take n (drop pos xs)" and "S = drop (pos + n) xs"
  have xs: "xs = P @ B @ S"
    by (simp add: P_def B_def S_def) (metis append_take_drop_id drop_drop add.commute)
  have len: "length P = pos" "length B = n" using assms(1) by (simp_all add: P_def B_def)
  have "overwrite xs pos (overwrite B off d) = P @ overwrite B off d @ S"
    using len assms(2) by (simp add: xs overwrite_def)
  also have "\<dots> = overwrite xs (pos + off) d"
    using len assms(2) by (simp add: xs overwrite_def)
  finally show ?thesis by (simp add: B_def)
qed

section \<open>The blocks as one byte string\<close>

lemma concat_blocks:
  assumes "\<forall>b \<in> set blocks. length b = bs" and "n < length blocks"
  shows "take bs (drop (n * bs) (concat blocks)) = blocks ! n"
  using assms
proof (induction blocks arbitrary: n)
  case (Cons b blocks)
  then show ?case by (cases n) auto
qed simp

lemma concat_update_block:
  assumes "\<forall>b \<in> set blocks. length b = bs" and "n < length blocks" and "length b' = bs"
  shows "concat (blocks[n := b']) = overwrite (concat blocks) (n * bs) b'"
  using assms
proof (induction blocks arbitrary: n)
  case (Cons b blocks)
  then show ?case by (cases n) (auto simp: overwrite_def algebra_simps)
qed simp

lemma overwrite_in_block:
  assumes "\<forall>b \<in> set blocks. length b = bs" and "no < length blocks" and "off + length d \<le> bs"
  shows "concat (blocks[no := overwrite (blocks ! no) off d]) = overwrite (concat blocks) (no * bs + off) d"
proof -
  let ?f = "concat blocks"
  have len: "length ?f = length blocks * bs" by (rule length_concat_const [OF assms(1)])
  have "(no + 1) * bs \<le> length blocks * bs" using assms(2) by (intro mult_le_mono1) simp
  then have le: "no * bs + bs \<le> length ?f" by (simp add: len)
  have b: "length (blocks ! no) = bs" using assms(1,2) by simp
  have "concat (blocks[no := overwrite (blocks ! no) off d]) = overwrite ?f (no * bs) (overwrite (blocks ! no) off d)"
    using assms(3) b by (intro concat_update_block [OF assms(1,2)]) simp
  also have "\<dots> = overwrite ?f (no * bs + off) d"
    unfolding concat_blocks [OF assms(1,2), symmetric] by (rule overwrite_nested [OF le assms(3)])
  finally show ?thesis .
qed

lemma mb_write_loop_ok:
  assumes "\<forall>b \<in> set blocks. length b = bs" and "off < bs" and "m = bs - off"
    and "no * bs + off + length data \<le> length blocks * bs"
  shows "\<exists>blocks'. mb_write_loop bs no off m data blocks = Inr blocks' \<and> length blocks' = length blocks \<and>
    (\<forall>b \<in> set blocks'. length b = bs) \<and> concat blocks' = overwrite (concat blocks) (no * bs + off) data"
  using assms
proof (induction bs no off m data blocks rule: mb_write_loop.induct)
  case (1 bs no off m data blocks)
  let ?n = "min (length data) m" and ?pos = "no * bs + off"
  show ?case
  proof (cases "data = []")
    case True
    then show ?thesis using "1.prems"(1) by (simp add: mb_write_loop.simps)
  next
    case False
    have "0 < length data" using False by simp
    then have "no * bs < length blocks * bs" using "1.prems"(4) by linarith
    then have no: "no < length blocks" by simp
    then have b: "length (blocks ! no) = bs" using "1.prems"(1) by simp
    have n: "0 < ?n" "off + ?n \<le> bs" using False "1.prems"(2,3) by auto
    then have g: "(?n = 0 \<or> \<not> no < length blocks \<or> \<not> off + ?n \<le> length (blocks ! no)) = False"
      using no b by simp
    define blocks1 where "blocks1 = blocks[no := take off (blocks ! no) @ take ?n data @
      drop (off + ?n) (blocks ! no)]"
    have len1: "length (take ?n data) = ?n" by simp
    have sp: "blocks1 = blocks[no := overwrite (blocks ! no) off (take ?n data)]"
      by (simp only: blocks1_def overwrite_def len1)
    have step: "mb_write_loop bs no off m data blocks = mb_write_loop bs (no + 1) 0 bs (drop ?n data) blocks1"
      using False g by (subst mb_write_loop.simps) (simp only: Let_def if_False blocks1_def)
    have inv1: "\<forall>b \<in> set blocks1. length b = bs" "length blocks1 = length blocks"
      using "1.prems"(1) no n b len1
      by (auto simp: sp dest!: set_update_subset_insert [THEN subsetD])
    have flat1: "concat blocks1 = overwrite (concat blocks) ?pos (take ?n data)"
      unfolding sp by (rule overwrite_in_block [OF "1.prems"(1) no]) (use n in simp)
    show ?thesis
    proof (cases "length data \<le> m")
      case True
      then show ?thesis
        using step inv1 flat1 by (simp add: mb_write_loop.simps)
    next
      case False
      have m: "?n = m" "m = bs - off" using False "1.prems"(3) by auto
      have pos: "(no + 1) * bs + 0 = ?pos + ?n" using m "1.prems"(2) by simp
      have bound: "(no + 1) * bs + 0 + length (drop ?n data) \<le> length blocks1 * bs"
        unfolding pos inv1(2) using "1.prems"(4) by simp
      obtain blocks' where b': "mb_write_loop bs (no + 1) 0 bs (drop ?n data) blocks1 = Inr blocks'"
          "length blocks' = length blocks1" "\<forall>b \<in> set blocks'. length b = bs"
          "concat blocks' = overwrite (concat blocks1) ((no + 1) * bs + 0) (drop ?n data)"
        using "1.IH" [OF \<open>data \<noteq> []\<close> refl, folded blocks1_def, OF _ inv1(1) _ _ bound] g "1.prems"(2) by auto
      have "concat blocks' = overwrite (concat blocks) ?pos (take ?n data @ drop ?n data)"
        unfolding b'(4) pos flat1
      proof -
        have "?pos + length (take ?n data) \<le> length (concat blocks)"
          using "1.prems"(4) by (simp add: length_concat_const [OF "1.prems"(1)])
        from overwrite_append [OF this, of "drop ?n data"]
        show "overwrite (overwrite (concat blocks) ?pos (take ?n data)) (?pos + ?n) (drop ?n data) =
            overwrite (concat blocks) ?pos (take ?n data @ drop ?n data)" by (simp only: len1)
      qed
      then show ?thesis using step b' inv1(2) by simp
    qed
  qed
qed

lemma take_drop_take: "off + n \<le> k \<Longrightarrow> take n (drop off (take k xs)) = take n (drop off xs)"
  by (simp add: drop_take min_absorb1)

lemma take_split: "c \<le> r \<Longrightarrow> take r (drop k xs) = take c (drop k xs) @ take (r - c) (drop (k + c) xs)"
  using take_add [of c "r - c" "drop k xs"] by (simp add: add.commute)

lemma mb_read_loop_ok:
  assumes "\<forall>b \<in> set blocks. length b = bs" and "off < bs" and "m = bs - off"
    and "no * bs + off + n \<le> length blocks * bs"
  shows "mb_read_loop bs no off m n blocks = Inr (take n (drop (no * bs + off) (concat blocks)))"
  using assms
proof (induction bs no off m n blocks rule: mb_read_loop.induct)
  case (1 bs no off m r blocks)
  let ?n = "min r m" and ?pos = "no * bs + off" and ?f = "concat blocks"
  show ?case
  proof (cases "r = 0")
    case True
    then show ?thesis by (simp add: mb_read_loop.simps)
  next
    case False
    have "no * bs < length blocks * bs" using "1.prems"(4) False by linarith
    then have no: "no < length blocks" by simp
    then have b: "length (blocks ! no) = bs" using "1.prems"(1) by simp
    have n: "0 < ?n" "off + ?n \<le> bs" using False "1.prems"(2,3) by auto
    then have g: "(?n = 0 \<or> \<not> no < length blocks \<or> \<not> off + ?n \<le> length (blocks ! no)) = False"
      using no b by simp
    have head: "take ?n (drop off (blocks ! no)) = take ?n (drop ?pos ?f)"
      unfolding concat_blocks [OF "1.prems"(1) no, symmetric] take_drop_take [OF n(2)] by (simp add: add.commute)
    show ?thesis
    proof (cases "r \<le> m")
      case True
      then show ?thesis
        using False no b n head by (subst mb_read_loop.simps) (simp add: Let_def mb_read_loop.simps [of _ _ _ _ 0])
    next
      case rm: False
      have m: "?n = m" "m = bs - off" using rm "1.prems"(3) by auto
      have pos: "(no + 1) * bs + 0 = ?pos + ?n" using m "1.prems"(2) by simp
      have "mb_read_loop bs (no + 1) 0 bs (r - ?n) blocks = Inr (take (r - ?n) (drop ((no + 1) * bs + 0) ?f))"
        by (rule "1.IH" [OF False refl]) (use no b n "1.prems" pos in auto)
      then have "mb_read_loop bs (no + 1) 0 bs (r - ?n) blocks = Inr (take (r - ?n) (drop (?pos + ?n) ?f))"
        by (simp only: pos)
      moreover have "take r (drop ?pos ?f) = take ?n (drop ?pos ?f) @ take (r - ?n) (drop (?pos + ?n) ?f)"
        by (rule take_split) simp
      ultimately show ?thesis
        using False g head by (subst mb_read_loop.simps) (simp only: Let_def if_False bind_r_simps)
    qed
  qed
qed

section \<open>The contract of a random-access storage\<close>

text \<open>
  \<open>bytes io\<close> is the stored byte string. A write that ends below \<open>2 ^ 63\<close> extends the string if
  needed, stores its data and keeps every other byte; a read inside the string delivers it, a read
  past its end answers \<open>false\<close>.
\<close>

definition written :: "byte list \<Rightarrow> byte list \<Rightarrow> nat \<Rightarrow> byte list \<Rightarrow> bool" where
  "written bs data off bs' \<longleftrightarrow>
     length bs' = max (length bs) (off + length data) \<and>
     take (length data) (drop off bs') = data \<and>
     (\<forall>i < length bs. i < off \<or> off + length data \<le> i \<longrightarrow> bs' ! i = bs ! i)"

locale random_io =
  fixes inv :: "'io \<Rightarrow> bool"
    and bytes :: "'io \<Rightarrow> byte list"
    and wr :: "'io \<Rightarrow> byte list \<Rightarrow> nat \<Rightarrow> 'io result"
    and rd :: "'io \<Rightarrow> nat \<Rightarrow> nat \<Rightarrow> byte list option result"
  assumes wr_ok: "inv io \<Longrightarrow> off + length data < 2 ^ 63 \<Longrightarrow>
      \<exists>io'. wr io data off = Inr io' \<and> inv io' \<and> written (bytes io) data off (bytes io')"
    and rd_ok: "inv io \<Longrightarrow> off + n \<le> length (bytes io) \<Longrightarrow>
      rd io n off = Inr (Some (take n (drop off (bytes io))))"
    and rd_short: "inv io \<Longrightarrow> length (bytes io) < off + n \<Longrightarrow> off + n < 2 ^ 64 \<Longrightarrow> rd io n off = Inr None"
    and bytes_bound: "inv io \<Longrightarrow> length (bytes io) < 2 ^ 63"

locale heap_allocator =
  fixes A :: Allocator
  assumes Allocate_ok: "\<exists>p. Allocate A n = Some p \<and> length p = n"
    and Reallocate_ok: "\<exists>p. Reallocate A b n = Some p \<and> length p = n \<and> take (min (length b) n) p = take n b"

text \<open>The C library's allocation functions, which the default allocator forwards to.\<close>

definition libc_allocator :: Allocator where
  "libc_allocator =
     \<lparr>Allocate = (\<lambda>n. Some (replicate n 0)), Reallocate = (\<lambda>b n. Some (vresize n 0 b))\<rparr>"

interpretation libc: heap_allocator libc_allocator
  by unfold_locales (auto simp: libc_allocator_def vresize_def min_def)

section \<open>Both memory storages satisfy it\<close>

definition mio_inv :: "MemoryIO \<Rightarrow> bool" where
  "mio_inv io \<longleftrightarrow> mio_size io \<le> length (mio_buffer io) \<and> mio_size io < 2 ^ 63"

definition mio_bytes :: "MemoryIO \<Rightarrow> byte list" where
  "mio_bytes io = take (mio_size io) (mio_buffer io)"

definition mb_inv :: "MemoryBlockIO \<Rightarrow> bool" where
  "mb_inv io \<longleftrightarrow>
     mb_block_bit io \<le> 62 \<and> mb_block_size io = 2 ^ mb_block_bit io \<and>
     mb_in_block_mask io = mask (mb_block_bit io) \<and>
     (\<forall>b \<in> set (mb_blocks io). length b = mb_block_size io) \<and>
     mb_size io \<le> length (mb_blocks io) * mb_block_size io \<and> mb_size io < 2 ^ 63 \<and>
     length (mb_blocks io) * mb_block_size io < 2 ^ 63 + mb_block_size io"

definition mb_bytes :: "MemoryBlockIO \<Rightarrow> byte list" where
  "mb_bytes io = take (mb_size io) (concat (mb_blocks io))"

lemma length_mio_bytes: "mio_inv io \<Longrightarrow> length (mio_bytes io) = mio_size io"
  by (simp add: mio_inv_def mio_bytes_def)

lemma length_mb_bytes: "mb_inv io \<Longrightarrow> length (mb_bytes io) = mb_size io"
  using length_concat_const [of "mb_blocks io" "mb_block_size io"] by (auto simp: mb_inv_def mb_bytes_def)

lemma written_overwrite:
  assumes "off + length data \<le> length ys" and "length xs \<le> length ys" and "take (length xs) ys = xs"
  shows "written xs data off (take (max (length xs) (off + length data)) (overwrite ys off data))"
proof -
  have "ys ! i = xs ! i" if "i < length xs" for i
    using that assms(3) by (metis nth_take)
  then show ?thesis
    using assms by (auto simp: written_def nth_overwrite take_drop_overwrite take_drop_take)
qed

lemma MemoryBlockIO_new_inv:
  assumes "0 < n" and "n < 2 ^ 63"
  shows "mb_inv (MemoryBlockIO_new n) \<and> mb_bytes (MemoryBlockIO_new n) = []"
proof -
  obtain k where k: "NearestPowerOfTwo n = 2 ^ k" "2 ^ k \<le> n" by (rule NearestPowerOfTwo_bounds [OF assms(1)])
  have "(2 :: nat) ^ k < 2 ^ 63" using k(2) assms(2) by (rule le_less_trans)
  then have "k < 63" by (rule power_less_imp_less_exp [rotated]) simp
  moreover have "wrap64 (2 ^ k + (2 ^ 64 - 1)) = 2 ^ k - 1"
  proof -
    have "2 ^ k + (2 ^ 64 - 1) = (2 ^ k - 1) + 2 ^ 64 * (1 :: nat)" by simp
    then have "wrap64 (2 ^ k + (2 ^ 64 - 1)) = (2 ^ k - 1) mod 2 ^ 64"
      unfolding wrap64_def by (simp only: mod_mult_self2)
    also have "\<dots> = 2 ^ k - 1" using \<open>2 ^ k < 2 ^ 63\<close> by (intro mod_less) simp
    finally show ?thesis .
  qed
  ultimately show ?thesis
    by (simp add: MemoryBlockIO_new_def update_by_block_size_def k(1) countr_zero_pow mb_inv_def mb_bytes_def
        mask_eq_exp_minus_1)
qed

lemma mb_invD:
  assumes "mb_inv io"
  shows "mb_block_size io = 2 ^ mb_block_bit io" and "0 < mb_block_size io" and "mb_block_size io \<le> 2 ^ 62"
    and "\<forall>b \<in> set (mb_blocks io). length b = mb_block_size io"
    and "length (concat (mb_blocks io)) = length (mb_blocks io) * mb_block_size io"
    and "mb_size io \<le> length (mb_blocks io) * mb_block_size io" and "mb_size io < 2 ^ 63"
    and "length (mb_blocks io) * mb_block_size io < 2 ^ 63 + mb_block_size io"
    and "drop_bit (mb_block_bit io) off = off div mb_block_size io"
    and "off AND mb_in_block_mask io = off mod mb_block_size io"
proof -
  show "mb_block_size io = 2 ^ mb_block_bit io" and "\<forall>b \<in> set (mb_blocks io). length b = mb_block_size io"
    and "mb_size io \<le> length (mb_blocks io) * mb_block_size io" and "mb_size io < 2 ^ 63"
    and "length (mb_blocks io) * mb_block_size io < 2 ^ 63 + mb_block_size io"
    using assms unfolding mb_inv_def by blast+
  moreover have "mb_block_bit io \<le> 62" and "mb_in_block_mask io = mask (mb_block_bit io)"
    using assms unfolding mb_inv_def by blast+
  ultimately show "0 < mb_block_size io" and "mb_block_size io \<le> 2 ^ 62"
    and "length (concat (mb_blocks io)) = length (mb_blocks io) * mb_block_size io"
    and "drop_bit (mb_block_bit io) off = off div mb_block_size io"
    and "off AND mb_in_block_mask io = off mod mb_block_size io"
    by (simp_all add: length_concat_const drop_bit_eq_div take_bit_eq_mask [symmetric] take_bit_eq_mod
        power_increasing [of _ 62 "2 :: nat", simplified])
qed

context heap_allocator
begin

lemma mb_add_blocks_ok: "mb_add_blocks A bs n blocks = Inr (blocks @ replicate n (replicate bs 0))"
proof (induction n arbitrary: blocks)
  case (Suc n)
  obtain p where "Allocate A bs = Some p" "length p = bs" using Allocate_ok by blast
  then show ?case using Suc by (simp add: replicate_append_same)
qed simp

lemma mb_realloc_ok:
  assumes "mb_inv io" and "n < 2 ^ 63"
  obtains m where "MemoryBlockIO_check_and_realloc A io n =
      Inr (io\<lparr>mb_blocks := mb_blocks io @ replicate m (replicate (mb_block_size io) 0)\<rparr>)"
    and "n \<le> (length (mb_blocks io) + m) * mb_block_size io"
    and "mb_inv (io\<lparr>mb_blocks := mb_blocks io @ replicate m (replicate (mb_block_size io) 0)\<rparr>)"
proof -
  note d = mb_invD [OF assms(1)]
  let ?bs = "mb_block_size io" and ?b = "length (mb_blocks io)"
  have "?b * ?bs < 2 ^ 64" using d(3,8) by simp
  then have cap: "wrap64 (push_bit (mb_block_bit io) ?b) = ?b * ?bs"
    by (simp add: push_bit_eq_mult flip: d(1))
  show thesis
  proof (cases "n \<le> ?b * ?bs")
    case True
    then show thesis
      using that [of 0] assms(1) by (simp add: MemoryBlockIO_check_and_realloc_def cap)
  next
    case False
    define c where "c = (n + ?bs - 1) div ?bs"
    have "n + ?bs - 1 < 2 ^ 64" using assms(2) d(3) by simp
    then have c: "drop_bit (mb_block_bit io) (wrap64 (n + ?bs - 1)) = c"
      by (simp add: d(9) c_def)
    have up: "n \<le> c * ?bs"
    proof -
      have "n + ?bs - 1 < (c + 1) * ?bs"
        using d(2) dividend_less_div_times [of ?bs "n + ?bs - 1"] by (simp add: c_def)
      then show ?thesis using d(2) by (simp add: algebra_simps)
    qed
    have down: "c * ?bs < n + ?bs"
    proof -
      have "c * ?bs \<le> n + ?bs - 1" unfolding c_def by (rule div_times_less_eq_dividend)
      then show ?thesis using d(2) by linarith
    qed
    have "?b * ?bs < c * ?bs" using False up by linarith
    then have less: "?b < c" by simp
    let ?io = "io\<lparr>mb_blocks := mb_blocks io @ replicate (c - ?b) (replicate ?bs 0)\<rparr>"
    have "mb_size io \<le> c * ?bs" using d(6) \<open>?b * ?bs < c * ?bs\<close> by linarith
    then have "mb_inv ?io"
      using assms down less unfolding mb_inv_def by (auto simp: in_set_replicate)
    then show thesis
      using that [of "c - ?b"] False less up mb_add_blocks_ok
      by (simp add: MemoryBlockIO_check_and_realloc_def cap c [simplified])
  qed
qed

lemma MemoryBlockIO_Write_ok:
  assumes "mb_inv io" and "off + length data < 2 ^ 63"
  shows "\<exists>io'. MemoryBlockIO_WriteImpl A io data off = Inr io' \<and> mb_inv io' \<and>
    written (mb_bytes io) data off (mb_bytes io')"
proof -
  let ?n = "length data + off"
  have w: "wrap64 ?n = ?n" using assms(2) by simp
  have "?n < 2 ^ 63" using assms(2) by simp
  from mb_realloc_ok [OF assms(1) this]
  obtain m where m: "MemoryBlockIO_check_and_realloc A io ?n =
        Inr (io\<lparr>mb_blocks := mb_blocks io @ replicate m (replicate (mb_block_size io) 0)\<rparr>)"
      "?n \<le> (length (mb_blocks io) + m) * mb_block_size io"
      "mb_inv (io\<lparr>mb_blocks := mb_blocks io @ replicate m (replicate (mb_block_size io) 0)\<rparr>)" .
  define io1 where "io1 = io\<lparr>mb_blocks := mb_blocks io @ replicate m (replicate (mb_block_size io) 0)\<rparr>"
  let ?bs = "mb_block_size io1"
  have inv1: "mb_inv io1" and same: "mb_size io1 = mb_size io" using m(3) by (simp_all add: io1_def)
  note d = mb_invD [OF inv1]
  have cap: "off + length data \<le> length (mb_blocks io1) * ?bs" using m(2) by (simp add: io1_def add.commute)
  obtain blocks' where b: "mb_write_loop ?bs (off div ?bs) (off mod ?bs) (?bs - off mod ?bs) data (mb_blocks io1) = Inr blocks'"
      "length blocks' = length (mb_blocks io1)" "\<forall>b \<in> set blocks'. length b = ?bs"
      "concat blocks' = overwrite (concat (mb_blocks io1)) off data"
    using mb_write_loop_ok [OF d(4), of "off mod ?bs" "?bs - off mod ?bs" "off div ?bs" data] d(2) cap by auto
  define io2 where "io2 = io1\<lparr>mb_blocks := blocks', mb_size := max (mb_size io1) ?n\<rparr>"
  have res: "MemoryBlockIO_WriteImpl A io data off = Inr io2"
    using m(1) b(1) by (auto simp: MemoryBlockIO_WriteImpl_def w d(9,10) Let_def io2_def max_def simp flip: io1_def)
  have inv2: "mb_inv io2"
    using inv1 cap assms(2) b(2,3) d(6-8) unfolding mb_inv_def io2_def by (simp add: add.commute)
  have flat: "take (mb_size io) (concat (mb_blocks io1)) = mb_bytes io"
    using mb_invD(5,6) [OF assms(1)] by (simp add: io1_def mb_bytes_def)
  have "written (mb_bytes io) data off
      (take (max (length (mb_bytes io)) (off + length data)) (overwrite (concat (mb_blocks io1)) off data))"
    using cap d(5,6) flat same length_mb_bytes [OF assms(1)] by (intro written_overwrite) simp_all
  then have "written (mb_bytes io) data off (mb_bytes io2)"
    unfolding mb_bytes_def [of io2] by (simp add: io2_def same b(4) length_mb_bytes [OF assms(1)] add.commute)
  then show ?thesis using res inv2 by blast
qed

lemma MemoryIO_Write_ok:
  assumes "mio_inv io" and "off + length data < 2 ^ 63"
  shows "\<exists>io'. MemoryIO_WriteImpl A io data off = Inr io' \<and> mio_inv io' \<and>
    written (mio_bytes io) data off (mio_bytes io')"
proof -
  let ?n = "length data + off"
  have w: "wrap64 ?n = ?n" using assms(2) by simp
  obtain io1 where io1: "MemoryIO_check_and_realloc A io ?n = Inr io1" "mio_inv io1"
      "mio_size io1 = max (mio_size io) ?n" "take (mio_size io) (mio_buffer io1) = mio_bytes io"
  proof (cases "?n \<le> mio_size io")
    case True
    then show thesis using that [of io] assms(1) by (simp add: MemoryIO_check_and_realloc_def mio_bytes_def)
  next
    case False
    obtain p where p: "Reallocate A (mio_buffer io) ?n = Some p" "length p = ?n"
        "take (min (length (mio_buffer io)) ?n) p = take ?n (mio_buffer io)"
      using Reallocate_ok by blast
    have "take (mio_size io) p = take (mio_size io) (take (min (length (mio_buffer io)) ?n) p)"
      using False assms(1) by (simp add: mio_inv_def min_absorb1)
    also have "\<dots> = mio_bytes io"
      unfolding p(3) using False by (simp add: mio_bytes_def min_absorb1)
    finally show thesis
      using that [of "io\<lparr>mio_buffer := p, mio_size := ?n\<rparr>"] False p(1,2) assms
      by (simp add: MemoryIO_check_and_realloc_def mio_inv_def)
  qed
  define io2 where "io2 = io1\<lparr>mio_buffer := overwrite (mio_buffer io1) off data\<rparr>"
  have fit: "off + length data \<le> length (mio_buffer io1)"
    using io1(2,3) by (simp add: mio_inv_def)
  have res: "MemoryIO_WriteImpl A io data off = Inr io2"
    using fit by (simp add: MemoryIO_WriteImpl_def w io1(1) io2_def overwrite_def)
  have inv2: "mio_inv io2" using io1(2) fit by (simp add: io2_def mio_inv_def)
  have "written (mio_bytes io) data off
      (take (max (length (mio_bytes io)) (off + length data)) (overwrite (mio_buffer io1) off data))"
    using fit io1 length_mio_bytes [OF assms(1)] by (intro written_overwrite) (simp_all add: mio_inv_def)
  then have "written (mio_bytes io) data off (mio_bytes io2)"
    unfolding mio_bytes_def [of io2] using io1(3) by (simp add: io2_def length_mio_bytes [OF assms(1)] add.commute)
  then show ?thesis using res inv2 by blast
qed

end

lemma MemoryBlockIO_Read_ok:
  assumes "mb_inv io" and "off + n \<le> length (mb_bytes io)"
  shows "MemoryBlockIO_ReadImpl io n off = Inr (Some (take n (drop off (mb_bytes io))))"
proof -
  note d = mb_invD [OF assms(1)]
  let ?bs = "mb_block_size io"
  have fit: "off + n \<le> mb_size io" using assms length_mb_bytes by simp
  then have w: "wrap64 (n + off) = n + off" using d(7) by simp
  have "mb_read_loop ?bs (off div ?bs) (off mod ?bs) (?bs - off mod ?bs) n (mb_blocks io) =
      Inr (take n (drop (off div ?bs * ?bs + off mod ?bs) (concat (mb_blocks io))))"
    using fit d(2,6) by (intro mb_read_loop_ok [OF d(4)]) simp_all
  then show ?thesis
    using fit by (simp add: MemoryBlockIO_ReadImpl_def w d(9,10) Let_def mb_bytes_def take_drop_take)
qed

lemma MemoryBlockIO_Read_short:
  assumes "mb_inv io" and "length (mb_bytes io) < off + n" and "off + n < 2 ^ 64"
  shows "MemoryBlockIO_ReadImpl io n off = Inr None"
proof -
  have "wrap64 (n + off) = n + off" using assms(3) by simp
  then show ?thesis using assms(2) length_mb_bytes [OF assms(1)] by (simp add: MemoryBlockIO_ReadImpl_def)
qed

sublocale heap_allocator \<subseteq> block_io: random_io mb_inv mb_bytes "MemoryBlockIO_WriteImpl A" MemoryBlockIO_ReadImpl
  by unfold_locales
    (use MemoryBlockIO_Write_ok MemoryBlockIO_Read_ok MemoryBlockIO_Read_short length_mb_bytes mb_invD(7) in auto)

sublocale heap_allocator \<subseteq> flat_io: random_io mio_inv mio_bytes "MemoryIO_WriteImpl A" MemoryIO_ReadImpl
proof unfold_locales
  fix io off n
  assume inv: "mio_inv io" and "off + n \<le> length (mio_bytes io)"
  then have fit: "off + n \<le> mio_size io" "mio_size io < 2 ^ 63" "mio_size io \<le> length (mio_buffer io)"
    using length_mio_bytes by (auto simp: mio_inv_def)
  then have "wrap64 (n + off) = n + off" by simp
  then show "MemoryIO_ReadImpl io n off = Inr (Some (take n (drop off (mio_bytes io))))"
    using fit by (simp add: MemoryIO_ReadImpl_def mio_bytes_def take_drop_take)
next
  fix io off n
  assume inv: "mio_inv io" and short: "length (mio_bytes io) < off + n" and "off + n < 2 ^ 64"
  then have "wrap64 (n + off) = n + off" by simp
  then show "MemoryIO_ReadImpl io n off = Inr None"
    using short length_mio_bytes [OF inv] by (simp add: MemoryIO_ReadImpl_def)
qed (use MemoryIO_Write_ok length_mio_bytes in \<open>auto simp: mio_inv_def\<close>)

section \<open>Serialization of a storage\<close>

lemma written_prefix:
  assumes "written bs data off bs'" and "off \<le> length bs"
  shows "take (off + length data) bs' = take off bs @ data"
proof -
  have len: "off + length data \<le> length bs'" using assms(1) by (simp add: written_def)
  have "take off bs' = take off bs"
    using assms len by (intro nth_equalityI) (auto simp: written_def)
  moreover have "take (length data) (drop off bs') = data" using assms(1) by (simp add: written_def)
  ultimately show ?thesis by (simp add: take_add)
qed

lemma written_new: "written [] data off bs' \<Longrightarrow> drop off bs' = data \<and> length bs' = off + length data"
  by (auto simp: written_def)

context random_io
begin

lemma serialize_loop_ok:
  assumes "inv io" and "length (bytes io) = n"
  shows "\<exists>out. io_serialize_loop rd io n buffer k = Inr out \<and> concat out = drop k (bytes io)"
  using assms
proof (induction "n - k" arbitrary: k buffer rule: less_induct)
  case less
  let ?c = "min SERIALIZE_BUFFER_SIZE (n - k)"
  show ?case
  proof (cases "k < n")
    case True
    have c: "0 < ?c" "k + ?c \<le> n" using True by auto
    let ?d = "take ?c (drop k (bytes io))"
    have d: "rd io ?c k = Inr (Some ?d)" "length ?d = ?c"
      using rd_ok [OF less.prems(1), of k ?c] c less.prems(2) by simp_all
    obtain out where out: "io_serialize_loop rd io n (?d @ drop ?c buffer) (k + ?c) = Inr out"
        "concat out = drop (k + ?c) (bytes io)"
      using less.hyps [OF chunk_progress [OF True] less.prems] by blast
    have "io_serialize_loop rd io n buffer k = Inr (?d # out)"
      using True d out(1) by (subst io_serialize_loop.simps) (simp add: Let_def)
    moreover have "concat (?d # out) = drop k (bytes io)"
      unfolding concat.simps out(2) by (rule drop_split [symmetric])
    ultimately show ?thesis by blast
  next
    case False
    then show ?thesis using less.prems(2) by (subst io_serialize_loop.simps) simp
  qed
qed

lemma BasicIO_Serialize_ok:
  assumes "inv io"
  shows "\<exists>out. BasicIO_Serialize rd io (length (bytes io)) buffer = Inr out \<and>
    concat out = enc_u64 (word_of_nat (length (bytes io))) @ bytes io"
  using serialize_loop_ok [OF assms refl, of buffer 0] by (auto simp: BasicIO_Serialize_def WriteObj_def)

end

locale io_stream = random_io inv bytes wr rd + source: byte_source rdr rest ok
  for inv :: "'io \<Rightarrow> bool" and bytes wr rd and rdr :: "'r read_op" and rest ok
begin

lemma deserialize_loop_ok:
  assumes "inv io" and "ok r" and "rest r = drop k bs @ s" and "length bs = n"
    and "k \<le> length (bytes io)" "length (bytes io) \<le> n" "take k (bytes io) = take k bs" and n63: "n < 2 ^ 63"
  shows "\<exists>io' r'. io_deserialize_loop rdr wr n k io r = Inr (io', r') \<and> inv io' \<and> bytes io' = bs \<and>
    ok r' \<and> rest r' = s"
  using assms(1-7)
proof (induction "n - k" arbitrary: k io r rule: less_induct)
  case less
  let ?c = "min SERIALIZE_BUFFER_SIZE (n - k)"
  show ?case
  proof (cases "k < n")
    case True
    have c: "0 < ?c" "k + ?c \<le> n" "?c < 2 ^ 64"
      using True by (auto simp: SERIALIZE_BUFFER_SIZE_def min_def)
    let ?d = "take ?c (drop k bs)"
    have len: "length ?d = ?c" using c(2) less.prems(4) by simp
    have "rest r = ?d @ (drop (k + ?c) bs @ s)"
      unfolding less.prems(3) by (subst drop_split [of k bs ?c]) simp
    then have "yields rest ok (rdr r (word_of_nat ?c)) ?d (drop (k + ?c) bs @ s)"
      using c(3) len by (intro source.rd_bytes [OF _ less.prems(2)]) (simp_all add: unat_word_of_nat_u64)
    then obtain r1 where r1: "rdr r (word_of_nat ?c) = Inr (?d, r1)" "rest r1 = drop (k + ?c) bs @ s" "ok r1"
      by (auto simp: yields_def)
    obtain io1 where io1: "wr io ?d k = Inr io1" "inv io1" "written (bytes io) ?d k (bytes io1)"
      using wr_ok [OF less.prems(1), of k ?d] c(2) n63 len by auto
    have pre: "take (k + ?c) (bytes io1) = take (k + ?c) bs"
      using written_prefix [OF io1(3) less.prems(5)] less.prems(7) by (simp only: len take_add)
    have len1: "length (bytes io1) = max (length (bytes io)) (k + ?c)"
      using io1(3) by (simp only: written_def len)
    have range: "k + ?c \<le> length (bytes io1)" "length (bytes io1) \<le> n"
      unfolding len1 using c(2) less.prems(6) by simp_all
    have "io_deserialize_loop rdr wr n k io r = io_deserialize_loop rdr wr n (k + ?c) io1 r1"
      using True r1(1) io1(1) by (subst io_deserialize_loop.simps) (simp only: Let_def if_True bind_r_simps prod.case)
    then show ?thesis
      using less.hyps [OF chunk_progress [OF True] io1(2) r1(3,2) less.prems(4) range pre] by (simp only:)
  next
    case False
    then have k: "k = n" "length (bytes io) = n" using less.prems(5,6) by simp_all
    have "bytes io = bs" using less.prems(4,7) k by simp
    moreover have "rest r = s" using less.prems(3,4) k(1) by simp
    moreover have "io_deserialize_loop rdr wr n k io r = Inr (io, r)"
      using False by (subst io_deserialize_loop.simps) simp
    ultimately show ?thesis using less.prems(1,2) by blast
  qed
qed

lemma BasicIO_Deserialize_ok:
  assumes "inv io" and "ok r" and "rest r = enc_u64 (word_of_nat (length bs)) @ bs @ s"
    and "length (bytes io) \<le> length bs"
  shows "\<exists>io' r'. BasicIO_Deserialize rdr wr io r = Inr (io', r') \<and> inv io' \<and> bytes io' = bs \<and>
    ok r' \<and> rest r' = s"
proof -
  have n: "length bs < 2 ^ 63" using source.rest_bound [OF assms(2)] assms(3) by simp
  then have un: "unat (word_of_nat (length bs) :: u64) = length bs" by (simp add: unat_word_of_nat_u64)
  from source.ReadObj_u64 [OF assms(3,2)]
  obtain r1 where "ReadObj rdr 8 dec_u64 r = Inr (word_of_nat (length bs), r1)" "rest r1 = drop 0 bs @ s" "ok r1"
    by (auto simp: yields_def)
  then show ?thesis
    using deserialize_loop_ok [OF assms(1), of r1 0 bs s "length bs"] n un assms(4)
    by (simp add: BasicIO_Deserialize_def)
qed

end

text \<open>Both storages read from the forward reader.\<close>

interpretation block_stream: io_stream mb_inv mb_bytes "MemoryBlockIO_WriteImpl libc_allocator" MemoryBlockIO_ReadImpl
    ForwardStreamReader_Read fr_istream fr_ok
  by (intro io_stream.intro libc.block_io.random_io_axioms fwd.byte_source_axioms)

interpretation flat_stream: io_stream mio_inv mio_bytes "MemoryIO_WriteImpl libc_allocator" MemoryIO_ReadImpl
    ForwardStreamReader_Read fr_istream fr_ok
  by (intro io_stream.intro libc.flat_io.random_io_axioms fwd.byte_source_axioms)

section \<open>Direct reads\<close>

lemma xor_less_iff: "(a XOR b :: nat) < 2 ^ k \<longleftrightarrow> a div 2 ^ k = b div 2 ^ k"
proof -
  have "(a XOR b) < 2 ^ k \<longleftrightarrow> drop_bit k (a XOR b) = 0"
    by (simp add: drop_bit_eq_div div_eq_0_iff)
  also have "\<dots> \<longleftrightarrow> drop_bit k a = drop_bit k b"
    by (auto simp: bit_eq_iff bit_drop_bit_eq bit_xor_iff)
  finally show ?thesis by (simp add: drop_bit_eq_div)
qed

lemma MemoryBlockIO_DirectRead_ok:
  assumes inv: "mb_inv io" and "0 < n" and "off + n < 2 ^ 63"
  shows "MemoryBlockIO_DirectReadImpl io n off =
    Inr (if off + n \<le> mb_size io
         then Some (take n (drop off (mb_bytes io)), \<not> check_in_one_block io off (off + n)) else None)"
proof -
  note d = mb_invD [OF inv]
  let ?bs = "mb_block_size io"
  have w: "wrap64 (n + off) = off + n" using assms(3) by simp
  show ?thesis
  proof (cases "off + n \<le> mb_size io \<and> check_in_one_block io off (off + n)")
    case True
    then have fit: "off + n \<le> mb_size io" and "off div ?bs = (off + n) div ?bs"
      using xor_less_iff [of off "off + n" "mb_block_bit io"] d(1) by (simp_all add: check_in_one_block_def)
    then have in_block: "off mod ?bs + n < ?bs" 
      using d(2) by (metis add_diff_cancel_left' div_mult_mod_eq mod_less_divisor add.assoc)
    have "off < length (mb_blocks io) * ?bs" using fit d(6) assms(2) by linarith
    then have no: "off div ?bs < length (mb_blocks io)" by (rule less_mult_imp_div_less)
    have blk: "mb_blocks io ! (off div ?bs) = take ?bs (drop (off div ?bs * ?bs) (concat (mb_blocks io)))"
      by (rule concat_blocks [OF d(4) no, symmetric])
    have "take n (drop (off mod ?bs) (mb_blocks io ! (off div ?bs))) = take n (drop off (mb_bytes io))"
      unfolding blk mb_bytes_def using in_block fit
      by (simp add: take_drop_take drop_drop)
    then show ?thesis
      using True no in_block d(4) by (simp add: MemoryBlockIO_DirectReadImpl_def w d(9,10) Let_def)
  next
    case False
    then show ?thesis
      using MemoryBlockIO_Read_ok [OF inv, of off n] length_mb_bytes [OF inv]
      by (auto simp: MemoryBlockIO_DirectReadImpl_def w)
  qed
qed

section \<open>Resizing\<close>

lemma wrap64_dec: "0 < n \<Longrightarrow> n \<le> 2 ^ 64 \<Longrightarrow> wrap64 (n + (2 ^ 64 - 1)) = n - 1"
  using mod_add_self2 [of "n - 1" "2 ^ 64"] by (simp add: wrap64_def add.commute)

lemma MemoryBlockIO_Shrink_ok:
  assumes "mb_inv io"
  shows "mb_inv (MemoryBlockIO_ShrinkImpl io n) \<and> mb_bytes (MemoryBlockIO_ShrinkImpl io n) = take n (mb_bytes io)"
proof (cases "mb_size io \<le> n")
  case True
  then show ?thesis using assms length_mb_bytes by (simp add: MemoryBlockIO_ShrinkImpl_def)
next
  case False
  note d = mb_invD [OF assms]
  let ?bs = "mb_block_size io" and ?blocks = "mb_blocks io"
  define c where "c = (n + ?bs - 1) div ?bs"
  have "n + ?bs \<le> 2 ^ 64" using False d(3,7) by simp
  then have "wrap64 (n + ?bs + (2 ^ 64 - 1)) = n + ?bs - 1" using wrap64_dec [of "n + ?bs"] d(2) by simp
  then have c: "drop_bit (mb_block_bit io) (wrap64 (n + ?bs + (2 ^ 64 - 1))) = c" by (simp add: d(9) c_def)
  have "n + ?bs - 1 < (c + 1) * ?bs"
    using d(2) dividend_less_div_times [of ?bs "n + ?bs - 1"] by (simp add: c_def)
  then have up: "n \<le> c * ?bs" using d(2) by (simp add: algebra_simps)
  define io' where "io' = io\<lparr>mb_blocks := take c ?blocks, mb_size := n\<rparr>"
  have res: "MemoryBlockIO_ShrinkImpl io n = io'"
    using False by (simp add: MemoryBlockIO_ShrinkImpl_def c [simplified] Let_def io'_def)
  have len: "length (take c ?blocks) * ?bs = min (length ?blocks * ?bs) (c * ?bs)"
    by (simp add: nat_mult_min_left)
  have "n \<le> length ?blocks * ?bs" using False d(6) by linarith
  then have fits: "n \<le> length (take c ?blocks) * ?bs" unfolding len using up by simp
  have "length (take c ?blocks) * ?bs < 2 ^ 63 + ?bs" unfolding len using d(8) by simp
  then have "mb_inv io'"
    using assms fits False d(7) unfolding mb_inv_def io'_def by (auto dest: in_set_takeD)
  moreover have "take n (concat (take c ?blocks)) = take n (concat ?blocks)"
  proof -
    have "length (concat (take c ?blocks)) = length (take c ?blocks) * ?bs"
      using d(4) by (intro length_concat_const) (auto dest: in_set_takeD)
    moreover have "concat ?blocks = concat (take c ?blocks) @ concat (drop c ?blocks)"
      by (metis append_take_drop_id concat_append)
    ultimately show ?thesis using fits by simp
  qed
  then have "mb_bytes io' = take n (mb_bytes io)"
    using False by (simp add: mb_bytes_def io'_def min_absorb1)
  ultimately show ?thesis by (simp add: res)
qed

locale resizable_io = random_io +
  fixes rz :: "'a \<Rightarrow> nat \<Rightarrow> 'a result"
  assumes rz_ok: "inv io \<Longrightarrow> length (bytes io) \<le> n \<Longrightarrow> n < 2 ^ 63 \<Longrightarrow>
      \<exists>io'. rz io n = Inr io' \<and> inv io' \<and> length (bytes io') = n \<and> take (length (bytes io)) (bytes io') = bytes io"

context heap_allocator
begin

lemma block_io_storage: "random_io mb_inv mb_bytes (MemoryBlockIO_WriteImpl A) MemoryBlockIO_ReadImpl"
  by unfold_locales

lemma flat_io_storage: "random_io mio_inv mio_bytes (MemoryIO_WriteImpl A) MemoryIO_ReadImpl"
  by unfold_locales

lemma MemoryBlockIO_Resize_ok:
  assumes "mb_inv io" and "length (mb_bytes io) \<le> n" and "n < 2 ^ 63"
  shows "\<exists>io'. MemoryBlockIO_ResizeImpl A io n = Inr io' \<and> mb_inv io' \<and> length (mb_bytes io') = n \<and>
    take (length (mb_bytes io)) (mb_bytes io') = mb_bytes io"
proof (cases "n = mb_size io")
  case True
  then show ?thesis using assms length_mb_bytes by (simp add: MemoryBlockIO_ResizeImpl_def)
next
  case False
  then have less: "mb_size io < n" using assms(1,2) length_mb_bytes by simp
  from mb_realloc_ok [OF assms(1,3)]
  obtain m where m: "MemoryBlockIO_check_and_realloc A io n =
        Inr (io\<lparr>mb_blocks := mb_blocks io @ replicate m (replicate (mb_block_size io) 0)\<rparr>)"
      "n \<le> (length (mb_blocks io) + m) * mb_block_size io"
      "mb_inv (io\<lparr>mb_blocks := mb_blocks io @ replicate m (replicate (mb_block_size io) 0)\<rparr>)" .
  define io' where "io' = io\<lparr>mb_blocks := mb_blocks io @ replicate m (replicate (mb_block_size io) 0), mb_size := n\<rparr>"
  have "MemoryBlockIO_ResizeImpl A io n = Inr io'"
    using less m(1) by (simp add: MemoryBlockIO_ResizeImpl_def io'_def)
  moreover have "mb_inv io'" using m(2,3) assms(3) by (auto simp: mb_inv_def io'_def)
  moreover have "take (mb_size io) (mb_bytes io') = mb_bytes io"
    using less mb_invD(5,6) [OF assms(1)] by (simp add: mb_bytes_def io'_def min_absorb1)
  ultimately show ?thesis
    using length_mb_bytes [of io'] length_mb_bytes [OF assms(1)] by (auto simp: io'_def)
qed

lemma MemoryIO_Resize_ok:
  assumes "mio_inv io" and "length (mio_bytes io) \<le> n" and "n < 2 ^ 63"
  shows "\<exists>io'. MemoryIO_ResizeImpl A io n = Inr io' \<and> mio_inv io' \<and> length (mio_bytes io') = n \<and>
    take (length (mio_bytes io)) (mio_bytes io') = mio_bytes io"
proof (cases "n = mio_size io")
  case True
  then show ?thesis using assms length_mio_bytes by (simp add: MemoryIO_ResizeImpl_def)
next
  case False
  then have less: "mio_size io < n" using assms(1,2) length_mio_bytes by simp
  obtain p where p: "Reallocate A (mio_buffer io) n = Some p" "length p = n"
      "take (min (length (mio_buffer io)) n) p = take n (mio_buffer io)"
    using Reallocate_ok by blast
  have "take (mio_size io) p = take (mio_size io) (take (min (length (mio_buffer io)) n) p)"
    using less assms(1) by (simp add: mio_inv_def min_absorb1)
  also have "\<dots> = mio_bytes io"
    unfolding p(3) using less by (simp add: mio_bytes_def min_absorb1)
  finally show ?thesis
    using less p(1,2) assms length_mio_bytes [OF assms(1)]
    by (auto simp: MemoryIO_ResizeImpl_def MemoryIO_check_and_realloc_def mio_inv_def mio_bytes_def)
qed

end

sublocale heap_allocator \<subseteq> block_rio: resizable_io mb_inv mb_bytes "MemoryBlockIO_WriteImpl A"
  MemoryBlockIO_ReadImpl "MemoryBlockIO_ResizeImpl A"
  by unfold_locales (rule MemoryBlockIO_Resize_ok)

sublocale heap_allocator \<subseteq> flat_rio: resizable_io mio_inv mio_bytes "MemoryIO_WriteImpl A"
  MemoryIO_ReadImpl "MemoryIO_ResizeImpl A"
  by unfold_locales (rule MemoryIO_Resize_ok)

section \<open>Properties\<close>

text \<open>C28: the block storage implements one growing byte string. For every allocator that serves all
  requests, a write below \<open>2 ^ 63\<close> succeeds, stays inside its blocks, and changes exactly the bytes
  written; a read, copied across block boundaries or direct, then delivers exactly the bytes of the
  string, and answers \<open>false\<close> past its end. Shrinking cuts the string.\<close>

theorem block_io_refines_bytes:
  assumes "heap_allocator A" and "mb_inv io" and "off + length data < 2 ^ 63"
  shows "\<exists>io'. MemoryBlockIO_WriteImpl A io data off = Inr io' \<and> mb_inv io' \<and>
    written (mb_bytes io) data off (mb_bytes io') \<and>
    (\<forall>p n. p + n < 2 ^ 63 \<longrightarrow>
      MemoryBlockIO_ReadImpl io' n p =
        Inr (if p + n \<le> length (mb_bytes io') then Some (take n (drop p (mb_bytes io'))) else None) \<and>
      (0 < n \<longrightarrow> (\<exists>release. MemoryBlockIO_DirectReadImpl io' n p =
        Inr (if p + n \<le> length (mb_bytes io') then Some (take n (drop p (mb_bytes io')), release) else None)))) \<and>
    (\<forall>n. mb_inv (MemoryBlockIO_ShrinkImpl io' n) \<and>
      mb_bytes (MemoryBlockIO_ShrinkImpl io' n) = take n (mb_bytes io'))"
proof -
  obtain io' where io': "MemoryBlockIO_WriteImpl A io data off = Inr io'" "mb_inv io'"
      "written (mb_bytes io) data off (mb_bytes io')"
    using heap_allocator.MemoryBlockIO_Write_ok [OF assms] by blast
  have "MemoryBlockIO_ReadImpl io' n p =
      Inr (if p + n \<le> length (mb_bytes io') then Some (take n (drop p (mb_bytes io'))) else None)"
    if "p + n < 2 ^ 63" for p n
    using MemoryBlockIO_Read_ok [OF io'(2), of p n] MemoryBlockIO_Read_short [OF io'(2), of p n] that by auto
  moreover have "\<exists>release. MemoryBlockIO_DirectReadImpl io' n p =
      Inr (if p + n \<le> length (mb_bytes io') then Some (take n (drop p (mb_bytes io')), release) else None)"
    if "p + n < 2 ^ 63" "0 < n" for p n
    using MemoryBlockIO_DirectRead_ok [OF io'(2) that(2,1)] length_mb_bytes [OF io'(2)] by auto
  ultimately show ?thesis
    using io' MemoryBlockIO_Shrink_ok [OF io'(2)] by blast
qed

theorem block_io_refines_bytes_witness:
  "\<exists>io'. MemoryBlockIO_WriteImpl libc_allocator (MemoryBlockIO_new 5) [1, 2, 3, 4, 5, 6] 2 = Inr io' \<and>
    MemoryBlockIO_ReadImpl io' 6 2 = Inr (Some [1, 2, 3, 4, 5, 6]) \<and>
    MemoryBlockIO_ReadImpl io' 7 2 = Inr None"
proof -
  have new: "mb_inv (MemoryBlockIO_new 5)" "mb_bytes (MemoryBlockIO_new 5) = []"
    using MemoryBlockIO_new_inv [of 5] by simp_all
  obtain io' where io': "MemoryBlockIO_WriteImpl libc_allocator (MemoryBlockIO_new 5) [1, 2, 3, 4, 5, 6] 2 = Inr io'"
      "written [] [1, 2, 3, 4, 5, 6] 2 (mb_bytes io')"
      "\<forall>p n. p + n < 2 ^ 63 \<longrightarrow> MemoryBlockIO_ReadImpl io' n p =
        Inr (if p + n \<le> length (mb_bytes io') then Some (take n (drop p (mb_bytes io'))) else None)"
    using block_io_refines_bytes [OF libc.heap_allocator_axioms new(1), of 2 "[1, 2, 3, 4, 5, 6]"] new(2) by auto
  have "length (mb_bytes io') = 8" "drop 2 (mb_bytes io') = [1, 2, 3, 4, 5, 6]"
    using written_new [OF io'(2)] by simp_all
  then show ?thesis
    using io'(1) spec [OF spec [OF io'(3), of 2], of 6] spec [OF spec [OF io'(3), of 2], of 7] by simp
qed

text \<open>C29: a storage that is serialized and read into an empty one holds the same bytes, whatever the
  buffer held before, and the reader stops at its end; shown for the block storage.\<close>

theorem basic_io_roundtrip:
  assumes "heap_allocator A" and "mb_inv io" and "mb_inv io0" and "mb_bytes io0 = []"
    and "length (mb_bytes io) + 8 + length s < 2 ^ 63"
  shows "\<exists>out io' r. BasicIO_Serialize MemoryBlockIO_ReadImpl io (mb_size io) buffer = Inr out \<and>
    BasicIO_Deserialize ForwardStreamReader_Read (MemoryBlockIO_WriteImpl A) io0 (open_forward (concat out @ s)) =
      Inr (io', r) \<and> mb_inv io' \<and> mb_bytes io' = mb_bytes io \<and> fr_istream r = s"
proof -
  have rio: "random_io mb_inv mb_bytes (MemoryBlockIO_WriteImpl A) MemoryBlockIO_ReadImpl"
    by (rule heap_allocator.block_io_storage [OF assms(1)])
  have str: "io_stream mb_inv mb_bytes (MemoryBlockIO_WriteImpl A) MemoryBlockIO_ReadImpl
      ForwardStreamReader_Read fr_istream fr_ok"
    by (intro io_stream.intro rio fwd.byte_source_axioms)
  obtain out where out: "BasicIO_Serialize MemoryBlockIO_ReadImpl io (mb_size io) buffer = Inr out"
      "concat out = enc_u64 (word_of_nat (length (mb_bytes io))) @ mb_bytes io"
    using random_io.BasicIO_Serialize_ok [OF rio assms(2), of buffer] length_mb_bytes [OF assms(2)] by auto
  have "\<exists>io' r. BasicIO_Deserialize ForwardStreamReader_Read (MemoryBlockIO_WriteImpl A) io0
      (open_forward (concat out @ s)) = Inr (io', r) \<and> mb_inv io' \<and> mb_bytes io' = mb_bytes io \<and>
      fr_ok r \<and> fr_istream r = s"
    by (rule io_stream.BasicIO_Deserialize_ok [OF str assms(3)]) (use out(2) assms(4,5) in simp_all)
  then show ?thesis using out(1) by blast
qed

theorem basic_io_roundtrip_witness:
  "\<exists>io out io' r. MemoryBlockIO_WriteImpl libc_allocator (MemoryBlockIO_new 4) [1, 2, 3, 4, 5] 0 = Inr io \<and>
    BasicIO_Serialize MemoryBlockIO_ReadImpl io (mb_size io) [] = Inr out \<and>
    BasicIO_Deserialize ForwardStreamReader_Read (MemoryBlockIO_WriteImpl libc_allocator) (MemoryBlockIO_new 2)
      (open_forward (concat out @ [9])) = Inr (io', r) \<and> mb_bytes io' = [1, 2, 3, 4, 5] \<and> fr_istream r = [9]"
proof -
  have new: "mb_inv (MemoryBlockIO_new 4)" "mb_bytes (MemoryBlockIO_new 4) = []"
      "mb_inv (MemoryBlockIO_new 2)" "mb_bytes (MemoryBlockIO_new 2) = []"
    using MemoryBlockIO_new_inv [of 4] MemoryBlockIO_new_inv [of 2] by simp_all
  obtain io where io: "MemoryBlockIO_WriteImpl libc_allocator (MemoryBlockIO_new 4) [1, 2, 3, 4, 5] 0 = Inr io"
      "mb_inv io" "written [] [1, 2, 3, 4, 5] 0 (mb_bytes io)"
    using libc.MemoryBlockIO_Write_ok [OF new(1), of 0 "[1, 2, 3, 4, 5]"] new(2) by auto
  have "mb_bytes io = [1, 2, 3, 4, 5]" using written_new [OF io(3)] by simp
  then show ?thesis
    using basic_io_roundtrip [OF libc.heap_allocator_axioms io(2) new(3,4), of "[9]" "[]"] io(1) by auto
qed

end
