(* ===== verification/DenseGraph.thy ===== *)
theory DenseGraph
  imports GraphInterface BasicIO
begin

text \<open>
  The flat graph storage \<open>GraphDataCell<IOTmpl>\<close> of \<^verbatim>\<open>src/src/datacell/graph_datacell.h\<close>: one line of
  \<open>code_line_size_\<close> bytes per vertex in a random-access storage, the number of edges followed by the
  edges. The operations of the storage template, \<open>WriteImpl\<close>, \<open>ReadImpl\<close> and \<open>ResizeImpl\<close>, are
  arguments \<open>wr\<close>, \<open>rd\<close> and \<open>rz\<close>; the proofs are done in the locale \<open>random_io\<close> and hold for every
  storage that satisfies it, the block storage in particular.

  With deletion enabled an edge is stamped with the version of its target, as in the sparse storage,
  but the versions are a vector indexed by id. The invariant \<open>gd_inv\<close> describes a graph in which
  every edge is current; insertion keeps it, and under it the storage is an \<open>edge_store\<close>. The weaker
  \<open>gd_wf\<close> holds after deletions too.
\<close>

section \<open>State and operations\<close>

record ('d, 'io) GraphDataCell = "'d GraphInterface" +
  gd_io :: 'io
  gd_node_versions :: "byte list"
  gd_is_support_delete :: bool
  gd_remove_flag_bit :: u32
  gd_id_bit :: u32
  gd_remove_flag_mask :: u32
  gd_code_line_size :: u32

definition GraphDataCell_new ::
    "'io \<Rightarrow> u32 \<Rightarrow> InnerIdType \<Rightarrow> bool \<Rightarrow> u32 \<Rightarrow> bool \<Rightarrow> bool \<Rightarrow> (DenseDuplicateTracker, 'io) GraphDataCell result" where
  "GraphDataCell_new io max_degree init_max_capacity support_remove flag_bit use_reverse_edges support_duplicate =
     (let idb = 32 - flag_bit in
      bind_r (flag_mask_of idb) (\<lambda>flag_mask.
        Inr \<lparr>max_capacity = init_max_capacity, maximum_degree = max_degree, g_total_count = 0,
             g_duplicate_tracker =
               (if support_duplicate then Some (Dense_Resize DenseDuplicateTracker_new init_max_capacity)
                else None),
             reverse_edges = (if use_reverse_edges then Some Map.empty else None),
             gd_io = io,
             gd_node_versions = (if support_remove then replicate (unat init_max_capacity) 0 else []),
             gd_is_support_delete = support_remove, gd_remove_flag_bit = flag_bit, gd_id_bit = idb,
             gd_remove_flag_mask = flag_mask,
             gd_code_line_size = word_of_nat (unat max_degree * 4 + 4)\<rparr>))"

definition line_start :: "('d, 'io) GraphDataCell \<Rightarrow> InnerIdType \<Rightarrow> nat" where
  "line_start g i = unat i * unat (gd_code_line_size g)"

text \<open>Reading a \<open>uint32_t\<close> that stays 0 when the read fails.\<close>

definition read_count ::
    "('io \<Rightarrow> nat \<Rightarrow> nat \<Rightarrow> byte list option result) \<Rightarrow> ('d, 'io) GraphDataCell \<Rightarrow> InnerIdType \<Rightarrow> u32 result" where
  "read_count rd g i =
     bind_r (rd (gd_io g) 4 (line_start g i)) (\<lambda>d.
       Inr (case d of None \<Rightarrow> 0 | Some bs \<Rightarrow> dec_u32 bs))"

definition GraphDataCell_GetNeighborSize ::
    "('io \<Rightarrow> nat \<Rightarrow> nat \<Rightarrow> byte list option result) \<Rightarrow> ('d, 'io) GraphDataCell \<Rightarrow> InnerIdType \<Rightarrow> u32 result" where
  "GraphDataCell_GetNeighborSize rd g i = read_count rd g i"

text \<open>A vector of ids filled by one read, which keeps its contents when the read fails.\<close>

definition read_ids ::
    "('io \<Rightarrow> nat \<Rightarrow> nat \<Rightarrow> byte list option result) \<Rightarrow> 'io \<Rightarrow> u32 list \<Rightarrow> nat \<Rightarrow> u32 list result" where
  "read_ids rd io buf start =
     bind_r (rd io (length buf * 4) start) (\<lambda>d.
       Inr (case d of None \<Rightarrow> buf | Some bs \<Rightarrow> map dec_u32 (chunks_of 4 (length buf) bs)))"

fun current_ids :: "nat \<Rightarrow> u32 \<Rightarrow> byte list \<Rightarrow> u32 list \<Rightarrow> InnerIdType list result" where
  "current_ids b flag_mask versions [] = Inr []"
| "current_ids b flag_mask versions (n # ns) =
     (let neighbor_version = stamp_version b n; neighbor_id = stamp_id flag_mask n in
      if unat neighbor_id < length versions then
        bind_r (current_ids b flag_mask versions ns) (\<lambda>ids.
          Inr (if versions ! unat neighbor_id = neighbor_version then neighbor_id # ids else ids))
      else Inl UndefinedBehaviour)"

definition GraphDataCell_GetNeighbors ::
    "('io \<Rightarrow> nat \<Rightarrow> nat \<Rightarrow> byte list option result) \<Rightarrow> ('d, 'io) GraphDataCell \<Rightarrow> InnerIdType \<Rightarrow>
     InnerIdType list \<Rightarrow> InnerIdType list result" where
  "GraphDataCell_GetNeighbors rd g i neighbor_ids =
     bind_r (read_count rd g i) (\<lambda>neighbor_count.
       if neighbor_count > maximum_degree g then Inr []
       else if gd_is_support_delete g then
         (let neighbor_count = neighbor_count AND gd_remove_flag_mask g in
          bind_r (read_ids rd (gd_io g) (replicate (unat neighbor_count) 0) (line_start g i + 4)) (\<lambda>shared.
            current_ids (unat (gd_id_bit g)) (gd_remove_flag_mask g) (gd_node_versions g) shared))
       else
         read_ids rd (gd_io g) (vresize (unat neighbor_count) 0 neighbor_ids) (line_start g i + 4))"

fun stamp_ids :: "nat \<Rightarrow> byte list \<Rightarrow> InnerIdType list \<Rightarrow> u32 list result" where
  "stamp_ids b versions [] = Inr []"
| "stamp_ids b versions (n # ns) =
     (if unat n < length versions then
        bind_r (stamp_ids b versions ns) (\<lambda>stamps. Inr (stamp b n (versions ! unat n) # stamps))
      else Inl UndefinedBehaviour)"

text \<open>
  The loop that raises \<open>total_count_\<close> by compare-and-exchange ends, without interference of other
  threads, with the maximum.
\<close>

definition GraphDataCell_InsertNeighborsById ::
    "('io \<Rightarrow> byte list \<Rightarrow> nat \<Rightarrow> 'io result) \<Rightarrow> ('io \<Rightarrow> nat \<Rightarrow> nat \<Rightarrow> byte list option result) \<Rightarrow>
     ('d, 'io) GraphDataCell \<Rightarrow> InnerIdType \<Rightarrow> InnerIdType list \<Rightarrow> ('d, 'io) GraphDataCell result" where
  "GraphDataCell_InsertNeighborsById wr rd g i neighbor_ids =
     (if length neighbor_ids > unat (maximum_degree g) then Inl StdInvalidArgument
      else
        bind_r (if reverse_edges g \<noteq> None \<and> i < g_total_count g
                then GraphDataCell_GetNeighbors rd g i [] else Inr []) (\<lambda>old_neighbors.
        let g = UpdateReverseEdges g i old_neighbors neighbor_ids;
            g = g\<lparr>g_total_count := max (g_total_count g) (i + 1)\<rparr>;
            start = line_start g i;
            neighbor_count = min (word_of_nat (length neighbor_ids)) (maximum_degree g) in
        bind_r (wr (gd_io g) (enc_u32 neighbor_count) start) (\<lambda>io.
        bind_r (if gd_is_support_delete g
                then stamp_ids (unat (gd_id_bit g)) (gd_node_versions g) neighbor_ids
                else Inr neighbor_ids) (\<lambda>ids.
        bind_r (wr io (concat (map enc_u32 (take (unat neighbor_count) ids))) (start + 4)) (\<lambda>io.
          Inr (g\<lparr>gd_io := io\<rparr>))))))"

definition GraphDataCell_CheckIdExists :: "('d, 'io) GraphDataCell \<Rightarrow> InnerIdType \<Rightarrow> bool" where
  "GraphDataCell_CheckIdExists g i \<longleftrightarrow> i < g_total_count g \<and> i < max_capacity g"

definition GraphDataCell_Resize ::
    "('io \<Rightarrow> nat \<Rightarrow> 'io result) \<Rightarrow> ('d \<Rightarrow> InnerIdType \<Rightarrow> 'd) \<Rightarrow> ('d, 'io) GraphDataCell \<Rightarrow> InnerIdType \<Rightarrow>
     ('d, 'io) GraphDataCell result" where
  "GraphDataCell_Resize rz dt_resize g new_size =
     (if new_size < max_capacity g then Inr g
      else if gd_is_support_delete g \<and> new_size > gd_remove_flag_mask g then Inl (Vsag INTERNAL_ERROR)
      else
        (let g = (if gd_is_support_delete g
                  then g\<lparr>gd_node_versions := vresize (unat new_size) 0 (gd_node_versions g)\<rparr> else g) in
         bind_r (rz (gd_io g) (unat new_size * unat (gd_code_line_size g))) (\<lambda>io.
           Inr (g\<lparr>gd_io := io, max_capacity := new_size,
                  g_duplicate_tracker := map_option (\<lambda>d. dt_resize d new_size) (g_duplicate_tracker g)\<rparr>))))"

definition GraphDataCell_DeleteNeighborsById ::
    "('d, 'io) GraphDataCell \<Rightarrow> InnerIdType \<Rightarrow> ('d, 'io) GraphDataCell result" where
  "GraphDataCell_DeleteNeighborsById g i =
     (if gd_is_support_delete g then
        (if i < max_capacity g then
           (if \<not> unat i < length (gd_node_versions g) then Inl UndefinedBehaviour
            else
              (let v = gd_node_versions g ! unat i in
               if uint v + 1 = 0 then Inl (Vsag INTERNAL_ERROR)
               else Inr (g\<lparr>gd_node_versions := (gd_node_versions g)[unat i := v + 1]\<rparr>)))
         else Inl (Vsag INTERNAL_ERROR))
      else Inl (Vsag UNSUPPORTED_INDEX_OPERATION))"

definition GraphDataCell_RecoverDeleteNeighborsById ::
    "('d, 'io) GraphDataCell \<Rightarrow> InnerIdType \<Rightarrow> ('d, 'io) GraphDataCell result" where
  "GraphDataCell_RecoverDeleteNeighborsById g i =
     (if gd_is_support_delete g then
        (if i < max_capacity g then
           (if \<not> unat i < length (gd_node_versions g) then Inl UndefinedBehaviour
            else
              (let v = gd_node_versions g ! unat i in
               if v = 0 then Inl (Vsag INTERNAL_ERROR)
               else Inr (g\<lparr>gd_node_versions := (gd_node_versions g)[unat i := v - 1]\<rparr>)))
         else Inl (Vsag INTERNAL_ERROR))
      else Inl (Vsag UNSUPPORTED_INDEX_OPERATION))"

definition GraphDataCell_Move ::
    "('io \<Rightarrow> byte list \<Rightarrow> nat \<Rightarrow> 'io result) \<Rightarrow> ('io \<Rightarrow> nat \<Rightarrow> nat \<Rightarrow> byte list option result) \<Rightarrow>
     ('d, 'io) GraphDataCell \<Rightarrow> InnerIdType \<Rightarrow> InnerIdType \<Rightarrow> ('d, 'io) GraphDataCell result" where
  "GraphDataCell_Move wr rd g from to =
     (if from = to then Inr g
      else
        bind_r (move_edges (GraphDataCell_GetNeighbors rd) (GraphDataCell_InsertNeighborsById wr rd)
                  GetIncomingNeighbors g from to) (\<lambda>g.
          if gd_is_support_delete g then
            (if unat from < length (gd_node_versions g) \<and> unat to < length (gd_node_versions g)
             then Inr (g\<lparr>gd_node_versions := (gd_node_versions g)[unat to := gd_node_versions g ! unat from]\<rparr>)
             else Inl UndefinedBehaviour)
          else Inr g))"

definition GraphDataCell_ShrinkToFit ::
    "('io \<Rightarrow> nat \<Rightarrow> 'io) \<Rightarrow> ('d, 'io) GraphDataCell \<Rightarrow> InnerIdType \<Rightarrow> ('d, 'io) GraphDataCell" where
  "GraphDataCell_ShrinkToFit sk g capacity =
     g\<lparr>gd_io := sk (gd_io g) (unat capacity * unat (gd_code_line_size g)),
       gd_node_versions := (if gd_is_support_delete g then vresize (unat capacity) 0 (gd_node_versions g)
                            else gd_node_versions g),
       max_capacity := capacity\<rparr>"

text \<open>
  The two loops of \<open>MergeOther\<close>. \<open>other\<close> is \<open>None\<close> when the pointer is to another kind of graph. The
  loops count in \<open>int\<close>, so they end for fewer than \<open>2 ^ 31\<close> vertices.
\<close>

fun gd_merge_versions :: "byte list \<Rightarrow> nat \<Rightarrow> nat list \<Rightarrow> byte list \<Rightarrow> byte list result" where
  "gd_merge_versions other_versions bias [] versions = Inr versions"
| "gd_merge_versions other_versions bias (i # is) versions =
     (if wrap64 (i + bias) < length versions \<and> i < length other_versions
      then gd_merge_versions other_versions bias is (versions[wrap64 (i + bias) := other_versions ! i])
      else Inl UndefinedBehaviour)"

fun gd_merge_edges ::
    "('io \<Rightarrow> byte list \<Rightarrow> nat \<Rightarrow> 'io result) \<Rightarrow> ('io \<Rightarrow> nat \<Rightarrow> nat \<Rightarrow> byte list option result) \<Rightarrow>
     ('d, 'io) GraphDataCell \<Rightarrow> u64 \<Rightarrow> nat list \<Rightarrow> InnerIdType list \<Rightarrow> ('d, 'io) GraphDataCell \<Rightarrow>
     ('d, 'io) GraphDataCell result" where
  "gd_merge_edges wr rd other bias [] neighbor_ids g = Inr g"
| "gd_merge_edges wr rd other bias (i # is) neighbor_ids g =
     bind_r (GraphDataCell_GetNeighbors rd other (word_of_nat i) neighbor_ids) (\<lambda>neighbor_ids.
     let neighbor_ids = map (\<lambda>n. n + ucast bias) neighbor_ids in
     bind_r (GraphDataCell_InsertNeighborsById wr rd g (word_of_nat i + ucast bias) neighbor_ids) (\<lambda>g.
       gd_merge_edges wr rd other bias is neighbor_ids g))"

definition GraphDataCell_MergeOther ::
    "('io \<Rightarrow> byte list \<Rightarrow> nat \<Rightarrow> 'io result) \<Rightarrow> ('io \<Rightarrow> nat \<Rightarrow> nat \<Rightarrow> byte list option result) \<Rightarrow>
     ('d, 'io) GraphDataCell \<Rightarrow> ('d, 'io) GraphDataCell option \<Rightarrow> u64 \<Rightarrow> ('d, 'io) GraphDataCell result" where
  "GraphDataCell_MergeOther wr rd g other bias =
     (case other of
        None \<Rightarrow> Inl (Vsag INTERNAL_ERROR)
      | Some other_graph \<Rightarrow>
          if maximum_degree g \<noteq> maximum_degree other_graph then Inl (Vsag INTERNAL_ERROR)
          else
            (let is = [0..<unat (g_total_count other_graph)] in
             bind_r (if gd_is_support_delete g
                     then gd_merge_versions (gd_node_versions other_graph) (unat bias) is (gd_node_versions g)
                     else Inr (gd_node_versions g)) (\<lambda>versions.
               gd_merge_edges wr rd other_graph bias is [] (g\<lparr>gd_node_versions := versions\<rparr>))))"

definition GraphDataCell_Serialize ::
    "('d \<Rightarrow> byte list list exec) \<Rightarrow> ('io \<Rightarrow> byte list list result) \<Rightarrow> ('d, 'io) GraphDataCell \<Rightarrow>
     byte list list exec" where
  "GraphDataCell_Serialize dt_ser io_ser g =
     bind_e (GraphInterface_Serialize dt_ser g) (\<lambda>base.
     bind_e (Some (io_ser (gd_io g))) (\<lambda>io.
       Some (Inr (base @ io @ WriteObj (enc_u32 (gd_code_line_size g)) @
                  (if gd_is_support_delete g then WriteVector (\<lambda>b. [b]) (gd_node_versions g) else [])))))"

definition GraphDataCell_Deserialize ::
    "('d \<Rightarrow> 'r \<Rightarrow> ('d \<times> 'r) result) \<Rightarrow> ('io \<Rightarrow> 'r \<Rightarrow> ('io \<times> 'r) result) \<Rightarrow> 'r read_op \<Rightarrow>
     ('d, 'io) GraphDataCell \<Rightarrow> 'r \<Rightarrow> (('d, 'io) GraphDataCell \<times> 'r) result" where
  "GraphDataCell_Deserialize dt_deser io_deser rdr g r =
     bind_r (GraphInterface_Deserialize dt_deser rdr g r) (\<lambda>(g, r).
     bind_r (io_deser (gd_io g) r) (\<lambda>(io, r).
     bind_r (ReadObj rdr 4 dec_u32 r) (\<lambda>(line_size, r).
     bind_r (if gd_is_support_delete g then ReadVector rdr 1 hd r else Inr (gd_node_versions g, r)) (\<lambda>(versions, r).
       Inr (g\<lparr>gd_io := io, gd_code_line_size := line_size, gd_node_versions := versions\<rparr>, r)))))"

section \<open>Lines of a storage\<close>

text \<open>
  \<open>line_at B L j ns\<close>: the line of vertex \<open>j\<close> in the byte string \<open>B\<close> holds exactly the edges \<open>ns\<close>.
\<close>

definition line_bytes :: "u32 list \<Rightarrow> byte list" where
  "line_bytes ns = enc_u32 (word_of_nat (length ns)) @ concat (map enc_u32 ns)"

definition line_at :: "byte list \<Rightarrow> nat \<Rightarrow> nat \<Rightarrow> u32 list \<Rightarrow> bool" where
  "line_at B L j ns \<longleftrightarrow> take (length (line_bytes ns)) (drop (j * L) B) = line_bytes ns"

definition line_edges :: "byte list \<Rightarrow> nat \<Rightarrow> nat \<Rightarrow> u32 list" where
  "line_edges B L j =
     map dec_u32 (chunks_of 4 (unat (dec_u32 (take 4 (drop (j * L) B)))) (drop (j * L + 4) B))"

lemma length_line_bytes [simp]: "length (line_bytes ns) = 4 + 4 * length ns"
  using length_concat_const [of "map enc_u32 ns" 4] by (simp add: line_bytes_def)

lemma decode_ids: "map dec_u32 (chunks_of 4 (length ns) (concat (map enc_u32 ns) @ rest)) = ns"
  by (induction ns) auto

lemma line_atD:
  assumes "line_at B L j ns" and "length ns < 2 ^ 32"
  shows "j * L + 4 + 4 * length ns \<le> length B"
    and "take 4 (drop (j * L) B) = enc_u32 (word_of_nat (length ns))"
    and "take (4 * length ns) (drop (j * L + 4) B) = concat (map enc_u32 ns)"
    and "line_edges B L j = ns"
proof -
  let ?k = "4 + 4 * length ns" and ?c = "concat (map enc_u32 ns)"
  have t: "take ?k (drop (j * L) B) = line_bytes ns" using assms(1) by (simp add: line_at_def)
  have "length (take ?k (drop (j * L) B)) = ?k" unfolding t by simp
  then have "?k \<le> length B - j * L" by simp
  then show "j * L + 4 + 4 * length ns \<le> length B" by simp
  have d: "drop (j * L) B = line_bytes ns @ drop ?k (drop (j * L) B)"
    using t by (metis append_take_drop_id)
  then show four: "take 4 (drop (j * L) B) = enc_u32 (word_of_nat (length ns))"
    by (metis append_assoc append_eq_conv_conj length_enc(2) line_bytes_def)
  have d4: "drop (j * L + 4) B = ?c @ drop ?k (drop (j * L) B)"
    using arg_cong [OF d, of "drop 4"] by (simp add: line_bytes_def add.commute)
  then show "take (4 * length ns) (drop (j * L + 4) B) = ?c"
    using length_concat_const [of "map enc_u32 ns" 4] by simp
  have "unat (word_of_nat (length ns) :: u32) = length ns" using assms(2) by (simp add: unat_word_of_nat_u32)
  then show "line_edges B L j = ns"
    unfolding line_edges_def four d4 by (simp only: dec_enc_u32 decode_ids)
qed

lemma written_append:
  assumes "written B d1 off B1" and "written B1 d2 (off + length d1) B2"
  shows "written B (d1 @ d2) off B2"
proof -
  have len: "length B2 = max (length B) (off + length (d1 @ d2))"
    using assms by (auto simp: written_def)
  have l1: "length B1 = max (length B) (off + length d1)" using assms(1) by (simp add: written_def)
  have keep: "B2 ! i = B1 ! i" if "i < length B1" "i < off + length d1 \<or> off + length d1 + length d2 \<le> i" for i
    using assms(2) that by (auto simp: written_def)
  have "take (length d1) (drop off B2) = take (length d1) (drop off B1)"
    using l1 len by (intro nth_equalityI) (auto simp: keep)
  then have "take (length (d1 @ d2)) (drop off B2) = d1 @ d2"
    using assms by (simp add: written_def take_add add.commute)
  moreover have "B2 ! i = B ! i" if "i < length B" "i < off \<or> off + length (d1 @ d2) \<le> i" for i
    using that assms(1) keep [of i] by (auto simp: written_def)
  ultimately show ?thesis using len by (auto simp: written_def)
qed

lemma written_other:
  assumes "written B d off B'" and "p + k \<le> length B" and "p + k \<le> off \<or> off + length d \<le> p"
  shows "take k (drop p B') = take k (drop p B)"
  using assms by (intro nth_equalityI) (auto simp: written_def)

lemma written_line_at:
  assumes "written B (line_bytes ns) (j * L) B'"
  shows "line_at B' L j ns"
  using assms by (simp add: written_def line_at_def)

lemma written_line_other:
  assumes "written B (line_bytes ns) (i * L) B'" and "line_at B L j ms" and "i \<noteq> j"
    and "length ns < 2 ^ 32" and "length ms < 2 ^ 32" and "4 + 4 * length ns \<le> L" and "4 + 4 * length ms \<le> L"
  shows "line_at B' L j ms"
proof -
  have "j * L + (4 + 4 * length ms) \<le> i * L \<or> i * L + (4 + 4 * length ns) \<le> j * L"
  proof (cases "j < i")
    case True
    then have "(j + 1) * L \<le> i * L" by (intro mult_le_mono1) simp
    then show ?thesis using assms(7) by simp
  next
    case False
    then have "(i + 1) * L \<le> j * L" using assms(3) by (intro mult_le_mono1) simp
    then show ?thesis using assms(6) by simp
  qed
  then have "take (4 + 4 * length ms) (drop (j * L) B') = take (4 + 4 * length ms) (drop (j * L) B)"
    using line_atD(1) [OF assms(2,5)] by (intro written_other [OF assms(1)]) simp_all
  then show ?thesis using assms(2) by (simp add: line_at_def)
qed

section \<open>Invariant and abstraction\<close>

abbreviation gd_line :: "('d, 'io) GraphDataCell \<Rightarrow> nat" where
  "gd_line g \<equiv> unat (gd_code_line_size g)"

definition gd_ids :: "('d, 'io) GraphDataCell \<Rightarrow> u32 list \<Rightarrow> InnerIdType list" where
  "gd_ids g ns = (if gd_is_support_delete g then map (stamp_id (gd_remove_flag_mask g)) ns else ns)"

definition gd_current :: "('d, 'io) GraphDataCell \<Rightarrow> u32 \<Rightarrow> bool" where
  "gd_current g n \<longleftrightarrow>
     (gd_is_support_delete g \<longrightarrow>
      gd_node_versions g ! unat (stamp_id (gd_remove_flag_mask g) n) = stamp_version (unat (gd_id_bit g)) n)"

definition gd_nbrs :: "('io \<Rightarrow> byte list) \<Rightarrow> ('d, 'io) GraphDataCell \<Rightarrow> InnerIdType \<Rightarrow> InnerIdType list" where
  "gd_nbrs bytes g i =
     (if i < g_total_count g then gd_ids g (line_edges (bytes (gd_io g)) (gd_line g) (unat i)) else [])"

text \<open>
  The layout: the line size follows from the degree, the bits of the stamps are split at a byte, and
  with deletion enabled every id below the capacity has a version.
\<close>

definition gd_layout :: "('d, 'io) GraphDataCell \<Rightarrow> bool" where
  "gd_layout g \<longleftrightarrow>
     gd_line g = 4 * unat (maximum_degree g) + 4 \<and>
     g_total_count g \<le> max_capacity g \<and>
     unat (max_capacity g) * gd_line g < 2 ^ 62 \<and>
     (gd_is_support_delete g \<longrightarrow>
        unat (gd_id_bit g) \<le> 24 \<and> gd_remove_flag_mask g = mask (unat (gd_id_bit g)) \<and>
        unat (maximum_degree g) < 2 ^ unat (gd_id_bit g) \<and>
        unat (max_capacity g) \<le> 2 ^ unat (gd_id_bit g) \<and>
        length (gd_node_versions g) = unat (max_capacity g))"

definition gd_wf :: "('io \<Rightarrow> bool) \<Rightarrow> ('io \<Rightarrow> byte list) \<Rightarrow> ('d, 'io) GraphDataCell \<Rightarrow> bool" where
  "gd_wf ok_io bytes g \<longleftrightarrow>
     ok_io (gd_io g) \<and> gd_layout g \<and>
     (\<forall>i. i < g_total_count g \<longrightarrow>
        (let ns = line_edges (bytes (gd_io g)) (gd_line g) (unat i) in
         line_at (bytes (gd_io g)) (gd_line g) (unat i) ns \<and> length ns \<le> unat (maximum_degree g) \<and>
         (\<forall>n \<in> set (gd_ids g ns). n < g_total_count g)))"

definition gd_inv :: "('io \<Rightarrow> bool) \<Rightarrow> ('io \<Rightarrow> byte list) \<Rightarrow> ('d, 'io) GraphDataCell \<Rightarrow> bool" where
  "gd_inv ok_io bytes g \<longleftrightarrow>
     gd_wf ok_io bytes g \<and>
     (\<forall>i. i < g_total_count g \<longrightarrow>
        (\<forall>n \<in> set (line_edges (bytes (gd_io g)) (gd_line g) (unat i)). gd_current g n)) \<and>
     (\<forall>re. reverse_edges g = Some re \<longrightarrow> re_exact re (gd_nbrs bytes g))"

text \<open>The edges that are not hidden by a deletion.\<close>

definition gd_live :: "('io \<Rightarrow> byte list) \<Rightarrow> ('d, 'io) GraphDataCell \<Rightarrow> InnerIdType \<Rightarrow> InnerIdType list" where
  "gd_live bytes g i =
     gd_ids g (filter (gd_current g) (line_edges (bytes (gd_io g)) (gd_line g) (unat i)))"

lemma gd_layoutD:
  assumes "gd_layout g"
  shows "gd_line g = 4 * unat (maximum_degree g) + 4"
    and "g_total_count g \<le> max_capacity g"
    and "unat (max_capacity g) * gd_line g < 2 ^ 62"
    and "gd_is_support_delete g \<Longrightarrow> unat (gd_id_bit g) \<le> 24"
    and "gd_is_support_delete g \<Longrightarrow> gd_remove_flag_mask g = mask (unat (gd_id_bit g))"
    and "gd_is_support_delete g \<Longrightarrow> unat (maximum_degree g) < 2 ^ unat (gd_id_bit g)"
    and "gd_is_support_delete g \<Longrightarrow> unat (max_capacity g) \<le> 2 ^ unat (gd_id_bit g)"
    and "gd_is_support_delete g \<Longrightarrow> length (gd_node_versions g) = unat (max_capacity g)"
  using assms unfolding gd_layout_def by blast+

lemma gd_wfD:
  assumes "gd_wf ok_io bytes g"
  shows "ok_io (gd_io g)" and "gd_layout g"
    and "i < g_total_count g \<Longrightarrow>
      line_at (bytes (gd_io g)) (gd_line g) (unat i) (line_edges (bytes (gd_io g)) (gd_line g) (unat i))"
    and "i < g_total_count g \<Longrightarrow>
      length (line_edges (bytes (gd_io g)) (gd_line g) (unat i)) \<le> unat (maximum_degree g)"
    and "n \<in> set (gd_nbrs bytes g i) \<Longrightarrow> i < g_total_count g \<and> n < g_total_count g"
  using assms unfolding gd_wf_def Let_def by (auto simp: gd_nbrs_def split: if_splits)

lemma gd_invD:
  assumes "gd_inv ok_io bytes g"
  shows "gd_wf ok_io bytes g"
    and "i < g_total_count g \<Longrightarrow> n \<in> set (line_edges (bytes (gd_io g)) (gd_line g) (unat i)) \<Longrightarrow> gd_current g n"
    and "reverse_edges g = Some re \<Longrightarrow> re_exact re (gd_nbrs bytes g)"
    and "i < g_total_count g \<Longrightarrow> gd_live bytes g i = gd_nbrs bytes g i"
  using assms unfolding gd_inv_def by (auto simp: gd_live_def gd_nbrs_def cong: filter_cong)

lemma gd_line_bound:
  assumes "gd_layout g" and "i < max_capacity g" and "k \<le> unat (maximum_degree g)"
  shows "unat i * gd_line g + (4 + 4 * k) \<le> unat (max_capacity g) * gd_line g"
proof -
  have "(unat i + 1) * gd_line g \<le> unat (max_capacity g) * gd_line g"
    using assms(2) by (intro mult_le_mono1) (simp add: word_less_nat_alt)
  then show ?thesis using gd_layoutD(1) [OF assms(1)] assms(3) by simp
qed

lemma stamp_ids_ok:
  "\<forall>n \<in> set ns. unat n < length vs \<Longrightarrow>
   stamp_ids b vs ns = Inr (map (\<lambda>n. stamp b n (vs ! unat n)) ns)"
  by (induction ns) auto

lemma current_ids_ok:
  "\<forall>n \<in> set ns. unat (stamp_id m n) < length vs \<Longrightarrow>
   current_ids b m vs ns = Inr (map (stamp_id m) (filter (\<lambda>n. vs ! unat (stamp_id m n) = stamp_version b n) ns))"
  by (induction ns) auto

lemma take_bit_small: "unat (w :: u32) < 2 ^ b \<Longrightarrow> take_bit b w = w"
  by (rule unsigned_word_eqI [where ?'a = nat]) (simp add: unsigned_take_bit_eq take_bit_nat_eq_self)

section \<open>Reading and inserting edges\<close>

lemma gd_nbrs_length: "gd_wf ok_io bytes g \<Longrightarrow> length (gd_nbrs bytes g i) \<le> unat (maximum_degree g)"
  using gd_wfD(4) [of ok_io bytes g i] by (simp add: gd_nbrs_def gd_ids_def)

context random_io
begin

lemma gd_get_live:
  assumes g: "gd_wf inv bytes g" and i: "i < g_total_count g"
  shows "GraphDataCell_GetNeighbors rd g i buf = Inr (gd_live bytes g i)"
proof -
  let ?B = "bytes (gd_io g)" and ?L = "gd_line g"
  define ns where "ns = line_edges ?B ?L (unat i)"
  have line: "line_at ?B ?L (unat i) ns" and len: "length ns \<le> unat (maximum_degree g)"
    using gd_wfD(3,4) [OF g i] by (simp_all add: ns_def)
  have len32: "length ns < 2 ^ 32" using len unat_u32_lt [of "maximum_degree g"] by simp
  note l = line_atD [OF line len32]
  have un: "unat (word_of_nat (length ns) :: u32) = length ns"
    using len32 by (simp add: unat_word_of_nat_u32)
  have count: "read_count rd g i = Inr (word_of_nat (length ns))"
    using rd_ok [OF gd_wfD(1) [OF g], of "unat i * ?L" 4] l(1,2) by (simp add: read_count_def line_start_def)
  have small: "\<not> maximum_degree g < word_of_nat (length ns)"
    using len un by (simp add: word_less_nat_alt)
  have ids: "read_ids rd (gd_io g) b (line_start g i + 4) = Inr ns" if "length b = length ns" for b
    using rd_ok [OF gd_wfD(1) [OF g], of "unat i * ?L + 4" "4 * length ns"] l(1,3) that
    by (simp add: read_ids_def line_start_def mult.commute [of 4] decode_ids [of ns "[]", simplified])
  show ?thesis
  proof (cases "gd_is_support_delete g")
    case True
    note d = gd_layoutD [OF gd_wfD(2) [OF g]]
    have "take_bit (unat (gd_id_bit g)) (word_of_nat (length ns) :: u32) = word_of_nat (length ns)"
      using len d(6) [OF True] un by (intro take_bit_small) simp
    then have mask: "word_of_nat (length ns) AND gd_remove_flag_mask g = word_of_nat (length ns)"
      by (simp add: d(5) [OF True] flip: take_bit_eq_mask)
    have "\<forall>n \<in> set ns. unat (stamp_id (gd_remove_flag_mask g) n) < length (gd_node_versions g)"
    proof
      fix n
      assume "n \<in> set ns"
      then have "stamp_id (gd_remove_flag_mask g) n < g_total_count g"
        using gd_wfD(5) [OF g, of "stamp_id (gd_remove_flag_mask g) n" i] i True
        by (auto simp: gd_nbrs_def gd_ids_def ns_def)
      then show "unat (stamp_id (gd_remove_flag_mask g) n) < length (gd_node_versions g)"
        using d(2) d(8) [OF True] by (simp add: word_less_nat_alt word_le_nat_alt)
    qed
    note cur = current_ids_ok [OF this, of "unat (gd_id_bit g)"]
    show ?thesis
      using True by (simp add: GraphDataCell_GetNeighbors_def count small mask un ids cur gd_live_def gd_current_def [abs_def] gd_ids_def flip: ns_def)
  next
    case False
    then show ?thesis
      by (simp add: GraphDataCell_GetNeighbors_def count small un ids gd_live_def gd_current_def [abs_def] gd_ids_def flip: ns_def)
  qed
qed

lemma gd_get_ok:
  assumes "gd_inv inv bytes g" and "i < g_total_count g"
  shows "GraphDataCell_GetNeighbors rd g i buf = Inr (gd_nbrs bytes g i)"
  using gd_get_live [OF gd_invD(1) [OF assms(1)] assms(2)] gd_invD(4) [OF assms] by simp

text \<open>The two writes of an insertion put one line in place.\<close>

lemma gd_write_line:
  assumes "inv io" and "off + 4 + 4 * length raw < 2 ^ 63"
  obtains io1 io2 where "wr io (enc_u32 (word_of_nat (length raw))) off = Inr io1"
    and "wr io1 (concat (map enc_u32 raw)) (off + 4) = Inr io2" and "inv io2"
    and "written (bytes io) (line_bytes raw) off (bytes io2)"
proof -
  have len: "length (concat (map enc_u32 raw)) = 4 * length raw"
    using length_concat_const [of "map enc_u32 raw" 4] by simp
  obtain io1 where io1: "wr io (enc_u32 (word_of_nat (length raw))) off = Inr io1" "inv io1"
      "written (bytes io) (enc_u32 (word_of_nat (length raw))) off (bytes io1)"
    using wr_ok [OF assms(1), of off "enc_u32 (word_of_nat (length raw))"] assms(2) by auto
  have "off + 4 + length (concat (map enc_u32 raw)) < 2 ^ 63" unfolding len by (rule assms(2))
  then obtain io2 where io2: "wr io1 (concat (map enc_u32 raw)) (off + 4) = Inr io2" "inv io2"
      "written (bytes io1) (concat (map enc_u32 raw)) (off + 4) (bytes io2)"
    using wr_ok [OF io1(2)] by blast
  have "written (bytes io) (line_bytes raw) off (bytes io2)"
    unfolding line_bytes_def by (rule written_append [OF io1(3)]) (simp add: io2(3))
  then show thesis using that io1(1) io2(1,2) by blast
qed

end

definition gd_raw :: "('d, 'io) GraphDataCell \<Rightarrow> InnerIdType list \<Rightarrow> u32 list" where
  "gd_raw g ns = (if gd_is_support_delete g
     then map (\<lambda>n. stamp (unat (gd_id_bit g)) n (gd_node_versions g ! unat n)) ns else ns)"

lemma gd_raw_ok:
  assumes "gd_layout g" and "\<And>n. n \<in> set ns \<Longrightarrow> n < max_capacity g"
  shows "length (gd_raw g ns) = length ns" and "gd_ids g (gd_raw g ns) = ns"
    and "n \<in> set (gd_raw g ns) \<Longrightarrow> gd_current g n"
    and "(if gd_is_support_delete g then stamp_ids (unat (gd_id_bit g)) (gd_node_versions g) ns else Inr ns) =
      Inr (gd_raw g ns)"
proof -
  note d = gd_layoutD [OF assms(1)]
  have ids: "stamp_id (gd_remove_flag_mask g) (stamp (unat (gd_id_bit g)) n v) = n"
    "stamp_version (unat (gd_id_bit g)) (stamp (unat (gd_id_bit g)) n v) = v"
    if "gd_is_support_delete g" "n \<in> set ns" for n v
  proof -
    have "unat n < 2 ^ unat (gd_id_bit g)"
      using assms(2) [OF that(2)] d(7) [OF that(1)] by (simp add: word_less_nat_alt)
    then have t: "take_bit (unat (gd_id_bit g)) n = n" by (rule take_bit_small)
    show "stamp_id (gd_remove_flag_mask g) (stamp (unat (gd_id_bit g)) n v) = n"
      "stamp_version (unat (gd_id_bit g)) (stamp (unat (gd_id_bit g)) n v) = v"
      using d(4,5) [OF that(1)] t by (simp_all add: stamp_id_stamp stamp_version_stamp)
  qed
  show "length (gd_raw g ns) = length ns" by (simp add: gd_raw_def)
  show "gd_ids g (gd_raw g ns) = ns" by (auto simp: gd_ids_def gd_raw_def ids intro: map_idI)
  show "gd_current g n" if "n \<in> set (gd_raw g ns)"
    using that by (auto simp: gd_current_def gd_raw_def ids split: if_splits)
  show "(if gd_is_support_delete g then stamp_ids (unat (gd_id_bit g)) (gd_node_versions g) ns else Inr ns) =
      Inr (gd_raw g ns)"
    using assms(2) d(8) by (auto simp: gd_raw_def word_less_nat_alt intro!: stamp_ids_ok)
qed

context random_io
begin

lemma gd_insert_fields:
  assumes g: "gd_inv inv bytes g" and i: "i < max_capacity g"
    and ns: "\<And>n. n \<in> set ns \<Longrightarrow> n < max_capacity g" and len: "length ns \<le> unat (maximum_degree g)"
  obtains io' where "inv io'"
    and "written (bytes (gd_io g)) (line_bytes (gd_raw g ns)) (unat i * gd_line g) (bytes io')"
    and "GraphDataCell_InsertNeighborsById wr rd g i ns =
      Inr (g\<lparr>reverse_edges := map_option (\<lambda>re. update_reverse re i (gd_nbrs bytes g i) ns) (reverse_edges g),
             g_total_count := max (g_total_count g) (i + 1), gd_io := io'\<rparr>)"
proof -
  note lay = gd_wfD(2) [OF gd_invD(1) [OF g]]
  have raw: "length (gd_raw g ns) = length ns"
    "gd_is_support_delete g \<Longrightarrow> stamp_ids (unat (gd_id_bit g)) (gd_node_versions g) ns = Inr (gd_raw g ns)"
    "\<not> gd_is_support_delete g \<Longrightarrow> gd_raw g ns = ns"
    using gd_raw_ok(1,4) [OF lay, of ns] ns by (auto simp: gd_raw_def)
  have len32: "unat (word_of_nat (length ns) :: u32) = length ns"
    using len unat_u32_lt [of "maximum_degree g"] by (simp add: unat_word_of_nat_u32)
  then have cnt: "min (word_of_nat (length ns)) (maximum_degree g) = word_of_nat (length ns)"
    using len by (simp add: min_def word_le_nat_alt)
  have "unat i * gd_line g + 4 + 4 * length (gd_raw g ns) < 2 ^ 63"
    using gd_line_bound [OF lay i len] gd_layoutD(3) [OF lay] raw(1) by simp
  from gd_write_line [OF gd_wfD(1) [OF gd_invD(1) [OF g]] this]
  obtain io1 io2 where w: "wr (gd_io g) (enc_u32 (word_of_nat (length (gd_raw g ns)))) (unat i * gd_line g) = Inr io1"
      "wr io1 (concat (map enc_u32 (gd_raw g ns))) (unat i * gd_line g + 4) = Inr io2" "inv io2"
      "written (bytes (gd_io g)) (line_bytes (gd_raw g ns)) (unat i * gd_line g) (bytes io2)" .
  have upd: "UpdateReverseEdges g i old ns =
      g\<lparr>reverse_edges := map_option (\<lambda>re. update_reverse re i (gd_nbrs bytes g i) ns) (reverse_edges g)\<rparr>"
    if "reverse_edges g \<noteq> None \<Longrightarrow> old = gd_nbrs bytes g i" for old
    using that by (simp add: UpdateReverseEdges_eq) (cases "reverse_edges g"; simp)
  define old where "old = (if reverse_edges g \<noteq> None \<and> i < g_total_count g then gd_nbrs bytes g i else [])"
  have old: "(if reverse_edges g \<noteq> None \<and> i < g_total_count g
      then GraphDataCell_GetNeighbors rd g i [] else Inr []) = Inr old"
    using gd_get_ok [OF g] by (simp add: old_def)
  have "reverse_edges g \<noteq> None \<longrightarrow> old = gd_nbrs bytes g i" by (simp add: old_def gd_nbrs_def)
  note up = upd [OF mp [OF this]]
  show thesis
  proof (rule that [OF w(3,4)])
    show "GraphDataCell_InsertNeighborsById wr rd g i ns =
      Inr (g\<lparr>reverse_edges := map_option (\<lambda>re. update_reverse re i (gd_nbrs bytes g i) ns) (reverse_edges g),
             g_total_count := max (g_total_count g) (i + 1), gd_io := io2\<rparr>)"
      unfolding GraphDataCell_InsertNeighborsById_def old
      using len w(1,2) raw len32 cnt
      by (cases "gd_is_support_delete g") (simp_all add: up Let_def line_start_def)
  qed
qed

end

lemma gd_written_lines:
  assumes g: "gd_wf ok_io bytes g" and j: "j = i \<or> j < g_total_count g"
    and w: "written (bytes (gd_io g)) (line_bytes raw) (unat i * gd_line g) B'"
    and len: "length raw \<le> unat (maximum_degree g)"
  defines "ms \<equiv> (if j = i then raw else line_edges (bytes (gd_io g)) (gd_line g) (unat j))"
  shows "line_at B' (gd_line g) (unat j) ms" and "line_edges B' (gd_line g) (unat j) = ms"
proof -
  note d = gd_layoutD [OF gd_wfD(2) [OF g]]
  have lt: "length ns < 2 ^ 32" "4 + 4 * length ns \<le> gd_line g" if "length ns \<le> unat (maximum_degree g)" for ns :: "u32 list"
    using that unat_u32_lt [of "maximum_degree g"] d(1) by simp_all
  have ms: "length ms \<le> unat (maximum_degree g)"
    using len gd_wfD(4) [OF g, of j] j by (auto simp: ms_def)
  show at: "line_at B' (gd_line g) (unat j) ms"
  proof (cases "j = i")
    case True
    then show ?thesis using written_line_at [OF w] by (simp add: ms_def)
  next
    case False
    then show ?thesis
      using written_line_other [OF w gd_wfD(3) [OF g, of j]] lt [OF len] lt [OF ms] j
      by (auto simp: ms_def word_unat_eq_iff)
  qed
  show "line_edges B' (gd_line g) (unat j) = ms" by (rule line_atD(4) [OF at lt(1) [OF ms]])
qed

lemma Suc_le_word: "i < (c :: u32) \<Longrightarrow> unat (i + 1) = unat i + 1"
  using unat_u32_lt [of c] by (simp add: unat_word_ariths word_less_nat_alt)

lemma max_Suc_word:
  assumes "i \<le> t" and "i < (c :: u32)" and "t \<le> c"
  shows "max t (i + 1) \<le> c" and "j < max t (i + 1) \<longleftrightarrow> j = i \<or> j < t"
  using assms Suc_le_word [OF assms(2)] by (auto simp: max_def word_le_nat_alt word_less_nat_alt word_unat_eq_iff)

context random_io
begin

lemma gd_insert_ok:
  assumes g: "gd_inv inv bytes g" and i: "i \<le> g_total_count g" "i < max_capacity g"
    and ns: "\<And>n. n \<in> set ns \<Longrightarrow> n = i \<or> n < g_total_count g" and len: "length ns \<le> unat (maximum_degree g)"
  shows "\<exists>io' R. GraphDataCell_InsertNeighborsById wr rd g i ns =
      Inr (g\<lparr>reverse_edges := R, g_total_count := max (g_total_count g) (i + 1), gd_io := io'\<rparr>) \<and>
    (R = None \<longleftrightarrow> reverse_edges g = None) \<and>
    gd_inv inv bytes (g\<lparr>reverse_edges := R, g_total_count := max (g_total_count g) (i + 1), gd_io := io'\<rparr>) \<and>
    gd_nbrs bytes (g\<lparr>reverse_edges := R, g_total_count := max (g_total_count g) (i + 1), gd_io := io'\<rparr>) =
      (gd_nbrs bytes g)(i := ns)"
proof -
  note lay = gd_wfD(2) [OF gd_invD(1) [OF g]]
  note d = gd_layoutD [OF lay]
  have ns': "n < max_capacity g" if "n \<in> set ns" for n using ns [OF that] i d(2) by auto
  let ?T = "max (g_total_count g) (i + 1)"
  note T = max_Suc_word [OF i d(2)]
  from gd_insert_fields [OF g i(2) ns' len]
  obtain io' where io': "inv io'"
    and w: "written (bytes (gd_io g)) (line_bytes (gd_raw g ns)) (unat i * gd_line g) (bytes io')"
    and ins: "GraphDataCell_InsertNeighborsById wr rd g i ns =
      Inr (g\<lparr>reverse_edges := map_option (\<lambda>re. update_reverse re i (gd_nbrs bytes g i) ns) (reverse_edges g),
             g_total_count := ?T, gd_io := io'\<rparr>)" by blast
  let ?R = "map_option (\<lambda>re. update_reverse re i (gd_nbrs bytes g i) ns) (reverse_edges g)"
  define g' where "g' = g\<lparr>reverse_edges := ?R, g_total_count := ?T, gd_io := io'\<rparr>"
  have f: "gd_io g' = io'" "gd_line g' = gd_line g" "g_total_count g' = ?T" "reverse_edges g' = ?R"
    "maximum_degree g' = maximum_degree g" "gd_ids g' = gd_ids g" "gd_current g' = gd_current g"
    by (simp_all add: g'_def gd_ids_def gd_current_def fun_eq_iff)
  have raw: "length (gd_raw g ns) \<le> unat (maximum_degree g)" "gd_ids g (gd_raw g ns) = ns"
    "\<And>n. n \<in> set (gd_raw g ns) \<Longrightarrow> gd_current g n"
    using gd_raw_ok [OF lay, of ns] ns' len by auto
  note lines = gd_written_lines [OF gd_invD(1) [OF g] _ w raw(1)]
  have nb: "gd_nbrs bytes g' = (gd_nbrs bytes g)(i := ns)"
    using raw(2) by (auto simp: fun_eq_iff gd_nbrs_def f T(2) lines(2))
  have "gd_inv inv bytes g'"
    unfolding gd_inv_def gd_wf_def Let_def
  proof (intro conjI allI impI)
    show "inv (gd_io g')" using io' by (simp add: f)
    show "gd_layout g'" using d T(1) unfolding g'_def gd_layout_def by (intro conjI impI) simp_all
    show "re_exact re (gd_nbrs bytes g')" if "reverse_edges g' = Some re" for re
      using that gd_invD(3) [OF g] by (auto simp: f nb intro: re_exact_update)
    fix j
    assume "j < g_total_count g'"
    then have j: "j = i \<or> j < g_total_count g" by (simp add: f T(2))
    show "line_at (bytes (gd_io g')) (gd_line g') (unat j) (line_edges (bytes (gd_io g')) (gd_line g') (unat j))"
      using lines [OF j] by (simp add: f)
    show "length (line_edges (bytes (gd_io g')) (gd_line g') (unat j)) \<le> unat (maximum_degree g')"
      using lines(2) [OF j] raw(1) gd_wfD(4) [OF gd_invD(1) [OF g], of j] j by (auto simp: f)
    show "\<forall>n \<in> set (line_edges (bytes (gd_io g')) (gd_line g') (unat j)). gd_current g' n"
      using lines(2) [OF j] raw(3) gd_invD(2) [OF g, of j] j by (auto simp: f)
    show "\<forall>n \<in> set (gd_ids g' (line_edges (bytes (gd_io g')) (gd_line g') (unat j))). n < g_total_count g'"
      using lines(2) [OF j] raw(2) gd_wfD(5) [OF gd_invD(1) [OF g], of _ j] j ns by (auto simp: f T(2) gd_nbrs_def)
  qed
  then show ?thesis using ins nb by (intro exI [of _ io'] exI [of _ ?R]) (simp add: g'_def)
qed

end

text \<open>What an insertion at an existing vertex leaves alone.\<close>

definition gd_frame :: "('d, 'io) GraphDataCell \<Rightarrow> ('d, 'io) GraphDataCell \<Rightarrow> bool" where
  "gd_frame h g \<longleftrightarrow>
     max_capacity g = max_capacity h \<and> maximum_degree g = maximum_degree h \<and>
     g_total_count g = g_total_count h \<and> gd_node_versions g = gd_node_versions h \<and>
     gd_is_support_delete g = gd_is_support_delete h \<and> gd_id_bit g = gd_id_bit h \<and>
     gd_remove_flag_mask g = gd_remove_flag_mask h \<and> (reverse_edges g = None \<longleftrightarrow> reverse_edges h = None)"

lemma gd_frame_refl [simp]: "gd_frame g g"
  by (simp add: gd_frame_def)

sublocale random_io \<subseteq> dense_store: edge_store "\<lambda>g. gd_inv inv bytes g \<and> gd_frame h g" "\<lambda>g i. i < g_total_count g"
  "\<lambda>g. unat (maximum_degree g)" "gd_nbrs bytes" "GraphDataCell_GetNeighbors rd" "GraphDataCell_InsertNeighborsById wr rd"
  for h
proof unfold_locales
  fix g i ns
  assume g: "gd_inv inv bytes g \<and> gd_frame h g" and i: "i < g_total_count g"
    and ns: "\<And>n. n \<in> set ns \<Longrightarrow> n < g_total_count g" and len: "length ns \<le> unat (maximum_degree g)"
  have cap: "i < max_capacity g"
    using i gd_layoutD(2) [OF gd_wfD(2) [OF gd_invD(1)]] g by (metis order_less_le_trans)
  have T: "max (g_total_count g) (i + 1) = g_total_count g"
    using i Suc_le_word [OF i] by (auto simp: max_def word_le_nat_alt word_less_nat_alt word_unat_eq_iff)
  obtain io' R where ins: "GraphDataCell_InsertNeighborsById wr rd g i ns = Inr (g\<lparr>reverse_edges := R, gd_io := io'\<rparr>)"
      "R = None \<longleftrightarrow> reverse_edges g = None" "gd_inv inv bytes (g\<lparr>reverse_edges := R, gd_io := io'\<rparr>)"
      "gd_nbrs bytes (g\<lparr>reverse_edges := R, gd_io := io'\<rparr>) = (gd_nbrs bytes g)(i := ns)"
    using gd_insert_ok [OF conjunct1 [OF g] order_less_imp_le [OF i] cap disjI2 [OF ns] len] by (auto simp: T)
  have "gd_frame h (g\<lparr>reverse_edges := R, gd_io := io'\<rparr>)"
    using conjunct2 [OF g] ins(2) by (simp add: gd_frame_def)
  then show "\<exists>g'. GraphDataCell_InsertNeighborsById wr rd g i ns = Inr g' \<and> (gd_inv inv bytes g' \<and> gd_frame h g') \<and>
      gd_nbrs bytes g' = (gd_nbrs bytes g)(i := ns) \<and> unat (maximum_degree g') = unat (maximum_degree g) \<and>
      (\<lambda>i. i < g_total_count g') = (\<lambda>i. i < g_total_count g)"
    using ins(1,3,4) by (intro exI [of _ "g\<lparr>reverse_edges := R, gd_io := io'\<rparr>"]) simp
next
  fix g i
  show "gd_inv inv bytes g \<and> gd_frame h g \<Longrightarrow> i < g_total_count g \<Longrightarrow>
      GraphDataCell_GetNeighbors rd g i [] = Inr (gd_nbrs bytes g i)"
    using gd_get_ok by blast
  show "gd_inv inv bytes g \<and> gd_frame h g \<Longrightarrow> length (gd_nbrs bytes g i) \<le> unat (maximum_degree g)"
    using gd_nbrs_length gd_invD(1) by blast
  show "gd_inv inv bytes g \<and> gd_frame h g \<Longrightarrow> y \<in> set (gd_nbrs bytes g i) \<Longrightarrow>
      i < g_total_count g \<and> y < g_total_count g" for y
    using gd_wfD(5) gd_invD(1) by blast
qed

text \<open>A new version of \<open>i\<close> hides the edges to \<open>i\<close> and no others.\<close>

lemma gd_bump:
  fixes v :: byte
  assumes g: "gd_inv ok_io bytes g" and sd: "gd_is_support_delete g" and i: "i < max_capacity g"
  defines "g' \<equiv> g\<lparr>gd_node_versions := (gd_node_versions g)[unat i := v]\<rparr>"
  shows "gd_wf ok_io bytes g'"
    and "x < g_total_count g \<Longrightarrow> gd_live bytes g' x =
      (if v = gd_node_versions g ! unat i then gd_nbrs bytes g x else filter (\<lambda>y. y \<noteq> i) (gd_nbrs bytes g x))"
proof -
  note wf = gd_invD(1) [OF g]
  note d = gd_layoutD [OF gd_wfD(2) [OF wf]]
  have "gd_layout g'" using d unfolding g'_def gd_layout_def by (intro conjI impI) simp_all
  then show "gd_wf ok_io bytes g'"
    using wf unfolding gd_wf_def by (simp add: g'_def gd_ids_def Let_def)
  assume x: "x < g_total_count g"
  define ns where "ns = line_edges (bytes (gd_io g)) (gd_line g) (unat x)"
  define sid where "sid = stamp_id (gd_remove_flag_mask g)"
  have len: "unat i < length (gd_node_versions g)" using i d(8) [OF sd] by (simp add: word_less_nat_alt)
  have cur: "gd_current g' n \<longleftrightarrow> sid n \<noteq> i \<or> v = gd_node_versions g ! unat i" if "n \<in> set ns" for n
    using gd_invD(2) [OF g x, of n] that sd len
    by (auto simp: ns_def sid_def gd_current_def g'_def nth_list_update word_unat_eq_iff)
  have "filter (gd_current g') ns = filter (\<lambda>n. sid n \<noteq> i \<or> v = gd_node_versions g ! unat i) ns"
    by (rule filter_cong [OF refl cur])
  then have "gd_live bytes g' x = map sid (filter (\<lambda>n. sid n \<noteq> i \<or> v = gd_node_versions g ! unat i) ns)"
    using sd by (simp add: gd_live_def g'_def gd_ids_def ns_def sid_def)
  moreover have "gd_nbrs bytes g x = map sid ns" using x sd by (simp add: gd_nbrs_def gd_ids_def ns_def sid_def)
  ultimately show "gd_live bytes g' x =
      (if v = gd_node_versions g ! unat i then gd_nbrs bytes g x else filter (\<lambda>y. y \<noteq> i) (gd_nbrs bytes g x))"
    by (simp add: filter_map o_def)
qed

context random_io
begin

lemma gd_move_edges:
  assumes g: "gd_inv inv bytes g" and v: "from < g_total_count g" "to < g_total_count g" and ne: "from \<noteq> to"
  shows "\<exists>g1. move_edges (GraphDataCell_GetNeighbors rd) (GraphDataCell_InsertNeighborsById wr rd)
        GetIncomingNeighbors g from to = Inr g1 \<and> gd_inv inv bytes g1 \<and> gd_frame g g1 \<and>
      gd_nbrs bytes g1 from = [] \<and>
      (\<forall>x. x \<noteq> from \<longrightarrow> set (gd_nbrs bytes g1 x) =
        (if reverse_edges g = None then id else (\<lambda>y. if y = from then to else y)) `
          set (gd_nbrs bytes g (if x = to then from else x)))"
proof (cases "reverse_edges g")
  case None
  then have inc: "GetIncomingNeighbors g from = []" by (simp add: GetIncomingNeighbors_def)
  show ?thesis
    using dense_store.move_edges_no_incoming [OF conjI [OF g gd_frame_refl] v ne, of GetIncomingNeighbors, OF inc] None ne
    by fastforce
next
  case (Some r)
  then have "re_exact r (gd_nbrs bytes g)" using gd_invD(3) [OF g] by auto
  then have inc: "distinct (GetIncomingNeighbors g from)"
      "x \<in> set (GetIncomingNeighbors g from) \<longleftrightarrow> from \<in> set (gd_nbrs bytes g x)" for x
    using Some by (auto simp: GetIncomingNeighbors_def re_exact_def re_distinct_def)
  show ?thesis
    using dense_store.move_edges_ok [OF conjI [OF g gd_frame_refl] v ne, of GetIncomingNeighbors, OF inc] Some
    by fastforce
qed

lemma gd_move_ok:
  assumes g: "gd_inv inv bytes g" and v: "from < g_total_count g" "to < g_total_count g"
    and ne: "from \<noteq> to"
  shows "\<exists>g'. GraphDataCell_Move wr rd g from to = Inr g' \<and> gd_wf inv bytes g' \<and>
    g_total_count g' = g_total_count g \<and> gd_live bytes g' from = [] \<and>
    (\<forall>x < g_total_count g. x \<noteq> from \<longrightarrow> set (gd_live bytes g' x) =
      (if reverse_edges g = None then id else (\<lambda>y. if y = from then to else y)) `
        set (gd_nbrs bytes g (if x = to then from else x)) -
      (if gd_is_support_delete g \<and> gd_node_versions g ! unat from \<noteq> gd_node_versions g ! unat to then {to} else {}))"
proof -
  define ren where "ren = (if reverse_edges g = None then id else (\<lambda>y. if y = from then to else y))"
  obtain g1 where g1: "move_edges (GraphDataCell_GetNeighbors rd) (GraphDataCell_InsertNeighborsById wr rd)
        GetIncomingNeighbors g from to = Inr g1" "gd_inv inv bytes g1" "gd_frame g g1"
      "gd_nbrs bytes g1 from = []"
      "\<forall>x. x \<noteq> from \<longrightarrow> set (gd_nbrs bytes g1 x) = ren ` set (gd_nbrs bytes g (if x = to then from else x))"
    using gd_move_edges [OF g v ne] unfolding ren_def by blast
  note fr = g1(3) [unfolded gd_frame_def]
  have v1: "from < g_total_count g1" "to < max_capacity g1" "from < max_capacity g1"
    using v fr gd_layoutD(2) [OF gd_wfD(2) [OF gd_invD(1) [OF g1(2)]]] by auto
  show ?thesis
  proof (cases "gd_is_support_delete g")
    case True
    let ?v = "gd_node_versions g1 ! unat from"
    define g' where "g' = g1\<lparr>gd_node_versions := (gd_node_versions g1)[unat to := ?v]\<rparr>"
    have sd: "gd_is_support_delete g1" using True fr by simp
    have "length (gd_node_versions g1) = unat (max_capacity g1)"
      by (rule gd_layoutD(8) [OF gd_wfD(2) [OF gd_invD(1) [OF g1(2)]] sd])
    then have "GraphDataCell_Move wr rd g from to = Inr g'"
      using ne g1(1) sd v1 by (simp add: GraphDataCell_Move_def g'_def word_less_nat_alt)
    moreover have "gd_live bytes g' x = (if ?v = gd_node_versions g ! unat to then gd_nbrs bytes g1 x
        else filter (\<lambda>y. y \<noteq> to) (gd_nbrs bytes g1 x))" if "x < g_total_count g" for x
      using gd_bump(2) [OF g1(2) sd v1(2), of x ?v] that fr by (simp add: g'_def)
    moreover have "gd_wf inv bytes g'" unfolding g'_def by (rule gd_bump(1) [OF g1(2) sd v1(2)])
    moreover have "g_total_count g' = g_total_count g" using fr by (simp add: g'_def)
    ultimately show ?thesis unfolding ren_def [symmetric] using True fr g1(4,5) v(1) by auto
  next
    case False
    then have "GraphDataCell_Move wr rd g from to = Inr g1"
      using ne g1(1) fr by (simp add: GraphDataCell_Move_def)
    then show ?thesis
      unfolding ren_def [symmetric] using False g1(4,5) v(1) fr gd_invD(1,4) [OF g1(2)] by (intro exI [of _ g1]) simp
  qed
qed

lemma gd_delete_ok:
  assumes g: "gd_inv inv bytes g" and sd: "gd_is_support_delete g" and i: "i < max_capacity g"
  shows "\<exists>g'. GraphDataCell_DeleteNeighborsById g i = Inr g' \<and>
    (\<forall>x < g_total_count g. GraphDataCell_GetNeighbors rd g' x [] = Inr (filter (\<lambda>y. y \<noteq> i) (gd_nbrs bytes g x))) \<and>
    GraphDataCell_RecoverDeleteNeighborsById g' i =
      (if gd_node_versions g ! unat i = 255 then Inl (Vsag INTERNAL_ERROR) else Inr g)"
proof -
  let ?v = "gd_node_versions g ! unat i"
  define g' where "g' = g\<lparr>gd_node_versions := (gd_node_versions g)[unat i := ?v + 1]\<rparr>"
  have len: "unat i < length (gd_node_versions g)"
    using i gd_layoutD(8) [OF gd_wfD(2) [OF gd_invD(1) [OF g]] sd] by (simp add: word_less_nat_alt)
  have "uint ?v + 1 \<noteq> 0" using uint_ge_0 [of ?v] by linarith
  then have "GraphDataCell_DeleteNeighborsById g i = Inr g'"
    using sd i len by (simp add: GraphDataCell_DeleteNeighborsById_def g'_def)
  moreover have "GraphDataCell_GetNeighbors rd g' x [] = Inr (filter (\<lambda>y. y \<noteq> i) (gd_nbrs bytes g x))"
    if "x < g_total_count g" for x
    using gd_get_live [of g' x "[]"] gd_bump(1) [OF g sd i, of "?v + 1"] gd_bump(2) [OF g sd i, of x "?v + 1"] that
    by (simp add: g'_def)
  moreover have "GraphDataCell_RecoverDeleteNeighborsById g' i = (if ?v = 255 then Inl (Vsag INTERNAL_ERROR) else Inr g)"
    using sd i len byte_plus_1_eq_0 [of ?v] by (simp add: GraphDataCell_RecoverDeleteNeighborsById_def g'_def)
  ultimately show ?thesis by blast
qed

end

section \<open>A new graph, and a small one for the witnesses\<close>

lemma gd_new_inv:
  assumes "GraphDataCell_new io max_degree capacity sd flag_bit use_re sdup = Inr g" and "ok_io io"
    and "unat max_degree * 4 + 4 < 2 ^ 32" and "unat capacity * (unat max_degree * 4 + 4) < 2 ^ 62"
    and "sd \<Longrightarrow> unat (32 - flag_bit) \<le> 24 \<and> unat max_degree < 2 ^ unat (32 - flag_bit) \<and>
      unat capacity \<le> 2 ^ unat (32 - flag_bit)"
  shows "gd_inv ok_io bytes g" and "g_total_count g = 0" and "max_capacity g = capacity"
    and "maximum_degree g = max_degree" and "gd_is_support_delete g = sd"
    and "reverse_edges g = None \<longleftrightarrow> \<not> use_re"
proof -
  have "unat (word_of_nat (unat max_degree * 4 + 4) :: u32) = unat max_degree * 4 + 4"
    using assms(3) by (intro unat_word_of_nat_u32) simp
  moreover have "gd_remove_flag_mask g = mask (unat (gd_id_bit g))"
    using assms(1) flag_mask_of_mask [of "32 - flag_bit"]
    by (cases "flag_mask_of (32 - flag_bit)") (auto simp: GraphDataCell_new_def)
  moreover have f: "gd_code_line_size g = word_of_nat (unat max_degree * 4 + 4)" "g_total_count g = 0"
    "max_capacity g = capacity" "maximum_degree g = max_degree" "gd_is_support_delete g = sd"
    "reverse_edges g = (if use_re then Some Map.empty else None)" "gd_io g = io" "gd_id_bit g = 32 - flag_bit"
    "gd_node_versions g = (if sd then replicate (unat capacity) 0 else [])"
    using assms(1) by (cases "flag_mask_of (32 - flag_bit)"; auto simp: GraphDataCell_new_def)+
  ultimately have "gd_layout g"
    using assms(4,5) unfolding gd_layout_def by (intro conjI impI) simp_all
  then show "gd_inv ok_io bytes g"
    using f assms(2) by (simp add: gd_inv_def gd_wf_def gd_nbrs_def [abs_def])
  show "g_total_count g = 0" "max_capacity g = capacity" "maximum_degree g = max_degree"
    "gd_is_support_delete g = sd" "reverse_edges g = None \<longleftrightarrow> \<not> use_re"
    by (simp_all add: f)
qed

abbreviation block_insert ::
    "Allocator \<Rightarrow> ('d, MemoryBlockIO) GraphDataCell \<Rightarrow> InnerIdType \<Rightarrow> InnerIdType list \<Rightarrow>
     ('d, MemoryBlockIO) GraphDataCell result" where
  "block_insert A \<equiv> GraphDataCell_InsertNeighborsById (MemoryBlockIO_WriteImpl A) MemoryBlockIO_ReadImpl"

abbreviation block_get ::
    "('d, MemoryBlockIO) GraphDataCell \<Rightarrow> InnerIdType \<Rightarrow> InnerIdType list \<Rightarrow> InnerIdType list result" where
  "block_get \<equiv> GraphDataCell_GetNeighbors MemoryBlockIO_ReadImpl"

abbreviation block_graph_inv :: "('d, MemoryBlockIO) GraphDataCell \<Rightarrow> bool" where
  "block_graph_inv \<equiv> gd_inv mb_inv mb_bytes"

definition gd_built :: "(DenseDuplicateTracker, MemoryBlockIO) GraphDataCell result" where
  "gd_built =
     bind_r (GraphDataCell_new (MemoryBlockIO_new 16) 3 10 True 8 True False) (\<lambda>g.
     bind_r (block_insert libc_allocator g 0 []) (\<lambda>g.
     bind_r (block_insert libc_allocator g 1 [0]) (\<lambda>g.
       block_insert libc_allocator g 2 [1, 0])))"

lemma gd_built_ok:
  obtains g where "gd_built = Inr g" and "block_graph_inv g" and "g_total_count g = 3"
    and "gd_nbrs mb_bytes g = (\<lambda>x. [])(1 := [0], 2 := [1, 0])" and "maximum_degree g = 3"
    and "max_capacity g = 10" and "gd_is_support_delete g" and "reverse_edges g \<noteq> None"
    and "gd_node_versions g = replicate 10 0"
proof -
  obtain g0 :: "(DenseDuplicateTracker, MemoryBlockIO) GraphDataCell"
    where g0: "GraphDataCell_new (MemoryBlockIO_new 16) 3 10 True 8 True False = Inr g0"
      and v0: "gd_node_versions g0 = replicate 10 0"
    by (simp add: GraphDataCell_new_def flag_mask_of_def)
  have i0: "block_graph_inv g0" "g_total_count g0 = 0" "max_capacity g0 = 10" "maximum_degree g0 = 3"
      "gd_is_support_delete g0 = True" "reverse_edges g0 = None \<longleftrightarrow> \<not> True"
    by (rule gd_new_inv [OF g0]; use MemoryBlockIO_new_inv [of 16] in simp)+
  have n0: "gd_nbrs mb_bytes g0 = (\<lambda>x. [])" by (simp add: fun_eq_iff gd_nbrs_def i0(2))
  obtain io1 R1 where g1: "block_insert libc_allocator g0 0 [] = Inr (g0\<lparr>reverse_edges := R1, g_total_count := 1, gd_io := io1\<rparr>)"
      "R1 \<noteq> None" "block_graph_inv (g0\<lparr>reverse_edges := R1, g_total_count := 1, gd_io := io1\<rparr>)"
      "gd_nbrs mb_bytes (g0\<lparr>reverse_edges := R1, g_total_count := 1, gd_io := io1\<rparr>) = (\<lambda>x. [])(0 := [])"
    using libc.block_io.gd_insert_ok [OF i0(1), of 0 "[]"] i0 n0 by auto
  obtain io2 R2 where g2: "block_insert libc_allocator (g0\<lparr>reverse_edges := R1, g_total_count := 1, gd_io := io1\<rparr>) 1 [0] =
        Inr (g0\<lparr>reverse_edges := R2, g_total_count := 2, gd_io := io2\<rparr>)"
      "R2 \<noteq> None" "block_graph_inv (g0\<lparr>reverse_edges := R2, g_total_count := 2, gd_io := io2\<rparr>)"
      "gd_nbrs mb_bytes (g0\<lparr>reverse_edges := R2, g_total_count := 2, gd_io := io2\<rparr>) = (\<lambda>x. [])(0 := [], 1 := [0])"
    using libc.block_io.gd_insert_ok [OF g1(3), of 1 "[0]"] g1(2,4) i0 by auto
  have m: "n = 2 \<or> n < g_total_count (g0\<lparr>reverse_edges := R2, g_total_count := 2, gd_io := io2\<rparr>)" if "n \<in> set [1, 0]" for n
    using that by auto
  obtain io3 R3 where g3: "block_insert libc_allocator (g0\<lparr>reverse_edges := R2, g_total_count := 2, gd_io := io2\<rparr>) 2 [1, 0] =
        Inr (g0\<lparr>reverse_edges := R3, g_total_count := 3, gd_io := io3\<rparr>)"
      "R3 \<noteq> None" "block_graph_inv (g0\<lparr>reverse_edges := R3, g_total_count := 3, gd_io := io3\<rparr>)"
      "gd_nbrs mb_bytes (g0\<lparr>reverse_edges := R3, g_total_count := 3, gd_io := io3\<rparr>) =
        (\<lambda>x. [])(0 := [], 1 := [0], 2 := [1, 0])"
    using libc.block_io.gd_insert_ok [OF g2(3), of 2 "[1, 0]", OF _ _ m] g2(2,4) i0 by auto
  show thesis
    by (rule that [of "g0\<lparr>reverse_edges := R3, g_total_count := 3, gd_io := io3\<rparr>"])
      (use g0 g1(1) g2(1) g3 i0 v0 in \<open>auto simp: gd_built_def fun_eq_iff\<close>)
qed

section \<open>Properties\<close>

text \<open>C31: over block storage, \<open>InsertNeighborsById\<close> at an existing vertex or at the next one replaces its
  edges: it reads back with exactly these ids in order, the line of every other vertex reads back as
  before, and \<open>total_count_\<close> covers it. More than \<open>maximum_degree_\<close> ids are refused.\<close>

theorem dense_graph_insert_get:
  assumes "heap_allocator A" and "block_graph_inv g" and "i \<le> g_total_count g" and "i < max_capacity g"
    and "\<forall>n \<in> set ns. n = i \<or> n < g_total_count g"
  shows "if length ns \<le> unat (maximum_degree g) then
      \<exists>g'. block_insert A g i ns = Inr g' \<and> block_graph_inv g' \<and> block_get g' i buf = Inr ns \<and>
        (\<forall>x. x \<noteq> i \<longrightarrow> x < g_total_count g \<longrightarrow> block_get g' x buf = block_get g x buf) \<and>
        (\<forall>x. GraphDataCell_CheckIdExists g' x \<longleftrightarrow> x = i \<or> GraphDataCell_CheckIdExists g x)
    else block_insert A g i ns = Inl StdInvalidArgument"
proof (cases "length ns \<le> unat (maximum_degree g)")
  case True
  note rio = heap_allocator.block_io_storage [OF assms(1)]
  note T = max_Suc_word(2) [OF assms(3,4) gd_layoutD(2) [OF gd_wfD(2) [OF gd_invD(1) [OF assms(2)]]]]
  obtain io' R where ins: "block_insert A g i ns =
        Inr (g\<lparr>reverse_edges := R, g_total_count := max (g_total_count g) (i + 1), gd_io := io'\<rparr>)"
    and inv': "block_graph_inv (g\<lparr>reverse_edges := R, g_total_count := max (g_total_count g) (i + 1), gd_io := io'\<rparr>)"
    and nb: "gd_nbrs mb_bytes (g\<lparr>reverse_edges := R, g_total_count := max (g_total_count g) (i + 1), gd_io := io'\<rparr>) =
        (gd_nbrs mb_bytes g)(i := ns)"
    using random_io.gd_insert_ok [OF rio assms(2-4) _ True] assms(5) by blast
  then show ?thesis
    using True assms(4) random_io.gd_get_ok [OF rio inv'] random_io.gd_get_ok [OF rio assms(2)]
    by (auto simp: T GraphDataCell_CheckIdExists_def)
next
  case False
  then show ?thesis by (simp add: GraphDataCell_InsertNeighborsById_def)
qed

theorem dense_graph_insert_get_witness:
  "\<exists>g g'. gd_built = Inr g \<and> block_insert libc_allocator g 3 [2, 3] = Inr g' \<and>
    block_get g' 3 [] = Inr [2, 3] \<and> block_get g' 2 [] = block_get g 2 []"
proof -
  obtain g where g: "gd_built = Inr g" "block_graph_inv g" "g_total_count g = 3" "maximum_degree g = 3"
      "max_capacity g = 10"
    by (rule gd_built_ok)
  show ?thesis
    using dense_graph_insert_get [OF libc.heap_allocator_axioms g(2), of 3 "[2, 3]" "[]"] g(1,3-5) by auto
qed

text \<open>C32: \<open>Move\<close> on two different existing vertices returns normally, \<open>from\<close> has no edges left and \<open>to\<close> has
  the edges \<open>from\<close> had. With the table of incoming edges every edge to \<open>from\<close> is an edge to \<open>to\<close>
  afterwards; without it, which is the default, edges to \<open>from\<close> keep their target. With deletion enabled the version of
  \<open>from\<close> is copied to \<open>to\<close> after the edges were stamped with the version of \<open>to\<close>, so when the two
  versions differ none of the edges to \<open>to\<close> is visible afterwards.\<close>

theorem dense_graph_move_renames:
  assumes "heap_allocator A" and "block_graph_inv g" and "from < g_total_count g" and "to < g_total_count g"
    and "from \<noteq> to"
  shows "\<exists>g'. GraphDataCell_Move (MemoryBlockIO_WriteImpl A) MemoryBlockIO_ReadImpl g from to = Inr g' \<and>
    block_get g' from [] = Inr [] \<and>
    (\<forall>x < g_total_count g. x \<noteq> from \<longrightarrow>
      (\<exists>ns ns'. block_get g (if x = to then from else x) [] = Inr ns \<and> block_get g' x [] = Inr ns' \<and>
        set ns' = (if reverse_edges g = None then id else (\<lambda>y. if y = from then to else y)) ` set ns -
          (if gd_is_support_delete g \<and> gd_node_versions g ! unat from \<noteq> gd_node_versions g ! unat to
           then {to} else {})))"
proof -
  note rio = heap_allocator.block_io_storage [OF assms(1)]
  obtain g' where g': "GraphDataCell_Move (MemoryBlockIO_WriteImpl A) MemoryBlockIO_ReadImpl g from to = Inr g'"
      "gd_wf mb_inv mb_bytes g'" "g_total_count g' = g_total_count g" "gd_live mb_bytes g' from = []"
      "\<forall>x < g_total_count g. x \<noteq> from \<longrightarrow> set (gd_live mb_bytes g' x) =
        (if reverse_edges g = None then id else (\<lambda>y. if y = from then to else y)) ` set (gd_nbrs mb_bytes g (if x = to then from else x)) -
        (if gd_is_support_delete g \<and> gd_node_versions g ! unat from \<noteq> gd_node_versions g ! unat to then {to} else {})"
    using random_io.gd_move_ok [OF rio assms(2-5)] by blast
  have get': "block_get g' x [] = Inr (gd_live mb_bytes g' x)" if "x < g_total_count g" for x
    using random_io.gd_get_live [OF rio g'(2)] that g'(3) by simp
  have get: "block_get g (if x = to then from else x) [] = Inr (gd_nbrs mb_bytes g (if x = to then from else x))"
    if "x < g_total_count g" for x
    using random_io.gd_get_ok [OF rio assms(2)] that assms(3) by simp
  show ?thesis
    using g'(1,4) get' [OF assms(3)] spec [OF g'(5)] get get' by (intro exI [of _ g']) simp
qed

theorem dense_graph_move_renames_witness:
  "\<exists>g g' ns. gd_built = Inr g \<and>
    GraphDataCell_Move (MemoryBlockIO_WriteImpl libc_allocator) MemoryBlockIO_ReadImpl g 2 0 = Inr g' \<and>
    block_get g' 2 [] = Inr [] \<and> block_get g' 0 [] = Inr ns \<and> set ns = {0, 1}"
proof -
  obtain g where g: "gd_built = Inr g" "block_graph_inv g" "g_total_count g = 3"
      "gd_nbrs mb_bytes g = (\<lambda>x. [])(1 := [0], 2 := [1, 0])" "reverse_edges g \<noteq> None"
      "gd_node_versions g = replicate 10 0"
    by (rule gd_built_ok)
  have "block_get g 2 [] = Inr [1, 0]" using libc.block_io.gd_get_ok [OF g(2), of 2] g(3,4) by simp
  moreover obtain g' where g': "GraphDataCell_Move (MemoryBlockIO_WriteImpl libc_allocator) MemoryBlockIO_ReadImpl g 2 0 = Inr g'"
      "block_get g' 2 [] = Inr []"
      "\<forall>x < 3. x \<noteq> 2 \<longrightarrow> (\<exists>ns ns'. block_get g (if x = 0 then 2 else x) [] = Inr ns \<and> block_get g' x [] = Inr ns' \<and>
        set ns' = (\<lambda>y. if y = 2 then 0 else y) ` set ns)"
    using dense_graph_move_renames [OF libc.heap_allocator_axioms g(2), of 2 0] g(3,5,6) by (auto simp del: if_image_distrib)
  ultimately show ?thesis using g(1) spec [OF g'(3), of 0] by auto
qed

text \<open>With deletion enabled, \<open>DeleteNeighborsById\<close> hides exactly the edges to the deleted vertex
  in a graph whose edges are all current, and \<open>RecoverDeleteNeighborsById\<close> restores the graph as it was, unless
  the version has wrapped to 0, where it fails.\<close>

lemma dense_graph_delete_hides:
  assumes "heap_allocator A" and "block_graph_inv g" and "gd_is_support_delete g" and "i < max_capacity g"
  shows "\<exists>g'. GraphDataCell_DeleteNeighborsById g i = Inr g' \<and>
    (\<forall>x < g_total_count g. \<exists>ns. block_get g x [] = Inr ns \<and> block_get g' x [] = Inr (filter (\<lambda>y. y \<noteq> i) ns)) \<and>
    GraphDataCell_RecoverDeleteNeighborsById g' i =
      (if gd_node_versions g ! unat i = 255 then Inl (Vsag INTERNAL_ERROR) else Inr g)"
  using random_io.gd_delete_ok [OF heap_allocator.block_io_storage [OF assms(1)] assms(2-4)]
    random_io.gd_get_ok [OF heap_allocator.block_io_storage [OF assms(1)] assms(2)] by blast

lemma dense_graph_delete_hides_example:
  "\<exists>g g'. gd_built = Inr g \<and> GraphDataCell_DeleteNeighborsById g 1 = Inr g' \<and> block_get g' 2 [] = Inr [0] \<and>
    GraphDataCell_RecoverDeleteNeighborsById g' 1 = Inr g"
proof -
  obtain g where g: "gd_built = Inr g" "block_graph_inv g" "g_total_count g = 3"
      "gd_nbrs mb_bytes g = (\<lambda>x. [])(1 := [0], 2 := [1, 0])" "max_capacity g = 10" "gd_is_support_delete g"
      "gd_node_versions g = replicate 10 0"
    by (rule gd_built_ok)
  have "block_get g 2 [] = Inr [1, 0]" using libc.block_io.gd_get_ok [OF g(2), of 2] g(3,4) by simp
  moreover obtain g' where g': "GraphDataCell_DeleteNeighborsById g 1 = Inr g'"
      "\<forall>x < 3. \<exists>ns. block_get g x [] = Inr ns \<and> block_get g' x [] = Inr (filter (\<lambda>y. y \<noteq> 1) ns)"
      "GraphDataCell_RecoverDeleteNeighborsById g' 1 = Inr g"
    using dense_graph_delete_hides [OF libc.heap_allocator_axioms g(2,6), of 1] g(3,5,7) by auto
  ultimately show ?thesis using g(1) spec [OF g'(2), of 2] by auto
qed

end
