(* ===== verification/DistanceHeap.thy ===== *)
theory DistanceHeap
  imports Prelude "HOL-Library.Multiset"
begin

text \<open>
  The bounded candidate queues of \<^verbatim>\<open>src/src/impl/heap\<close>: the interface
  \<open>DistanceHeap\<close> with \<open>MakeInstanceBySize\<close> and \<open>Merge\<close>, the ordered array \<open>MemmoveHeap\<close> used below
  ten entries, and the binary heap \<open>StandardHeap\<close>. The template parameters \<open>max_heap\<close> and
  \<open>fixed_size\<close> are arguments. Of the standard library the code uses \<open>std::upper_bound\<close>,
  \<open>std::push_heap\<close>, \<open>std::pop_heap\<close> and \<open>memmove\<close>; the algorithms are written out as the GNU library has
  them, but the theorems depend on them only through the distances, not on the order of ties.

  A distance is a \<open>float\<close>, kept as its 32 bits; \<open>float_lt\<close> is the comparison of the IEEE format.
  Without NaN it is the order of \<open>float_key\<close>, and \<open>rank\<close> turns the four comparisons of the code
  into one. The locale \<open>record_heap\<close> is the contract of a queue; in it the queue is shown to keep
  the best entries of everything pushed, and both implementations are instances.
\<close>

section \<open>Distances\<close>

type_synonym float32 = u32

definition is_nan :: "float32 \<Rightarrow> bool" where
  "is_nan x \<longleftrightarrow> take_bit 31 x > 0x7F800000"

definition float_key :: "float32 \<Rightarrow> int" where
  "float_key x = (if bit x 31 then - uint (take_bit 31 x) else uint (take_bit 31 x))"

definition float_lt :: "float32 \<Rightarrow> float32 \<Rightarrow> bool" where
  "float_lt x y \<longleftrightarrow> \<not> is_nan x \<and> \<not> is_nan y \<and> float_key x < float_key y"

type_synonym DistanceRecord = "float32 \<times> InnerIdType"

definition CompareMax :: "DistanceRecord \<Rightarrow> DistanceRecord \<Rightarrow> bool" where
  "CompareMax a b \<longleftrightarrow> float_lt (fst a) (fst b)"

definition CompareMin :: "DistanceRecord \<Rightarrow> DistanceRecord \<Rightarrow> bool" where
  "CompareMin a b \<longleftrightarrow> float_lt (fst b) (fst a)"

abbreviation CompareType :: "bool \<Rightarrow> DistanceRecord \<Rightarrow> DistanceRecord \<Rightarrow> bool" where
  "CompareType max_heap \<equiv> (if max_heap then CompareMax else CompareMin)"

section \<open>Standard library\<close>

function upper_bound_loop :: "('r \<Rightarrow> 'r \<Rightarrow> bool) \<Rightarrow> 'r list \<Rightarrow> 'r \<Rightarrow> nat \<Rightarrow> nat \<Rightarrow> nat" where
  "upper_bound_loop cmp xs val first len =
     (if 0 < len then
        (let half = len div 2; middle = first + half in
         if cmp val (xs ! middle) then upper_bound_loop cmp xs val first half
         else upper_bound_loop cmp xs val (middle + 1) (len - half - 1))
      else first)"
  by pat_completeness auto
termination
  by (relation "measure (\<lambda>(cmp, xs, val, first, len). len)") (auto simp: Let_def)

declare upper_bound_loop.simps [simp del]

definition std_upper_bound :: "('r \<Rightarrow> 'r \<Rightarrow> bool) \<Rightarrow> 'r list \<Rightarrow> nat \<Rightarrow> 'r \<Rightarrow> nat" where
  "std_upper_bound cmp xs n val = upper_bound_loop cmp xs val 0 n"

definition memmove_records :: "'r list \<Rightarrow> nat \<Rightarrow> nat \<Rightarrow> nat \<Rightarrow> 'r list result" where
  "memmove_records xs dst src n =
     (if dst + n \<le> length xs \<and> src + n \<le> length xs
      then Inr (take dst xs @ take n (drop src xs) @ drop (dst + n) xs) else Inl UndefinedBehaviour)"

function push_hole :: "('r \<Rightarrow> 'r \<Rightarrow> bool) \<Rightarrow> 'r list \<Rightarrow> nat \<Rightarrow> 'r \<Rightarrow> 'r list" where
  "push_hole cmp xs hole val =
     (let parent = (hole - 1) div 2 in
      if 0 < hole \<and> cmp (xs ! parent) val then push_hole cmp (xs[hole := xs ! parent]) parent val
      else xs[hole := val])"
  by pat_completeness auto
termination
  by (relation "measure (\<lambda>(cmp, xs, hole, val). hole)") auto

declare push_hole.simps [simp del]

definition std_push_heap :: "('r \<Rightarrow> 'r \<Rightarrow> bool) \<Rightarrow> 'r list \<Rightarrow> 'r list" where
  "std_push_heap cmp xs = push_hole cmp xs (length xs - 1) (last xs)"

function adjust_down :: "('r \<Rightarrow> 'r \<Rightarrow> bool) \<Rightarrow> 'r list \<Rightarrow> nat \<Rightarrow> nat \<Rightarrow> 'r list \<times> nat" where
  "adjust_down cmp xs len hole =
     (if hole < (len - 1) div 2 then
        (let right = 2 * (hole + 1);
             child = (if cmp (xs ! right) (xs ! (right - 1)) then right - 1 else right) in
         adjust_down cmp (xs[hole := xs ! child]) len child)
      else (xs, hole))"
  by pat_completeness auto
termination
  by (relation "measure (\<lambda>(cmp, xs, len, hole). len - hole)") (auto simp: Let_def)

declare adjust_down.simps [simp del]

definition std_pop_heap :: "('r \<Rightarrow> 'r \<Rightarrow> bool) \<Rightarrow> 'r list \<Rightarrow> 'r list" where
  "std_pop_heap cmp xs =
     (if length xs > 1 then
        (let len = length xs - 1; val = xs ! len;
             (xs, hole) = adjust_down cmp (xs[len := xs ! 0]) len 0;
             (xs, hole) = (if even len \<and> hole = (len - 2) div 2
                           then (xs[hole := xs ! (2 * hole + 1)], 2 * hole + 1) else (xs, hole)) in
         push_hole cmp xs hole val)
      else xs)"

section \<open>The ordered array\<close>

record MemmoveHeap =
  mh_max_size :: u64
  ordered_buffer :: "DistanceRecord list"
  cur_size :: u64

definition MemmoveHeap_new :: "bool \<Rightarrow> u64 \<Rightarrow> MemmoveHeap result" where
  "MemmoveHeap_new fixed_size max_size =
     (if fixed_size then
        (if unat (max_size + 1) > (2 ^ 63 - 1) div 8 then Inl StdLengthError
         else Inr \<lparr>mh_max_size = max_size, ordered_buffer = replicate (unat (max_size + 1)) (0, 0), cur_size = 0\<rparr>)
      else Inr \<lparr>mh_max_size = max_size, ordered_buffer = [], cur_size = 0\<rparr>)"

definition MemmoveHeap_Top :: "MemmoveHeap \<Rightarrow> DistanceRecord result" where
  "MemmoveHeap_Top h =
     (let i = unat (cur_size h - 1) in
      if i < length (ordered_buffer h) then Inr (ordered_buffer h ! i) else Inl UndefinedBehaviour)"

definition MemmoveHeap_Pop :: "MemmoveHeap \<Rightarrow> MemmoveHeap" where
  "MemmoveHeap_Pop h = h\<lparr>cur_size := cur_size h - 1\<rparr>"

definition MemmoveHeap_Size :: "MemmoveHeap \<Rightarrow> u64" where
  "MemmoveHeap_Size h = cur_size h"

definition MemmoveHeap_Empty :: "MemmoveHeap \<Rightarrow> bool" where
  "MemmoveHeap_Empty h \<longleftrightarrow> cur_size h = 0"

text \<open>The position the array search yields, and moving the tail up to store the record there.\<close>

definition search_position :: "bool \<Rightarrow> MemmoveHeap \<Rightarrow> DistanceRecord \<Rightarrow> nat result" where
  "search_position max_heap h record =
     (if unat (cur_size h) \<le> length (ordered_buffer h)
      then Inr (std_upper_bound (CompareType max_heap) (ordered_buffer h) (unat (cur_size h)) record)
      else Inl UndefinedBehaviour)"

definition store_record :: "DistanceRecord list \<Rightarrow> nat \<Rightarrow> nat \<Rightarrow> DistanceRecord \<Rightarrow> DistanceRecord list result" where
  "store_record buf pos n record =
     bind_r (memmove_records buf (pos + 1) pos n) (\<lambda>buf.
       if pos < length buf then Inr (buf[pos := record]) else Inl UndefinedBehaviour)"

definition MemmoveHeap_Push :: "bool \<Rightarrow> bool \<Rightarrow> MemmoveHeap \<Rightarrow> float32 \<Rightarrow> InnerIdType \<Rightarrow> MemmoveHeap result" where
  "MemmoveHeap_Push max_heap fixed_size h dist i =
     (let record = (dist, i) in
      if fixed_size then
        bind_r (if MemmoveHeap_Size h < mh_max_size h then Inr True
                else bind_r (MemmoveHeap_Top h) (\<lambda>t. Inr (float_lt dist (fst t) = max_heap))) (\<lambda>accept.
        if accept then
          bind_r (search_position max_heap h record) (\<lambda>pos.
          bind_r (store_record (ordered_buffer h) pos (unat (mh_max_size h - word_of_nat pos)) record) (\<lambda>buf.
          let h = h\<lparr>ordered_buffer := buf, cur_size := cur_size h + 1\<rparr> in
          Inr (if MemmoveHeap_Size h > mh_max_size h then MemmoveHeap_Pop h else h)))
        else Inr h)
      else
        bind_r (search_position max_heap h record) (\<lambda>pos.
        let buf = (if length (ordered_buffer h) \<le> unat (cur_size h) then ordered_buffer h @ [record]
                   else ordered_buffer h) in
        bind_r (store_record buf pos (unat (cur_size h - word_of_nat pos)) record) (\<lambda>buf.
          Inr (h\<lparr>ordered_buffer := buf, cur_size := cur_size h + 1\<rparr>))))"

section \<open>The binary heap\<close>

record StandardHeap =
  sh_max_size :: u64
  queue :: "DistanceRecord list"

definition StandardHeap_new :: "u64 \<Rightarrow> StandardHeap" where
  "StandardHeap_new max_size = \<lparr>sh_max_size = max_size, queue = []\<rparr>"

definition StandardHeap_Top :: "StandardHeap \<Rightarrow> DistanceRecord result" where
  "StandardHeap_Top h = (if queue h = [] then Inl UndefinedBehaviour else Inr (hd (queue h)))"

definition StandardHeap_Pop :: "bool \<Rightarrow> StandardHeap \<Rightarrow> StandardHeap result" where
  "StandardHeap_Pop max_heap h =
     (if queue h = [] then Inl UndefinedBehaviour
      else Inr (h\<lparr>queue := butlast (std_pop_heap (CompareType max_heap) (queue h))\<rparr>))"

definition StandardHeap_Push :: "bool \<Rightarrow> bool \<Rightarrow> StandardHeap \<Rightarrow> float32 \<Rightarrow> InnerIdType \<Rightarrow> StandardHeap result" where
  "StandardHeap_Push max_heap fixed_size h dist i =
     bind_r (if fixed_size \<and> length (queue h) = unat (sh_max_size h)
             then bind_r (StandardHeap_Top h) (\<lambda>t.
               Inr (if max_heap then float_lt (fst t) dist else float_lt dist (fst t)))
             else Inr False) (\<lambda>reject.
     if reject then Inr h
     else
       (let h = h\<lparr>queue := std_push_heap (CompareType max_heap) (queue h @ [(dist, i)])\<rparr> in
        if fixed_size \<and> length (queue h) > unat (sh_max_size h) then StandardHeap_Pop max_heap h
        else Inr h))"

section \<open>The interface\<close>

datatype DistHeap = Memmove MemmoveHeap | Standard StandardHeap

definition MakeInstanceBySize :: "bool \<Rightarrow> bool \<Rightarrow> u64 \<Rightarrow> DistHeap result" where
  "MakeInstanceBySize max_heap fixed_size max_size =
     (if sint max_size < 10 then bind_r (MemmoveHeap_new fixed_size max_size) (\<lambda>h. Inr (Memmove h))
      else Inr (Standard (StandardHeap_new max_size)))"

fun Heap_Push :: "bool \<Rightarrow> bool \<Rightarrow> DistHeap \<Rightarrow> DistanceRecord \<Rightarrow> DistHeap result" where
  "Heap_Push max_heap fixed_size (Memmove h) record =
     bind_r (MemmoveHeap_Push max_heap fixed_size h (fst record) (snd record)) (\<lambda>h. Inr (Memmove h))"
| "Heap_Push max_heap fixed_size (Standard h) record =
     bind_r (StandardHeap_Push max_heap fixed_size h (fst record) (snd record)) (\<lambda>h. Inr (Standard h))"

fun Heap_Top :: "DistHeap \<Rightarrow> DistanceRecord result" where
  "Heap_Top (Memmove h) = MemmoveHeap_Top h"
| "Heap_Top (Standard h) = StandardHeap_Top h"

fun Heap_Pop :: "bool \<Rightarrow> DistHeap \<Rightarrow> DistHeap result" where
  "Heap_Pop max_heap (Memmove h) = Inr (Memmove (MemmoveHeap_Pop h))"
| "Heap_Pop max_heap (Standard h) = bind_r (StandardHeap_Pop max_heap h) (\<lambda>h. Inr (Standard h))"

fun Heap_Size :: "DistHeap \<Rightarrow> u64" where
  "Heap_Size (Memmove h) = MemmoveHeap_Size h"
| "Heap_Size (Standard h) = word_of_nat (length (queue h))"

fun Heap_Empty :: "DistHeap \<Rightarrow> bool" where
  "Heap_Empty (Memmove h) \<longleftrightarrow> MemmoveHeap_Empty h"
| "Heap_Empty (Standard h) \<longleftrightarrow> length (queue h) = 0"

fun Heap_GetData :: "DistHeap \<Rightarrow> DistanceRecord list" where
  "Heap_GetData (Memmove h) = ordered_buffer h"
| "Heap_GetData (Standard h) = queue h"

fun push_all :: "('h \<Rightarrow> 'r \<Rightarrow> 'h result) \<Rightarrow> 'r list \<Rightarrow> 'h \<Rightarrow> 'h result" where
  "push_all push [] h = Inr h"
| "push_all push (r # rs) h = bind_r (push h r) (push_all push rs)"

definition Heap_Merge :: "bool \<Rightarrow> bool \<Rightarrow> DistHeap \<Rightarrow> DistHeap \<Rightarrow> DistHeap result" where
  "Heap_Merge max_heap fixed_size h other =
     (if unat (Heap_Size other) \<le> length (Heap_GetData other)
      then push_all (Heap_Push max_heap fixed_size) (take (unat (Heap_Size other)) (Heap_GetData other)) h
      else Inl UndefinedBehaviour)"

text \<open>The loop with which callers empty a queue: \<open>while (not Empty()) { Top(); Pop(); }\<close>.\<close>

fun drain :: "nat \<Rightarrow> ('h \<Rightarrow> bool) \<Rightarrow> ('h \<Rightarrow> 'r result) \<Rightarrow> ('h \<Rightarrow> 'h result) \<Rightarrow> 'h \<Rightarrow> 'r list result" where
  "drain 0 emp tp pop h = Inr []"
| "drain (Suc fuel) emp tp pop h =
     (if emp h then Inr []
      else bind_r (tp h) (\<lambda>r. bind_r (pop h) (\<lambda>h. bind_r (drain fuel emp tp pop h) (\<lambda>rs. Inr (r # rs)))))"

section \<open>The heap algorithms\<close>

text \<open>
  \<open>cmp\<close> is a comparison that agrees on \<open>S\<close> with the order of the ranks. The parent of position \<open>i\<close>
  in the array is \<open>(i - 1) div 2\<close>.
\<close>

abbreviation parent :: "nat \<Rightarrow> nat" where
  "parent i \<equiv> (i - 1) div 2"

definition heap_upto :: "('r \<Rightarrow> int) \<Rightarrow> nat \<Rightarrow> 'r list \<Rightarrow> bool" where
  "heap_upto rank n xs \<longleftrightarrow> (\<forall>i. 0 < i \<and> i < n \<longrightarrow> rank (xs ! i) \<le> rank (xs ! parent i))"

text \<open>A heap with a hole at \<open>h\<close>: its children and its parent are in order across it.\<close>

definition heap_hole :: "('r \<Rightarrow> int) \<Rightarrow> nat \<Rightarrow> 'r list \<Rightarrow> nat \<Rightarrow> bool" where
  "heap_hole rank n xs h \<longleftrightarrow>
     h < n \<and> n \<le> length xs \<and>
     (\<forall>i. 0 < i \<and> i < n \<and> i \<noteq> h \<and> parent i \<noteq> h \<longrightarrow> rank (xs ! i) \<le> rank (xs ! parent i)) \<and>
     (0 < h \<longrightarrow> (\<forall>c. 0 < c \<and> c < n \<and> parent c = h \<longrightarrow> rank (xs ! c) \<le> rank (xs ! parent h)))"

lemma heap_holeD:
  assumes "heap_hole rank n xs h"
  shows "h < n" and "n \<le> length xs"
    and "0 < i \<Longrightarrow> i < n \<Longrightarrow> i \<noteq> h \<Longrightarrow> parent i \<noteq> h \<Longrightarrow> rank (xs ! i) \<le> rank (xs ! parent i)"
    and "0 < h \<Longrightarrow> 0 < c \<Longrightarrow> c < n \<Longrightarrow> parent c = h \<Longrightarrow> rank (xs ! c) \<le> rank (xs ! parent h)"
  using assms unfolding heap_hole_def by blast+

lemma parent_less: "0 < i \<Longrightarrow> parent i < i"
  by auto

text \<open>Moving the parent of the hole down, or a largest child up, moves the hole.\<close>

lemma heap_hole_up:
  assumes "heap_hole rank n xs h" and "0 < h"
  shows "heap_hole rank n (xs[h := xs ! parent h]) (parent h)"
proof -
  note d = heap_holeD [OF assms(1)]
  have p: "parent h < h" by (rule parent_less [OF assms(2)])
  have "rank (xs[h := xs ! parent h] ! i) \<le> rank (xs[h := xs ! parent h] ! parent i)"
    if i: "0 < i" "i < n" "i \<noteq> parent h" "parent i \<noteq> parent h" for i
    using d(1,2) d(3) [OF i(1,2)] d(4) [OF assms(2) i(1,2)] i parent_less [OF i(1)]
    by (cases "i = h"; cases "parent i = h") (auto simp: nth_list_update)
  moreover have "rank (xs[h := xs ! parent h] ! c) \<le> rank (xs[h := xs ! parent h] ! parent (parent h))"
    if c: "0 < c" "c < n" "parent c = parent h" "0 < parent h" for c
  proof -
    have pp: "parent (parent h) < parent h" by (rule parent_less [OF c(4)])
    have 1: "rank (xs ! parent h) \<le> rank (xs ! parent (parent h))"
      by (rule d(3)) (use c p pp d(1) in auto)
    have 2: "rank (xs ! c) \<le> rank (xs ! parent c)" if "c \<noteq> h"
      by (rule d(3)) (use that c p in auto)
    show ?thesis
      using 1 2 c(3) p pp d(1,2) by (cases "c = h") (auto simp: nth_list_update)
  qed
  ultimately show ?thesis
    unfolding heap_hole_def length_list_update using order_less_trans [OF p d(1)] d(2) by blast
qed

lemma heap_hole_down:
  assumes "heap_hole rank n xs h" and c: "0 < c" "c < n" "parent c = h"
    and big: "\<And>o'. 0 < o' \<Longrightarrow> o' < n \<Longrightarrow> parent o' = h \<Longrightarrow> rank (xs ! o') \<le> rank (xs ! c)"
  shows "heap_hole rank n (xs[h := xs ! c]) c"
proof -
  note d = heap_holeD [OF assms(1)]
  have hc: "h < c" using parent_less [OF c(1)] c(3) by simp
  have "rank (xs[h := xs ! c] ! i) \<le> rank (xs[h := xs ! c] ! parent i)"
    if i: "0 < i" "i < n" "i \<noteq> c" "parent i \<noteq> c" for i
  proof (cases "i = h")
    case True
    then have "parent i < h" using parent_less [OF i(1)] by simp
    then show ?thesis using True d(1,2) d(4) [of c] c i by (simp add: nth_list_update)
  next
    case False
    then show ?thesis
      using d(1,2) d(3) [OF i(1,2) False] big [OF i(1,2)] by (cases "parent i = h") (simp_all add: nth_list_update)
  qed
  moreover have "rank (xs[h := xs ! c] ! k) \<le> rank (xs[h := xs ! c] ! parent c)"
    if k: "0 < k" "k < n" "parent k = c" for k
  proof -
    have "c < k" using parent_less [OF k(1)] k(3) by simp
    then have "rank (xs ! k) \<le> rank (xs ! c)" using d(3) [OF k(1,2)] k(3) hc by auto
    then show ?thesis using \<open>c < k\<close> hc c(3) d(1,2) by (simp add: nth_list_update)
  qed
  ultimately show ?thesis unfolding heap_hole_def length_list_update using c(2) d(2) by blast
qed

lemma heap_hole_fill:
  assumes "heap_hole rank n xs h" and "0 < h \<Longrightarrow> rank v \<le> rank (xs ! parent h)"
    and "\<And>c. 0 < c \<Longrightarrow> c < n \<Longrightarrow> parent c = h \<Longrightarrow> rank (xs ! c) \<le> rank v"
  shows "heap_upto rank n (xs[h := v])"
  unfolding heap_upto_def
proof (intro allI impI)
  fix i
  assume i: "0 < i \<and> i < n"
  note d = heap_holeD [OF assms(1)]
  show "rank (xs[h := v] ! i) \<le> rank (xs[h := v] ! parent i)"
    using d(1,2) d(3) [of i] assms(2) assms(3) [of i] i parent_less [of i]
    by (cases "i = h"; cases "parent i = h") (auto simp: nth_list_update)
qed

lemma mset_hole: "h < length xs \<Longrightarrow> p < length xs \<Longrightarrow> h \<noteq> p \<Longrightarrow> mset (xs[h := xs ! p, p := v]) = mset (xs[h := v])"
  using mset_swap [of p "xs[h := v]" h] by (simp add: nth_list_update list_update_swap [of h p])

locale ranked_cmp =
  fixes cmp :: "'r \<Rightarrow> 'r \<Rightarrow> bool" and rank :: "'r \<Rightarrow> int" and S :: "'r set"
  assumes cmp_rank: "a \<in> S \<Longrightarrow> b \<in> S \<Longrightarrow> cmp a b \<longleftrightarrow> rank a < rank b"
begin

lemma push_hole_ok:
  assumes "heap_hole rank n xs h" and "set xs \<subseteq> S" and "v \<in> S"
    and "\<And>c. 0 < c \<Longrightarrow> c < n \<Longrightarrow> parent c = h \<Longrightarrow> rank (xs ! c) \<le> rank v"
  shows "heap_upto rank n (push_hole cmp xs h v) \<and> mset (push_hole cmp xs h v) = mset (xs[h := v]) \<and>
    (\<forall>i \<ge> n. push_hole cmp xs h v ! i = xs ! i)"
  using assms
proof (induction h arbitrary: xs rule: less_induct)
  case (less h)
  note d = heap_holeD [OF less.prems(1)]
  let ?p = "parent h"
  have mem: "xs ! ?p \<in> S" using less.prems(2) d(1,2) by (auto intro!: subsetD [OF less.prems(2)] nth_mem)
  show ?case
  proof (cases "0 < h \<and> cmp (xs ! ?p) v")
    case True
    then have h0: "0 < h" and lt: "rank (xs ! ?p) < rank v" using cmp_rank [OF mem less.prems(3)] by auto
    have p: "?p < h" by (rule parent_less [OF h0])
    have sub: "set (xs[h := xs ! ?p]) \<subseteq> S" using less.prems(2) mem by (rule set_update_subsetI)
    have ch: "rank (xs[h := xs ! ?p] ! c) \<le> rank v" if c: "0 < c" "c < n" "parent c = ?p" for c
      using lt d(1,2) d(3) [OF c(1,2)] c(3) p by (cases "c = h") (auto simp: nth_list_update)
    note IH = less.IH [OF p heap_hole_up [OF less.prems(1) h0] sub less.prems(3) ch]
    have "push_hole cmp xs h v = push_hole cmp (xs[h := xs ! ?p]) ?p v"
      using True by (subst push_hole.simps) (simp add: Let_def)
    then show ?thesis using IH d(1,2) p mset_hole [of h xs ?p v] by auto
  next
    case False
    then have le: "rank v \<le> rank (xs ! ?p)" if "0 < h" using that cmp_rank [OF mem less.prems(3)] by auto
    have "push_hole cmp xs h v = xs[h := v]" using False by (subst push_hole.simps) (auto simp: Let_def)
    then show ?thesis
      using heap_hole_fill [OF less.prems(1) le less.prems(4)] d(1) by simp
  qed
qed

lemma adjust_down_ok:
  assumes "heap_hole rank n xs h" and "set xs \<subseteq> S" and "adjust_down cmp xs n h = (ys, k)"
  shows "heap_hole rank n ys k \<and> set ys \<subseteq> S \<and> (n - 1) div 2 \<le> k \<and> (\<forall>i \<ge> n. ys ! i = xs ! i) \<and>
    length ys = length xs \<and> (\<forall>v. mset (ys[k := v]) = mset (xs[h := v]))"
  using assms
proof (induction "n - h" arbitrary: xs h rule: less_induct)
  case less
  note d = heap_holeD [OF less.prems(1)]
  show ?case
  proof (cases "h < (n - 1) div 2")
    case True
    define r where "r = 2 * (h + 1)"
    define c where "c = (if cmp (xs ! r) (xs ! (r - 1)) then r - 1 else r)"
    have r: "r < n" "h < r - 1" "parent r = h" "parent (r - 1) = h" "0 < r - 1" using True by (auto simp: r_def)
    have kids: "o' = r \<or> o' = r - 1" if "0 < o'" "parent o' = h" for o'
      using that by (auto simp: r_def)
    have mem: "xs ! r \<in> S" "xs ! (r - 1) \<in> S" using less.prems(2) r d(2) by (auto intro!: subsetD [OF less.prems(2)] nth_mem)
    have c: "0 < c" "c < n" "parent c = h" "h < c" using r by (auto simp: c_def)
    have "rank (xs ! o') \<le> rank (xs ! c)" if "0 < o'" "o' < n" "parent o' = h" for o'
      using kids [OF that(1,3)] cmp_rank [OF mem] by (auto simp: c_def)
    then have hole: "heap_hole rank n (xs[h := xs ! c]) c" by (rule heap_hole_down [OF less.prems(1) c(1-3)])
    have sub: "set (xs[h := xs ! c]) \<subseteq> S" using less.prems(2) mem by (intro set_update_subsetI) (auto simp: c_def)
    have "adjust_down cmp xs n h = adjust_down cmp (xs[h := xs ! c]) n c"
      using True by (subst adjust_down.simps) (simp add: Let_def c_def r_def)
    then have "adjust_down cmp (xs[h := xs ! c]) n c = (ys, k)" using less.prems(3) by simp
    from less.hyps [OF _ hole sub this] show ?thesis
      using c d(1,2) mset_hole [of h xs c] by auto
  next
    case False
    then have "(ys, k) = (xs, h)" using less.prems(3) by (subst (asm) adjust_down.simps) simp
    then show ?thesis using False less.prems by auto
  qed
qed

lemma std_push_heap_ok:
  assumes "heap_upto rank (length xs) xs" and "set xs \<subseteq> S" and "x \<in> S"
  defines "ys \<equiv> std_push_heap cmp (xs @ [x])"
  shows "heap_upto rank (length ys) ys" and "mset ys = add_mset x (mset xs)"
proof -
  let ?n = "length xs"
  have nokid: "\<not> (c < Suc ?n \<and> 0 < c \<and> parent c = ?n)" for c using parent_less [of c] by auto
  have "heap_hole rank (Suc ?n) (xs @ [x]) ?n"
    using assms(1) nokid parent_less by (auto simp: heap_hole_def heap_upto_def nth_append)
  then have *: "heap_upto rank (Suc ?n) ys \<and> mset ys = mset ((xs @ [x])[?n := x]) \<and>
      (\<forall>i \<ge> Suc ?n. ys ! i = (xs @ [x]) ! i)"
    using push_hole_ok [of "Suc ?n" "xs @ [x]" ?n x] assms(2,3) by (simp add: ys_def std_push_heap_def)
  then show m: "mset ys = add_mset x (mset xs)" by simp
  show "heap_upto rank (length ys) ys" using * mset_eq_length [of ys "x # xs"] m by simp
qed

text \<open>The single child the last step of \<open>std::pop_heap\<close> moves up when the length is even.\<close>

lemma last_child_ok:
  assumes "heap_hole rank n ys k" and "(n - 1) div 2 \<le> k" and "set ys \<subseteq> S" and "1 \<le> n" and "v \<in> S"
  defines "p \<equiv> (if even n \<and> k = (n - 2) div 2 then (ys[k := ys ! (2 * k + 1)], 2 * k + 1) else (ys, k))"
  shows "heap_upto rank n (push_hole cmp (fst p) (snd p) v)"
    and "mset (push_hole cmp (fst p) (snd p) v) = mset (ys[k := v])"
    and "i \<ge> n \<Longrightarrow> push_hole cmp (fst p) (snd p) v ! i = ys ! i"
proof -
  note d = heap_holeD [OF assms(1)]
  have "heap_hole rank n (fst p) (snd p) \<and> set (fst p) \<subseteq> S \<and> n \<le> 2 * snd p + 1 \<and>
      mset ((fst p)[snd p := v]) = mset (ys[k := v]) \<and> (\<forall>i \<ge> n. fst p ! i = ys ! i)"
  proof (cases "even n \<and> k = (n - 2) div 2")
    case True
    have c: "2 * k + 1 < n" "k < 2 * k + 1" using True assms(4) by auto
    have one: "o' = 2 * k + 1" if "0 < o'" "o' < n" "parent o' = k" for o'
    proof -
      obtain b where b: "n = 2 * b" using True by (auto elim: evenE)
      then show ?thesis using that True by simp presburger
    qed
    have "heap_hole rank n (ys[k := ys ! (2 * k + 1)]) (2 * k + 1)"
      by (rule heap_hole_down [OF assms(1)]) (use c in \<open>auto dest!: one\<close>)
    moreover have "set (ys[k := ys ! (2 * k + 1)]) \<subseteq> S"
      using assms(3) c(1) d(2) by (intro set_update_subsetI) (auto intro!: subsetD [OF assms(3)] nth_mem)
    ultimately show ?thesis
      using True c d(1,2) mset_hole [of k ys "2 * k + 1" v] by (auto simp: p_def)
  next
    case False
    have "n \<le> 2 * k + 1" using False assms(2) by (cases "even n") (auto elim!: evenE oddE)
    moreover have "p = (ys, k)" unfolding p_def using False by (rule if_not_P)
    ultimately show ?thesis using assms(1,3) by simp
  qed
  then have h: "heap_hole rank n (fst p) (snd p)" "set (fst p) \<subseteq> S" "n \<le> 2 * snd p + 1"
    "mset ((fst p)[snd p := v]) = mset (ys[k := v])" "\<And>i. i \<ge> n \<Longrightarrow> fst p ! i = ys ! i" by blast+
  have "rank (fst p ! c) \<le> rank v" if "0 < c" "c < n" "parent c = snd p" for c
    using that h(3) by auto
  note push = push_hole_ok [OF h(1,2) assms(5) this]
  show "heap_upto rank n (push_hole cmp (fst p) (snd p) v)"
    and "mset (push_hole cmp (fst p) (snd p) v) = mset (ys[k := v])"
    and "i \<ge> n \<Longrightarrow> push_hole cmp (fst p) (snd p) v ! i = ys ! i"
    using push h(4,5) by auto
qed

lemma std_pop_heap_ok:
  assumes "heap_upto rank (length xs) xs" and "set xs \<subseteq> S" and "xs \<noteq> []"
  defines "ys \<equiv> std_pop_heap cmp xs"
  shows "heap_upto rank (length xs - 1) ys" and "mset ys = mset xs" and "last ys = hd xs"
proof -
  have "heap_upto rank (length xs - 1) ys \<and> mset ys = mset xs \<and> ys ! (length xs - 1) = xs ! 0"
  proof (cases "length xs > 1")
    case True
    define n where "n = length xs - 1"
    have n: "1 \<le> n" "n < length xs" using True by (auto simp: n_def)
    have hole: "heap_hole rank n (xs[n := xs ! 0]) 0"
      using assms(1) n by (auto simp: heap_hole_def heap_upto_def n_def)
    have S: "xs ! i \<in> S" if "i < length xs" for i using that assms(2) by (meson nth_mem subsetD)
    have S0: "set (xs[n := xs ! 0]) \<subseteq> S" "xs ! n \<in> S"
      by (rule set_update_subsetI [OF assms(2)]) (use S [of 0] S [of n] n assms(3) in auto)
    obtain zs k where zk: "adjust_down cmp (xs[n := xs ! 0]) n 0 = (zs, k)" by force
    note z = adjust_down_ok [OF hole S0(1) zk]
    have l: "heap_hole rank n zs k" "(n - 1) div 2 \<le> k" "set zs \<subseteq> S" using z by auto
    note last = last_child_ok [OF l n(1) S0(2)]
    define p where "p = (if even n \<and> k = (n - 2) div 2 then (zs[k := zs ! (2 * k + 1)], 2 * k + 1) else (zs, k))"
    have "ys = push_hole cmp (fst p) (snd p) (xs ! n)"
      unfolding ys_def std_pop_heap_def p_def using True
      by (simp only: Let_def zk case_prod_beta fst_conv snd_conv if_True flip: n_def)
    then have "heap_upto rank n ys" "mset ys = mset (zs[k := xs ! n])" "ys ! n = zs ! n"
      using last by (simp_all only: flip: p_def)
    moreover have "mset (zs[k := xs ! n]) = mset xs"
      using z n assms(3) mset_swap [of 0 xs n] by (simp add: list_update_swap)
    moreover have "zs ! n = xs ! 0" using z n by simp
    ultimately show ?thesis by (simp add: n_def)
  next
    case False
    then have "length xs = 1" using assms(3) by (cases xs) auto
    then show ?thesis by (simp add: ys_def std_pop_heap_def heap_upto_def)
  qed
  moreover from this have "ys \<noteq> []" "length ys = length xs" using assms(3) mset_eq_length by auto
  ultimately show "heap_upto rank (length xs - 1) ys" "mset ys = mset xs" "last ys = hd xs"
    using assms(3) last_conv_nth [of ys] by (auto simp: hd_conv_nth)
qed

end

lemma heap_upto_top:
  assumes "heap_upto rank n xs" and "i < n"
  shows "rank (xs ! i) \<le> rank (xs ! 0)"
  using assms(2)
proof (induction i rule: less_induct)
  case (less i)
  show ?case
  proof (cases "i = 0")
    case False
    then have "rank (xs ! i) \<le> rank (xs ! parent i)" using assms(1) less.prems by (simp add: heap_upto_def)
    also have "\<dots> \<le> rank (xs ! 0)" by (rule less.IH) (use False less.prems in auto)
    finally show ?thesis .
  qed simp
qed

section \<open>The contract of a queue\<close>

definition cut_to :: "nat option \<Rightarrow> 'a list \<Rightarrow> 'a list" where
  "cut_to limit xs = (case limit of None \<Rightarrow> xs | Some k \<Rightarrow> take k xs)"

abbreviation ranks :: "('r \<Rightarrow> int) \<Rightarrow> 'r multiset \<Rightarrow> int list" where
  "ranks rank M \<equiv> sorted_list_of_multiset (image_mset rank M)"

lemma take_insort: "sorted xs \<Longrightarrow> take k (insort x (take k xs)) = take k (insort x xs)"
proof (induction xs arbitrary: k)
  case (Cons y ys)
  then show ?case by (cases k; cases "k - 1") (auto simp: take_Cons')
qed simp

lemma cut_insort: "sorted xs \<Longrightarrow> cut_to limit (insort x (cut_to limit xs)) = cut_to limit (insort x xs)"
  by (simp add: cut_to_def take_insort split: option.split)

lemma sorted_cut [simp]: "sorted xs \<Longrightarrow> sorted (cut_to limit xs)"
  by (simp add: cut_to_def sorted_wrt_take split: option.split)

lemma cut_add:
  assumes "sorted xs"
  shows "cut_to limit (sorted_list_of_multiset (mset (cut_to limit xs) + B)) = cut_to limit (sorted_list_of_multiset (mset xs + B))"
proof (induction B)
  case empty
  show ?case using assms by (simp add: sorted_sort_id) (simp add: cut_to_def split: option.split)
next
  case (add y B)
  then show ?case
    by (metis add_mset_add_single cut_insort sorted_list_of_multiset_insert sorted_sorted_list_of_multiset union_mset_add_mset_right)
qed

definition kept :: "nat option \<Rightarrow> ('r \<Rightarrow> int) \<Rightarrow> 'r multiset \<Rightarrow> 'r multiset \<Rightarrow> bool" where
  "kept limit rank M M' \<longleftrightarrow>
     (if \<exists>k. limit = Some k \<and> k < size M
      then \<exists>w. w \<in># M \<and> (\<forall>x. x \<in># M \<longrightarrow> rank x \<le> rank w) \<and> M' = M - {#w#} else M' = M)"

lemma kept_full:
  "k < size M \<Longrightarrow> w \<in># M \<Longrightarrow> (\<And>x. x \<in># M \<Longrightarrow> rank x \<le> rank w) \<Longrightarrow> kept (Some k) rank M (M - {#w#})"
  by (auto simp: kept_def)

lemma ranks_remove_worst:
  assumes "w \<in># M" and "\<forall>x. x \<in># M \<longrightarrow> rank x \<le> rank w"
  shows "ranks rank M = ranks rank (M - {#w#}) @ [rank w]"
proof -
  obtain N where M: "M = add_mset w N" using assms(1) by (meson mset_add)
  let ?r = "sorted_list_of_multiset (image_mset rank N)"
  have "\<forall>y \<in> set ?r. y \<le> rank w" using assms(2) by (auto simp: M)
  then have "sorted (?r @ [rank w])" by (simp add: sorted_append)
  then have "sort (?r @ [rank w]) = ?r @ [rank w]" by (rule sorted_sort_id)
  moreover have "image_mset rank M = mset (?r @ [rank w])" by (simp add: M)
  ultimately show ?thesis by (metis M add_mset_remove_trivial sorted_list_of_multiset_mset)
qed

lemma kept_ranks:
  assumes "kept limit rank M M'" and "\<And>k. limit = Some k \<Longrightarrow> size M \<le> k + 1"
  shows "ranks rank M' = cut_to limit (ranks rank M)" and "M' \<subseteq># M" and "limit = Some k \<Longrightarrow> size M' \<le> k"
proof -
  have len: "length (ranks rank N) = size N" for N by (metis size_image_mset size_mset mset_sorted_list_of_multiset)
  show "ranks rank M' = cut_to limit (ranks rank M)"
  proof (cases "\<exists>k. limit = Some k \<and> k < size M")
    case True
    then obtain k where k: "limit = Some k" "size M = k + 1" using assms(2) by force
    obtain w where w: "w \<in># M" "\<forall>x. x \<in># M \<longrightarrow> rank x \<le> rank w" "M' = M - {#w#}"
      using assms(1) True by (auto simp: kept_def)
    have "length (ranks rank M') = k" using w k by (simp add: len size_Diff_singleton)
    then show ?thesis by (simp add: ranks_remove_worst [OF w(1,2)] w(3) [symmetric] k(1) cut_to_def)
  next
    case False
    then show ?thesis using assms(1) len [of M] by (auto simp: kept_def cut_to_def split: option.split)
  qed
  show "M' \<subseteq># M" using assms(1) by (auto simp: kept_def split: if_splits)
  show "limit = Some k \<Longrightarrow> size M' \<le> k"
    using assms(1) assms(2) [of k] by (auto simp: kept_def size_Diff_singleton split: if_splits)
qed

locale record_heap =
  fixes inv :: "'h \<Rightarrow> bool" and elems :: "'h \<Rightarrow> 'r multiset" and limit :: "nat option"
    and ok :: "'r \<Rightarrow> bool" and rank :: "'r \<Rightarrow> int"
    and push :: "'h \<Rightarrow> 'r \<Rightarrow> 'h result" and tp :: "'h \<Rightarrow> 'r result" and pop :: "'h \<Rightarrow> 'h result"
    and emp :: "'h \<Rightarrow> bool"
  assumes size_ok: "inv h \<Longrightarrow> limit = Some k \<Longrightarrow> size (elems h) \<le> k"
    and push_ok: "inv h \<Longrightarrow> ok r \<Longrightarrow> size (elems h) < 2 ^ 60 \<Longrightarrow>
      \<exists>h'. push h r = Inr h' \<and> inv h' \<and> kept limit rank (add_mset r (elems h)) (elems h')"
    and pop_ok: "inv h \<Longrightarrow> elems h \<noteq> {#} \<Longrightarrow>
      \<exists>r h'. tp h = Inr r \<and> r \<in># elems h \<and> (\<forall>x. x \<in># elems h \<longrightarrow> rank x \<le> rank r) \<and>
        pop h = Inr h' \<and> inv h' \<and> elems h' = elems h - {#r#}"
    and emp_ok: "inv h \<Longrightarrow> emp h \<longleftrightarrow> elems h = {#}"
begin

lemma push_all_ok:
  assumes "inv h" and "\<forall>r \<in> set rs. ok r" and "size (elems h) + length rs \<le> 2 ^ 60"
  shows "\<exists>h'. push_all push rs h = Inr h' \<and> inv h' \<and> elems h' \<subseteq># elems h + mset rs \<and>
    ranks rank (elems h') = cut_to limit (ranks rank (elems h + mset rs))"
  using assms
proof (induction rs arbitrary: h)
  case Nil
  have "cut_to limit (ranks rank (elems h)) = ranks rank (elems h)"
    using size_ok [OF Nil(1)] by (metis (no_types) cut_to_def kept_def kept_ranks(1) le_add1 linorder_not_le order_trans)
  then show ?case using Nil by simp
next
  case (Cons r rs)
  have sz: "size (elems h) < 2 ^ 60" using Cons.prems(3) by simp
  obtain h1 where h1: "push h r = Inr h1" "inv h1" and k: "kept limit rank (add_mset r (elems h)) (elems h1)"
    using push_ok [OF Cons.prems(1) _ sz, of r] Cons.prems(2) by auto
  have "size (add_mset r (elems h)) \<le> k + 1" if "limit = Some k" for k
    using size_ok [OF Cons.prems(1) that] by simp
  note kr = kept_ranks [OF k this]
  have "size (elems h1) + length rs \<le> 2 ^ 60" using size_mset_mono [OF kr(2)] Cons.prems(3) by simp
  then obtain h' where h': "push_all push rs h1 = Inr h'" "inv h'" "elems h' \<subseteq># elems h1 + mset rs"
      "ranks rank (elems h') = cut_to limit (ranks rank (elems h1 + mset rs))"
    using Cons.IH [OF h1(2)] Cons.prems(2) by auto
  have sub: "elems h' \<subseteq># elems h + mset (r # rs)"
    using subset_mset.order_trans [OF h'(3) subset_mset.add_right_mono [OF kr(2), of "mset rs"]] by simp
  have e: "image_mset rank (elems h1) = mset (cut_to limit (ranks rank (add_mset r (elems h))))"
    by (metis kr(1) mset_sorted_list_of_multiset)
  have "ranks rank (elems h') = cut_to limit (ranks rank (elems h + mset (r # rs)))"
    unfolding h'(4) image_mset_union e
    by (subst cut_add) (simp_all add: ac_simps sorted_insort)
  then show ?case using h1(1) h'(1,2) sub by simp
qed

lemma drain_ok:
  assumes "inv h" and "size (elems h) < fuel"
  shows "\<exists>ps. drain fuel emp tp pop h = Inr ps \<and> mset ps = elems h \<and> map rank (rev ps) = ranks rank (elems h)"
  using assms
proof (induction fuel arbitrary: h)
  case (Suc fuel)
  show ?case
  proof (cases "elems h = {#}")
    case True
    then show ?thesis using emp_ok [OF Suc.prems(1)] by simp
  next
    case False
    obtain r h' where r: "tp h = Inr r" "r \<in># elems h" "\<forall>x. x \<in># elems h \<longrightarrow> rank x \<le> rank r"
        "pop h = Inr h'" "inv h'" "elems h' = elems h - {#r#}"
      using pop_ok [OF Suc.prems(1) False] by blast
    have "size (elems h') < fuel" using Suc.prems(2) r(6) size_Suc_Diff1 [OF r(2)] by simp
    then obtain ps where ps: "drain fuel emp tp pop h' = Inr ps" "mset ps = elems h'"
        "map rank (rev ps) = ranks rank (elems h')"
      using Suc.IH [OF r(5)] by blast
    have "mset (r # ps) = elems h" using ps(2) r(2,6) by simp
    moreover have "map rank (rev (r # ps)) = ranks rank (elems h)"
      using ps(3) ranks_remove_worst [OF r(2,3)] r(6) by simp
    ultimately show ?thesis using ps(1) r(1,4) False emp_ok [OF Suc.prems(1)] by simp
  qed
qed simp

end

section \<open>Ranks of distances\<close>

definition rank :: "bool \<Rightarrow> DistanceRecord \<Rightarrow> int" where
  "rank max_heap r = (if max_heap then float_key (fst r) else - float_key (fst r))"

definition proper :: "DistanceRecord \<Rightarrow> bool" where
  "proper r \<longleftrightarrow> \<not> is_nan (fst r)"

lemma float_lt_rank:
  assumes "proper r" and "proper t"
  shows "float_lt (fst r) (fst t) \<longleftrightarrow> (if max_heap then rank max_heap r < rank max_heap t else rank max_heap t < rank max_heap r)"
  using assms by (simp add: float_lt_def rank_def proper_def)

interpretation dist: ranked_cmp "CompareType max_heap" "rank max_heap" "Collect proper" for max_heap
  by unfold_locales (auto simp: CompareMax_def CompareMin_def float_lt_rank [where max_heap = max_heap])

context ranked_cmp
begin

lemma upper_bound_loop_ok:
  assumes "sorted (map rank (take n xs))" and "n \<le> length xs" and "set (take n xs) \<subseteq> S" and "v \<in> S"
    and "first + len \<le> n"
    and "\<forall>i < first. rank (xs ! i) \<le> rank v" and "\<forall>i. first + len \<le> i \<and> i < n \<longrightarrow> rank v < rank (xs ! i)"
  defines "p \<equiv> upper_bound_loop cmp xs v first len"
  shows "p \<le> n \<and> (\<forall>i < p. rank (xs ! i) \<le> rank v) \<and> (\<forall>i. p \<le> i \<and> i < n \<longrightarrow> rank v < rank (xs ! i))"
proof -
  define Q where "Q p \<longleftrightarrow> p \<le> n \<and> (\<forall>i < p. rank (xs ! i) \<le> rank v) \<and>
      (\<forall>i. p \<le> i \<and> i < n \<longrightarrow> rank v < rank (xs ! i))" for p
  have mono: "rank (xs ! i) \<le> rank (xs ! j)" if "i \<le> j" "j < n" for i j
    using sorted_nth_mono [OF assms(1), of i j] that assms(2) by simp
  have "Q (upper_bound_loop cmp xs v first len)"
    using assms(5-7)
  proof (induction len arbitrary: first rule: less_induct)
    case (less len)
    show ?case
    proof (cases "len = 0")
      case True
      then show ?thesis using less.prems by (subst upper_bound_loop.simps) (simp add: Q_def)
    next
      case False
      let ?m = "first + len div 2"
      have m: "?m < n" using False less.prems(1) by linarith
      then have "xs ! ?m \<in> set (take n xs)" using assms(2) by (metis in_set_conv_nth length_take min.absorb2 nth_take)
      then have c: "cmp v (xs ! ?m) \<longleftrightarrow> rank v < rank (xs ! ?m)" using assms(3,4) by (intro cmp_rank) auto
      show ?thesis
      proof (cases "cmp v (xs ! ?m)")
        case True
        have "\<forall>i. ?m \<le> i \<and> i < n \<longrightarrow> rank v < rank (xs ! i)" using True c mono [of ?m] by fastforce
        then have "Q (upper_bound_loop cmp xs v first (len div 2))"
          using less.IH [of "len div 2" first] less.prems False m by simp
        then show ?thesis using True False by (subst upper_bound_loop.simps) (simp add: Let_def)
      next
        case f: False
        have "\<forall>i < ?m + 1. rank (xs ! i) \<le> rank v" using f c order_trans [OF mono [OF _ m]]
          by (simp add: not_less less_Suc_eq_le)
        then have "Q (upper_bound_loop cmp xs v (?m + 1) (len - len div 2 - 1))"
          by (intro less.IH) (use less.prems False in auto)
        then show ?thesis using f False by (subst upper_bound_loop.simps) (simp add: Let_def)
      qed
    qed
  qed
  then show ?thesis by (simp add: Q_def p_def)
qed

lemma std_upper_bound_ok:
  assumes "sorted (map rank (take n xs))" and "n \<le> length xs" and "set (take n xs) \<subseteq> S" and "v \<in> S"
  defines "p \<equiv> std_upper_bound cmp xs n v"
  shows "p \<le> n" and "sorted (map rank (take p xs @ [v] @ drop p (take n xs)))"
proof -
  have p: "p \<le> n" "\<forall>i < p. rank (xs ! i) \<le> rank v" "\<forall>i. p \<le> i \<and> i < n \<longrightarrow> rank v < rank (xs ! i)"
    using upper_bound_loop_ok [OF assms(1-4), of 0 n] by (simp_all add: p_def std_upper_bound_def)
  then show "p \<le> n" by simp
  have t: "take p (take n xs) = take p xs" using p(1) by simp
  have "sorted (map rank (take p xs)) \<and> sorted (map rank (drop p (take n xs)))"
    using assms(1) t by (metis sorted_wrt_drop sorted_wrt_take take_map drop_map)
  moreover have "\<forall>x \<in> set (take p xs). rank x \<le> rank v" using p(2) by (auto simp: in_set_conv_nth)
  moreover have "\<forall>x \<in> set (drop p (take n xs)). rank v \<le> rank x"
    using p(1,3) assms(2) by (auto simp: in_set_conv_nth intro!: less_imp_le)
  ultimately show "sorted (map rank (take p xs @ [v] @ drop p (take n xs)))"
    by (fastforce simp: sorted_append)
qed

end

section \<open>The ordered array as a queue\<close>

abbreviation limit_of :: "bool \<Rightarrow> nat \<Rightarrow> nat option" where
  "limit_of fixed_size k \<equiv> (if fixed_size then Some k else None)"

definition mm_items :: "MemmoveHeap \<Rightarrow> DistanceRecord list" where
  "mm_items h = take (unat (cur_size h)) (ordered_buffer h)"

definition mm_inv :: "bool \<Rightarrow> bool \<Rightarrow> nat \<Rightarrow> MemmoveHeap \<Rightarrow> bool" where
  "mm_inv max_heap fixed_size k h \<longleftrightarrow>
     unat (cur_size h) \<le> length (ordered_buffer h) \<and> set (mm_items h) \<subseteq> Collect proper \<and>
     sorted (map (rank max_heap) (mm_items h)) \<and>
     (fixed_size \<longrightarrow> unat (mh_max_size h) = k \<and> length (ordered_buffer h) = k + 1 \<and>
        unat (cur_size h) \<le> k \<and> 0 < k \<and> k < 2 ^ 60)"

lemma store_record_ok:
  assumes "pos \<le> n" and "n - pos \<le> m" and "pos + 1 + m \<le> length buf" and "n \<le> length buf"
  obtains buf' where "store_record buf pos m r = Inr buf'" and "length buf' = length buf"
    and "take (n + 1) buf' = take pos buf @ [r] @ drop pos (take n buf)"
proof -
  define b1 where "b1 = take (pos + 1) buf @ take m (drop pos buf) @ drop (pos + 1 + m) buf"
  have "memmove_records buf (pos + 1) pos m = Inr b1" using assms(3) by (simp add: memmove_records_def b1_def)
  moreover have len: "length b1 = length buf" using assms(3) by (simp add: b1_def)
  ultimately have "store_record buf pos m r = Inr (b1[pos := r])"
    using assms(3) by (simp add: store_record_def)
  moreover have "take (n + 1) (b1[pos := r]) = take pos buf @ [r] @ drop pos (take n buf)"
  proof (rule nth_equalityI)
    show "length (take (n + 1) (b1[pos := r])) = length (take pos buf @ [r] @ drop pos (take n buf))"
      using assms len by simp
    fix i
    assume "i < length (take (n + 1) (b1[pos := r]))"
    then have i: "i \<le> n" "i < length buf" using len by simp_all
    then show "take (n + 1) (b1[pos := r]) ! i = (take pos buf @ [r] @ drop pos (take n buf)) ! i"
      using assms len
      by (cases "i < pos"; cases "i = pos") (auto simp: b1_def nth_append nth_list_update min_def nth_Cons' less_Suc_eq_le)
  qed
  ultimately show thesis using that len by simp
qed

lemma mm_insert_ok:
  assumes inv: "mm_inv max_heap fixed_size k h" and r: "proper r"
    and buf: "ordered_buffer h = take (length (ordered_buffer h)) buf" "n = unat (cur_size h)"
    and m: "\<And>pos. pos \<le> n \<Longrightarrow> n - pos \<le> m pos \<and> pos + 1 + m pos \<le> length buf"
  obtains pos buf' where "search_position max_heap h r = Inr pos" and "pos \<le> n"
    and "store_record buf pos (m pos) r = Inr buf'" and "length buf' = length buf"
    and "sorted (map (rank max_heap) (take (n + 1) buf'))" and "mset (take (n + 1) buf') = add_mset r (mset (mm_items h))"
proof -
  have i: "n \<le> length (ordered_buffer h)" "set (take n (ordered_buffer h)) \<subseteq> Collect proper"
    "sorted (map (rank max_heap) (take n (ordered_buffer h)))"
    using inv by (simp_all add: mm_inv_def mm_items_def buf(2))
  define pos where "pos = std_upper_bound (CompareType max_heap) (ordered_buffer h) n r"
  have p: "pos \<le> n" "sorted (map (rank max_heap) (take pos (ordered_buffer h) @ [r] @ drop pos (take n (ordered_buffer h))))"
    using dist.std_upper_bound_ok [OF i(3,1,2), of r] r by (simp_all add: pos_def)
  have same: "take j buf = take j (ordered_buffer h)" if "j \<le> n" for j
    using that i(1) arg_cong [OF buf(1), of "take j"] by simp
  have "length (ordered_buffer h) \<le> length buf" using arg_cong [OF buf(1), of length] by simp
  then have "n \<le> length buf" using i(1) by simp
  then obtain buf' where b: "store_record buf pos (m pos) r = Inr buf'" "length buf' = length buf"
      "take (n + 1) buf' = take pos buf @ [r] @ drop pos (take n buf)"
    using store_record_ok [OF p(1)] m [OF p(1)] by blast
  have e: "take (n + 1) buf' = take pos (ordered_buffer h) @ [r] @ drop pos (take n (ordered_buffer h))"
    using b(3) same [OF p(1)] same [of n] by simp
  have "take pos (ordered_buffer h) = take pos (take n (ordered_buffer h))" using p(1) by simp
  then have "mset (take (n + 1) buf') = add_mset r (mset (mm_items h))"
    unfolding e mm_items_def buf(2) [symmetric] by (metis append_take_drop_id mset.simps(2) mset_append union_mset_add_mset_right append_Cons append_Nil)
  moreover have "search_position max_heap h r = Inr pos"
    using i(1) by (simp add: search_position_def pos_def buf(2))
  ultimately show thesis using that b(1,2) p e by metis
qed

lemma sorted_last_worst:
  assumes "sorted (map f (xs @ [w]))" and "x \<in> set (xs @ [w])"
  shows "f x \<le> (f w :: int)"
  using assms by (auto simp: sorted_append)

lemma unat_succ_u64: "unat (w :: u64) < 2 ^ 60 \<Longrightarrow> unat (w + 1) = unat w + 1"
  by (simp add: unat_word_ariths)

lemma unat_pred_u64: "0 < unat (w :: u64) \<Longrightarrow> unat (w - 1) = unat w - 1"
  by (metis One_nat_def Suc_leI unat_1 unat_sub word_le_nat_alt)

lemma mm_fixed_items:
  assumes "mm_inv max_heap True k h"
  shows "length (mm_items h) = unat (cur_size h)" and "unat (cur_size h) \<le> k"
    and "cur_size h < mh_max_size h \<longleftrightarrow> unat (cur_size h) < k"
  using assms by (simp_all add: mm_inv_def mm_items_def word_less_nat_alt)

lemma mm_top:
  assumes "mm_inv max_heap fixed_size k h" and "0 < unat (cur_size h)"
  shows "MemmoveHeap_Top h = Inr (last (mm_items h))" and "mm_items h \<noteq> []"
    and "mm_items (MemmoveHeap_Pop h) = butlast (mm_items h)" and "mm_inv max_heap fixed_size k (MemmoveHeap_Pop h)"
proof -
  note un = unat_pred_u64 [OF assms(2)]
  have c: "unat (cur_size h) \<le> length (ordered_buffer h)" using assms(1) by (simp add: mm_inv_def)
  show ne: "mm_items h \<noteq> []" using c assms(2) by (auto simp: mm_items_def)
  show "MemmoveHeap_Top h = Inr (last (mm_items h))"
    using c assms(2) ne by (auto simp: MemmoveHeap_Top_def Let_def un mm_items_def last_conv_nth)
  show b: "mm_items (MemmoveHeap_Pop h) = butlast (mm_items h)"
    using c by (simp add: MemmoveHeap_Pop_def mm_items_def un butlast_take)
  have "sorted (map (rank max_heap) (butlast (mm_items h)))"
    using assms(1) by (simp add: mm_inv_def sorted_butlast flip: map_butlast) (simp add: map_butlast sorted_butlast)
  then show "mm_inv max_heap fixed_size k (MemmoveHeap_Pop h)"
    using assms(1) c in_set_butlastD [of _ "mm_items h"] unfolding mm_inv_def b
    by (auto simp: MemmoveHeap_Pop_def un)
qed

lemma mm_inv_fixedD:
  assumes "mm_inv max_heap True k h"
  shows "unat (mh_max_size h) = k" and "length (ordered_buffer h) = k + 1" and "0 < k" and "k < 2 ^ 60"
    and "set (mm_items h) \<subseteq> Collect proper" and "sorted (map (rank max_heap) (mm_items h))"
  using assms by (simp_all add: mm_inv_def)

text \<open>The array after storing \<open>r\<close> at its place, before the surplus entry is dropped.\<close>

lemma mm_insert_fixed:
  assumes inv: "mm_inv max_heap True k h" and r: "proper r"
  obtains pos buf' h1 where "search_position max_heap h r = Inr pos"
    and "store_record (ordered_buffer h) pos (unat (mh_max_size h - word_of_nat pos)) r = Inr buf'"
    and "h1 = h\<lparr>ordered_buffer := buf', cur_size := cur_size h + 1\<rparr>"
    and "length buf' = k + 1" and "unat (cur_size h1) = unat (cur_size h) + 1"
    and "mset (mm_items h1) = add_mset r (mset (mm_items h))"
    and "sorted (map (rank max_heap) (mm_items h1))" and "set (mm_items h1) \<subseteq> Collect proper"
    and "length (mm_items h1) = unat (cur_size h) + 1"
proof -
  let ?n = "unat (cur_size h)"
  note f = mm_fixed_items [OF inv] and i = mm_inv_fixedD [OF inv]
  have n1: "unat (cur_size h + 1) = ?n + 1" using f(2) i(4) by (intro unat_succ_u64) simp
  have m: "?n - pos \<le> unat (mh_max_size h - word_of_nat pos) \<and>
      pos + 1 + unat (mh_max_size h - word_of_nat pos) \<le> length (ordered_buffer h)" if "pos \<le> ?n" for pos
  proof -
    have u: "unat (word_of_nat pos :: u64) = pos" using that f(2) i(4) by (intro unat_word_of_nat_u64) simp
    then have "unat (mh_max_size h - word_of_nat pos) = k - pos"
      using that f(2) i(1) by (subst unat_sub) (simp_all add: word_le_nat_alt)
    then show ?thesis using that f(2) i(2) by simp
  qed
  obtain pos buf' where b: "search_position max_heap h r = Inr pos"
      "store_record (ordered_buffer h) pos (unat (mh_max_size h - word_of_nat pos)) r = Inr buf'"
      "length buf' = length (ordered_buffer h)" "sorted (map (rank max_heap) (take (?n + 1) buf'))"
      "mset (take (?n + 1) buf') = add_mset r (mset (mm_items h))"
    by (rule mm_insert_ok [OF inv r _ refl, of "ordered_buffer h" "\<lambda>pos. unat (mh_max_size h - word_of_nat pos)"])
      (use m in auto)
  define h1 where "h1 = h\<lparr>ordered_buffer := buf', cur_size := cur_size h + 1\<rparr>"
  have items1: "mm_items h1 = take (?n + 1) buf'" by (simp add: h1_def mm_items_def n1)
  have "set (mm_items h1) \<subseteq> Collect proper"
    using r i(5) mset_eq_setD [of "mm_items h1" "r # mm_items h"] b(5) by (auto simp: items1)
  then show thesis
    using that [OF b(1,2) h1_def] b(3-5) i(2) f(2) n1 by (simp add: items1) (simp add: h1_def)
qed

lemma mm_push_room:
  assumes inv: "mm_inv max_heap True k h" and r: "proper r" and room: "unat (cur_size h) < k"
  shows "\<exists>h'. MemmoveHeap_Push max_heap True h (fst r) (snd r) = Inr h' \<and> mm_inv max_heap True k h' \<and>
    mset (mm_items h') = add_mset r (mset (mm_items h))"
proof -
  from mm_insert_fixed [OF inv r] obtain pos buf' h1 where b: "search_position max_heap h r = Inr pos"
    "store_record (ordered_buffer h) pos (unat (mh_max_size h - word_of_nat pos)) r = Inr buf'"
    "h1 = h\<lparr>ordered_buffer := buf', cur_size := cur_size h + 1\<rparr>" "length buf' = k + 1"
    "unat (cur_size h1) = unat (cur_size h) + 1" "mset (mm_items h1) = add_mset r (mset (mm_items h))"
    "sorted (map (rank max_heap) (mm_items h1))" "set (mm_items h1) \<subseteq> Collect proper" by metis
  note i = mm_inv_fixedD [OF inv]
  have h1: "ordered_buffer h1 = buf'" "mh_max_size h1 = mh_max_size h" "\<not> mh_max_size h1 < cur_size h1"
    using b(5) i(1) room by (simp_all add: b(3) word_less_nat_alt)
  have "MemmoveHeap_Push max_heap True h (fst r) (snd r) = Inr h1"
    using b(1,2) room mm_fixed_items(3) [OF inv] h1(3)
    by (simp add: MemmoveHeap_Push_def MemmoveHeap_Size_def Let_def b(3))
  moreover have "mm_inv max_heap True k h1"
    unfolding mm_inv_def h1(1,2) using b(4,5,7,8) i(1,3,4) room by simp
  ultimately show ?thesis using b(6) by blast
qed

lemma mm_push_full:
  assumes inv: "mm_inv max_heap True k h" and r: "proper r" and full: "unat (cur_size h) = k"
    and acc: "float_lt (fst r) (fst (last (mm_items h))) = max_heap"
  shows "\<exists>h'. MemmoveHeap_Push max_heap True h (fst r) (snd r) = Inr h' \<and> mm_inv max_heap True k h' \<and>
    kept (Some k) (rank max_heap) (add_mset r (mset (mm_items h))) (mset (mm_items h'))"
proof -
  from mm_insert_fixed [OF inv r] obtain pos buf' h1 where b: "search_position max_heap h r = Inr pos"
    "store_record (ordered_buffer h) pos (unat (mh_max_size h - word_of_nat pos)) r = Inr buf'"
    "h1 = h\<lparr>ordered_buffer := buf', cur_size := cur_size h + 1\<rparr>" "length buf' = k + 1"
    "unat (cur_size h1) = unat (cur_size h) + 1" "mset (mm_items h1) = add_mset r (mset (mm_items h))"
    "sorted (map (rank max_heap) (mm_items h1))" "set (mm_items h1) \<subseteq> Collect proper"
    "length (mm_items h1) = unat (cur_size h) + 1" by metis
  note i = mm_inv_fixedD [OF inv]
  obtain ys w where yw: "mm_items h1 = ys @ [w]" using b(9) by (metis rev_exhaust list.size(3) add_is_0 one_neq_zero)
  have h1: "mh_max_size h1 < cur_size h1" using b(5) i(1) full by (simp add: b(3) word_less_nat_alt)
  define h2 where "h2 = MemmoveHeap_Pop h1"
  have h2: "ordered_buffer h2 = buf'" "mh_max_size h2 = mh_max_size h" "unat (cur_size h2) = k"
    using full by (simp_all add: h2_def MemmoveHeap_Pop_def b(3))
  have "take (k + 1) buf' = ys @ [w]" using yw b(5) full by (simp add: mm_items_def b(3))
  moreover from this have len: "length ys = k" using b(4) arg_cong [of _ _ length] by fastforce
  ultimately have "take k buf' = ys" by (metis append_eq_conv_conj le_add1 min.absorb2 take_take min.commute)
  then have items2: "mm_items h2 = ys" by (simp add: mm_items_def h2)
  have "MemmoveHeap_Push max_heap True h (fst r) (snd r) = Inr h2"
    using b(1,2) mm_fixed_items(3) [OF inv] mm_top(1) [OF inv] full i(3) acc h1
    by (simp add: MemmoveHeap_Push_def MemmoveHeap_Size_def Let_def h2_def b(3))
  moreover have "mm_inv max_heap True k h2"
    unfolding mm_inv_def items2 h2 using b(4,7,8) i(1,3,4) yw by (simp add: sorted_append)
  moreover have "rank max_heap x \<le> rank max_heap w" if "x \<in># add_mset r (mset (mm_items h))" for x
    using sorted_last_worst [of "rank max_heap" ys w x] b(7) that
    unfolding b(6) [symmetric] yw by simp
  moreover have "add_mset r (mset (mm_items h)) = add_mset w (mset ys)" using b(6) yw by simp
  ultimately show ?thesis
    using kept_full [of k "add_mset r (mset (mm_items h))" w "rank max_heap"] full mm_fixed_items(1) [OF inv] items2 len
    by (intro exI [of _ h2]) simp
qed

lemma mm_push_fixed:
  assumes inv: "mm_inv max_heap True k h" and r: "proper r"
  shows "\<exists>h'. MemmoveHeap_Push max_heap True h (fst r) (snd r) = Inr h' \<and> mm_inv max_heap True k h' \<and>
    kept (Some k) (rank max_heap) (add_mset r (mset (mm_items h))) (mset (mm_items h'))"
proof (cases "unat (cur_size h) < k")
  case True
  then show ?thesis
    using mm_push_room [OF inv r True] mm_fixed_items(1) [OF inv] by (auto simp: kept_def)
next
  case False
  then have n: "unat (cur_size h) = k" using mm_fixed_items(2) [OF inv] by simp
  note i = mm_inv_fixedD [OF inv]
  have pos: "0 < unat (cur_size h)" using n i(3) by simp
  note top = mm_top [OF inv pos]
  have pt: "proper (last (mm_items h))" using i(5) top(2) by (meson last_in_set mem_Collect_eq subsetD)
  have worst: "rank max_heap x \<le> rank max_heap (last (mm_items h))" if "x \<in> set (mm_items h)" for x
    using sorted_last_worst [of "rank max_heap" "butlast (mm_items h)" "last (mm_items h)" x] i(6) top(2) that by simp
  show ?thesis
  proof (cases "float_lt (fst r) (fst (last (mm_items h))) = max_heap")
    case True
    then show ?thesis by (rule mm_push_full [OF inv r n])
  next
    case f: False
    then have "MemmoveHeap_Push max_heap True h (fst r) (snd r) = Inr h"
      using n mm_fixed_items(3) [OF inv] top(1) by (simp add: MemmoveHeap_Push_def MemmoveHeap_Size_def Let_def)
    moreover have "rank max_heap (last (mm_items h)) \<le> rank max_heap r"
      using f float_lt_rank [OF r pt, of max_heap] by (auto split: if_splits)
    moreover from this have "rank max_heap x \<le> rank max_heap r" if "x \<in> set (mm_items h)" for x
      using order_trans [OF worst [OF that]] by blast
    ultimately show ?thesis
      using kept_full [of k "add_mset r (mset (mm_items h))" r "rank max_heap"] inv n mm_fixed_items(1) [OF inv]
      by (intro exI [of _ h]) auto
  qed
qed

lemma mm_push_free:
  assumes inv: "mm_inv max_heap False k h" and r: "proper r" and small: "length (mm_items h) < 2 ^ 60"
  shows "\<exists>h'. MemmoveHeap_Push max_heap False h (fst r) (snd r) = Inr h' \<and> mm_inv max_heap False k h' \<and>
    mset (mm_items h') = add_mset r (mset (mm_items h))"
proof -
  let ?n = "unat (cur_size h)"
  let ?buf = "if length (ordered_buffer h) \<le> ?n then ordered_buffer h @ [r] else ordered_buffer h"
  have i: "?n \<le> length (ordered_buffer h)" "set (mm_items h) \<subseteq> Collect proper" using inv by (simp_all add: mm_inv_def)
  have n: "?n < 2 ^ 60" using small i(1) by (simp add: mm_items_def)
  have m: "?n - pos \<le> unat (cur_size h - word_of_nat pos) \<and>
      pos + 1 + unat (cur_size h - word_of_nat pos) \<le> length ?buf" if "pos \<le> ?n" for pos
  proof -
    have u: "unat (word_of_nat pos :: u64) = pos" using that n by (intro unat_word_of_nat_u64) simp
    then have "unat (cur_size h - word_of_nat pos) = ?n - pos"
      using that by (subst unat_sub) (simp_all add: word_le_nat_alt)
    then show ?thesis using that i(1) by simp
  qed
  obtain pos buf' where b: "search_position max_heap h r = Inr pos"
      "store_record ?buf pos (unat (cur_size h - word_of_nat pos)) r = Inr buf'"
      "length buf' = length ?buf" "sorted (map (rank max_heap) (take (?n + 1) buf'))"
      "mset (take (?n + 1) buf') = add_mset r (mset (mm_items h))"
    by (rule mm_insert_ok [OF inv r _ refl, of ?buf "\<lambda>pos. unat (cur_size h - word_of_nat pos)"])
      (use m in auto)
  define h1 where "h1 = h\<lparr>ordered_buffer := buf', cur_size := cur_size h + 1\<rparr>"
  have n1: "unat (cur_size h1) = ?n + 1" using unat_succ_u64 [OF n] by (simp add: h1_def)
  have items1: "mm_items h1 = take (?n + 1) buf'" unfolding mm_items_def n1 by (simp add: h1_def)
  have "set (mm_items h1) \<subseteq> Collect proper"
    using r i(2) mset_eq_setD [of "mm_items h1" "r # mm_items h"] b(5) by (auto simp: items1)
  then have "mm_inv max_heap False k h1"
    using b(3,4) i(1) by (auto simp: mm_inv_def n1) (auto simp: items1, auto simp: h1_def)
  moreover have "MemmoveHeap_Push max_heap False h (fst r) (snd r) = Inr h1"
    using b(1,2) by (simp add: MemmoveHeap_Push_def Let_def h1_def)
  ultimately show ?thesis using b(5) items1 by auto
qed

interpretation mm: record_heap "mm_inv max_heap fixed_size k" "\<lambda>h. mset (mm_items h)" "limit_of fixed_size k"
  proper "rank max_heap" "\<lambda>h r. MemmoveHeap_Push max_heap fixed_size h (fst r) (snd r)" MemmoveHeap_Top
  "\<lambda>h. Inr (MemmoveHeap_Pop h)" MemmoveHeap_Empty
  for max_heap fixed_size k
proof unfold_locales
  fix h :: MemmoveHeap and r :: DistanceRecord and j
  assume inv: "mm_inv max_heap fixed_size k h"
  show "limit_of fixed_size k = Some j \<Longrightarrow> size (mset (mm_items h)) \<le> j"
    using inv by (auto simp: mm_inv_def mm_items_def split: if_splits)
  show "proper r \<Longrightarrow> size (mset (mm_items h)) < 2 ^ 60 \<Longrightarrow>
      \<exists>h'. MemmoveHeap_Push max_heap fixed_size h (fst r) (snd r) = Inr h' \<and> mm_inv max_heap fixed_size k h' \<and>
        kept (limit_of fixed_size k) (rank max_heap) (add_mset r (mset (mm_items h))) (mset (mm_items h'))"
    using mm_push_fixed [of max_heap k h r] mm_push_free [of max_heap k h r] inv
    by (cases fixed_size) (auto simp: kept_def)
  have len: "length (mm_items h) = unat (cur_size h)" using inv by (simp add: mm_inv_def mm_items_def)
  show "MemmoveHeap_Empty h \<longleftrightarrow> mset (mm_items h) = {#}"
    using len by (auto simp: MemmoveHeap_Empty_def unat_eq_0)
  assume "mset (mm_items h) \<noteq> {#}"
  then have pos: "0 < unat (cur_size h)" by (simp flip: len)
  note top = mm_top [OF inv pos]
  have "rank max_heap x \<le> rank max_heap (last (mm_items h))" if "x \<in> set (mm_items h)" for x
    using sorted_last_worst [of "rank max_heap" "butlast (mm_items h)" "last (mm_items h)" x] inv top(2) that
    by (simp add: mm_inv_def)
  moreover have "mset (mm_items (MemmoveHeap_Pop h)) = mset (mm_items h) - {#last (mm_items h)#}"
    using top(2,3) by (metis add_mset_remove_trivial append_butlast_last_id mset_append add_mset_add_single mset.simps)
  ultimately show "\<exists>r h'. MemmoveHeap_Top h = Inr r \<and> r \<in># mset (mm_items h) \<and>
      (\<forall>x. x \<in># mset (mm_items h) \<longrightarrow> rank max_heap x \<le> rank max_heap r) \<and>
      Inr (MemmoveHeap_Pop h) = Inr h' \<and> mm_inv max_heap fixed_size k h' \<and>
      mset (mm_items h') = mset (mm_items h) - {#r#}"
    using top by auto
qed

section \<open>The binary heap as a queue\<close>

definition sh_inv :: "bool \<Rightarrow> bool \<Rightarrow> nat \<Rightarrow> StandardHeap \<Rightarrow> bool" where
  "sh_inv max_heap fixed_size k h \<longleftrightarrow>
     heap_upto (rank max_heap) (length (queue h)) (queue h) \<and> set (queue h) \<subseteq> Collect proper \<and>
     (fixed_size \<longrightarrow> unat (sh_max_size h) = k \<and> length (queue h) \<le> k \<and> 0 < k)"

lemma sh_top:
  assumes "heap_upto (rank max_heap) (length (queue h)) (queue h)" and "queue h \<noteq> []"
  shows "StandardHeap_Top h = Inr (hd (queue h))" and "hd (queue h) \<in> set (queue h)"
    and "x \<in> set (queue h) \<Longrightarrow> rank max_heap x \<le> rank max_heap (hd (queue h))"
  using assms heap_upto_top [OF assms(1)] by (auto simp: StandardHeap_Top_def hd_conv_nth in_set_conv_nth)

lemma sh_pop:
  assumes "heap_upto (rank max_heap) (length (queue h)) (queue h)" and "set (queue h) \<subseteq> Collect proper" and "queue h \<noteq> []"
  obtains h' where "StandardHeap_Pop max_heap h = Inr h'"
    and "heap_upto (rank max_heap) (length (queue h')) (queue h')" and "mset (queue h') = mset (queue h) - {#hd (queue h)#}"
    and "set (queue h') \<subseteq> Collect proper" and "sh_max_size h' = sh_max_size h" and "length (queue h') = length (queue h) - 1"
proof -
  define ys where "ys = std_pop_heap (CompareType max_heap) (queue h)"
  have y: "heap_upto (rank max_heap) (length (queue h) - 1) ys" "mset ys = mset (queue h)" "last ys = hd (queue h)"
    using dist.std_pop_heap_ok [OF assms(1,2,3)] by (simp_all add: ys_def)
  have ne: "ys \<noteq> []" "length ys = length (queue h)" using y(2) assms(3) mset_eq_length by auto
  have "heap_upto (rank max_heap) (length (butlast ys)) (butlast ys)"
    using y(1) ne(2) by (auto simp: heap_upto_def nth_butlast)
  moreover have m: "mset (butlast ys) = mset (queue h) - {#hd (queue h)#}"
    using ne(1) y(2,3) by (metis add_mset_add_single add_mset_remove_trivial append_butlast_last_id mset.simps mset_append)
  moreover have "set (butlast ys) \<subseteq> Collect proper"
    using assms(2) y(2) in_set_butlastD [of _ ys] mset_eq_setD by blast
  ultimately show thesis
    using that [of "h\<lparr>queue := butlast ys\<rparr>"] assms(3) ne(2) by (simp add: StandardHeap_Pop_def ys_def)
qed

lemma sh_push:
  assumes inv: "sh_inv max_heap fixed_size k h" and r: "proper r"
  shows "\<exists>h'. StandardHeap_Push max_heap fixed_size h (fst r) (snd r) = Inr h' \<and> sh_inv max_heap fixed_size k h' \<and>
    kept (limit_of fixed_size k) (rank max_heap) (add_mset r (mset (queue h))) (mset (queue h'))"
proof -
  have i: "heap_upto (rank max_heap) (length (queue h)) (queue h)" "set (queue h) \<subseteq> Collect proper"
    "fixed_size \<Longrightarrow> unat (sh_max_size h) = k \<and> length (queue h) \<le> k \<and> 0 < k"
    using inv by (simp_all add: sh_inv_def)
  define h1 where "h1 = h\<lparr>queue := std_push_heap (CompareType max_heap) (queue h @ [r])\<rparr>"
  have p: "heap_upto (rank max_heap) (length (queue h1)) (queue h1)" "mset (queue h1) = add_mset r (mset (queue h))"
    using dist.std_push_heap_ok [OF i(1,2), of r] r by (simp_all add: h1_def)
  have p2: "set (queue h1) \<subseteq> Collect proper" "length (queue h1) = length (queue h) + 1" "queue h1 \<noteq> []"
    using mset_eq_setD [of "queue h1" "r # queue h"] mset_eq_length [of "queue h1" "r # queue h"] p(2) r i(2) by auto
  show ?thesis
  proof (cases "fixed_size \<and> length (queue h) = k")
    case full: True
    then have ne: "queue h \<noteq> []" and max: "unat (sh_max_size h) = k" "sh_max_size h1 = sh_max_size h" using i(3) by (auto simp: h1_def)
    note top = sh_top [OF i(1) ne] and top1 = sh_top [OF p(1) p2(3)]
    have pt: "proper (hd (queue h))" using top(2) i(2) by auto
    define reject where "reject \<longleftrightarrow> (if max_heap then float_lt (fst (hd (queue h))) (fst r) else float_lt (fst r) (fst (hd (queue h))))"
    show ?thesis
    proof (cases reject)
      case True
      then have "rank max_heap (hd (queue h)) < rank max_heap r"
        using float_lt_rank [OF r pt, of max_heap] float_lt_rank [OF pt r, of max_heap] by (simp add: reject_def split: if_splits)
      then have "rank max_heap x \<le> rank max_heap r" if "x \<in> set (queue h)" for x using top(3) [OF that] by simp
      then have "kept (Some k) (rank max_heap) (add_mset r (mset (queue h))) (mset (queue h))"
        using kept_full [of k "add_mset r (mset (queue h))" r "rank max_heap"] full by auto
      then show ?thesis
        using True full top(1) max inv by (intro exI [of _ h]) (auto simp: StandardHeap_Push_def reject_def)
    next
      case False
      obtain h2 where h2: "StandardHeap_Pop max_heap h1 = Inr h2"
          "heap_upto (rank max_heap) (length (queue h2)) (queue h2)" "mset (queue h2) = mset (queue h1) - {#hd (queue h1)#}"
          "set (queue h2) \<subseteq> Collect proper" "sh_max_size h2 = sh_max_size h1" "length (queue h2) = length (queue h1) - 1"
        by (rule sh_pop [OF p(1) p2(1,3)])
      have "StandardHeap_Push max_heap fixed_size h (fst r) (snd r) = Inr h2"
        using False full top(1) max h2(1) p2(2) by (auto simp: StandardHeap_Push_def reject_def Let_def h1_def)
      moreover have "kept (Some k) (rank max_heap) (mset (queue h1)) (mset (queue h2))"
        unfolding h2(3) by (rule kept_full) (use full p2(2) top1 in auto)
      moreover have "sh_inv max_heap fixed_size k h2" using h2 max p2(2) full i(3) by (simp add: sh_inv_def)
      ultimately show ?thesis using full p(2) by auto
    qed
  next
    case False
    then have "StandardHeap_Push max_heap fixed_size h (fst r) (snd r) = Inr h1"
      using i(3) p2(2) by (auto simp: StandardHeap_Push_def Let_def h1_def)
    moreover have "sh_inv max_heap fixed_size k h1"
      using False p(1) p2 i(3) by (auto simp: sh_inv_def h1_def)
    moreover have "kept (limit_of fixed_size k) (rank max_heap) (add_mset r (mset (queue h))) (mset (queue h1))"
      using False p(2) i(3) by (auto simp: kept_def)
    ultimately show ?thesis by blast
  qed
qed

interpretation sh: record_heap "sh_inv max_heap fixed_size k" "\<lambda>h. mset (queue h)" "limit_of fixed_size k"
  proper "rank max_heap" "\<lambda>h r. StandardHeap_Push max_heap fixed_size h (fst r) (snd r)" StandardHeap_Top
  "StandardHeap_Pop max_heap" "\<lambda>h. length (queue h) = 0"
  for max_heap fixed_size k
proof unfold_locales
  fix h :: StandardHeap and r :: DistanceRecord and j
  assume inv: "sh_inv max_heap fixed_size k h"
  show "limit_of fixed_size k = Some j \<Longrightarrow> size (mset (queue h)) \<le> j"
    using inv by (auto simp: sh_inv_def split: if_splits)
  show "proper r \<Longrightarrow> \<exists>h'. StandardHeap_Push max_heap fixed_size h (fst r) (snd r) = Inr h' \<and>
      sh_inv max_heap fixed_size k h' \<and>
      kept (limit_of fixed_size k) (rank max_heap) (add_mset r (mset (queue h))) (mset (queue h'))"
    by (rule sh_push [OF inv])
  show "length (queue h) = 0 \<longleftrightarrow> mset (queue h) = {#}" by simp
  assume "mset (queue h) \<noteq> {#}"
  then have ne: "queue h \<noteq> []" by simp
  have i: "heap_upto (rank max_heap) (length (queue h)) (queue h)" "set (queue h) \<subseteq> Collect proper"
    using inv by (simp_all add: sh_inv_def)
  obtain h' where "StandardHeap_Pop max_heap h = Inr h'" "heap_upto (rank max_heap) (length (queue h')) (queue h')"
      "mset (queue h') = mset (queue h) - {#hd (queue h)#}" "set (queue h') \<subseteq> Collect proper"
      "sh_max_size h' = sh_max_size h" "length (queue h') = length (queue h) - 1"
    by (rule sh_pop [OF i ne])
  then show "\<exists>r h'. StandardHeap_Top h = Inr r \<and> r \<in># mset (queue h) \<and>
      (\<forall>x. x \<in># mset (queue h) \<longrightarrow> rank max_heap x \<le> rank max_heap r) \<and>
      StandardHeap_Pop max_heap h = Inr h' \<and> sh_inv max_heap fixed_size k h' \<and>
      mset (queue h') = mset (queue h) - {#r#}"
    using sh_top [OF i(1) ne] inv by (auto simp: sh_inv_def)
qed

section \<open>Properties of the interface\<close>

fun dh_inv :: "bool \<Rightarrow> bool \<Rightarrow> nat \<Rightarrow> DistHeap \<Rightarrow> bool" where
  "dh_inv max_heap fixed_size k (Memmove h) \<longleftrightarrow> mm_inv max_heap fixed_size k h"
| "dh_inv max_heap fixed_size k (Standard h) \<longleftrightarrow> sh_inv max_heap fixed_size k h"

fun dh_items :: "DistHeap \<Rightarrow> DistanceRecord list" where
  "dh_items (Memmove h) = mm_items h"
| "dh_items (Standard h) = queue h"

interpretation dh: record_heap "dh_inv max_heap fixed_size k" "\<lambda>h. mset (dh_items h)" "limit_of fixed_size k"
  proper "rank max_heap" "Heap_Push max_heap fixed_size" Heap_Top "Heap_Pop max_heap" Heap_Empty
  for max_heap fixed_size k
proof unfold_locales
  fix h :: DistHeap and r :: DistanceRecord and j
  assume inv: "dh_inv max_heap fixed_size k h"
  show "limit_of fixed_size k = Some j \<Longrightarrow> size (mset (dh_items h)) \<le> j"
    using inv mm.size_ok sh.size_ok by (cases h) fastforce+
  show "proper r \<Longrightarrow> size (mset (dh_items h)) < 2 ^ 60 \<Longrightarrow>
      \<exists>h'. Heap_Push max_heap fixed_size h r = Inr h' \<and> dh_inv max_heap fixed_size k h' \<and>
        kept (limit_of fixed_size k) (rank max_heap) (add_mset r (mset (dh_items h))) (mset (dh_items h'))"
    using inv mm.push_ok [of max_heap fixed_size k _ r] sh.push_ok [of max_heap fixed_size k _ r]
    by (cases h) (fastforce intro: exI [of _ "Memmove _"] exI [of _ "Standard _"])+
  show "Heap_Empty h \<longleftrightarrow> mset (dh_items h) = {#}"
    using inv mm.emp_ok by (cases h) fastforce+
  show "mset (dh_items h) \<noteq> {#} \<Longrightarrow> \<exists>r h'. Heap_Top h = Inr r \<and> r \<in># mset (dh_items h) \<and>
      (\<forall>x. x \<in># mset (dh_items h) \<longrightarrow> rank max_heap x \<le> rank max_heap r) \<and>
      Heap_Pop max_heap h = Inr h' \<and> dh_inv max_heap fixed_size k h' \<and>
      mset (dh_items h') = mset (dh_items h) - {#r#}"
    using inv mm.pop_ok [of max_heap fixed_size k] sh.pop_ok [of max_heap fixed_size k]
    by (cases h) (fastforce intro: exI [of _ "Memmove _"] exI [of _ "Standard _"])+
qed

lemma MakeInstanceBySize_ok:
  assumes "0 < k" and "k < 2 ^ 59"
  obtains h where "MakeInstanceBySize max_heap fixed_size (word_of_nat k) = Inr h"
    and "dh_inv max_heap fixed_size k h" and "dh_items h = []"
proof -
  have u: "unat (word_of_nat k :: u64) = k" using assms(2) by (intro unat_word_of_nat_u64) simp
  have u1: "unat (word_of_nat k + 1 :: u64) = k + 1" using unat_succ_u64 [of "word_of_nat k"] u assms(2) by simp
  have st: "sh_inv max_heap fixed_size k (StandardHeap_new (word_of_nat k))"
    using u assms(1) by (simp add: sh_inv_def StandardHeap_new_def heap_upto_def)
  obtain m where m: "MemmoveHeap_new fixed_size (word_of_nat k) = Inr m" "mm_inv max_heap fixed_size k m" "mm_items m = []"
    using u u1 assms by (cases fixed_size) (auto simp: MemmoveHeap_new_def mm_inv_def mm_items_def)
  show thesis
    using that [of "Memmove m"] that [of "Standard (StandardHeap_new (word_of_nat k))"] m st
    by (cases "sint (word_of_nat k :: u64) < 10") (auto simp: MakeInstanceBySize_def StandardHeap_new_def)
qed

lemma Heap_Merge_items:
  assumes "dh_inv max_heap fixed_size k other" and "length (dh_items other) < 2 ^ 60"
  shows "Heap_Merge mh fs h other = push_all (Heap_Push mh fs) (dh_items other) h"
proof (cases other)
  case (Memmove m)
  then show ?thesis using assms(1) by (simp add: Heap_Merge_def MemmoveHeap_Size_def mm_items_def mm_inv_def)
next
  case (Standard m)
  have "unat (word_of_nat (length (queue m)) :: u64) = length (queue m)"
    using assms(2) Standard by (intro unat_word_of_nat_u64) simp
  then show ?thesis using Standard by (simp add: Heap_Merge_def)
qed

lemma dh_items_proper: "dh_inv max_heap fixed_size k h \<Longrightarrow> r \<in> set (dh_items h) \<Longrightarrow> proper r"
  by (cases h) (auto simp: mm_inv_def sh_inv_def)

text \<open>Pushing a sequence into a new queue, then emptying it.\<close>

lemma dh_filled:
  assumes "0 < k" and "k < 2 ^ 59" and "\<forall>r \<in> set rs. proper r" and "length rs \<le> 2 ^ 60"
  obtains h0 h where "MakeInstanceBySize max_heap fixed_size (word_of_nat k) = Inr h0"
    and "push_all (Heap_Push max_heap fixed_size) rs h0 = Inr h" and "dh_inv max_heap fixed_size k h"
    and "mset (dh_items h) \<subseteq># mset rs"
    and "ranks (rank max_heap) (mset (dh_items h)) = cut_to (limit_of fixed_size k) (sort (map (rank max_heap) rs))"
proof -
  obtain h0 where h0: "MakeInstanceBySize max_heap fixed_size (word_of_nat k) = Inr h0"
      "dh_inv max_heap fixed_size k h0" "dh_items h0 = []"
    by (rule MakeInstanceBySize_ok [OF assms(1,2)])
  show thesis
    using dh.push_all_ok [OF h0(2) assms(3)] that [OF h0(1)] h0(3) assms(4)
    by (auto simp: sorted_list_of_multiset_mset simp flip: mset_map)
qed

text \<open>C33: a queue of fixed size \<open>k > 0\<close> that any sequence of records without NaN was pushed into holds
  the best \<open>k\<close> of them: emptying it by \<open>Top\<close> and \<open>Pop\<close> delivers records that were pushed, worst first,
  whose distances in reverse are the first \<open>k\<close> of all distances in order (ascending for a max heap,
  descending for a min heap). This holds for the ordered array below ten entries and for the binary
  heap above; no access leaves a buffer.\<close>

theorem distance_heap_keeps_best:
  assumes "0 < k" and "k < 2 ^ 59" and "\<forall>r \<in> set rs. proper r" and "length rs < 2 ^ 60"
  shows "\<exists>h0 h ps. MakeInstanceBySize max_heap True (word_of_nat k) = Inr h0 \<and>
    push_all (Heap_Push max_heap True) rs h0 = Inr h \<and>
    drain (length rs + 1) Heap_Empty Heap_Top (Heap_Pop max_heap) h = Inr ps \<and>
    mset ps \<subseteq># mset rs \<and> map (rank max_heap) (rev ps) = take k (sort (map (rank max_heap) rs))"
proof -
  obtain h0 h where h: "MakeInstanceBySize max_heap True (word_of_nat k) = Inr h0"
      "push_all (Heap_Push max_heap True) rs h0 = Inr h" "dh_inv max_heap True k h" "mset (dh_items h) \<subseteq># mset rs"
      "ranks (rank max_heap) (mset (dh_items h)) = cut_to (limit_of True k) (sort (map (rank max_heap) rs))"
    by (rule dh_filled [OF assms(1-3)]) (use assms(4) in simp)
  have "size (mset (dh_items h)) < length rs + 1" using size_mset_mono [OF h(4)] by simp
  from dh.drain_ok [OF h(3) this] show ?thesis using h by (auto simp: cut_to_def)
qed

theorem distance_heap_keeps_best_witness:
  "\<exists>h0 h ps. MakeInstanceBySize True True 2 = Inr h0 \<and>
    push_all (Heap_Push True True) [(0x40400000, 7), (0x3F800000, 8), (0x40000000, 9)] h0 = Inr h \<and>
    drain 4 Heap_Empty Heap_Top (Heap_Pop True) h = Inr ps \<and>
    map (rank True) (rev ps) = [0x3F800000, 0x40000000]"
proof -
  let ?rs = "[(0x40400000, 7), (0x3F800000, 8), (0x40000000, 9)] :: DistanceRecord list"
  have p: "0 < (2 :: nat)" "(2 :: nat) < 2 ^ 59" "\<forall>r \<in> set ?rs. proper r" "length ?rs < 2 ^ 60"
    by (simp_all add: proper_def is_nan_def)
  have e: "take 2 (sort (map (rank True) ?rs)) = [0x3F800000, 0x40000000]" "length ?rs + 1 = 4"
    "(word_of_nat 2 :: u64) = 2"
    by (simp_all add: rank_def float_key_def)
  show ?thesis using distance_heap_keeps_best [OF p, of True] unfolding e by (elim exE conjE) (intro exI conjI; assumption)
qed

text \<open>Merging two queues of the same size \<open>k\<close>, each filled from its own sequence, gives the best \<open>k\<close> of
  both sequences together, so partial results of parallel searches lose nothing by being merged.\<close>

lemma distance_heap_merge_best:
  assumes "0 < k" and "k < 2 ^ 59" and "\<forall>r \<in> set (rs1 @ rs2). proper r" and "length (rs1 @ rs2) < 2 ^ 60"
  shows "\<exists>h0 h1 h2 h ps. MakeInstanceBySize max_heap True (word_of_nat k) = Inr h0 \<and>
    push_all (Heap_Push max_heap True) rs1 h0 = Inr h1 \<and> push_all (Heap_Push max_heap True) rs2 h0 = Inr h2 \<and>
    Heap_Merge max_heap True h1 h2 = Inr h \<and>
    drain (length (rs1 @ rs2) + 1) Heap_Empty Heap_Top (Heap_Pop max_heap) h = Inr ps \<and>
    mset ps \<subseteq># mset (rs1 @ rs2) \<and>
    map (rank max_heap) (rev ps) = take k (sort (map (rank max_heap) (rs1 @ rs2)))"
proof -
  let ?r = "rank max_heap"
  obtain h0 h1 where h1: "MakeInstanceBySize max_heap True (word_of_nat k) = Inr h0"
      "push_all (Heap_Push max_heap True) rs1 h0 = Inr h1" "dh_inv max_heap True k h1" "mset (dh_items h1) \<subseteq># mset rs1"
      "ranks ?r (mset (dh_items h1)) = cut_to (Some k) (sort (map ?r rs1))"
    by (rule dh_filled [OF assms(1,2), of rs1 max_heap True]) (use assms(3,4) in auto)
  obtain h2 where h2: "push_all (Heap_Push max_heap True) rs2 h0 = Inr h2" "dh_inv max_heap True k h2"
      "mset (dh_items h2) \<subseteq># mset rs2" "ranks ?r (mset (dh_items h2)) = cut_to (Some k) (sort (map ?r rs2))"
    by (rule dh_filled [OF assms(1,2), of rs2 max_heap True]) (use assms(3,4) h1(1) in auto)
  have le: "length (dh_items h1) \<le> length rs1" "length (dh_items h2) \<le> length rs2"
    using size_mset_mono [OF h1(4)] size_mset_mono [OF h2(3)] by simp_all
  have "\<forall>r \<in> set (dh_items h2). proper r" using dh_items_proper [OF h2(2)] by blast
  moreover have "size (mset (dh_items h1)) + length (dh_items h2) \<le> 2 ^ 60" using le assms(4) by simp
  ultimately obtain h where h: "push_all (Heap_Push max_heap True) (dh_items h2) h1 = Inr h" "dh_inv max_heap True k h"
      "mset (dh_items h) \<subseteq># mset (dh_items h1) + mset (dh_items h2)"
      "ranks ?r (mset (dh_items h)) = cut_to (Some k) (ranks ?r (mset (dh_items h1) + mset (dh_items h2)))"
    using dh.push_all_ok [OF h1(3)] by auto
  have e: "image_mset ?r (mset (dh_items h1)) = mset (cut_to (Some k) (sort (map ?r rs1)))"
    "image_mset ?r (mset (dh_items h2)) = mset (cut_to (Some k) (sort (map ?r rs2)))"
    using h1(5) h2(4) by (metis mset_sorted_list_of_multiset)+
  have "ranks ?r (mset (dh_items h)) = cut_to (Some k) (sort (map ?r (rs1 @ rs2)))"
    unfolding h(4) image_mset_union e
    using sorted_list_of_multiset_mset [of "map ?r rs1 @ map ?r rs2"]
    by (subst cut_add, simp, subst add.commute, subst cut_add, simp) (simp add: add.commute)
  moreover have sub: "mset (dh_items h) \<subseteq># mset (rs1 @ rs2)"
    using subset_mset.order_trans [OF h(3) subset_mset.add_mono [OF h1(4) h2(3)]] by simp
  moreover have merge: "Heap_Merge max_heap True h1 h2 = Inr h"
    using Heap_Merge_items [OF h2(2)] le assms(4) h(1) by simp
  moreover have "size (mset (dh_items h)) < length (rs1 @ rs2) + 1" using size_mset_mono [OF sub] by simp
  from dh.drain_ok [OF h(2) this] obtain ps where
      "drain (length (rs1 @ rs2) + 1) Heap_Empty Heap_Top (Heap_Pop max_heap) h = Inr ps"
      "mset ps = mset (dh_items h)" "map ?r (rev ps) = ranks ?r (mset (dh_items h))" by blast
  ultimately show ?thesis using h1(1,2) h2(1) unfolding cut_to_def option.case by metis
qed

lemma distance_heap_merge_best_example:
  "\<exists>h0 h1 h2 h ps. MakeInstanceBySize False True 1 = Inr h0 \<and>
    push_all (Heap_Push False True) [(0x40400000, 7)] h0 = Inr h1 \<and>
    push_all (Heap_Push False True) [(0x3F800000, 8)] h0 = Inr h2 \<and> Heap_Merge False True h1 h2 = Inr h \<and>
    drain 3 Heap_Empty Heap_Top (Heap_Pop False) h = Inr ps \<and> map (rank False) (rev ps) = [- 0x40400000]"
proof -
  let ?rs1 = "[(0x40400000, 7)] :: DistanceRecord list" and ?rs2 = "[(0x3F800000, 8)] :: DistanceRecord list"
  have p: "0 < (1 :: nat)" "(1 :: nat) < 2 ^ 59" "\<forall>r \<in> set (?rs1 @ ?rs2). proper r" "length (?rs1 @ ?rs2) < 2 ^ 60"
    by (simp_all add: proper_def is_nan_def)
  have e: "take 1 (sort (map (rank False) (?rs1 @ ?rs2))) = [- 0x40400000]" "length (?rs1 @ ?rs2) + 1 = 3"
    "(word_of_nat 1 :: u64) = 1"
    by (simp_all add: rank_def float_key_def)
  show ?thesis using distance_heap_merge_best [OF p, of False] unfolding e by (elim exE conjE) (intro exI conjI; assumption)
qed

end
