(* ===== verification/EliasFano.thy ===== *)
theory EliasFano
  imports Prelude
begin

text \<open>
  The Elias-Fano encoder of neighbour lists, \<^verbatim>\<open>src/src/impl/elias_fano_encoder.{h,cpp}\<close>: each value
  of an ordered list is split into \<open>low_bits_width\<close> low bits, packed side by side, and high bits,
  stored as one bit at position \<open>index + high\<close> of a second array behind the first.

  Indexes and bit positions are natural numbers: they stay below \<open>255 * 64\<close>. A shift by the width
  of its operand or more and an access outside \<open>bits\<close> are undefined behaviour. The width is
  \<open>floor(log2((double)universe / num_elements))\<close>; for a universe below \<open>2 ^ 32\<close> and at most 255 elements
  the quotient and the logarithm are exact enough that this is the integer \<open>floor_log2\<close> of the integer
  quotient, and for a universe smaller than the number of elements the negative result is converted
  to an unsigned integer, which is undefined. Allocation of the array is taken to succeed.
\<close>

section \<open>State and operations\<close>

record EliasFanoEncoder =
  ef_bits :: "u64 list"
  num_elements :: byte
  low_bits_width :: byte
  low_bits_size :: byte
  high_bits_size :: byte

definition EliasFano_Clear :: EliasFanoEncoder where
  "EliasFano_Clear = \<lparr>ef_bits = [], num_elements = 0, low_bits_width = 0, low_bits_size = 0, high_bits_size = 0\<rparr>"

definition EliasFano_Size :: "EliasFanoEncoder \<Rightarrow> byte" where
  "EliasFano_Size e = num_elements e"

function ctz_loop :: "u64 \<Rightarrow> nat \<Rightarrow> nat" where
  "ctz_loop x count = (if x AND 1 = 0 \<and> x \<noteq> 0 then ctz_loop (drop_bit 1 x) (count + 1) else count)"
  by pat_completeness auto
termination
proof (relation "measure (\<lambda>(x, count). unat x)", simp)
  fix x :: u64 and count :: nat
  assume "x AND 1 = 0 \<and> x \<noteq> 0"
  then have "0 < unat x" by (simp add: unat_gt_0)
  then show "((drop_bit 1 x, count + 1), x, count) \<in> measure (\<lambda>(x, count). unat x)"
    by (simp add: drop_bit_Suc unat_div_distrib)
qed

declare ctz_loop.simps [simp del]

definition ctzll :: "u64 \<Rightarrow> nat" where
  "ctzll x = (if x = 0 then 64 else ctz_loop x 0)"

definition set_high_bit :: "u64 list \<Rightarrow> nat \<Rightarrow> nat \<Rightarrow> u64 list result" where
  "set_high_bit bits_array pos low_size =
     (let j = low_size + pos div 64 in
      if j < length bits_array then Inr (bits_array[j := bits_array ! j OR push_bit (pos mod 64) 1])
      else Inl UndefinedBehaviour)"

definition set_low_bits :: "EliasFanoEncoder \<Rightarrow> nat \<Rightarrow> InnerIdType \<Rightarrow> EliasFanoEncoder result" where
  "set_low_bits e index val =
     (let w = unat (low_bits_width e) in
      if w = 0 then Inr e
      else
        (let bit_pos = index * w; word_pos = bit_pos div 64; shift = bit_pos mod 64; bits = ef_bits e;
             msk = push_bit shift (push_bit w 1 - 1) in
         if w \<ge> 64 \<or> \<not> word_pos < length bits then Inl UndefinedBehaviour
         else
           (let bits = bits[word_pos := (bits ! word_pos AND NOT msk) OR push_bit shift (ucast val)] in
            if shift + w > 64 \<and> word_pos + 1 < unat (low_bits_size e) then
              (let remaining_bits = shift + w - 64; msk = push_bit remaining_bits 1 - 1 in
               if w - remaining_bits \<ge> 32 \<or> \<not> word_pos + 1 < length bits then Inl UndefinedBehaviour
               else
                 Inr (e\<lparr>ef_bits := bits[word_pos + 1 :=
                   (bits ! (word_pos + 1) AND NOT msk) OR ucast (drop_bit (w - remaining_bits) val)]\<rparr>))
            else Inr (e\<lparr>ef_bits := bits\<rparr>))))"

definition get_low_bits :: "EliasFanoEncoder \<Rightarrow> nat \<Rightarrow> InnerIdType result" where
  "get_low_bits e index =
     (let w = unat (low_bits_width e) in
      if w = 0 then Inr 0
      else
        (let bit_pos = index * w; word_pos = bit_pos div 64; shift = bit_pos mod 64; bits = ef_bits e in
         if w \<ge> 64 \<or> \<not> word_pos < length bits then Inl UndefinedBehaviour
         else
           (let val = ucast (drop_bit shift (bits ! word_pos) AND (push_bit w 1 - 1)) :: InnerIdType in
            if shift + w > 64 \<and> word_pos + 1 < unat (low_bits_size e) then
              (let remaining_bits = shift + w - 64 in
               if \<not> word_pos + 1 < length bits then Inl UndefinedBehaviour
               else
                 Inr (ucast ((ucast val :: u64) OR
                   push_bit (w - remaining_bits) (bits ! (word_pos + 1) AND (push_bit remaining_bits 1 - 1)))))
            else Inr val)))"

fun floor_log2 :: "nat \<Rightarrow> nat" where
  "floor_log2 n = (if n < 2 then 0 else floor_log2 (n div 2) + 1)"

declare floor_log2.simps [simp del]

fun encode_loop :: "nat \<Rightarrow> InnerIdType list \<Rightarrow> EliasFanoEncoder \<Rightarrow> EliasFanoEncoder result" where
  "encode_loop i [] e = Inr e"
| "encode_loop i (x # values) e =
     (let w = unat (low_bits_width e); high = drop_bit w x; low = x AND (push_bit w 1 - 1) in
      bind_r (set_high_bit (ef_bits e) (i + unat high) (unat (low_bits_size e))) (\<lambda>bits.
      bind_r (set_low_bits (e\<lparr>ef_bits := bits\<rparr>) i low) (\<lambda>e.
        encode_loop (i + 1) values e)))"

definition EliasFano_Encode :: "InnerIdType list \<Rightarrow> InnerIdType \<Rightarrow> EliasFanoEncoder result" where
  "EliasFano_Encode values max_value =
     (if values = [] then Inr EliasFano_Clear
      else if length values > 255 then Inl (Vsag INVALID_ARGUMENT)
      else
        (let n = length values; universe = max_value + 1 in
         if unat universe < n then Inl UndefinedBehaviour
         else
           (let w = floor_log2 (unat universe div n);
                high_bits_count = drop_bit w max_value + word_of_nat n + 1;
                high_size = word_of_nat ((unat high_bits_count + 63) div 64) :: byte;
                low_size = word_of_nat (max 1 ((n * w + 63) div 64)) :: byte in
            encode_loop 0 values
              \<lparr>ef_bits = replicate (unat low_size + unat high_size) 0, num_elements = word_of_nat n,
               low_bits_width = word_of_nat w, low_bits_size = low_size, high_bits_size = high_size\<rparr>)))"

function decompress_word ::
    "EliasFanoEncoder \<Rightarrow> nat \<Rightarrow> u64 \<Rightarrow> nat \<Rightarrow> InnerIdType list \<Rightarrow> (nat \<times> InnerIdType list) result" where
  "decompress_word e i word count neighbors =
     (if word \<noteq> 0 \<and> count < unat (num_elements e) then
        (let high = word_of_nat (i * 64 + ctzll word) - word_of_nat count :: InnerIdType in
         bind_r (get_low_bits e count) (\<lambda>low.
         if unat (low_bits_width e) \<ge> 32 then Inl UndefinedBehaviour
         else
           decompress_word e i (word AND (word - 1)) (count + 1)
             (neighbors[count := push_bit (unat (low_bits_width e)) high OR low])))
      else Inr (count, neighbors))"
  by pat_completeness auto
termination
  by (relation "measure (\<lambda>(e, i, word, count, neighbors). unat (num_elements e) - count)") auto

declare decompress_word.simps [simp del]

fun decompress_words ::
    "EliasFanoEncoder \<Rightarrow> nat list \<Rightarrow> nat \<Rightarrow> InnerIdType list \<Rightarrow> InnerIdType list result" where
  "decompress_words e [] count neighbors = Inr neighbors"
| "decompress_words e (i # is) count neighbors =
     (if count < unat (num_elements e) then
        (if unat (low_bits_size e) + i < length (ef_bits e) then
           bind_r (decompress_word e i (ef_bits e ! (unat (low_bits_size e) + i)) count neighbors)
             (\<lambda>(count, neighbors). decompress_words e is count neighbors)
         else Inl UndefinedBehaviour)
      else Inr neighbors)"

definition EliasFano_DecompressAll :: "EliasFanoEncoder \<Rightarrow> InnerIdType list \<Rightarrow> InnerIdType list result" where
  "EliasFano_DecompressAll e neighbors =
     decompress_words e [0..<unat (high_bits_size e)] 0 (vresize (unat (num_elements e)) 0 neighbors)"

section \<open>Bits of a word array\<close>

definition eb :: "u64 list \<Rightarrow> nat \<Rightarrow> bool" where
  "eb xs k = bit (xs ! (k div 64)) (k mod 64)"

lemma eb_at: "r < 64 \<Longrightarrow> eb xs (64 * Q + r) = bit (xs ! Q) r"
  by (simp add: eb_def)

lemma mask_u64: "push_bit w 1 - 1 = (mask w :: u64)"
  by (simp add: push_bit_eq_mult mask_eq_exp_minus_1)

lemma mask_u32: "push_bit w 1 - 1 = (mask w :: u32)"
  by (simp add: push_bit_eq_mult mask_eq_exp_minus_1)

lemma set_high_bit_ok:
  assumes "low_size + pos div 64 < length xs"
  obtains ys where "set_high_bit xs pos low_size = Inr ys" and "length ys = length xs"
    and "\<forall>k < 64 * length xs. eb ys k \<longleftrightarrow> k = 64 * low_size + pos \<or> eb xs k"
proof -
  let ?j = "low_size + pos div 64"
  let ?ys = "xs[?j := xs ! ?j OR push_bit (pos mod 64) 1]"
  have "eb ?ys k \<longleftrightarrow> k = 64 * low_size + pos \<or> eb xs k" if "k < 64 * length xs" for k
  proof (cases "k div 64 = ?j")
    case True
    have "64 * low_size + pos = 64 * ?j + pos mod 64" by simp
    then have "k = 64 * low_size + pos \<longleftrightarrow> k mod 64 = pos mod 64"
      using mult_div_mod_eq [of 64 k] unfolding True by (metis add_left_cancel)
    then show ?thesis using True assms by (auto simp: eb_def bit_simps)
  next
    case False
    then have "k \<noteq> 64 * low_size + pos" by auto
    then show ?thesis using False by (simp add: eb_def)
  qed
  then show thesis using that [of ?ys] assms by (simp add: set_high_bit_def Let_def)
qed

lemma bit_above: "take_bit w (val :: InnerIdType) = val \<Longrightarrow> bit val j \<Longrightarrow> j < w"
  by (metis bit_take_bit_iff)

text \<open>Bit \<open>k\<close> of the array in terms of the word and the offset at which a field starts.\<close>

lemma field_bit:
  fixes k :: nat
  assumes "p = 64 * P + s" and "k div 64 = P + d"
  shows "k = 64 * (P + d) + k mod 64" and "p \<le> k \<longleftrightarrow> s \<le> 64 * d + k mod 64"
    and "k < p + w \<longleftrightarrow> 64 * d + k mod 64 < s + w" and "k - p = 64 * d + k mod 64 - s"
proof -
  define m where "m = k mod 64"
  have k: "k = 64 * P + 64 * d + m" using mult_div_mod_eq [of 64 k] unfolding assms(2) m_def by simp
  show "k = 64 * (P + d) + k mod 64" unfolding m_def [symmetric] by (simp add: k)
  show "p \<le> k \<longleftrightarrow> s \<le> 64 * d + k mod 64" "k < p + w \<longleftrightarrow> 64 * d + k mod 64 < s + w"
    "k - p = 64 * d + k mod 64 - s"
    unfolding m_def [symmetric] by (simp_all add: k assms(1))
qed

lemma low_word_bit:
  fixes val :: InnerIdType
  assumes "take_bit w val = val" and "j < 64"
  shows "bit ((x AND NOT (push_bit s (mask w))) OR push_bit s (ucast val) :: u64) j \<longleftrightarrow>
    (if s \<le> j \<and> j < s + w then bit val (j - s) else bit x j)"
  using assms(2) bit_above [OF assms(1), of "j - s"] bit_imp_le_length [of val "j - s"]
  by (auto simp: bit_simps)

lemma next_word_bit:
  fixes val :: InnerIdType
  assumes "take_bit w val = val" and "j < 64" and "s \<le> 64" and "s + w > 64"
  shows "bit ((x AND NOT (mask (s + w - 64))) OR ucast (drop_bit (64 - s) val) :: u64) j \<longleftrightarrow>
    (if j < s + w - 64 then bit val (64 + j - s) else bit x j)"
  using assms bit_above [OF assms(1), of "64 - s + j"] bit_imp_le_length [of val "64 - s + j"]
  by (auto simp: bit_simps)

definition ef_shape :: "EliasFanoEncoder \<Rightarrow> bool" where
  "ef_shape e \<longleftrightarrow> unat (low_bits_width e) < 32 \<and>
     length (ef_bits e) = unat (low_bits_size e) + unat (high_bits_size e)"

lemma set_low_bits_ok:
  assumes sh: "ef_shape e" and val: "take_bit (unat (low_bits_width e)) val = val"
    and fit: "index * unat (low_bits_width e) + unat (low_bits_width e) \<le> 64 * unat (low_bits_size e)"
  shows "\<exists>bits. set_low_bits e index val = Inr (e\<lparr>ef_bits := bits\<rparr>) \<and> length bits = length (ef_bits e) \<and>
    (\<forall>k < 64 * length (ef_bits e). eb bits k \<longleftrightarrow>
      (if index * unat (low_bits_width e) \<le> k \<and> k < index * unat (low_bits_width e) + unat (low_bits_width e)
       then bit val (k - index * unat (low_bits_width e)) else eb (ef_bits e) k))"
proof (cases "unat (low_bits_width e) = 0")
  case True
  then show ?thesis by (intro exI [of _ "ef_bits e"]) (simp add: set_low_bits_def)
next
  case False
  define w where "w = unat (low_bits_width e)"
  define p P s where "p = index * w" and "P = p div 64" and "s = p mod 64"
  have p: "p = 64 * P + s" "s < 64" by (simp_all add: P_def s_def)
  have w: "0 < w" "w < 32" "p + w \<le> 64 * unat (low_bits_size e)" "take_bit w val = val"
    using False sh fit val by (simp_all add: w_def p_def ef_shape_def)
  define B1 where "B1 = (ef_bits e)[P := (ef_bits e ! P AND NOT (push_bit s (mask w))) OR push_bit s (ucast val)]"
  have P: "P < length (ef_bits e)" "s + w > 64 \<Longrightarrow> P + 1 < unat (low_bits_size e) \<and> P + 1 < length (ef_bits e)"
    using w p sh by (auto simp: ef_shape_def)
  have b1: "eb B1 k \<longleftrightarrow> (if p \<le> k \<and> k < p + w then bit val (k - p) else eb (ef_bits e) k)"
    if "k div 64 = P" for k
    using field_bit [OF p(1), of k 0] that low_word_bit [OF w(4), of "k mod 64"] P(1) by (simp add: eb_def B1_def)
  have far: "\<not> (p \<le> k \<and> k < p + w)" if "k div 64 \<noteq> P" "k div 64 \<noteq> P + 1 \<or> s + w \<le> 64" for k
  proof
    assume k: "p \<le> k \<and> k < p + w"
    then have "64 * P \<le> k" "k < 64 * (P + 2)" using p w(2) by auto
    then have "P \<le> k div 64" "k div 64 < P + 2" by (auto simp: less_mult_imp_div_less)
    then have "k div 64 = P + 1" using that(1) by simp
    then show False using that(2) k field_bit(3) [OF p(1), of k 1 w] by simp
  qed
  have m: "w \<noteq> 0" "\<not> w \<ge> 64" using w by simp_all
  show ?thesis
  proof (cases "s + w > 64")
    case True
    define B2 where "B2 = B1[P + 1 := (B1 ! (P + 1) AND NOT (mask (s + w - 64))) OR ucast (drop_bit (64 - s) val)]"
    have "w - (s + w - 64) = 64 - s" "64 - s < 32" using True p(2) w(2) by simp_all
    then have "set_low_bits e index val = Inr (e\<lparr>ef_bits := B2\<rparr>)"
      using True P w p(2) unfolding set_low_bits_def Let_def mask_u64 w_def [symmetric] p_def [symmetric] P_def [symmetric] s_def [symmetric]
      by (simp add: B1_def B2_def)
    moreover have "eb B2 k \<longleftrightarrow> (if p \<le> k \<and> k < p + w then bit val (k - p) else eb (ef_bits e) k)" for k
    proof (cases "k div 64 = P + 1")
      case k: True
      then show ?thesis
        using field_bit [OF p(1), of k 1] next_word_bit [OF w(4), of "k mod 64" s] P(2) [OF True] True p(2)
        by (auto simp: eb_def B1_def B2_def)
    next
      case False
      then have "eb B2 k \<longleftrightarrow> eb B1 k" by (simp add: eb_def B2_def)
      then show ?thesis using b1 [of k] far [of k] False by (cases "k div 64 = P") (auto simp: eb_def B1_def)
    qed
    ultimately show ?thesis by (intro exI [of _ B2]) (simp add: B1_def B2_def flip: w_def p_def)
  next
    case False
    then have "set_low_bits e index val = Inr (e\<lparr>ef_bits := B1\<rparr>)"
      using P w p(2) unfolding set_low_bits_def Let_def mask_u64 w_def [symmetric] p_def [symmetric] P_def [symmetric] s_def [symmetric]
      by (simp add: B1_def)
    moreover have "eb B1 k \<longleftrightarrow> (if p \<le> k \<and> k < p + w then bit val (k - p) else eb (ef_bits e) k)" for k
      using b1 [of k] far [of k] False by (cases "k div 64 = P") (auto simp: eb_def B1_def)
    ultimately show ?thesis by (intro exI [of _ B1]) (simp add: B1_def flip: w_def p_def)
  qed
qed

lemma eb_field:
  assumes "p = 64 * P + s" and "s < 64" and "j < 64"
  shows "eb xs (p + j) = (if s + j < 64 then bit (xs ! P) (s + j) else bit (xs ! (P + 1)) (s + j - 64))"
proof (cases "s + j < 64")
  case True
  then show ?thesis using eb_at [OF True, of xs P] assms(1) by (simp add: add.assoc)
next
  case False
  then have "p + j = 64 * (P + 1) + (s + j - 64)" "s + j - 64 < 64" using assms by simp_all
  then show ?thesis using False eb_at [of "s + j - 64" xs "P + 1"] by (simp add: add.assoc)
qed

lemma get_low_bits_ok:
  assumes sh: "ef_shape e"
    and fit: "index * unat (low_bits_width e) + unat (low_bits_width e) \<le> 64 * unat (low_bits_size e)"
  shows "\<exists>v. get_low_bits e index = Inr v \<and>
    (\<forall>j. bit v j \<longleftrightarrow> j < unat (low_bits_width e) \<and> eb (ef_bits e) (index * unat (low_bits_width e) + j))"
proof (cases "unat (low_bits_width e) = 0")
  case True
  then show ?thesis by (simp add: get_low_bits_def)
next
  case False
  define w where "w = unat (low_bits_width e)"
  define p P s where "p = index * w" and "P = p div 64" and "s = p mod 64"
  have p: "p = 64 * P + s" "s < 64" by (simp_all add: P_def s_def)
  have w: "0 < w" "w < 32" "p + w \<le> 64 * unat (low_bits_size e)"
    using False sh fit by (simp_all add: w_def p_def ef_shape_def)
  have P: "P < length (ef_bits e)" "s + w > 64 \<Longrightarrow> P + 1 < unat (low_bits_size e) \<and> P + 1 < length (ef_bits e)"
    using w p sh by (auto simp: ef_shape_def)
  note f = eb_field [OF p, of _ "ef_bits e"]
  define v where "v = (ucast (drop_bit s (ef_bits e ! P) AND mask w) :: InnerIdType)"
  show ?thesis
  proof (cases "s + w > 64")
    case True
    define v2 where "v2 = (ucast ((ucast v :: u64) OR push_bit (64 - s) (ef_bits e ! (P + 1) AND mask (s + w - 64))) :: InnerIdType)"
    have "w - (s + w - 64) = 64 - s" using True p(2) by simp
    then have "get_low_bits e index = Inr v2"
      using True P w unfolding get_low_bits_def Let_def mask_u64 w_def [symmetric] p_def [symmetric] P_def [symmetric] s_def [symmetric]
      by (simp add: v_def v2_def)
    moreover have "bit v2 j \<longleftrightarrow> j < w \<and> eb (ef_bits e) (p + j)" for j
      using True w p(2) f [of j] bit_imp_le_length [of "ef_bits e ! P" "s + j"]
      by (cases "s + j < 64"; cases "j < 64") (auto simp: v2_def v_def bit_simps add.commute [of j])
    ultimately show ?thesis by (simp flip: w_def p_def)
  next
    case False
    then have "get_low_bits e index = Inr v"
      using P w unfolding get_low_bits_def Let_def mask_u64 w_def [symmetric] p_def [symmetric] P_def [symmetric] s_def [symmetric]
      by (simp add: v_def)
    moreover have "bit v j \<longleftrightarrow> j < w \<and> eb (ef_bits e) (p + j)" for j
      using False w f [of j] by (auto simp: v_def bit_simps)
    ultimately show ?thesis by (simp flip: w_def p_def)
  qed
qed

section \<open>Walking the set bits of a word\<close>

definition sbits :: "u64 \<Rightarrow> nat list" where
  "sbits x = filter (bit x) [0..<64]"

lemma ctz_loop_lowest:
  "bit x k \<Longrightarrow> (\<And>j. j < k \<Longrightarrow> \<not> bit x j) \<Longrightarrow> ctz_loop x c = c + k"
proof (induction k arbitrary: x c)
  case 0
  then have "odd x" by (simp add: bit_0)
  then have "x AND 1 \<noteq> 0" by (simp add: and_one_eq odd_iff_mod_2_eq_one)
  then show ?case by (subst ctz_loop.simps) simp
next
  case (Suc k)
  have "even x" using Suc.prems(2) [of 0] by (simp add: bit_0)
  moreover have "x \<noteq> 0" using Suc.prems(1) by auto
  ultimately have "ctz_loop x c = ctz_loop (drop_bit 1 x) (c + 1)"
    by (subst ctz_loop.simps) (simp add: and_one_eq even_iff_mod_2_eq_zero)
  also have "\<dots> = c + 1 + k"
    by (rule Suc.IH) (use Suc.prems in \<open>auto simp: bit_drop_bit_eq\<close>)
  finally show ?case by simp
qed

lemma clear_lowest:
  fixes x :: u64
  assumes "bit x k" and "\<And>j. j < k \<Longrightarrow> \<not> bit x j"
  shows "bit (x AND (x - 1)) j \<longleftrightarrow> bit x j \<and> j \<noteq> k"
proof -
  define u where "u = x AND NOT (push_bit k 1)"
  have k: "k < 64" using bit_imp_le_length [OF assms(1)] by simp
  have u: "bit u j \<longleftrightarrow> bit x j \<and> j \<noteq> k" for j by (auto simp: u_def bit_simps dest: bit_imp_le_length)
  have "x = u OR push_bit k 1" by (rule bit_word_eqI) (use assms(1) u in \<open>auto simp: bit_simps\<close>)
  also have "\<dots> = u + push_bit k 1"
    by (rule disjunctive_add_eq_or [symmetric]) (rule bit_word_eqI, use u in \<open>auto simp: bit_simps\<close>)
  finally have "x - 1 = u + mask k" by (simp add: mask_eq_exp_minus_1 push_bit_eq_mult)
  also have "\<dots> = u OR mask k"
    by (rule disjunctive_add_eq_or) (rule bit_word_eqI, use u assms(2) in \<open>auto simp: bit_simps\<close>)
  finally show ?thesis using u [of j] assms by (auto simp: bit_simps)
qed

lemma sbits_Cons:
  assumes "sbits x = k # bs"
  shows "ctzll x = k" and "sbits (x AND (x - 1)) = bs" and "x \<noteq> 0"
proof -
  have "k \<in> set (sbits x)" using assms by simp
  then have k: "bit x k" "k < 64" by (simp_all add: sbits_def)
  show x0: "x \<noteq> 0" using k(1) by auto
  have so: "sorted (sbits x)" "distinct (sbits x)" by (simp_all add: sbits_def sorted_wrt_filter)
  have low: "\<not> bit x j" if "j < k" for j
  proof
    assume "bit x j"
    then have "j \<in> set (sbits x)" using that k(2) by (simp add: sbits_def)
    then show False using so(1) that assms by auto
  qed
  show "ctzll x = k" using ctz_loop_lowest [OF k(1) low, of 0] x0 by (simp add: ctzll_def)
  have "sbits (x AND (x - 1)) = filter (\<lambda>j. j \<noteq> k) (sbits x)"
    unfolding sbits_def filter_filter by (rule filter_cong) (use clear_lowest [OF k(1) low] in auto)
  also have "\<dots> = bs" using so(2) assms by (auto simp: filter_id_conv)
  finally show "sbits (x AND (x - 1)) = bs" .
qed

lemma sbits_Nil: "sbits x = [] \<longleftrightarrow> x = 0"
  by (auto simp: sbits_def filter_empty_conv bit_eq_iff dest: bit_imp_le_length)

section \<open>Decoding\<close>

definition high_pos :: "nat \<Rightarrow> InnerIdType list \<Rightarrow> nat list" where
  "high_pos w xs = map (\<lambda>i. i + unat (drop_bit w (xs ! i))) [0..<length xs]"

definition ef_holds :: "EliasFanoEncoder \<Rightarrow> InnerIdType list \<Rightarrow> bool" where
  "ef_holds e xs \<longleftrightarrow>
     ef_shape e \<and> unat (num_elements e) = length xs \<and> sorted xs \<and>
     length xs * unat (low_bits_width e) \<le> 64 * unat (low_bits_size e) \<and>
     (\<forall>i < length xs. \<forall>j < unat (low_bits_width e).
        eb (ef_bits e) (i * unat (low_bits_width e) + j) \<longleftrightarrow> bit (xs ! i) j) \<and>
     (\<forall>k < 64 * unat (high_bits_size e).
        eb (ef_bits e) (64 * unat (low_bits_size e) + k) \<longleftrightarrow> k \<in> set (high_pos (unat (low_bits_width e)) xs)) \<and>
     (\<forall>k \<in> set (high_pos (unat (low_bits_width e)) xs). k < 64 * unat (high_bits_size e))"

lemma ef_holdsD:
  assumes "ef_holds e xs"
  shows "ef_shape e" and "unat (num_elements e) = length xs" and "sorted xs"
    and "length xs * unat (low_bits_width e) \<le> 64 * unat (low_bits_size e)"
    and "i < length xs \<Longrightarrow> j < unat (low_bits_width e) \<Longrightarrow>
      eb (ef_bits e) (i * unat (low_bits_width e) + j) \<longleftrightarrow> bit (xs ! i) j"
    and "k < 64 * unat (high_bits_size e) \<Longrightarrow>
      eb (ef_bits e) (64 * unat (low_bits_size e) + k) \<longleftrightarrow> k \<in> set (high_pos (unat (low_bits_width e)) xs)"
    and "k \<in> set (high_pos (unat (low_bits_width e)) xs) \<Longrightarrow> k < 64 * unat (high_bits_size e)"
  using assms unfolding ef_holds_def by blast+

lemma field_fits: "i < n \<Longrightarrow> n * w \<le> (m :: nat) \<Longrightarrow> i * w + w \<le> m"
  by (metis Suc_leI add.commute le_trans mult_Suc mult_le_mono1)

lemma get_low_bits_holds:
  assumes "ef_holds e xs" and "i < length xs"
  shows "get_low_bits e i = Inr (take_bit (unat (low_bits_width e)) (xs ! i))"
proof -
  note d = ef_holdsD [OF assms(1)]
  obtain v where v: "get_low_bits e i = Inr v"
      "\<forall>j. bit v j \<longleftrightarrow> j < unat (low_bits_width e) \<and> eb (ef_bits e) (i * unat (low_bits_width e) + j)"
    using get_low_bits_ok [OF d(1) field_fits [OF assms(2) d(4)]] by blast
  have "v = take_bit (unat (low_bits_width e)) (xs ! i)"
    by (rule bit_word_eqI) (use v(2) d(5) [OF assms(2)] in \<open>auto simp: bit_simps\<close>)
  then show ?thesis using v(1) by simp
qed

lemma high_pos_nth: "i < length xs \<Longrightarrow> high_pos w xs ! i = i + unat (drop_bit w (xs ! i))"
  by (simp add: high_pos_def)

lemma join_parts: "push_bit w (drop_bit w x) OR take_bit w x = (x :: InnerIdType)"
  by (rule bit_word_eqI) (auto simp: bit_simps)

lemma high_of_pos: "word_of_nat (c + unat (h :: InnerIdType)) - word_of_nat c = h"
  by (simp add: word_unat_eq_iff)

lemma decompress_word_ok:
  assumes e: "ef_holds e xs" and "sbits word = bs"
    and "\<And>k. k < length bs \<Longrightarrow> count + k < length xs \<and> i * 64 + bs ! k = high_pos (unat (low_bits_width e)) xs ! (count + k)"
    and "length nb = length xs" and "take count nb = take count xs"
  shows "\<exists>nb'. decompress_word e i word count nb = Inr (count + length bs, nb') \<and> length nb' = length xs \<and>
    take (count + length bs) nb' = take (count + length bs) xs"
  using assms(2-5)
proof (induction bs arbitrary: word count nb)
  case Nil
  then have "word = 0" using sbits_Nil by blast
  then show ?case using Nil by (subst decompress_word.simps) simp
next
  case (Cons b bs)
  note d = ef_holdsD [OF e]
  let ?w = "unat (low_bits_width e)"
  note sb = sbits_Cons [OF Cons.prems(1)]
  have c: "count < length xs" "i * 64 + b = count + unat (drop_bit ?w (xs ! count))"
    using Cons.prems(2) [of 0] high_pos_nth [of count xs] by simp_all
  have val: "push_bit ?w (word_of_nat (i * 64 + ctzll word) - word_of_nat count) OR take_bit ?w (xs ! count) = xs ! count"
    unfolding sb(1) c(2) high_of_pos by (rule join_parts)
  let ?nb = "nb[count := xs ! count]"
  have "\<exists>nb'. decompress_word e i (word AND (word - 1)) (count + 1) ?nb = Inr (count + 1 + length bs, nb') \<and>
      length nb' = length xs \<and> take (count + 1 + length bs) nb' = take (count + 1 + length bs) xs"
  proof (rule Cons.IH [OF sb(2)])
    show "count + 1 + k < length xs \<and> i * 64 + bs ! k = high_pos ?w xs ! (count + 1 + k)" if "k < length bs" for k
      using Cons.prems(2) [of "k + 1"] that by simp
    show "length ?nb = length xs" using Cons.prems(3) by simp
    show "take (count + 1) ?nb = take (count + 1) xs"
      using Cons.prems(3,4) c(1) by (simp add: take_Suc_conv_app_nth)
  qed
  moreover have "decompress_word e i word count nb = decompress_word e i (word AND (word - 1)) (count + 1) ?nb"
    using sb(3) c(1) d(1,2) get_low_bits_holds [OF e c(1)] val
    by (subst decompress_word.simps) (simp add: Let_def ef_shape_def)
  ultimately show ?case by simp
qed

lemma unat_drop_bit_u32: "unat (drop_bit w (x :: InnerIdType)) = unat x div 2 ^ w"
  unfolding unsigned_drop_bit_eq drop_bit_eq_div [symmetric] by (simp add: take_bit_nat_eq_self unat_u32_lt)

lemma high_pos_sorted:
  assumes s: "sorted xs"
  shows "sorted_wrt (<) (high_pos w xs)"
  unfolding sorted_wrt_iff_nth_less high_pos_def
proof (intro allI impI)
  fix i j
  assume "i < j" "j < length (map (\<lambda>i. i + unat (drop_bit w (xs ! i))) [0..<length xs])"
  then have "unat (xs ! i) \<le> unat (xs ! j)" and ij: "i < j" "j < length xs"
    using sorted_nth_mono [OF s, of i j] by (simp_all add: word_le_nat_alt)
  then have "unat (drop_bit w (xs ! i)) \<le> unat (drop_bit w (xs ! j))"
    by (simp only: unat_drop_bit_u32 div_le_mono)
  then show "map (\<lambda>i. i + unat (drop_bit w (xs ! i))) [0..<length xs] ! i <
      map (\<lambda>i. i + unat (drop_bit w (xs ! i))) [0..<length xs] ! j"
    using ij by simp
qed

lemma filter_mem_sorted:
  assumes "sorted_wrt (<) (ps :: nat list)" and "\<And>p. p \<in> set ps \<Longrightarrow> p < m"
  shows "filter (\<lambda>k. k \<in> set ps) [0..<m] = ps"
  by (rule sorted_distinct_set_unique) (use assms in \<open>auto simp: strict_sorted_iff sorted_wrt_filter\<close>)

lemma filter_word:
  assumes "\<And>b. b < 64 \<Longrightarrow> bit x b \<longleftrightarrow> P (i * 64 + b)"
  shows "filter P [0..<(i + 1) * 64] = filter P [0..<i * 64] @ map (\<lambda>b. i * 64 + b) (sbits x)"
proof -
  have "[0..<(i + 1) * 64] = [0..<i * 64] @ map (\<lambda>b. i * 64 + b) [0..<64]"
    using upt_add_eq_append [of 0 "i * 64" 64] map_add_upt [of "i * 64" 64] by (simp add: add.commute)
  moreover have "filter (\<lambda>b. P (i * 64 + b)) [0..<64] = sbits x"
    unfolding sbits_def by (rule filter_cong) (use assms in auto)
  ultimately show ?thesis by (simp add: filter_map o_def)
qed

lemma decompress_words_ok:
  assumes e: "ef_holds e xs"
  defines "P \<equiv> \<lambda>k. k \<in> set (high_pos (unat (low_bits_width e)) xs)"
  shows "i \<le> unat (high_bits_size e) \<Longrightarrow> count = length (filter P [0..<i * 64]) \<Longrightarrow> length nb = length xs \<Longrightarrow>
    take count nb = take count xs \<Longrightarrow>
    decompress_words e [i..<unat (high_bits_size e)] count nb = Inr xs"
proof (induction "unat (high_bits_size e) - i" arbitrary: i count nb)
  case 0
  note d = ef_holdsD [OF e]
  have "filter P [0..<i * 64] = high_pos (unat (low_bits_width e)) xs"
    unfolding P_def by (rule filter_mem_sorted [OF high_pos_sorted [OF d(3)]]) (use 0 d(7) in \<open>auto simp: mult.commute\<close>)
  then have "count = length xs" using 0 by (simp add: high_pos_def)
  then show ?case using 0 by simp
next
  case (Suc m)
  note d = ef_holdsD [OF e]
  let ?H = "unat (high_bits_size e)" and ?L = "unat (low_bits_size e)"
  let ?ps = "high_pos (unat (low_bits_width e)) xs"
  have i: "i < ?H" using Suc(2) by simp
  show ?case
  proof (cases "count < length xs")
    case True
    define x where "x = ef_bits e ! (?L + i)"
    have bits: "bit x b \<longleftrightarrow> P (i * 64 + b)" if "b < 64" for b
    proof -
      have "i * 64 + b < 64 * ?H" using i that by linarith
      moreover have "64 * ?L + (i * 64 + b) = 64 * (?L + i) + b" by simp
      ultimately have "eb (ef_bits e) (64 * (?L + i) + b) \<longleftrightarrow> P (i * 64 + b)" using d(6) unfolding P_def by metis
      then show ?thesis unfolding eb_at [OF that] x_def .
    qed
    note fw = filter_word [of x P i, OF bits]
    have whole: "filter P [0..<?H * 64] = ?ps"
      unfolding P_def by (rule filter_mem_sorted [OF high_pos_sorted [OF d(3)]]) (use d(7) in \<open>auto simp: mult.commute\<close>)
    have "[0..<?H * 64] = [0..<(i + 1) * 64] @ [(i + 1) * 64..<?H * 64]"
      using i upt_add_eq_append [of 0 "(i + 1) * 64" "?H * 64 - (i + 1) * 64"] by simp
    then have pre: "?ps = filter P [0..<i * 64] @ map (\<lambda>b. i * 64 + b) (sbits x) @ filter P [(i + 1) * 64..<?H * 64]"
      unfolding whole [symmetric] by (simp only: filter_append fw append_assoc)
    have k: "count + k < length xs \<and> i * 64 + sbits x ! k = ?ps ! (count + k)" if "k < length (sbits x)" for k
    proof -
      have "length ?ps = length xs" by (simp add: high_pos_def)
      then show ?thesis using pre that Suc.prems(2) by (simp add: nth_append)
    qed
    obtain nb' where nb': "decompress_word e i x count nb = Inr (count + length (sbits x), nb')" "length nb' = length xs"
        "take (count + length (sbits x)) nb' = take (count + length (sbits x)) xs"
      using decompress_word_ok [OF e refl k Suc.prems(3,4)] by blast
    have "decompress_words e [i + 1..<?H] (count + length (sbits x)) nb' = Inr xs"
      by (rule Suc.hyps(1)) (use Suc i nb' fw in auto)
    then show ?thesis
      using i True d(1,2) nb'(1) by (simp add: upt_rec [of i] ef_shape_def flip: x_def)
  next
    case False
    then show ?thesis using Suc.prems(3,4) d(2) i by (simp add: upt_rec [of i])
  qed
qed

lemma DecompressAll_ok: "ef_holds e xs \<Longrightarrow> EliasFano_DecompressAll e buf = Inr xs"
  unfolding EliasFano_DecompressAll_def
  by (rule decompress_words_ok) (simp_all add: ef_holdsD(2))

section \<open>Encoding\<close>

text \<open>The array after the first \<open>i\<close> values were stored.\<close>

definition ef_partial :: "EliasFanoEncoder \<Rightarrow> InnerIdType list \<Rightarrow> nat \<Rightarrow> bool" where
  "ef_partial e xs i \<longleftrightarrow>
     ef_shape e \<and> length xs * unat (low_bits_width e) \<le> 64 * unat (low_bits_size e) \<and>
     (\<forall>k \<in> set (high_pos (unat (low_bits_width e)) xs). k < 64 * unat (high_bits_size e)) \<and>
     (\<forall>i' < i. \<forall>j < unat (low_bits_width e).
        eb (ef_bits e) (i' * unat (low_bits_width e) + j) \<longleftrightarrow> bit (xs ! i') j) \<and>
     (\<forall>k < 64 * unat (high_bits_size e).
        eb (ef_bits e) (64 * unat (low_bits_size e) + k) \<longleftrightarrow>
          k \<in> set (take i (high_pos (unat (low_bits_width e)) xs)))"

lemma ef_partialD:
  assumes "ef_partial e xs i"
  shows "ef_shape e" and "length xs * unat (low_bits_width e) \<le> 64 * unat (low_bits_size e)"
    and "k \<in> set (high_pos (unat (low_bits_width e)) xs) \<Longrightarrow> k < 64 * unat (high_bits_size e)"
    and "i' < i \<Longrightarrow> j < unat (low_bits_width e) \<Longrightarrow>
        eb (ef_bits e) (i' * unat (low_bits_width e) + j) \<longleftrightarrow> bit (xs ! i') j"
    and "k < 64 * unat (high_bits_size e) \<Longrightarrow>
        eb (ef_bits e) (64 * unat (low_bits_size e) + k) \<longleftrightarrow>
          k \<in> set (take i (high_pos (unat (low_bits_width e)) xs))"
  using assms unfolding ef_partial_def by blast+

lemma field_disjoint:
  fixes w :: nat
  assumes "i' \<noteq> i" and "j < w"
  shows "\<not> (i * w \<le> i' * w + j \<and> i' * w + j < i * w + w)"
proof (cases "i' < i")
  case True
  then have "(i' + 1) * w \<le> i * w" by (intro mult_le_mono1) simp
  then show ?thesis using assms(2) by simp
next
  case False
  then have "(i + 1) * w \<le> i' * w" using assms(1) by (intro mult_le_mono1) simp
  then show ?thesis by simp
qed

lemma encode_step:
  assumes p: "ef_partial e xs i" and i: "i < length xs"
  defines "w \<equiv> unat (low_bits_width e)"
  obtains bits bits' where "set_high_bit (ef_bits e) (i + unat (drop_bit w (xs ! i))) (unat (low_bits_size e)) = Inr bits"
    and "set_low_bits (e\<lparr>ef_bits := bits\<rparr>) i (xs ! i AND (push_bit w 1 - 1)) = Inr (e\<lparr>ef_bits := bits'\<rparr>)"
    and "ef_partial (e\<lparr>ef_bits := bits'\<rparr>) xs (i + 1)"
proof -
  note d = ef_partialD [OF p, folded w_def]
  let ?L = "unat (low_bits_size e)" and ?H = "unat (high_bits_size e)" and ?h = "i + unat (drop_bit w (xs ! i))"
  have hn: "high_pos w xs ! i = ?h" "?h \<in> set (high_pos w xs)"
    using high_pos_nth [OF i, of w] i nth_mem [of i "high_pos w xs"] by (simp_all add: high_pos_def)
  have len: "length (ef_bits e) = ?L + ?H" "w < 32" using d(1) by (simp_all add: ef_shape_def w_def)
  have hH: "?h < 64 * ?H" using d(3) [OF hn(2)] .
  have "?L + ?h div 64 < length (ef_bits e)" using hH len(1) by (simp add: less_mult_imp_div_less)
  then obtain bits where b: "set_high_bit (ef_bits e) ?h ?L = Inr bits" "length bits = length (ef_bits e)"
      "\<forall>k < 64 * length (ef_bits e). eb bits k \<longleftrightarrow> k = 64 * ?L + ?h \<or> eb (ef_bits e) k"
    by (rule set_high_bit_ok)
  define e1 where "e1 = e\<lparr>ef_bits := bits\<rparr>"
  have e1: "ef_shape e1" "unat (low_bits_width e1) = w" "unat (low_bits_size e1) = ?L" "ef_bits e1 = bits"
    using d(1) b(2) by (simp_all add: e1_def ef_shape_def w_def)
  have fit: "i * w + w \<le> 64 * ?L" by (rule field_fits [OF i d(2)])
  have low: "xs ! i AND (push_bit w 1 - 1) = take_bit w (xs ! i)" by (simp only: mask_u32 take_bit_eq_mask)
  obtain bits' where b': "set_low_bits e1 i (take_bit w (xs ! i)) = Inr (e1\<lparr>ef_bits := bits'\<rparr>)"
      "length bits' = length (ef_bits e)"
      "\<forall>k < 64 * length (ef_bits e). eb bits' k \<longleftrightarrow>
        (if i * w \<le> k \<and> k < i * w + w then bit (take_bit w (xs ! i)) (k - i * w) else eb bits k)"
    using set_low_bits_ok [OF e1(1), of "take_bit w (xs ! i)" i] fit b(2) by (auto simp: e1)
  have upd: "e1\<lparr>ef_bits := bits'\<rparr> = e\<lparr>ef_bits := bits'\<rparr>" by (simp add: e1_def)
  have lows: "eb bits' (i' * w + j) \<longleftrightarrow> bit (xs ! i') j" if "i' < i + 1" "j < w" for i' j
  proof -
    have "i' < length xs" using that(1) i by simp
    then have fit': "i' * w + j < 64 * ?L" using field_fits [OF _ d(2), of i'] that(2) by fastforce
    show ?thesis
    proof (cases "i' = i")
      case True
      then show ?thesis using b'(3) fit' that(2) len(1) by (simp add: bit_take_bit_iff)
    next
      case False
      then show ?thesis
        using b'(3) b(3) fit' len(1) field_disjoint [OF False that(2)] d(4) [of i' j] that by auto
    qed
  qed
  have highs: "eb bits' (64 * ?L + k) \<longleftrightarrow> k \<in> set (take (i + 1) (high_pos w xs))" if "k < 64 * ?H" for k
    using b'(3) b(3) that len(1) fit d(5) [OF that] hn(1) i
    by (auto simp: take_Suc_conv_app_nth high_pos_def)
  have "ef_partial (e\<lparr>ef_bits := bits'\<rparr>) xs (i + 1)"
    using d(1-3) b'(2) lows highs by (simp add: ef_partial_def ef_shape_def flip: w_def)
  then show thesis
    using that b(1) b'(1) unfolding low upd [symmetric] by (simp add: e1_def)
qed

lemma encode_loop_ok:
  assumes "ef_partial e xs i" and "i \<le> length xs"
  shows "\<exists>bits. encode_loop i (drop i xs) e = Inr (e\<lparr>ef_bits := bits\<rparr>) \<and> ef_partial (e\<lparr>ef_bits := bits\<rparr>) xs (length xs)"
  using assms
proof (induction "length xs - i" arbitrary: i e)
  case 0
  then show ?case by (intro exI [of _ "ef_bits e"]) simp
next
  case (Suc m)
  have i: "i < length xs" and m: "m = length xs - (i + 1)" using Suc(2) by simp_all
  obtain bits bits' where b: "set_high_bit (ef_bits e) (i + unat (drop_bit (unat (low_bits_width e)) (xs ! i))) (unat (low_bits_size e)) = Inr bits"
    "set_low_bits (e\<lparr>ef_bits := bits\<rparr>) i (xs ! i AND (push_bit (unat (low_bits_width e)) 1 - 1)) = Inr (e\<lparr>ef_bits := bits'\<rparr>)"
    "ef_partial (e\<lparr>ef_bits := bits'\<rparr>) xs (i + 1)"
    by (rule encode_step [OF Suc.prems(1) i])
  have "drop i xs = xs ! i # drop (i + 1) xs" using i by (simp add: Cons_nth_drop_Suc)
  moreover obtain bits2 where "encode_loop (i + 1) (drop (i + 1) xs) (e\<lparr>ef_bits := bits'\<rparr>) = Inr (e\<lparr>ef_bits := bits2\<rparr>)"
      "ef_partial (e\<lparr>ef_bits := bits2\<rparr>) xs (length xs)"
    using Suc.hyps(1) [OF m b(3)] i by auto
  ultimately show ?case using b(1,2) by (intro exI [of _ bits2]) (simp add: Let_def)
qed

lemma floor_log2_bounds: "0 < n \<Longrightarrow> 2 ^ floor_log2 n \<le> n \<and> n < 2 ^ (floor_log2 n + 1)"
proof (induction n rule: floor_log2.induct)
  case (1 n)
  show ?case
  proof (cases "n < 2")
    case True
    then show ?thesis using 1(2) by (subst (1 2) floor_log2.simps) simp
  next
    case False
    then have "2 ^ floor_log2 (n div 2) \<le> n div 2 \<and> n div 2 < 2 ^ (floor_log2 (n div 2) + 1)" using 1(1) by simp
    moreover have "floor_log2 n = floor_log2 (n div 2) + 1" using False by (subst floor_log2.simps) simp
    ultimately show ?thesis by auto
  qed
qed

text \<open>The sizes \<open>Encode\<close> computes: the width is below 32, and no size leaves its byte.\<close>

lemma encode_sizes:
  fixes n u :: nat
  assumes "0 < n" and "n \<le> 255" and "n \<le> u" and "u < 2 ^ 32"
  defines "w \<equiv> floor_log2 (u div n)"
  shows "w < 32" and "(u - 1) div 2 ^ w < 2 * n" and "max 1 ((n * w + 63) div 64) < 256"
    and "n * w \<le> 64 * max 1 ((n * w + 63) div 64)"
proof -
  have "0 < u div n" using assms(1,3) by (simp add: div_greater_zero_iff)
  then have b: "2 ^ w \<le> u div n" "u div n < 2 ^ (w + 1)" using floor_log2_bounds unfolding w_def by blast+
  have "(2 :: nat) ^ w < 2 ^ 32" using b(1) div_le_dividend [of u n] assms(4) by linarith
  then show w: "w < 32" by (rule power_less_imp_less_exp [rotated]) simp
  have "u < n * 2 ^ (w + 1)" using b(2) assms(1) by (simp add: div_less_iff_less_mult mult.commute)
  then have "u - 1 < 2 ^ w * (2 * n)" using assms(1,3) by (simp add: mult.commute mult.left_commute)
  then show "(u - 1) div 2 ^ w < 2 * n" by (simp add: less_mult_imp_div_less mult.commute)
  have "n * w \<le> 255 * 31" using assms(2) w by (intro mult_le_mono) simp_all
  then have "(n * w + 63) div 64 \<le> (255 * 31 + 63) div 64" by (intro div_le_mono) simp
  then show "max 1 ((n * w + 63) div 64) < 256" by simp
  show "n * w \<le> 64 * max 1 ((n * w + 63) div 64)" by simp
qed

lemma unat_byte: "n < 256 \<Longrightarrow> unat (word_of_nat n :: byte) = n"
  by (simp add: unat_of_nat)

lemma eb_replicate: "k < 64 * m \<Longrightarrow> \<not> eb (replicate m 0) k"
  by (simp add: eb_def less_mult_imp_div_less)

lemma Encode_ok:
  assumes "xs \<noteq> []" and "length xs \<le> 255" and "sorted xs" and "\<And>x. x \<in> set xs \<Longrightarrow> x \<le> max_value"
    and "unat max_value < 2 ^ 32 - 1" and "length xs \<le> unat max_value + 1"
  obtains e where "EliasFano_Encode xs max_value = Inr e" and "ef_holds e xs"
proof -
  define n u w where "n = length xs" and "u = unat (max_value + 1)" and "w = floor_log2 (u div n)"
  have u: "u = unat max_value + 1" using assms(5) by (simp add: u_def unat_word_ariths)
  have n: "0 < n" "n \<le> 255" "n \<le> u" "u < 2 ^ 32" using assms(1,2,5,6) u by (simp_all add: n_def)
  note z = encode_sizes [OF n, folded w_def]
  define hc where "hc = drop_bit w max_value + word_of_nat n + (1 :: InnerIdType)"
  have hd: "unat (drop_bit w max_value) < 2 * n" using z(2) by (simp add: unat_drop_bit_u32 u)
  have "unat (word_of_nat n :: InnerIdType) = n" using n(2) by (intro unat_word_of_nat_u32) simp
  then have hc: "unat hc = unat (drop_bit w max_value) + n + 1"
    using hd n(2) by (simp add: hc_def unat_word_ariths)
  define hs ls where "hs = (word_of_nat ((unat hc + 63) div 64) :: byte)" and "ls = (word_of_nat (max 1 ((n * w + 63) div 64)) :: byte)"
  have hs: "unat hs = (unat hc + 63) div 64" unfolding hs_def by (rule unat_byte) (use hc hd n(2) in simp)
  have ls: "unat ls = max 1 ((n * w + 63) div 64)" unfolding ls_def by (rule unat_byte [OF z(3)])
  have wb: "unat (word_of_nat w :: byte) = w" using z(1) by (intro unat_byte) simp
  define e0 where "e0 = \<lparr>ef_bits = replicate (unat ls + unat hs) 0, num_elements = word_of_nat n,
      low_bits_width = word_of_nat w, low_bits_size = ls, high_bits_size = hs\<rparr>"
  have "k < 64 * unat hs" if k: "k \<in> set (high_pos w xs)" for k
  proof -
    obtain i where i: "i < n" "k = i + unat (drop_bit w (xs ! i))" using k by (auto simp: high_pos_def n_def)
    then have "unat (xs ! i) \<le> unat max_value" using assms(4) by (simp add: n_def word_le_nat_alt)
    then have "unat (drop_bit w (xs ! i)) \<le> unat (drop_bit w max_value)" by (simp only: unat_drop_bit_u32 div_le_mono)
    then show ?thesis using i hc hs by simp
  qed
  then have "ef_partial e0 xs 0"
    using z(1,4) eb_replicate [of _ "unat ls + unat hs"] ls by (auto simp: ef_partial_def ef_shape_def e0_def wb n_def)
  then obtain bits where b: "encode_loop 0 xs e0 = Inr (e0\<lparr>ef_bits := bits\<rparr>)" "ef_partial (e0\<lparr>ef_bits := bits\<rparr>) xs (length xs)"
    using encode_loop_ok [of e0 xs 0] by auto
  have "EliasFano_Encode xs max_value = Inr (e0\<lparr>ef_bits := bits\<rparr>)"
    using assms(1) n(2,3) b(1) unfolding EliasFano_Encode_def Let_def n_def [symmetric] u_def [symmetric]
      w_def [symmetric] hc_def [symmetric] hs_def [symmetric] ls_def [symmetric] e0_def [symmetric]
    by simp
  moreover have "ef_holds (e0\<lparr>ef_bits := bits\<rparr>) xs"
    using b(2) assms(3) unat_byte [of n] n(2) by (simp add: ef_partial_def ef_holds_def e0_def n_def high_pos_def)
  ultimately show thesis by (rule that)
qed

section \<open>Properties\<close>

text \<open>C34: a sorted list of at most 255 ids, repetitions allowed, none above \<open>max_value\<close> and no longer than
  \<open>max_value + 1\<close>, is encoded without leaving the arrays and decodes to exactly the same list, whatever
  the buffer held. A longer list is refused with \<open>INVALID_ARGUMENT\<close>.\<close>

theorem elias_fano_roundtrip:
  assumes "xs \<noteq> []" and "sorted xs" and "\<forall>x \<in> set xs. x \<le> max_value"
    and "unat max_value < 2 ^ 32 - 1" and "length xs \<le> unat max_value + 1"
  shows "if length xs \<le> 255 then
      \<exists>e. EliasFano_Encode xs max_value = Inr e \<and> unat (EliasFano_Size e) = length xs \<and>
        EliasFano_DecompressAll e buf = Inr xs
    else EliasFano_Encode xs max_value = Inl (Vsag INVALID_ARGUMENT)"
proof (cases "length xs \<le> 255")
  case True
  obtain e where "EliasFano_Encode xs max_value = Inr e" "ef_holds e xs"
    by (rule Encode_ok [OF assms(1) True assms(2) _ assms(4,5)]) (use assms(3) in auto)
  then show ?thesis using True DecompressAll_ok ef_holdsD(2) by (auto simp: EliasFano_Size_def)
next
  case False
  then show ?thesis using assms(1) by (simp add: EliasFano_Encode_def)
qed

theorem elias_fano_roundtrip_witness:
  "\<exists>e. EliasFano_Encode [3, 3, 17, 100000] 200000 = Inr e \<and> EliasFano_DecompressAll e [] = Inr [3, 3, 17, 100000]"
  using elias_fano_roundtrip [of "[3, 3, 17, 100000]" 200000 "[]"] by auto

end
