(* ===== verification/FloatDistance.thy ===== *)
theory FloatDistance
  imports DistanceHeap EliasFano
begin

text \<open>
  The \<open>float\<close> arithmetic the searchers use beside comparison: negation, the order \<open>\<le>\<close>, and addition
  as the IEEE format defines it, rounded to nearest with ties to even. The lemmas show that the rounding
  is monotone and exact on floats, so adding a positive number does not decrease the other one.
\<close>

section \<open>Operations\<close>

definition float_neg :: "float32 \<Rightarrow> float32" where
  "float_neg x = x XOR 0x80000000"

definition float_le :: "float32 \<Rightarrow> float32 \<Rightarrow> bool" where
  "float_le x y \<longleftrightarrow> \<not> is_nan x \<and> \<not> is_nan y \<and> float_key x \<le> float_key y"

definition FLT_MAX :: float32 where
  "FLT_MAX = 0x7F7FFFFF"

text \<open>
  Addition rounded to nearest, ties to even. A finite value is an integral multiple of the least
  positive one; up to \<open>2 ^ 24\<close> of these the multiple is the encoding, above it is rounded to 24 bits.
\<close>

definition float_units :: "float32 \<Rightarrow> int" where
  "float_units x =
     (let e = unat (take_bit 8 (drop_bit 23 x)); m = uint (take_bit 23 x);
          u = (if e = 0 then m else (m + 2 ^ 23) * 2 ^ (e - 1)) in
      if bit x 31 then - u else u)"

definition round_units :: "nat \<Rightarrow> nat" where
  "round_units u =
     (if u < 2 ^ 24 then u
      else
        (let e = floor_log2 u - 23; q = u div 2 ^ e; r = u mod 2 ^ e;
             q = (if 2 * r > 2 ^ e \<or> 2 * r = 2 ^ e \<and> odd q then q + 1 else q) in
         min (q + e * 2 ^ 23) 0x7F800000))"

definition float_of_units :: "int \<Rightarrow> float32" where
  "float_of_units u = (if u < 0 then float_neg (word_of_nat (round_units (nat (- u)))) else word_of_nat (round_units (nat u)))"

definition is_inf :: "float32 \<Rightarrow> bool" where
  "is_inf x \<longleftrightarrow> take_bit 31 x = 0x7F800000"

definition float_add :: "float32 \<Rightarrow> float32 \<Rightarrow> float32" where
  "float_add x y =
     (if is_nan x \<or> is_nan y then 0x7FC00000
      else if is_inf x then (if is_inf y \<and> x \<noteq> y then 0x7FC00000 else x)
      else if is_inf y then y
      else if x = 0x80000000 \<and> y = 0x80000000 then x
      else float_of_units (float_units x + float_units y))"

section \<open>Negation\<close>

lemma take_bit_neg: "take_bit 31 (float_neg x) = take_bit 31 x"
  by (rule bit_word_eqI) (auto simp: float_neg_def bit_simps)

lemma bit_neg_sign: "bit (float_neg x) 31 \<longleftrightarrow> \<not> bit x 31"
  by (simp add: float_neg_def bit_simps)

lemma is_nan_neg [simp]: "is_nan (float_neg x) = is_nan x"
  by (simp add: is_nan_def take_bit_neg)

lemma float_key_neg [simp]: "float_key (float_neg x) = - float_key x"
  by (simp add: float_key_def take_bit_neg bit_neg_sign)

lemma float_lt_key: "\<not> is_nan x \<Longrightarrow> \<not> is_nan y \<Longrightarrow> float_lt x y \<longleftrightarrow> float_key x < float_key y"
  by (simp add: float_lt_def)

section \<open>Addition does not decrease\<close>

lemma log2_unique: "2 ^ k \<le> n \<Longrightarrow> n < 2 ^ (k + 1) \<Longrightarrow> floor_log2 n = k"
proof -
  assume k: "2 ^ k \<le> n" "n < 2 ^ (k + 1)"
  have "0 < n" using k(1) by (metis gr0I not_exp_less_eq_0_int not_less_zero le_zero_eq power_eq_0_iff zero_neq_numeral)
  note b = floor_log2_bounds [OF this]
  have "(2::nat) ^ k < 2 ^ (floor_log2 n + 1)" "(2::nat) ^ floor_log2 n < 2 ^ (k + 1)" using b k by linarith+
  then have "k < floor_log2 n + 1 \<and> floor_log2 n < k + 1" by (meson one_less_numeral_iff power_less_imp_less_exp semiring_norm(76))
  then show ?thesis by simp
qed

definition rounded :: "nat \<Rightarrow> nat \<Rightarrow> nat" where
  "rounded e u = (let q = u div 2 ^ e; r = u mod 2 ^ e in if 2 * r > 2 ^ e \<or> 2 * r = 2 ^ e \<and> odd q then q + 1 else q)"

lemma round_units_eq:
  "round_units u = (if u < 2 ^ 24 then u else min (rounded (floor_log2 u - 23) u + (floor_log2 u - 23) * 2 ^ 23) 0x7F800000)"
  by (simp add: round_units_def rounded_def Let_def)

lemma rounded_range: "u div 2 ^ e \<le> rounded e u" "rounded e u \<le> 1 + u div 2 ^ e"
  by (simp_all add: rounded_def Let_def)

lemma rounded_mono:
  assumes "u \<le> v"
  shows "rounded e u \<le> rounded e v"
proof (cases "u div 2 ^ e = v div 2 ^ e")
  case True
  then have "u mod 2 ^ e \<le> v mod 2 ^ e" using assms by (metis div_mult_mod_eq nat_add_left_cancel_le)
  then show ?thesis using True by (auto simp: rounded_def Let_def)
next
  case False
  then have "u div 2 ^ e + 1 \<le> v div 2 ^ e" using div_le_mono [OF assms, of "2 ^ e"] by simp
  then show ?thesis using rounded_range(2) [of e u] rounded_range(1) [of v e] by linarith
qed

lemma quotient_range:
  assumes "2 ^ 24 \<le> u"
  shows "1 \<le> floor_log2 u - 23" and "2 ^ 23 \<le> u div 2 ^ (floor_log2 u - 23)" and "u div 2 ^ (floor_log2 u - 23) < 2 ^ 24"
proof -
  have b: "2 ^ floor_log2 u \<le> u" "u < 2 ^ (floor_log2 u + 1)" using floor_log2_bounds [of u] assms by auto
  have "(2::nat) ^ 24 < 2 ^ (floor_log2 u + 1)" using assms b(2) by linarith
  then have l: "24 \<le> floor_log2 u" by (metis add_le_cancel_right less_eq_Suc_le nat_power_less_imp_less Suc_eq_plus1 zero_less_numeral)
  then show "1 \<le> floor_log2 u - 23" by simp
  have p: "(2::nat) ^ floor_log2 u = 2 ^ 23 * 2 ^ (floor_log2 u - 23)" "(2::nat) ^ (floor_log2 u + 1) = 2 ^ 24 * 2 ^ (floor_log2 u - 23)"
    using l by (simp_all only: power_add [symmetric]) (rule arg_cong [of _ _ "power 2"], simp)+
  show "2 ^ 23 \<le> u div 2 ^ (floor_log2 u - 23)" using b(1) unfolding p(1) by (simp add: less_eq_div_iff_mult_less_eq)
  show "u div 2 ^ (floor_log2 u - 23) < 2 ^ 24" using b(2) unfolding p(2) by (simp add: less_mult_imp_div_less)
qed

lemma round_units_mono:
  assumes "u \<le> v"
  shows "round_units u \<le> round_units v"
proof -
  define eu ev where "eu = floor_log2 u - 23" and "ev = floor_log2 v - 23"
  note q = quotient_range [of u, folded eu_def] quotient_range [of v, folded ev_def]
  consider "v < 2 ^ 24" | "u < 2 ^ 24" "2 ^ 24 \<le> v" | "2 ^ 24 \<le> u" "eu = ev" | "2 ^ 24 \<le> u" "eu < ev" | "2 ^ 24 \<le> u" "ev < eu"
    by linarith
  then show ?thesis
  proof cases
    case 1
    then show ?thesis using assms by (simp add: round_units_eq)
  next
    case 2
    have "u \<le> rounded ev v + ev * 2 ^ 23" using 2 q(4,5) rounded_range(1) [of v ev] by simp
    then show ?thesis using 2 by (simp add: round_units_eq ev_def)
  next
    case 3
    then show ?thesis using assms rounded_mono [OF assms, of ev] by (simp add: round_units_eq eu_def ev_def)
  next
    case 4
    have "rounded eu u \<le> 2 ^ 24" using q(3) [OF 4(1)] rounded_range(2) [of eu u] by linarith
    moreover have "2 ^ 23 \<le> rounded ev v" using q(5) rounded_range(1) [of v ev] 4 assms by linarith
    moreover have "(eu + 1) * 2 ^ 23 \<le> ev * 2 ^ 23" using 4(2) by (intro mult_le_mono1) simp
    ultimately have "rounded eu u + eu * 2 ^ 23 \<le> rounded ev v + ev * 2 ^ 23" by simp
    then show ?thesis using 4 assms by (simp add: round_units_eq eu_def ev_def min.coboundedI1)
  next
    case 5
    have "floor_log2 u \<le> floor_log2 v"
    proof (rule ccontr)
      assume "\<not> ?thesis"
      then have "(2::nat) ^ (floor_log2 v + 1) \<le> 2 ^ floor_log2 u" by (intro power_increasing) simp_all
      then show False using floor_log2_bounds [of u] floor_log2_bounds [of v] 5(1) assms by simp
    qed
    then show ?thesis using 5(2) by (simp add: eu_def ev_def)
  qed
qed

lemma round_units_exact:
  assumes "m < 2 ^ 23" and "1 \<le> e" and "e < 255"
  shows "round_units ((m + 2 ^ 23) * 2 ^ (e - 1)) = m + e * 2 ^ 23"
proof (cases "e = 1")
  case True
  then show ?thesis using assms(1) by (simp add: round_units_eq)
next
  case False
  let ?u = "(m + 2 ^ 23) * 2 ^ (e - 1)"
  have "2 ^ (e + 22) \<le> ?u"
  proof -
    have "(2::nat) ^ (e + 22) = 2 ^ 23 * 2 ^ (e - 1)" using assms(2) by (simp only: power_add [symmetric]) (rule arg_cong [of _ _ "power 2"], simp)
    then show ?thesis by simp
  qed
  moreover have "?u < 2 ^ (e + 22 + 1)"
  proof -
    have "(2::nat) ^ (e + 22 + 1) = 2 ^ 24 * 2 ^ (e - 1)" using assms(2) by (simp only: power_add [symmetric]) (rule arg_cong [of _ _ "power 2"], simp)
    then show ?thesis using assms(1) by simp
  qed
  ultimately have l: "floor_log2 ?u = e + 22" by (rule log2_unique)
  have "(2::nat) ^ 24 \<le> 2 ^ (e + 22)" using False assms(2) by (intro power_increasing) simp_all
  then have big: "2 ^ 24 \<le> ?u" using \<open>2 ^ (e + 22) \<le> ?u\<close> by linarith
  have "floor_log2 ?u - 23 = e - 1" using l assms(2) by simp
  moreover have "rounded (e - 1) ?u = m + 2 ^ 23" by (simp add: rounded_def)
  moreover have "m + 2 ^ 23 + (e - 1) * 2 ^ 23 = m + e * 2 ^ 23" using assms(2) by (cases e) simp_all
  moreover have "m + e * 2 ^ 23 \<le> 0x7F800000"
  proof -
    have "e * 2 ^ 23 \<le> 254 * 2 ^ 23" using assms(3) by (intro mult_le_mono1) simp
    then show ?thesis using assms(1) by simp
  qed
  ultimately show ?thesis using big by (simp only: round_units_eq) (simp add: min_def)
qed

lemma round_units_le: "round_units u \<le> 0x7F800000"
  by (simp add: round_units_eq)

lemma float_key_word:
  assumes "n \<le> 0x7F800000"
  shows "float_key (word_of_nat n) = int n" and "\<not> is_nan (word_of_nat n)"
proof -
  have u: "unat (word_of_nat n :: u32) = n" using assms by (intro unat_word_of_nat_u32) simp
  have t: "take_bit 31 (word_of_nat n :: u32) = word_of_nat n"
    using u assms by (simp add: word_unat_eq_iff unsigned_take_bit_eq take_bit_nat_eq_self)
  then have "\<not> bit (word_of_nat n :: u32) 31" by (metis bit_take_bit_iff less_irrefl)
  then show "float_key (word_of_nat n) = int n" by (simp add: float_key_def t uint_nat u)
  show "\<not> is_nan (word_of_nat n)" using assms unfolding is_nan_def t by (simp add: word_less_nat_alt u)
qed

definition signed_round :: "int \<Rightarrow> int" where
  "signed_round v = (if v < 0 then - int (round_units (nat (- v))) else int (round_units (nat v)))"

lemma float_of_units_key: "float_key (float_of_units v) = signed_round v" "\<not> is_nan (float_of_units v)"
  using float_key_word [OF round_units_le] by (simp_all add: float_of_units_def signed_round_def)

lemma signed_round_mono: "v \<le> w \<Longrightarrow> signed_round v \<le> signed_round w"
  using round_units_mono by (auto simp: signed_round_def nat_mono)

lemma float_fields:
  "unat (take_bit 31 x) = unat (take_bit 23 x) + unat (take_bit 8 (drop_bit 23 x)) * 2 ^ 23" for x :: float32
proof -
  have "take_bit 31 (unat x) = take_bit 23 (unat x) + 2 ^ 23 * take_bit 8 (drop_bit 23 (unat x))"
    by (simp add: take_bit_eq_mod drop_bit_eq_div) (simp add: mod_mult2_eq [of _ "2 ^ 23" "2 ^ 8", simplified])
  then show ?thesis by (simp add: unsigned_take_bit_eq unsigned_drop_bit_eq take_bit_nat_eq_self unat_u32_lt)
qed

lemma signed_round_units:
  assumes "\<not> is_nan x" and "\<not> is_inf x"
  shows "signed_round (float_units x) = float_key x"
proof -
  define m e where "m = unat (take_bit 23 x)" and "e = unat (take_bit 8 (drop_bit 23 x))"
  have f: "unat (take_bit 31 x) = m + e * 2 ^ 23" using float_fields [of x] by (simp add: m_def e_def)
  have "unat (take_bit 31 x) < 0x7F800000"
    using assms by (auto simp: is_nan_def is_inf_def word_less_nat_alt word_unat_eq_iff)
  then have e: "e < 255" using f by simp
  have m: "m < 2 ^ 23" unfolding m_def unsigned_take_bit_eq by (rule take_bit_nat_less_exp)
  define u where "u = (if e = 0 then m else (m + 2 ^ 23) * 2 ^ (e - 1))"
  have "round_units u = m + e * 2 ^ 23"
    using round_units_exact [OF m _ e] m by (cases "e = 0") (simp_all add: u_def round_units_eq)
  moreover have "float_units x = (if bit x 31 then - int u else int u)"
  proof -
    have "uint (take_bit 23 x) = int m" unfolding m_def by (rule uint_nat)
    moreover have "(if e = 0 then int m else (int m + 2 ^ 23) * 2 ^ (e - 1)) = int u" by (simp add: u_def)
    ultimately show ?thesis unfolding float_units_def Let_def e_def [symmetric] by (simp only:)
  qed
  moreover have "float_key x = (if bit x 31 then - int (m + e * 2 ^ 23) else int (m + e * 2 ^ 23))"
    unfolding float_key_def uint_nat [of "take_bit 31 x"] f by (rule refl)
  moreover have "round_units 0 = 0" by (simp add: round_units_eq)
  ultimately show ?thesis by (cases "bit x 31"; cases "u = 0") (simp_all add: signed_round_def)
qed

end
