(* ===== verification/VisitedList.thy ===== *)
theory VisitedList
  imports Prelude
begin

text \<open>
  The set of visited ids of a search, \<open>VisitedList\<close> of
  \<^verbatim>\<open>src/src/utils/visited_list.{h,cpp}\<close>: one bit per id in 64 bit words, and a 16 bit tag per word
  that tells whether the word belongs to the current search. \<open>Reset\<close> starts a new search by
  changing the tag; only when the tag would wrap does it clear the tags. The words themselves are
  never initialised, so the constructor takes their contents as an argument and the theorems hold for
  every content. The locale \<open>visited_marks\<close> is the contract the searchers rely on.
\<close>

section \<open>State and operations\<close>

record VisitedList =
  vl_words :: "u64 list"
  vl_tags :: "u16 list"
  vl_tag :: u16
  word_count :: u64

definition kBitsPerWord :: u64 where
  "kBitsPerWord = 64"

definition VisitedList_new :: "(nat \<Rightarrow> u64) \<Rightarrow> InnerIdType \<Rightarrow> VisitedList" where
  "VisitedList_new memory max_size =
     (let n = (ucast max_size + kBitsPerWord - 1) div kBitsPerWord in
      \<lparr>vl_words = map memory [0..<unat n], vl_tags = replicate (unat n) 0, vl_tag = 1, word_count = n\<rparr>)"

definition word_id :: "InnerIdType \<Rightarrow> nat" where
  "word_id i = unat (ucast i div kBitsPerWord :: u64)"

definition id_mask :: "InnerIdType \<Rightarrow> u64" where
  "id_mask i = push_bit (unat (ucast i mod kBitsPerWord :: u64)) 1"

definition VisitedList_Set :: "VisitedList \<Rightarrow> InnerIdType \<Rightarrow> VisitedList result" where
  "VisitedList_Set vl i =
     (let w = word_id i in
      if w < length (vl_tags vl) \<and> w < length (vl_words vl) then
        (if vl_tags vl ! w \<noteq> vl_tag vl then
           Inr (vl\<lparr>vl_tags := (vl_tags vl)[w := vl_tag vl], vl_words := (vl_words vl)[w := id_mask i]\<rparr>)
         else Inr (vl\<lparr>vl_words := (vl_words vl)[w := vl_words vl ! w OR id_mask i]\<rparr>))
      else Inl UndefinedBehaviour)"

definition VisitedList_Get :: "VisitedList \<Rightarrow> InnerIdType \<Rightarrow> bool result" where
  "VisitedList_Get vl i =
     (let w = word_id i in
      if w < length (vl_tags vl) \<and> w < length (vl_words vl) then
        Inr (vl_tags vl ! w = vl_tag vl \<and> vl_words vl ! w AND id_mask i \<noteq> 0)
      else Inl UndefinedBehaviour)"

definition VisitedList_Reset :: "VisitedList \<Rightarrow> VisitedList" where
  "VisitedList_Reset vl =
     (if vl_tag vl = - 1 then
        vl\<lparr>vl_tags := (if word_count vl > 0 then replicate (unat (word_count vl)) 0 else vl_tags vl), vl_tag := 1\<rparr>
      else vl\<lparr>vl_tag := vl_tag vl + 1\<rparr>)"

text \<open>Marking a list of ids, and a sequence of searches that each start with \<open>Reset\<close>.\<close>

fun mark_all :: "('v \<Rightarrow> InnerIdType \<Rightarrow> 'v result) \<Rightarrow> InnerIdType list \<Rightarrow> 'v \<Rightarrow> 'v result" where
  "mark_all mark [] v = Inr v"
| "mark_all mark (i # is) v = bind_r (mark v i) (mark_all mark is)"

fun run_searches ::
    "('v \<Rightarrow> InnerIdType \<Rightarrow> 'v result) \<Rightarrow> ('v \<Rightarrow> 'v) \<Rightarrow> InnerIdType list list \<Rightarrow> 'v \<Rightarrow> 'v result" where
  "run_searches mark reset [] v = Inr v"
| "run_searches mark reset (is # ss) v = bind_r (mark_all mark is (reset v)) (run_searches mark reset ss)"

section \<open>The contract\<close>

locale visited_marks =
  fixes inv :: "'v \<Rightarrow> bool" and marked :: "'v \<Rightarrow> InnerIdType set" and room :: "'v \<Rightarrow> nat"
    and get :: "'v \<Rightarrow> InnerIdType \<Rightarrow> bool result" and mark :: "'v \<Rightarrow> InnerIdType \<Rightarrow> 'v result" and reset :: "'v \<Rightarrow> 'v"
  assumes get_ok: "inv v \<Longrightarrow> unat i < room v \<Longrightarrow> get v i = Inr (i \<in> marked v)"
    and mark_ok: "inv v \<Longrightarrow> unat i < room v \<Longrightarrow>
      \<exists>v'. mark v i = Inr v' \<and> inv v' \<and> marked v' = insert i (marked v) \<and> room v' = room v"
    and reset_ok: "inv v \<Longrightarrow> inv (reset v) \<and> marked (reset v) = {} \<and> room (reset v) = room v"
begin

lemma mark_all_ok:
  assumes "inv v" and "\<forall>i \<in> set is. unat i < room v"
  shows "\<exists>v'. mark_all mark is v = Inr v' \<and> inv v' \<and> marked v' = marked v \<union> set is \<and> room v' = room v"
  using assms
proof (induction "is" arbitrary: v)
  case (Cons i "is")
  obtain v1 where v1: "mark v i = Inr v1" "inv v1" "marked v1 = insert i (marked v)" "room v1 = room v"
    using mark_ok [OF Cons.prems(1), of i] Cons.prems(2) by auto
  then show ?case using Cons.IH [OF v1(2)] Cons.prems(2) by auto
qed simp

lemma run_searches_ok:
  assumes "inv v" and "\<forall>is \<in> set ss. \<forall>i \<in> set is. unat i < room v"
  shows "\<exists>v'. run_searches mark reset ss v = Inr v' \<and> inv v' \<and> room v' = room v \<and>
    (ss \<noteq> [] \<longrightarrow> marked v' = set (last ss))"
  using assms
proof (induction ss arbitrary: v)
  case (Cons "is" ss)
  obtain v1 where v1: "mark_all mark is (reset v) = Inr v1" "inv v1" "marked v1 = set is" "room v1 = room v"
    using mark_all_ok [of "reset v" "is"] reset_ok [OF Cons.prems(1)] Cons.prems(2) by auto
  then show ?case using Cons.IH [OF v1(2)] Cons.prems(2) by auto
qed simp

end

section \<open>Bits and tags\<close>

lemma word_id_eq: "word_id i = unat i div 64"
  by (simp add: word_id_def kBitsPerWord_def unat_div unat_ucast_u32_u64)

lemma id_mask_eq: "id_mask i = push_bit (unat i mod 64) 1"
  by (simp add: id_mask_def kBitsPerWord_def unat_mod unat_ucast_u32_u64)

lemma and_id_mask: "x AND id_mask i \<noteq> 0 \<longleftrightarrow> bit x (unat i mod 64)"
proof -
  have "x AND id_mask i \<noteq> 0 \<longleftrightarrow> (\<exists>n. bit (x AND id_mask i) n)" by (metis bit_0_eq bit_word_eqI bot_apply bot_bool_def)
  then show ?thesis
    unfolding id_mask_eq push_bit_of_1 by (auto simp: bit_simps)
qed

definition vl_inv :: "VisitedList \<Rightarrow> bool" where
  "vl_inv vl \<longleftrightarrow>
     length (vl_words vl) = unat (word_count vl) \<and> length (vl_tags vl) = unat (word_count vl) \<and>
     1 \<le> vl_tag vl \<and> (\<forall>t \<in> set (vl_tags vl). t \<le> vl_tag vl)"

definition vl_marked :: "VisitedList \<Rightarrow> InnerIdType set" where
  "vl_marked vl =
     {i. unat i < 64 * unat (word_count vl) \<and> vl_tags vl ! (unat i div 64) = vl_tag vl \<and>
         bit (vl_words vl ! (unat i div 64)) (unat i mod 64)}"

abbreviation vl_room :: "VisitedList \<Rightarrow> nat" where
  "vl_room vl \<equiv> 64 * unat (word_count vl)"

lemma same_id: "unat (i :: u32) div 64 = unat j div 64 \<Longrightarrow> unat i mod 64 = unat j mod 64 \<longleftrightarrow> i = j"
  by (metis div_mult_mod_eq word_unat_eq_iff)

lemma vl_set_shape:
  assumes "vl_inv vl" and w: "word_id i < unat (word_count vl)"
  obtains v' where "VisitedList_Set vl i = Inr v'" and "word_count v' = word_count vl" and "vl_tag v' = vl_tag vl"
    and "vl_tags v' = (vl_tags vl)[word_id i := vl_tag vl]" and "length (vl_words v') = length (vl_words vl)"
    and "\<forall>k. k \<noteq> word_id i \<longrightarrow> vl_words v' ! k = vl_words vl ! k"
    and "\<forall>b. bit (vl_words v' ! word_id i) b \<longleftrightarrow>
      b = unat i mod 64 \<or> vl_tags vl ! word_id i = vl_tag vl \<and> bit (vl_words vl ! word_id i) b"
proof -
  have len: "word_id i < length (vl_tags vl)" "word_id i < length (vl_words vl)" using assms by (simp_all add: vl_inv_def)
  have m: "bit (id_mask i) b \<longleftrightarrow> b = unat i mod 64" for b
    unfolding id_mask_eq push_bit_of_1 by (auto simp: bit_simps)
  show thesis
  proof (cases "vl_tags vl ! word_id i = vl_tag vl")
    case True
    then have "vl_tags vl = (vl_tags vl)[word_id i := vl_tag vl]" by (metis list_update_id)
    with True show thesis
      using len by (intro that [of "vl\<lparr>vl_words := (vl_words vl)[word_id i := vl_words vl ! word_id i OR id_mask i]\<rparr>"])
        (simp_all add: VisitedList_Set_def Let_def bit_or_iff m disj_commute)
  next
    case False
    then show thesis
      using len by (intro that [of "vl\<lparr>vl_tags := (vl_tags vl)[word_id i := vl_tag vl], vl_words := (vl_words vl)[word_id i := id_mask i]\<rparr>"])
        (simp_all add: VisitedList_Set_def Let_def m)
  qed
qed

lemma vl_set_ok:
  assumes "vl_inv vl" and "unat i < vl_room vl"
  shows "\<exists>v'. VisitedList_Set vl i = Inr v' \<and> vl_inv v' \<and> vl_marked v' = insert i (vl_marked vl) \<and> vl_room v' = vl_room vl"
proof -
  have w: "word_id i < unat (word_count vl)" using assms(2) by (simp add: word_id_eq less_mult_imp_div_less)
  then have wt: "word_id i < length (vl_tags vl)" using assms(1) by (simp add: vl_inv_def)
  obtain v' where v': "VisitedList_Set vl i = Inr v'" "word_count v' = word_count vl" "vl_tag v' = vl_tag vl"
      "vl_tags v' = (vl_tags vl)[word_id i := vl_tag vl]" "length (vl_words v') = length (vl_words vl)"
      "\<forall>k. k \<noteq> word_id i \<longrightarrow> vl_words v' ! k = vl_words vl ! k"
      "\<forall>b. bit (vl_words v' ! word_id i) b \<longleftrightarrow>
        b = unat i mod 64 \<or> vl_tags vl ! word_id i = vl_tag vl \<and> bit (vl_words vl ! word_id i) b"
    by (rule vl_set_shape [OF assms(1) w])
  have "t \<le> vl_tag vl" if "t \<in> set ((vl_tags vl)[word_id i := vl_tag vl])" for t
    using set_update_subset_insert [THEN subsetD, OF that] assms(1) by (auto simp: vl_inv_def)
  then have inv: "vl_inv v'" using v'(2-5) assms(1) by (simp add: vl_inv_def)
  have "j \<in> vl_marked v' \<longleftrightarrow> j \<in> insert i (vl_marked vl)" for j
  proof (cases "word_id j = word_id i")
    case True
    then have "unat j mod 64 = unat i mod 64 \<longleftrightarrow> j = i" using same_id [of j i] by (simp add: word_id_eq)
    then show ?thesis
      using True v'(2-4) v'(7) wt assms(2) by (auto simp: vl_marked_def word_id_eq [symmetric])
  next
    case False
    then show ?thesis using False v'(2-4,6) by (auto simp: vl_marked_def word_id_eq [symmetric])
  qed
  then show ?thesis using v'(1,2) inv by auto
qed

lemma u16_not_max: "(t :: u16) \<noteq> - 1 \<Longrightarrow> t < t + 1"
proof -
  assume t: "t \<noteq> - 1"
  have "unat (- 1 :: u16) = 65535" by (simp add: unsigned_minus_1_eq_mask mask_eq_exp_minus_1)
  then have "unat t \<noteq> 65535" using t by (metis word_unat_eq_iff)
  moreover have "unat t < 65536" using unsigned_less [of t, where ?'a = nat] by simp
  ultimately show ?thesis by (simp add: word_less_nat_alt unat_word_ariths)
qed

lemma vl_reset_ok:
  assumes inv: "vl_inv vl"
  shows "vl_inv (VisitedList_Reset vl) \<and> vl_marked (VisitedList_Reset vl) = {} \<and> vl_room (VisitedList_Reset vl) = vl_room vl"
proof -
  have old: "vl_tags vl ! n \<le> vl_tag vl" if "n < unat (word_count vl)" for n
    using inv that by (auto simp: vl_inv_def)
  show ?thesis
  proof (cases "vl_tag vl = - 1")
    case True
    then show ?thesis
      using inv by (auto simp: VisitedList_Reset_def vl_inv_def vl_marked_def word_gt_0)
  next
    case False
    then have "vl_tag vl < vl_tag vl + 1" by (rule u16_not_max)
    moreover from this have "vl_tags vl ! (unat i div 64) \<noteq> vl_tag vl + 1" if "unat i < vl_room vl" for i :: u32
      using old [of "unat i div 64"] less_mult_imp_div_less [of "unat i" "unat (word_count vl)" 64] that by auto
    ultimately show ?thesis using inv False
      by (auto simp: VisitedList_Reset_def vl_inv_def vl_marked_def)
  qed
qed

interpretation vl: visited_marks vl_inv vl_marked vl_room VisitedList_Get VisitedList_Set VisitedList_Reset
proof unfold_locales
  fix vl :: VisitedList and i :: InnerIdType
  assume inv: "vl_inv vl"
  show "vl_inv (VisitedList_Reset vl) \<and> vl_marked (VisitedList_Reset vl) = {} \<and> vl_room (VisitedList_Reset vl) = vl_room vl"
    using vl_reset_ok [OF inv] .
  assume i: "unat i < vl_room vl"
  then show "VisitedList_Get vl i = Inr (i \<in> vl_marked vl)"
    using inv by (simp add: VisitedList_Get_def vl_inv_def vl_marked_def word_id_eq and_id_mask Let_def)
  show "\<exists>v'. VisitedList_Set vl i = Inr v' \<and> vl_inv v' \<and> vl_marked v' = insert i (vl_marked vl) \<and> vl_room v' = vl_room vl"
    by (rule vl_set_ok [OF inv i])
qed

lemma vl_new_ok:
  "vl_inv (VisitedList_new memory n) \<and> vl_marked (VisitedList_new memory n) = {} \<and> unat n \<le> vl_room (VisitedList_new memory n)"
proof -
  have "unat (ucast n + 64 - 1 :: u64) = unat n + 63"
  proof -
    have "unat (ucast n + 63 :: u64) = unat (ucast n :: u64) + unat (63 :: u64)"
      by (rule unat_add_le_u64 [where c = "- 1"])
        (use unat_u32_lt [of n] in \<open>simp add: unsigned_minus_1_eq_mask mask_eq_exp_minus_1 unat_ucast_u32_u64\<close>)
    moreover have "unat (63 :: u64) = 63" by simp
    ultimately show ?thesis by (simp only: unat_ucast_u32_u64 add_diff_eq [symmetric]) simp
  qed
  then have n: "unat ((ucast n + kBitsPerWord - 1) div kBitsPerWord :: u64) = (unat n + 63) div 64"
    by (simp add: kBitsPerWord_def unat_div)
  have "unat n \<le> 64 * ((unat n + 63) div 64)" by linarith
  then show ?thesis
    unfolding VisitedList_new_def Let_def
    by (auto simp: vl_inv_def vl_marked_def n)
qed

section \<open>Property\<close>

text \<open>C16: whatever the uninitialised words hold and however many searches used the list before, more
  than the 65535 values of the tag included, the list tells exactly the ids marked since the last
  \<open>Reset\<close>, and no access leaves its arrays for ids below \<open>max_size\<close>.\<close>

theorem visited_list_marks:
  assumes "\<forall>is \<in> set ss. \<forall>i \<in> set is. i < max_size" and "ss \<noteq> []"
  shows "\<exists>vl. run_searches VisitedList_Set VisitedList_Reset ss (VisitedList_new memory max_size) = Inr vl \<and>
    (\<forall>i < max_size. VisitedList_Get vl i = Inr (i \<in> set (last ss)))"
proof -
  let ?v = "VisitedList_new memory max_size"
  note new = vl_new_ok [of memory max_size]
  have "\<forall>is \<in> set ss. \<forall>i \<in> set is. unat i < vl_room ?v"
    using assms(1) new by (fastforce simp: word_less_nat_alt)
  then obtain vl where vl: "run_searches VisitedList_Set VisitedList_Reset ss ?v = Inr vl" "vl_inv vl"
      "vl_room vl = vl_room ?v" "vl_marked vl = set (last ss)"
    using vl.run_searches_ok [of ?v ss] new assms(2) by auto
  have "VisitedList_Get vl i = Inr (i \<in> set (last ss))" if "i < max_size" for i
    using vl.get_ok [OF vl(2), of i] vl(3,4) new that by (simp add: word_less_nat_alt)
  then show ?thesis using vl(1) by blast
qed

theorem visited_list_marks_witness:
  "\<exists>vl. run_searches VisitedList_Set VisitedList_Reset (replicate 65536 [5] @ [[7, 64]])
      (VisitedList_new (\<lambda>n. - 1) 100) = Inr vl \<and> VisitedList_Get vl 5 = Inr False \<and> VisitedList_Get vl 64 = Inr True"
  using visited_list_marks [of "replicate 65536 [5] @ [[7, 64]]" 100 "\<lambda>n. - 1"] by auto

end
