(* ===== verification/BasicSearcher.thy ===== *)
theory BasicSearcher
  imports FloatDistance VisitedList
begin

text \<open>
  The best-first graph search \<open>BasicSearcher\<close> of \<^verbatim>\<open>src/src/impl/searcher/basic_searcher.{h,cpp}\<close>,
  the routine behind every query and every insertion of the graph indexes. It keeps two binary
  heaps, \<open>candidate_set\<close> with the vertices still to be expanded (negated distances, so its top is the
  nearest) and \<open>top_candidates\<close> with the best \<open>ef\<close> results, and a visited list.

  The graph storage, the vector storage and the filters are virtual interfaces of the source; they
  are arguments of the definitions: \<open>graph_ops\<close> is what the search calls of a \<open>GraphInterface\<close>,
  \<open>flatten_ops\<close> what it calls of a \<open>FlattenInterface\<close> for one query, a filter is its \<open>CheckValid\<close>. The
  skip strategy is its \<open>ShouldVisit\<close> on some state. The answers of \<open>Timer::CheckOvertime\<close> are given
  per hop. A counter such as \<open>Size()\<close> of a vector is a natural number; \<open>hops\<close> starts at 0 and the
  loop ends when it reaches \<open>hops_limit\<close>, so it does not wrap. What is reported to \<open>ReasoningContext\<close>
  is kept as the list of the calls. Prefetching and the locks around \<open>GetNeighbors\<close> have no effect on
  the result and are left out.
\<close>

definition THRESHOLD_ERROR :: float32 where
  "THRESHOLD_ERROR = 0x360637BD"

section \<open>Parameters and interfaces\<close>

datatype InnerSearchMode = KNN_SEARCH | RANGE_SEARCH

record InnerSearchParam =
  p_topk :: u64
  p_radius :: float32
  p_ep :: InnerIdType
  p_ef :: u64
  p_hops_limit :: u32
  p_is_inner_id_allowed :: "(InnerIdType \<Rightarrow> bool) option"
  p_search_mode :: InnerSearchMode
  p_range_search_limit_size :: u32
  p_enable_rabitq_one_bit_search :: bool
  p_executors :: "(InnerIdType \<Rightarrow> bool) option list"
  p_duplicate_query_id :: InnerIdType
  p_find_duplicate :: bool
  p_duplicate_distance_threshold :: float32
  p_consider_duplicate :: bool
  p_time_cost :: "(nat \<Rightarrow> bool) option"

record graph_ops =
  go_GetNeighbors :: "InnerIdType \<Rightarrow> InnerIdType list \<Rightarrow> InnerIdType list result"
  go_GetDuplicateIds :: "InnerIdType \<Rightarrow> InnerIdType list result"
  go_MaximumDegree :: u32

record flatten_ops =
  fo_Query :: "InnerIdType \<Rightarrow> float32"
  fo_QueryWithDistanceLowerBound :: "InnerIdType \<Rightarrow> float32 \<times> float32"
  fo_TotalCount :: u32
  fo_CompareVectors :: "InnerIdType \<Rightarrow> InnerIdType \<Rightarrow> bool"
  fo_CompareRawVectorWithId :: "InnerIdType \<Rightarrow> bool"

datatype termination_reason = LowerBoundReached | HopsLimitReached | Timeout

datatype reasoning_call =
    AddSearchHop | SetTermination termination_reason | RecordVisit InnerIdType float32 nat
  | RecordFilterReject InnerIdType | RecordEviction InnerIdType nat

record 's search_state =
  top_candidates :: StandardHeap
  candidate_set :: StandardHeap
  lower_bound :: float32
  s_vl :: VisitedList
  s_skip :: 's
  s_neighbors :: "InnerIdType list"
  dist_cmp :: u32
  rabitq_lower_bound_candidates :: "DistanceRecord list option"
  is_timeout :: bool
  reasoning :: "reasoning_call list option"

definition report :: "reasoning_call \<Rightarrow> 's search_state \<Rightarrow> 's search_state" where
  "report c st = st\<lparr>reasoning := map_option (\<lambda>cs. cs @ [c]) (reasoning st)\<rparr>"

text \<open>\<open>check_func\<close>: the filter of the query and the one the first executor computed.\<close>

definition attr_ft :: "InnerSearchParam \<Rightarrow> (InnerIdType \<Rightarrow> bool) option" where
  "attr_ft p = (case p_executors p of [] \<Rightarrow> None | e # es \<Rightarrow> e)"

definition check_func :: "InnerSearchParam \<Rightarrow> InnerIdType \<Rightarrow> bool" where
  "check_func p i \<longleftrightarrow>
     (case p_is_inner_id_allowed p of None \<Rightarrow> True | Some check \<Rightarrow> check i) \<and>
     (case attr_ft p of None \<Rightarrow> True | Some check \<Rightarrow> check i)"

definition query_dist :: "InnerSearchParam \<Rightarrow> flatten_ops \<Rightarrow> InnerIdType \<Rightarrow> float32" where
  "query_dist p F i =
     (if p_enable_rabitq_one_bit_search p then fst (fo_QueryWithDistanceLowerBound F i) else fo_Query F i)"

section \<open>Visiting the neighbours\<close>

definition wants_visit ::
    "(InnerIdType \<Rightarrow> bool) option \<Rightarrow> ('s \<Rightarrow> bool \<times> 's) \<Rightarrow> nat \<Rightarrow> InnerIdType \<Rightarrow> 's \<Rightarrow> bool \<times> 's" where
  "wants_visit flt should_visit count_no_visited i s =
     (case flt of
        None \<Rightarrow> (True, s)
      | Some check \<Rightarrow>
          if count_no_visited = 0 then (True, s)
          else (let (b, s) = should_visit s in (b \<or> check i, s)))"

fun visit_loop ::
    "(InnerIdType \<Rightarrow> bool) option \<Rightarrow> ('s \<Rightarrow> bool \<times> 's) \<Rightarrow> nat \<Rightarrow> InnerIdType list \<Rightarrow> VisitedList \<Rightarrow> 's \<Rightarrow>
     InnerIdType list \<Rightarrow> (InnerIdType list \<times> VisitedList \<times> 's) result" where
  "visit_loop flt should_visit room [] vl s to_be_visited = Inr (to_be_visited, vl, s)"
| "visit_loop flt should_visit room (i # neighbors) vl s to_be_visited =
     bind_r (VisitedList_Get vl i) (\<lambda>seen.
       if seen then visit_loop flt should_visit room neighbors vl s to_be_visited
       else
         bind_r (VisitedList_Set vl i) (\<lambda>vl.
         let (take_it, s) = wants_visit flt should_visit (length to_be_visited) i s in
         if take_it then
           (if length to_be_visited < room
            then visit_loop flt should_visit room neighbors vl s (to_be_visited @ [i])
            else Inl UndefinedBehaviour)
         else visit_loop flt should_visit room neighbors vl s to_be_visited))"

text \<open>\<open>neighbors\<close> is the caller's vector, which \<open>GetNeighbors\<close> overwrites.\<close>

definition visit ::
    "graph_ops \<Rightarrow> (InnerIdType \<Rightarrow> bool) option \<Rightarrow> ('s \<Rightarrow> bool \<times> 's) \<Rightarrow> VisitedList \<Rightarrow> 's \<Rightarrow> InnerIdType list \<Rightarrow> InnerIdType \<Rightarrow>
     (InnerIdType list \<times> (InnerIdType list \<times> VisitedList \<times> 's)) result" where
  "visit G flt should_visit vl s neighbors i =
     bind_r (go_GetNeighbors G i neighbors) (\<lambda>neighbors.
     bind_r (visit_loop flt should_visit (unat (go_MaximumDegree G)) neighbors vl s []) (\<lambda>r. Inr (neighbors, r)))"

section \<open>One candidate\<close>

fun push_checked :: "(InnerIdType \<Rightarrow> bool) \<Rightarrow> float32 \<Rightarrow> InnerIdType list \<Rightarrow> StandardHeap \<Rightarrow> StandardHeap result" where
  "push_checked check dist [] h = Inr h"
| "push_checked check dist (i # is) h =
     bind_r (if check i then StandardHeap_Push True False h dist i else Inr h) (push_checked check dist is)"

definition evict ::
    "InnerSearchMode \<Rightarrow> InnerSearchParam \<Rightarrow> nat \<Rightarrow> StandardHeap \<Rightarrow> 's search_state \<Rightarrow> (StandardHeap \<times> 's search_state) result" where
  "evict mode p hops h st =
     (if mode = KNN_SEARCH \<and> length (queue h) > unat (p_ef p) then
        bind_r (StandardHeap_Top h) (\<lambda>t.
        bind_r (StandardHeap_Pop True h) (\<lambda>h. Inr (h, report (RecordEviction (snd t) hops) st)))
      else Inr (h, st))"

definition accept_candidate ::
    "InnerSearchMode \<Rightarrow> InnerSearchParam \<Rightarrow> graph_ops \<Rightarrow> nat \<Rightarrow> float32 \<Rightarrow> InnerIdType \<Rightarrow> 's search_state \<Rightarrow>
     's search_state result" where
  "accept_candidate mode p G hops dist cur_id st =
     bind_r (StandardHeap_Push True False (candidate_set st) (float_neg dist) cur_id) (\<lambda>cand.
     bind_r (push_checked (check_func p) dist [cur_id] (top_candidates st)) (\<lambda>h.
     bind_r (if p_consider_duplicate p
             then bind_r (go_GetDuplicateIds G cur_id) (\<lambda>ids. push_checked (check_func p) dist ids h)
             else Inr h) (\<lambda>h.
     let st = (if check_func p cur_id then st else report (RecordFilterReject cur_id) st) in
     bind_r (evict mode p hops h (st\<lparr>candidate_set := cand\<rparr>)) (\<lambda>(h, st).
     bind_r (if queue h = [] then Inr (lower_bound st) else bind_r (StandardHeap_Top h) (\<lambda>t. Inr (fst t))) (\<lambda>lb.
       Inr (st\<lparr>top_candidates := h, lower_bound := lb\<rparr>))))))"

definition collect_lower_bound ::
    "InnerSearchMode \<Rightarrow> InnerSearchParam \<Rightarrow> flatten_ops \<Rightarrow> bool \<Rightarrow> InnerIdType \<Rightarrow> 's search_state \<Rightarrow> 's search_state" where
  "collect_lower_bound mode p F collect cur_id st =
     (let lb = snd (fo_QueryWithDistanceLowerBound F cur_id) in
      if mode = KNN_SEARCH \<and> collect \<and> float_lt lb (lower_bound st) \<and> check_func p cur_id
      then st\<lparr>rabitq_lower_bound_candidates := map_option (\<lambda>cs. cs @ [(lb, cur_id)]) (rabitq_lower_bound_candidates st)\<rparr>
      else st)"

definition scan_candidate ::
    "InnerSearchMode \<Rightarrow> InnerSearchParam \<Rightarrow> graph_ops \<Rightarrow> flatten_ops \<Rightarrow> bool \<Rightarrow> nat \<Rightarrow> InnerIdType \<Rightarrow> 's search_state \<Rightarrow>
     's search_state result" where
  "scan_candidate mode p G F collect hops cur_id st =
     (let dist = query_dist p F cur_id;
          st = collect_lower_bound mode p F collect cur_id (report (RecordVisit cur_id dist hops) st) in
      if length (queue (top_candidates st)) < unat (p_ef p) \<or> float_lt dist (lower_bound st) \<or>
         mode = RANGE_SEARCH \<and> float_le dist (p_radius p)
      then accept_candidate mode p G hops dist cur_id st
      else Inr st)"

fun scan_candidates ::
    "InnerSearchMode \<Rightarrow> InnerSearchParam \<Rightarrow> graph_ops \<Rightarrow> flatten_ops \<Rightarrow> bool \<Rightarrow> nat \<Rightarrow> InnerIdType list \<Rightarrow>
     's search_state \<Rightarrow> 's search_state result" where
  "scan_candidates mode p G F collect hops [] st = Inr st"
| "scan_candidates mode p G F collect hops (i # is) st =
     bind_r (scan_candidate mode p G F collect hops i st) (scan_candidates mode p G F collect hops is)"

section \<open>The search\<close>

text \<open>One turn of the main loop after its exits: take the nearest candidate and scan its new neighbours.\<close>

definition expand_nearest ::
    "InnerSearchMode \<Rightarrow> InnerSearchParam \<Rightarrow> graph_ops \<Rightarrow> flatten_ops \<Rightarrow> ('s \<Rightarrow> bool \<times> 's) \<Rightarrow> nat \<Rightarrow>
     DistanceRecord \<Rightarrow> 's search_state \<Rightarrow> 's search_state result" where
  "expand_nearest mode p G F should_visit hops current st =
     bind_r (StandardHeap_Pop True (candidate_set st)) (\<lambda>cand.
     bind_r (visit G (p_is_inner_id_allowed p) should_visit (s_vl st) (s_skip st) (s_neighbors st) (snd current)) (\<lambda>(neighbors, ids, vl, s).
     let collect = p_enable_rabitq_one_bit_search p \<and> length (queue (top_candidates st)) = unat (p_ef p) \<and>
           rabitq_lower_bound_candidates st \<noteq> None in
     scan_candidates mode p G F collect hops ids
       (st\<lparr>candidate_set := cand, s_vl := vl, s_skip := s, s_neighbors := neighbors, dist_cmp := dist_cmp st + word_of_nat (length ids)\<rparr>)))"

function search_loop ::
    "InnerSearchMode \<Rightarrow> InnerSearchParam \<Rightarrow> graph_ops \<Rightarrow> flatten_ops \<Rightarrow> ('s \<Rightarrow> bool \<times> 's) \<Rightarrow> nat \<Rightarrow>
     's search_state \<Rightarrow> (nat \<times> 's search_state) result" where
  "search_loop mode p G F should_visit hops st =
     (if queue (candidate_set st) = [] then Inr (hops, st)
      else
        (let hops = hops + 1 in
         if hops \<ge> unat (p_hops_limit p) then Inr (hops, report (SetTermination HopsLimitReached) st)
         else
           (let st = report AddSearchHop st in
            bind_r (StandardHeap_Top (candidate_set st)) (\<lambda>current.
            if (case p_time_cost p of None \<Rightarrow> False | Some CheckOvertime \<Rightarrow> CheckOvertime hops)
            then Inr (hops, report (SetTermination Timeout) (st\<lparr>is_timeout := True\<rparr>))
            else if mode = KNN_SEARCH \<and> float_lt (lower_bound st) (float_neg (fst current)) \<and>
                    length (queue (top_candidates st)) = unat (p_ef p)
            then Inr (hops, report (SetTermination LowerBoundReached) st)
            else bind_r (expand_nearest mode p G F should_visit hops current st)
                   (search_loop mode p G F should_visit hops)))))"
  by pat_completeness auto
termination
  by (relation "measure (\<lambda>(mode, p, G, F, sv, hops, st). unat (p_hops_limit p) - hops)") auto

declare search_loop.simps [simp del]

definition search_start ::
    "InnerSearchMode \<Rightarrow> InnerSearchParam \<Rightarrow> graph_ops \<Rightarrow> flatten_ops \<Rightarrow> VisitedList \<Rightarrow> 's \<Rightarrow> DistanceRecord list option \<Rightarrow>
     reasoning_call list option \<Rightarrow> 's search_state result" where
  "search_start mode p G F vl s rabitq calls =
     (let dist = query_dist p F (p_ep p); empty = StandardHeap_new (- 1) in
      bind_r (if check_func p (p_ep p)
              then bind_r (StandardHeap_Push True False empty dist (p_ep p)) (\<lambda>h.
                   bind_r (StandardHeap_Top h) (\<lambda>t. Inr (h, fst t)))
              else Inr (empty, FLT_MAX)) (\<lambda>(h, lb).
      bind_r (if mode = RANGE_SEARCH \<and> float_lt (p_radius p) dist \<and> queue h \<noteq> [] then StandardHeap_Pop True h else Inr h) (\<lambda>h.
      bind_r (StandardHeap_Push True False empty (float_neg dist) (p_ep p)) (\<lambda>cand.
      bind_r (VisitedList_Set vl (p_ep p)) (\<lambda>vl.
        Inr \<lparr>top_candidates = h, candidate_set = cand, lower_bound = lb, s_vl = vl, s_skip = s,
             s_neighbors = replicate (unat (go_MaximumDegree G)) 0, dist_cmp = 1,
             rabitq_lower_bound_candidates = map_option (\<lambda>_. []) rabitq, is_timeout = False, reasoning = calls\<rparr>)))))"

lemma length_push_hole [simp]: "length (push_hole cmp xs hole val) = length xs"
  by (induction cmp xs hole val rule: push_hole.induct) (subst push_hole.simps, auto simp: Let_def)

lemma length_adjust_down [simp]: "length (fst (adjust_down cmp xs len hole)) = length xs"
  by (induction cmp xs len hole rule: adjust_down.induct) (subst adjust_down.simps, auto simp: Let_def)

lemma length_std_pop_heap [simp]: "length (std_pop_heap cmp xs) = length xs"
proof -
  obtain ys k where "adjust_down cmp (xs[length xs - 1 := xs ! 0]) (length xs - 1) 0 = (ys, k)" by (cases "adjust_down cmp (xs[length xs - 1 := xs ! 0]) (length xs - 1) 0")
  moreover from this have "length ys = length xs" using length_adjust_down [of cmp "xs[length xs - 1 := xs ! 0]" "length xs - 1" 0] by simp
  ultimately show ?thesis by (simp add: std_pop_heap_def Let_def)
qed

text \<open>\<open>while (cond) Pop()\<close>, used to shorten the results.\<close>

function pop_while :: "(StandardHeap \<Rightarrow> bool) \<Rightarrow> StandardHeap \<Rightarrow> StandardHeap result" where
  "pop_while cond h = (if cond h then bind_r (StandardHeap_Pop True h) (pop_while cond) else Inr h)"
  by pat_completeness auto
termination
  by (relation "measure (\<lambda>(cond, h). length (queue h))") (auto simp: StandardHeap_Pop_def split: if_splits)

declare pop_while.simps [simp del]

definition shorten_results :: "InnerSearchMode \<Rightarrow> InnerSearchParam \<Rightarrow> StandardHeap \<Rightarrow> StandardHeap result" where
  "shorten_results mode p h =
     (case mode of
        KNN_SEARCH \<Rightarrow> pop_while (\<lambda>h. length (queue h) > unat (p_topk p)) h
      | RANGE_SEARCH \<Rightarrow>
          bind_r (if sint (p_range_search_limit_size p) > 0
                  then pop_while (\<lambda>h. length (queue h) > nat (sint (p_range_search_limit_size p))) h else Inr h)
            (pop_while (\<lambda>h. queue h \<noteq> [] \<and>
               float_lt (float_add (p_radius p) THRESHOLD_ERROR) (fst (hd (queue h))))))"

fun nearest_record :: "DistanceRecord \<Rightarrow> DistanceRecord list \<Rightarrow> DistanceRecord" where
  "nearest_record best [] = best"
| "nearest_record best (r # rs) = nearest_record (if float_lt (fst r) (fst best) then r else best) rs"

text \<open>
  \<open>Some i\<close> when the search assigns \<open>i\<close> to the mutable field \<open>duplicate_id\<close> of the parameters, \<open>None\<close> when it leaves the
  field as it was.
\<close>

definition find_duplicate_id :: "InnerSearchParam \<Rightarrow> flatten_ops \<Rightarrow> StandardHeap \<Rightarrow> InnerIdType option" where
  "find_duplicate_id p F h =
     (case queue h of
        [] \<Rightarrow> None
      | r # rs \<Rightarrow>
          if p_find_duplicate p then
            (let (min_distance, min_index) = nearest_record r rs in
             if float_lt 0 (p_duplicate_distance_threshold p) then
               (if float_le min_distance (p_duplicate_distance_threshold p) then Some min_index else None)
             else if p_duplicate_query_id p < fo_TotalCount F then
               (if fo_CompareVectors F (p_duplicate_query_id p) min_index then Some min_index else None)
             else if fo_CompareRawVectorWithId F min_index then Some min_index else None)
          else None)"

record search_outcome =
  so_results :: StandardHeap
  so_duplicate_id :: "InnerIdType option"
  so_hops :: nat
  so_dist_cmp :: u32
  so_is_timeout :: bool
  so_vl :: VisitedList
  so_rabitq_lower_bound_candidates :: "DistanceRecord list option"
  so_reasoning :: "reasoning_call list option"

definition search_finish ::
    "InnerSearchMode \<Rightarrow> InnerSearchParam \<Rightarrow> flatten_ops \<Rightarrow> nat \<times> 's search_state \<Rightarrow> search_outcome result" where
  "search_finish mode p F r =
     (let (hops, st) = r in
      bind_r (shorten_results mode p (top_candidates st)) (\<lambda>h.
        Inr \<lparr>so_results = h, so_duplicate_id = find_duplicate_id p F h, so_hops = hops, so_dist_cmp = dist_cmp st,
             so_is_timeout = is_timeout st, so_vl = s_vl st,
             so_rabitq_lower_bound_candidates = rabitq_lower_bound_candidates st, so_reasoning = reasoning st\<rparr>))"

definition search_impl ::
    "InnerSearchMode \<Rightarrow> InnerSearchParam \<Rightarrow> graph_ops option \<Rightarrow> flatten_ops option \<Rightarrow> ('s \<Rightarrow> bool \<times> 's) \<Rightarrow>
     VisitedList \<Rightarrow> 's \<Rightarrow> DistanceRecord list option \<Rightarrow> reasoning_call list option \<Rightarrow> search_outcome result" where
  "search_impl mode p graph flatten should_visit vl s rabitq calls =
     (case (graph, flatten) of
        (Some G, Some F) \<Rightarrow>
          bind_r (search_start mode p G F vl s rabitq calls) (\<lambda>st.
          bind_r (search_loop mode p G F should_visit 0 st) (search_finish mode p F))
      | _ \<Rightarrow>
          Inr \<lparr>so_results = StandardHeap_new (- 1), so_duplicate_id = None, so_hops = 0, so_dist_cmp = 0,
               so_is_timeout = False, so_vl = vl, so_rabitq_lower_bound_candidates = rabitq, so_reasoning = calls\<rparr>)"

definition BasicSearcher_Search ::
    "InnerSearchParam \<Rightarrow> graph_ops option \<Rightarrow> flatten_ops option \<Rightarrow> ('s \<Rightarrow> bool \<times> 's) \<Rightarrow> VisitedList \<Rightarrow> 's \<Rightarrow>
     DistanceRecord list option \<Rightarrow> reasoning_call list option \<Rightarrow> search_outcome result" where
  "BasicSearcher_Search p graph flatten should_visit vl s rabitq calls =
     (if p_search_mode p = KNN_SEARCH then search_impl KNN_SEARCH p graph flatten should_visit vl s rabitq calls
      else search_impl RANGE_SEARCH p graph flatten should_visit vl s rabitq calls)"

end
