(* ===== verification/SearchProperties.thy ===== *)
theory SearchProperties
  imports BasicSearcher
begin

text \<open>
  Properties of the graph search of \<open>BasicSearcher\<close>. \<open>search_inv\<close> and \<open>mode_inv\<close> relate the two heaps
  and the visited list to the set \<open>E\<close> of vertices whose distance was computed and the set \<open>X\<close> of those
  that were expanded; every operation of the search preserves them. From them follow that the search stays
  inside its buffers and reports only what it may, that an uncut k-nearest search ends in a local
  optimum and finds as much as \<open>ef\<close> allows, and that an uncut range search is complete.
\<close>

section \<open>Unbounded heaps\<close>

abbreviation heap_ok :: "StandardHeap \<Rightarrow> bool" where
  "heap_ok \<equiv> sh_inv True False 0"

abbreviation entries :: "StandardHeap \<Rightarrow> DistanceRecord multiset" where
  "entries h \<equiv> mset (queue h)"

abbreviation key :: "DistanceRecord \<Rightarrow> int" where
  "key r \<equiv> float_key (fst r)"

lemma heap_new: "heap_ok (StandardHeap_new n)" "queue (StandardHeap_new n) = []"
  by (simp_all add: sh_inv_def StandardHeap_new_def heap_upto_def)

lemma heap_push:
  assumes "heap_ok h" and "\<not> is_nan d"
  obtains h' where "StandardHeap_Push True False h d i = Inr h'" and "heap_ok h'" and "entries h' = add_mset (d, i) (entries h)"
  using sh_push [OF assms(1), of "(d, i)"] assms(2) by (auto simp: proper_def kept_def)

lemma heap_top:
  assumes "heap_ok h" and "queue h \<noteq> []"
  shows "StandardHeap_Top h = Inr (hd (queue h))" and "hd (queue h) \<in># entries h"
    and "x \<in># entries h \<Longrightarrow> key x \<le> key (hd (queue h))" and "\<not> is_nan (fst (hd (queue h)))"
proof -
  note t = sh_top [of True h]
  have "heap_upto (rank True) (length (queue h)) (queue h)" "set (queue h) \<subseteq> Collect proper"
    using assms(1) by (simp_all add: sh_inv_def)
  moreover from this have "proper (hd (queue h))" using hd_in_set [OF assms(2)] by blast
  ultimately show "StandardHeap_Top h = Inr (hd (queue h))" "hd (queue h) \<in># entries h"
    "x \<in># entries h \<Longrightarrow> key x \<le> key (hd (queue h))" "\<not> is_nan (fst (hd (queue h)))"
    using t assms(2) by (auto simp: rank_def proper_def)
qed

lemma heap_pop:
  assumes "heap_ok h" and "queue h \<noteq> []"
  obtains h' where "StandardHeap_Pop True h = Inr h'" and "heap_ok h'" and "entries h' = entries h - {#hd (queue h)#}"
proof -
  have i: "heap_upto (rank True) (length (queue h)) (queue h)" "set (queue h) \<subseteq> Collect proper"
    using assms(1) by (simp_all add: sh_inv_def)
  obtain h' where "StandardHeap_Pop True h = Inr h'" "heap_upto (rank True) (length (queue h')) (queue h')"
      "mset (queue h') = mset (queue h) - {#hd (queue h)#}" "set (queue h') \<subseteq> Collect proper"
      "sh_max_size h' = sh_max_size h" "length (queue h') = length (queue h) - 1"
    by (rule sh_pop [OF i assms(2)])
  then show thesis using that by (auto simp: sh_inv_def)
qed

lemma push_checked_ok:
  assumes "heap_ok h" and "\<not> is_nan d"
  obtains h' where "push_checked check d is h = Inr h'" and "heap_ok h'"
    and "entries h' = entries h + mset (map (\<lambda>j. (d, j)) (filter check is))"
  using assms
proof (induction "is" arbitrary: h thesis)
  case Nil
  then show ?case by simp
next
  case (Cons i "is")
  show ?case
  proof (cases "check i")
    case True
    obtain h1 where h1: "StandardHeap_Push True False h d i = Inr h1" "heap_ok h1" "entries h1 = add_mset (d, i) (entries h)"
      by (rule heap_push [OF Cons.prems(2,3)])
    obtain h' where "push_checked check d is h1 = Inr h'" "heap_ok h'"
        "entries h' = entries h1 + mset (map (\<lambda>j. (d, j)) (filter check is))"
      by (rule Cons.IH [OF _ h1(2) Cons.prems(3)])
    then show thesis using Cons.prems(1) True h1 by auto
  next
    case False
    obtain h' where "push_checked check d is h = Inr h'" "heap_ok h'"
        "entries h' = entries h + mset (map (\<lambda>j. (d, j)) (filter check is))"
      by (rule Cons.IH [OF _ Cons.prems(2,3)])
    then show thesis using Cons.prems(1) False by auto
  qed
qed

section \<open>Visiting\<close>

definition never_skips :: "(InnerIdType \<Rightarrow> bool) option \<Rightarrow> ('s \<Rightarrow> bool \<times> 's) \<Rightarrow> bool" where
  "never_skips flt should_visit \<longleftrightarrow> flt = None \<or> (\<forall>s. fst (should_visit s))"

lemma never_skips_wants: "never_skips flt sv \<Longrightarrow> fst (wants_visit flt sv n i s)"
  by (auto simp: never_skips_def wants_visit_def split: option.split prod.split) (metis fst_conv)

lemma visit_loop_ok:
  assumes "vl_inv vl" and "\<forall>i \<in> set ns. unat i < vl_room vl" and "length acc + length ns \<le> room"
    and "distinct acc" and "set acc \<subseteq> vl_marked vl"
  shows "\<exists>new vl' s'. visit_loop flt sv room ns vl s acc = Inr (acc @ new, vl', s') \<and> vl_inv vl' \<and> vl_room vl' = vl_room vl \<and>
    vl_marked vl' = vl_marked vl \<union> set ns \<and> distinct new \<and> set new \<subseteq> set ns - vl_marked vl \<and>
    (never_skips flt sv \<longrightarrow> set new = set ns - vl_marked vl)"
  using assms
proof (induction ns arbitrary: vl s acc)
  case Nil
  then show ?case by auto
next
  case (Cons i ns)
  have i: "unat i < vl_room vl" using Cons.prems(2) by simp
  show ?case
  proof (cases "i \<in> vl_marked vl")
    case True
    then show ?thesis
      using Cons.IH [of vl acc s] Cons.prems vl.get_ok [OF Cons.prems(1) i] by (auto simp: insert_absorb)
  next
    case False
    obtain v1 where v1: "VisitedList_Set vl i = Inr v1" "vl_inv v1" "vl_marked v1 = insert i (vl_marked vl)" "vl_room v1 = vl_room vl"
      using vl.mark_ok [OF Cons.prems(1) i] by blast
    obtain b s1 where w: "wants_visit flt sv (length acc) i s = (b, s1)" by (cases "wants_visit flt sv (length acc) i s")
    define acc1 where "acc1 = (if b then acc @ [i] else acc)"
    have step: "visit_loop flt sv room (i # ns) vl s acc = visit_loop flt sv room ns v1 s1 acc1"
      using vl.get_ok [OF Cons.prems(1) i] False v1(1) w Cons.prems(3) by (simp add: acc1_def)
    have "length acc1 + length ns \<le> room" "distinct acc1" "set acc1 \<subseteq> vl_marked v1"
      using Cons.prems(3-5) False v1(3) by (auto simp: acc1_def)
    then obtain new vl' s' where n: "visit_loop flt sv room ns v1 s1 acc1 = Inr (acc1 @ new, vl', s')" "vl_inv vl'"
        "vl_room vl' = vl_room v1" "vl_marked vl' = vl_marked v1 \<union> set ns" "distinct new"
        "set new \<subseteq> set ns - vl_marked v1" "never_skips flt sv \<longrightarrow> set new = set ns - vl_marked v1"
      using Cons.IH [of v1 acc1 s1] v1(2,4) Cons.prems(2) by auto
    have "acc1 @ new = acc @ (if b then i # new else new)" by (simp add: acc1_def)
    moreover have "never_skips flt sv \<longrightarrow> b" using never_skips_wants [of flt sv "length acc" i s] w by simp
    ultimately show ?thesis
      using n v1(3,4) False step by (intro exI [of _ "if b then i # new else new"] exI [of _ vl'] exI [of _ s']) auto
  qed
qed

section \<open>Accepting a candidate\<close>

definition dup_list :: "InnerSearchParam \<Rightarrow> graph_ops \<Rightarrow> InnerIdType \<Rightarrow> InnerIdType list" where
  "dup_list p G i =
     (if p_consider_duplicate p then (case go_GetDuplicateIds G i of Inl e \<Rightarrow> [] | Inr ds \<Rightarrow> ds) else [])"

definition pushed :: "InnerSearchParam \<Rightarrow> graph_ops \<Rightarrow> float32 \<Rightarrow> InnerIdType list \<Rightarrow> DistanceRecord multiset" where
  "pushed p G d is = mset (map (\<lambda>j. (d, j)) (filter (check_func p) is))"

definition dups_ok :: "InnerSearchParam \<Rightarrow> graph_ops \<Rightarrow> bool" where
  "dups_ok p G \<longleftrightarrow> (p_consider_duplicate p \<longrightarrow> (\<forall>i. \<exists>ds. go_GetDuplicateIds G i = Inr ds))"

definition limit_for :: "InnerSearchMode \<Rightarrow> InnerSearchParam \<Rightarrow> nat option" where
  "limit_for mode p = (if mode = KNN_SEARCH then Some (unat (p_ef p)) else None)"

lemma report_simps [simp]:
  "top_candidates (report c st) = top_candidates st" "candidate_set (report c st) = candidate_set st"
  "lower_bound (report c st) = lower_bound st" "s_vl (report c st) = s_vl st" "s_skip (report c st) = s_skip st"
  by (simp_all add: report_def)

lemma collect_simps [simp]:
  "top_candidates (collect_lower_bound mode p F c i st) = top_candidates st"
  "candidate_set (collect_lower_bound mode p F c i st) = candidate_set st"
  "lower_bound (collect_lower_bound mode p F c i st) = lower_bound st"
  "s_vl (collect_lower_bound mode p F c i st) = s_vl st"
  by (simp_all add: collect_lower_bound_def Let_def)

lemma evict_ok:
  assumes "heap_ok h"
  obtains h' st' where "evict mode p hops h st = Inr (h', st')" and "heap_ok h'"
    and "kept (limit_for mode p) key (entries h) (entries h')"
    and "candidate_set st' = candidate_set st" and "lower_bound st' = lower_bound st" and "s_vl st' = s_vl st"
proof (cases "mode = KNN_SEARCH \<and> length (queue h) > unat (p_ef p)")
  case True
  then have ne: "queue h \<noteq> []" by auto
  obtain h' where h': "StandardHeap_Pop True h = Inr h'" "heap_ok h'" "entries h' = entries h - {#hd (queue h)#}"
    by (rule heap_pop [OF assms ne])
  have "kept (limit_for mode p) key (entries h) (entries h')"
    unfolding h'(3) using heap_top(2,3) [OF assms ne] True
    by (simp add: limit_for_def) (rule kept_full, auto)
  then show thesis using that h' True heap_top(1) [OF assms ne] by (simp add: evict_def)
next
  case False
  then have "kept (limit_for mode p) key (entries h) (entries h)" by (auto simp: limit_for_def kept_def)
  then show thesis using that assms False by (auto simp: evict_def)
qed

lemma accept_ok:
  assumes "heap_ok (top_candidates st)" and "heap_ok (candidate_set st)" and d: "\<not> is_nan d" and "dups_ok p G"
  obtains st' where "accept_candidate mode p G hops d i st = Inr st'" and "heap_ok (top_candidates st')"
    and "heap_ok (candidate_set st')" and "s_vl st' = s_vl st"
    and "entries (candidate_set st') = add_mset (float_neg d, i) (entries (candidate_set st))"
    and "kept (limit_for mode p) key (entries (top_candidates st) + pushed p G d (i # dup_list p G i)) (entries (top_candidates st'))"
    and "lower_bound st' = (if queue (top_candidates st') = [] then lower_bound st else fst (hd (queue (top_candidates st'))))"
proof -
  obtain cand where cand: "StandardHeap_Push True False (candidate_set st) (float_neg d) i = Inr cand" "heap_ok cand"
      "entries cand = add_mset (float_neg d, i) (entries (candidate_set st))"
    by (rule heap_push [OF assms(2), of "float_neg d" i]) (use d in simp)
  obtain h1 where h1: "push_checked (check_func p) d [i] (top_candidates st) = Inr h1" "heap_ok h1"
      "entries h1 = entries (top_candidates st) + mset (map (\<lambda>j. (d, j)) (filter (check_func p) [i]))"
    by (rule push_checked_ok [OF assms(1) d])
  obtain h2 where h2: "(if p_consider_duplicate p
        then bind_r (go_GetDuplicateIds G i) (\<lambda>ids. push_checked (check_func p) d ids h1) else Inr h1) = Inr h2" "heap_ok h2"
      "entries h2 = entries h1 + mset (map (\<lambda>j. (d, j)) (filter (check_func p) (dup_list p G i)))"
  proof (cases "p_consider_duplicate p")
    case True
    then obtain ds where ds: "go_GetDuplicateIds G i = Inr ds" using assms(4) by (auto simp: dups_ok_def)
    obtain h2 where "push_checked (check_func p) d ds h1 = Inr h2" "heap_ok h2"
        "entries h2 = entries h1 + mset (map (\<lambda>j. (d, j)) (filter (check_func p) ds))"
      by (rule push_checked_ok [OF h1(2) d])
    then show thesis using that True ds by (simp add: dup_list_def)
  next
    case False
    then show thesis using that h1(2) by (simp add: dup_list_def)
  qed
  let ?st = "(if check_func p i then st else report (RecordFilterReject i) st)\<lparr>candidate_set := cand\<rparr>"
  obtain h st1 where ev: "evict mode p hops h2 ?st = Inr (h, st1)" "heap_ok h" "kept (limit_for mode p) key (entries h2) (entries h)"
      "candidate_set st1 = candidate_set ?st" "lower_bound st1 = lower_bound ?st" "s_vl st1 = s_vl ?st"
    by (rule evict_ok [OF h2(2)])
  have e: "entries h2 = entries (top_candidates st) + pushed p G d (i # dup_list p G i)"
    using h1(3) h2(3) by (simp add: pushed_def)
  define lb where "lb = (if queue h = [] then lower_bound st else fst (hd (queue h)))"
  have "(if queue h = [] then Inr (lower_bound st1) else bind_r (StandardHeap_Top h) (\<lambda>t. Inr (fst t))) = Inr lb"
    using ev(5) heap_top(1) [OF ev(2)] by (auto simp: lb_def)
  then have "accept_candidate mode p G hops d i st = Inr (st1\<lparr>top_candidates := h, lower_bound := lb\<rparr>)"
    using cand(1) h1(1) h2(1) ev(1) by (auto simp: accept_candidate_def Let_def simp del: push_checked.simps)
  then show thesis
    by (rule that) (use ev(2-6) e cand(2,3) in \<open>simp_all add: lb_def\<close>)
qed

section \<open>The best of what was offered\<close>

definition best_of :: "nat \<Rightarrow> ('r \<Rightarrow> int) \<Rightarrow> 'r multiset \<Rightarrow> 'r multiset \<Rightarrow> bool" where
  "best_of k f V T \<longleftrightarrow> T \<subseteq># V \<and> (\<forall>x y. x \<in># T \<and> y \<in># V - T \<longrightarrow> f x \<le> f y) \<and> min k (size V) \<le> size T"

lemma best_of_short: "best_of k f V T \<Longrightarrow> size T < k \<Longrightarrow> T = V"
  by (metis best_of_def linorder_not_le min_def nless_le subset_mset.le_imp_less_or_eq mset_subset_size)

lemma best_of_kept:
  assumes "best_of k f V T" and "kept (Some k) f T T'"
  shows "best_of k f V T'"
proof (cases "k < size T")
  case True
  then obtain w where w: "w \<in># T" "\<forall>x. x \<in># T \<longrightarrow> f x \<le> f w" "T' = T - {#w#}" using assms(2) by (auto simp: kept_def)
  obtain U where V: "V = T + U" using assms(1) by (metis best_of_def subset_mset.le_iff_add)
  obtain T0 where T: "T = add_mset w T0" using w(1) by (meson mset_add)
  have "T' = T0" "V - T' = add_mset w U" by (simp_all add: w(3) T V)
  then show ?thesis
    using assms(1) w(2) True by (auto simp: best_of_def V T)
qed (use assms in \<open>auto simp: kept_def\<close>)

lemma best_of_accept:
  assumes "best_of k f V T" and "\<forall>x. x \<in># M \<longrightarrow> (size T < k \<or> (\<exists>t. t \<in># T \<and> f x \<le> f t))"
  shows "best_of k f (V + M) (T + M)"
proof -
  obtain U where V: "V = T + U" using assms(1) by (metis best_of_def subset_mset.le_iff_add)
  have "f x \<le> f y" if "x \<in># T + M" "y \<in># U" for x y
  proof -
    have "\<not> size T < k" using best_of_short [OF assms(1)] that(2) V by auto
    moreover have old: "f t \<le> f y" if "t \<in># T" for t
      using assms(1) that \<open>y \<in># U\<close> by (simp add: best_of_def V)
    ultimately show ?thesis using assms(2) that(1) order_trans by (metis union_iff)
  qed
  then show ?thesis using assms(1) by (auto simp: best_of_def V)
qed

lemma best_of_reject:
  assumes "best_of k f V T" and "k \<le> size T" and "\<forall>x y. x \<in># T \<and> y \<in># M \<longrightarrow> f x \<le> f y"
  shows "best_of k f (V + M) T"
proof -
  obtain U where V: "V = T + U" using assms(1) by (metis best_of_def subset_mset.le_iff_add)
  show ?thesis using assms by (auto simp: best_of_def V)
qed

section \<open>The invariant of a search\<close>

text \<open>
  \<open>E\<close> is the set of vertices whose distance was computed and \<open>X\<close> the set of those that were expanded.
  \<open>offered\<close> is everything the search had the chance to put into the results.
\<close>

definition neighbours :: "graph_ops \<Rightarrow> InnerIdType \<Rightarrow> InnerIdType set" where
  "neighbours G i = (case go_GetNeighbors G i [] of Inl e \<Rightarrow> {} | Inr ns \<Rightarrow> set ns)"

definition reach :: "graph_ops \<Rightarrow> InnerIdType \<Rightarrow> InnerIdType set" where
  "reach G i = {j. (\<lambda>a b. b \<in> neighbours G a)\<^sup>*\<^sup>* i j}"

definition graph_ok :: "graph_ops \<Rightarrow> InnerIdType set \<Rightarrow> bool" where
  "graph_ok G V \<longleftrightarrow>
     (\<forall>i \<in> V. \<exists>ns. (\<forall>buf. go_GetNeighbors G i buf = Inr ns) \<and> length ns \<le> unat (go_MaximumDegree G) \<and> set ns \<subseteq> V)"

definition offers :: "InnerSearchParam \<Rightarrow> graph_ops \<Rightarrow> flatten_ops \<Rightarrow> InnerIdType \<Rightarrow> DistanceRecord multiset" where
  "offers p G F i = pushed p G (query_dist p F i) (if i = p_ep p then [i] else i # dup_list p G i)"

definition offered :: "InnerSearchParam \<Rightarrow> graph_ops \<Rightarrow> flatten_ops \<Rightarrow> InnerIdType set \<Rightarrow> DistanceRecord multiset" where
  "offered p G F E = (\<Sum>i \<in> E. offers p G F i)"

definition cand_entry :: "InnerSearchParam \<Rightarrow> flatten_ops \<Rightarrow> InnerIdType \<Rightarrow> DistanceRecord" where
  "cand_entry p F i = (float_neg (query_dist p F i), i)"

definition search_inv ::
    "InnerSearchParam \<Rightarrow> graph_ops \<Rightarrow> flatten_ops \<Rightarrow> InnerIdType set \<Rightarrow> InnerIdType set \<Rightarrow> InnerIdType set \<Rightarrow> 's search_state \<Rightarrow> bool" where
  "search_inv p G F V E X st \<longleftrightarrow>
     heap_ok (top_candidates st) \<and> heap_ok (candidate_set st) \<and> vl_inv (s_vl st) \<and> (\<forall>i \<in> V. unat i < vl_room (s_vl st)) \<and>
     p_ep p \<in> E \<and> E \<subseteq> vl_marked (s_vl st) \<and> vl_marked (s_vl st) \<subseteq> reach G (p_ep p) \<and> X \<subseteq> E \<and>
     (\<forall>i \<in> X. neighbours G i \<subseteq> vl_marked (s_vl st)) \<and>
     entries (top_candidates st) \<subseteq># offered p G F E \<and>
     entries (candidate_set st) \<subseteq># image_mset (cand_entry p F) (mset_set (E - X)) \<and> \<not> is_nan (lower_bound st)"

definition mode_inv ::
    "InnerSearchMode \<Rightarrow> InnerSearchParam \<Rightarrow> graph_ops \<Rightarrow> flatten_ops \<Rightarrow> InnerIdType set \<Rightarrow> InnerIdType set \<Rightarrow> 's search_state \<Rightarrow> bool" where
  "mode_inv mode p G F E X st \<longleftrightarrow>
     (case mode of
        KNN_SEARCH \<Rightarrow>
          best_of (unat (p_ef p)) key (offered p G F E) (entries (top_candidates st)) \<and>
          (queue (top_candidates st) \<noteq> [] \<longrightarrow> lower_bound st = fst (hd (queue (top_candidates st)))) \<and>
          (\<forall>i \<in> E - X. cand_entry p F i \<in># entries (candidate_set st) \<or>
             unat (p_ef p) \<le> size (entries (top_candidates st)) \<and>
             (\<forall>x \<in># entries (top_candidates st). key x \<le> float_key (query_dist p F i)) \<and>
             (p_consider_duplicate p \<or> i \<notin> snd ` set_mset (entries (top_candidates st))))
      | RANGE_SEARCH \<Rightarrow>
          (\<forall>y \<in># offered p G F E - entries (top_candidates st). \<not> float_le (fst y) (p_radius p)) \<and>
          (\<forall>i \<in> E - X. cand_entry p F i \<in># entries (candidate_set st) \<or>
             i \<noteq> p_ep p \<and> \<not> float_le (query_dist p F i) (p_radius p)))"

lemma kept_sub: "kept limit f M M' \<Longrightarrow> M' \<subseteq># M"
  by (auto simp: kept_def split: if_splits)

lemma offered_insert: "i \<notin> E \<Longrightarrow> offered p G F (insert i E) = offered p G F E + offers p G F i"
  by (simp add: offered_def add.commute)

lemma cand_insert:
  assumes "i \<notin> E" and "X \<subseteq> E"
  shows "image_mset (cand_entry p F) (mset_set (insert i E - X)) = add_mset (cand_entry p F i) (image_mset (cand_entry p F) (mset_set (E - X)))"
proof -
  have "insert i E - X = insert i (E - X)" "i \<notin> E - X" using assms by auto
  then show ?thesis by simp
qed

lemma pushed_key: "x \<in># pushed p G d is \<Longrightarrow> fst x = d"
  by (auto simp: pushed_def)

lemma offered_member:
  assumes "r \<in># offered p G F E"
  obtains i where "i \<in> E" and "fst r = query_dist p F i" and "snd r \<in> set (if i = p_ep p then [i] else i # dup_list p G i)" and "check_func p (snd r)"
proof -
  obtain i where "i \<in> E" "r \<in># offers p G F i" using assms by (auto simp: offered_def set_mset_sum)
  then show thesis using that [of i] by (auto simp: offers_def pushed_def split: if_splits)
qed

lemma offered_plain:
  assumes "\<not> p_consider_duplicate p"
  shows "offered p G F E = image_mset (\<lambda>i. (query_dist p F i, i)) (mset_set {i \<in> E. check_func p i})"
proof -
  have "finite E" by simp
  then show ?thesis
  proof induction
    case (insert i E)
    have "{j \<in> insert i E. check_func p j} = (if check_func p i then insert i {j \<in> E. check_func p j} else {j \<in> E. check_func p j})"
      by auto
    then show ?case using insert assms by (simp add: offered_insert offers_def pushed_def dup_list_def)
  qed (simp add: offered_def)
qed

text \<open>Whether the distance of \<open>i\<close> lets it into the results.\<close>

abbreviation accepts :: "InnerSearchMode \<Rightarrow> InnerSearchParam \<Rightarrow> float32 \<Rightarrow> 's search_state \<Rightarrow> bool" where
  "accepts mode p d st \<equiv>
     length (queue (top_candidates st)) < unat (p_ef p) \<or> float_lt d (lower_bound st) \<or>
     mode = RANGE_SEARCH \<and> float_le d (p_radius p)"

lemma reject_inv:
  assumes inv: "search_inv p G F V E X st" "mode_inv mode p G F E X st" and i: "i \<notin> E" "i \<in> vl_marked (s_vl st)"
    and no: "\<not> accepts mode p (query_dist p F i) st" and d: "\<not> is_nan (query_dist p F i)" and ef: "0 < p_ef p"
  shows "search_inv p G F V (insert i E) X st" and "mode_inv mode p G F (insert i E) X st"
proof -
  have ep: "i \<noteq> p_ep p" using inv(1) i(1) by (auto simp: search_inv_def)
  have xe: "X \<subseteq> E" using inv(1) by (simp add: search_inv_def)
  show "search_inv p G F V (insert i E) X st"
    using inv(1) i by (auto simp: search_inv_def offered_insert cand_insert [OF i(1) xe] intro: subset_mset.order_trans)
  show "mode_inv mode p G F (insert i E) X st"
  proof (cases mode)
    case KNN_SEARCH
    have ne: "queue (top_candidates st) \<noteq> []" and sz: "unat (p_ef p) \<le> size (entries (top_candidates st))"
      using no ef by (auto simp: word_gt_0 unat_gt_0)
    have lb: "lower_bound st = fst (hd (queue (top_candidates st)))" "\<not> is_nan (lower_bound st)"
      using inv ne by (simp_all add: mode_inv_def KNN_SEARCH search_inv_def)
    have "heap_ok (top_candidates st)" using inv(1) by (simp add: search_inv_def)
    then have le: "key x \<le> float_key (query_dist p F i)" if "x \<in># entries (top_candidates st)" for x
      using heap_top(3) [OF _ ne that] no d lb by (auto simp: float_lt_key)
    have "best_of (unat (p_ef p)) key (offered p G F E + offers p G F i) (entries (top_candidates st))"
      by (rule best_of_reject) (use inv(2) sz le in \<open>auto simp: mode_inv_def KNN_SEARCH offers_def dest: pushed_key\<close>)
    moreover have "p_consider_duplicate p \<or> i \<notin> snd ` set_mset (entries (top_candidates st))"
    proof -
      have "set_mset (entries (top_candidates st)) \<subseteq> set_mset (offered p G F E)"
        by (rule set_mset_mono) (use inv(1) in \<open>simp add: search_inv_def\<close>)
      then show ?thesis using i(1) by (auto simp: offered_plain)
    qed
    ultimately show ?thesis using inv(2) sz le by (auto simp: mode_inv_def KNN_SEARCH offered_insert [OF i(1)])
  next
    case RANGE_SEARCH
    have "\<not> float_le (fst y) (p_radius p)" if "y \<in># offers p G F i" for y
      using that no pushed_key by (fastforce simp: offers_def RANGE_SEARCH)
    moreover have "offered p G F E + offers p G F i - entries (top_candidates st) =
        offered p G F E - entries (top_candidates st) + offers p G F i"
      using inv(1) by (simp add: search_inv_def)
    ultimately show ?thesis using inv(2) no ep by (auto simp: mode_inv_def RANGE_SEARCH offered_insert [OF i(1)])
  qed
qed

lemma offers_key: "x \<in># offers p G F i \<Longrightarrow> fst x = query_dist p F i"
  unfolding offers_def by (rule pushed_key)

lemma inv_same:
  assumes "top_candidates st' = top_candidates st" "candidate_set st' = candidate_set st" "lower_bound st' = lower_bound st"
    "s_vl st' = s_vl st"
  shows "search_inv p G F V E X st' = search_inv p G F V E X st" and "mode_inv mode p G F E X st' = mode_inv mode p G F E X st"
  unfolding search_inv_def mode_inv_def assms by (rule refl)+

lemma kept_max:
  assumes "kept (Some k) f M M'" and "\<forall>x \<in># M. f x \<le> m" and "k \<le> size M"
  shows "\<forall>x \<in># M'. f x \<le> m" and "k \<le> size M'"
  using assms by (auto simp: kept_def size_Diff_singleton split: if_splits dest: in_diffD)

lemma knn_accept_inv:
  assumes inv: "search_inv p G F V E X st" "mode_inv KNN_SEARCH p G F E X st" and i: "i \<notin> E"
    and yes: "accepts KNN_SEARCH p (query_dist p F i) st" and ef: "0 < p_ef p" and d: "\<not> is_nan (query_dist p F i)"
    and cand: "entries (candidate_set st') = add_mset (cand_entry p F i) (entries (candidate_set st))"
    and top: "kept (Some (unat (p_ef p))) key (entries (top_candidates st) + offers p G F i) (entries (top_candidates st'))"
    and lb: "lower_bound st' = (if queue (top_candidates st') = [] then lower_bound st else fst (hd (queue (top_candidates st'))))"
  shows "mode_inv KNN_SEARCH p G F (insert i E) X st'"
proof -
  let ?T = "entries (top_candidates st)" and ?M = "offers p G F i" and ?k = "unat (p_ef p)"
  have k: "0 < ?k" using ef by (simp add: word_gt_0 unat_gt_0)
  have best: "best_of ?k key (offered p G F E) ?T" using inv(2) by (simp add: mode_inv_def)
  have near: "size ?T < ?k \<or> (\<exists>t. t \<in># ?T \<and> float_key (query_dist p F i) \<le> key t)"
  proof (cases "size ?T < ?k")
    case False
    then have ne: "queue (top_candidates st) \<noteq> []" using k by auto
    then have "hd (queue (top_candidates st)) \<in># ?T" "lower_bound st = fst (hd (queue (top_candidates st)))" "\<not> is_nan (lower_bound st)"
      using inv heap_top(2) by (auto simp: mode_inv_def search_inv_def)
    then show ?thesis using yes False d by (fastforce simp: float_lt_key)
  qed simp
  have "best_of ?k key (offered p G F E + ?M) (?T + ?M)"
    by (rule best_of_accept [OF best]) (use near in \<open>simp add: offers_key\<close>)
  then have "best_of ?k key (offered p G F (insert i E)) (entries (top_candidates st'))"
    unfolding offered_insert [OF i] by (rule best_of_kept [OF _ top])
  moreover have "cand_entry p F j \<in># entries (candidate_set st') \<or>
      ?k \<le> size (entries (top_candidates st')) \<and> (\<forall>x \<in># entries (top_candidates st'). key x \<le> float_key (query_dist p F j)) \<and>
      (p_consider_duplicate p \<or> j \<notin> snd ` set_mset (entries (top_candidates st')))"
    if j: "j \<in> insert i E - X" for j
  proof (cases "j = i \<or> cand_entry p F j \<in># entries (candidate_set st)")
    case False
    then have j': "?k \<le> size ?T" "\<forall>x \<in># ?T. key x \<le> float_key (query_dist p F j)"
        "p_consider_duplicate p \<or> j \<notin> snd ` set_mset ?T"
      using inv(2) j by (auto simp: mode_inv_def)
    obtain t where "t \<in># ?T" "float_key (query_dist p F i) \<le> key t" using near j'(1) by auto
    then have "float_key (query_dist p F i) \<le> float_key (query_dist p F j)" using j'(2) order_trans by blast
    then have "\<forall>x \<in># ?T + ?M. key x \<le> float_key (query_dist p F j)"
      using j'(2) offers_key [of _ p G F i] by (simp add: ball_Un)
    moreover have "p_consider_duplicate p \<or> j \<notin> snd ` set_mset (entries (top_candidates st'))"
    proof (cases "p_consider_duplicate p")
      case no: False
      then have "x \<in># ?M \<Longrightarrow> snd x = i" for x by (auto simp: offers_def pushed_def dup_list_def split: if_splits)
      then have "j \<notin> snd ` set_mset (?T + ?M)" using j'(3) no False by auto
      then show ?thesis using set_mset_mono [OF kept_sub [OF top]] by blast
    qed simp
    ultimately show ?thesis using kept_max [OF top] j'(1) by simp
  qed (use cand in auto)
  ultimately show ?thesis using lb by (simp add: mode_inv_def)
qed

lemma range_accept_inv:
  assumes inv: "search_inv p G F V E X st" "mode_inv RANGE_SEARCH p G F E X st" and i: "i \<notin> E"
    and cand: "entries (candidate_set st') = add_mset (cand_entry p F i) (entries (candidate_set st))"
    and top: "kept None key (entries (top_candidates st) + offers p G F i) (entries (top_candidates st'))"
  shows "mode_inv RANGE_SEARCH p G F (insert i E) X st'"
proof -
  have "entries (top_candidates st') = entries (top_candidates st) + offers p G F i" using top by (simp add: kept_def)
  then show ?thesis using inv(2) cand by (auto simp: mode_inv_def offered_insert [OF i])
qed

lemma scan_candidate_ok:
  assumes inv: "search_inv p G F V E X st" "mode_inv mode p G F E X st" and i: "i \<notin> E" "i \<in> vl_marked (s_vl st)"
    and ef: "0 < p_ef p" and d: "\<not> is_nan (query_dist p F i)" and dups: "dups_ok p G"
  shows "\<exists>st'. scan_candidate mode p G F c hops i st = Inr st' \<and> s_vl st' = s_vl st \<and>
    search_inv p G F V (insert i E) X st' \<and> mode_inv mode p G F (insert i E) X st'"
proof -
  define st0 where "st0 = collect_lower_bound mode p F c i (report (RecordVisit i (query_dist p F i) hops) st)"
  have same: "top_candidates st0 = top_candidates st" "candidate_set st0 = candidate_set st" "lower_bound st0 = lower_bound st"
    "s_vl st0 = s_vl st" by (simp_all add: st0_def)
  have inv0: "search_inv p G F V E X st0" "mode_inv mode p G F E X st0" and i0: "i \<in> vl_marked (s_vl st0)"
    using inv i(2) inv_same [OF same] same(4) by simp_all
  have run: "scan_candidate mode p G F c hops i st =
      (if accepts mode p (query_dist p F i) st0 then accept_candidate mode p G hops (query_dist p F i) i st0 else Inr st0)"
    by (simp add: scan_candidate_def Let_def st0_def)
  show ?thesis
  proof (cases "accepts mode p (query_dist p F i) st0")
    case False
    then show ?thesis using reject_inv [OF inv0 i(1) i0 False d ef] run same(4) by auto
  next
    case True
    have h: "heap_ok (top_candidates st0)" "heap_ok (candidate_set st0)" and ep: "i \<noteq> p_ep p" and xe: "X \<subseteq> E"
      using inv0(1) i(1) by (auto simp: search_inv_def)
    obtain st' where st': "accept_candidate mode p G hops (query_dist p F i) i st0 = Inr st'" "heap_ok (top_candidates st')"
        "heap_ok (candidate_set st')" "s_vl st' = s_vl st0"
        "entries (candidate_set st') = add_mset (float_neg (query_dist p F i), i) (entries (candidate_set st0))"
        "kept (limit_for mode p) key (entries (top_candidates st0) + pushed p G (query_dist p F i) (i # dup_list p G i)) (entries (top_candidates st'))"
        "lower_bound st' = (if queue (top_candidates st') = [] then lower_bound st0 else fst (hd (queue (top_candidates st'))))"
      by (rule accept_ok [OF h d dups])
    have off: "pushed p G (query_dist p F i) (i # dup_list p G i) = offers p G F i" using ep by (simp add: offers_def)
    note top = st'(6) [unfolded off] and cand = st'(5) [folded cand_entry_def]
    have "entries (top_candidates st') \<subseteq># offered p G F (insert i E)"
      using kept_sub [OF top] inv0(1) unfolding offered_insert [OF i(1)] search_inv_def
      by (meson subset_mset.add_right_mono subset_mset.order_trans)
    then have "search_inv p G F V (insert i E) X st'"
      using inv0(1) i0 st'(2-4,7) cand heap_top(4) [OF st'(2)] by (auto simp: search_inv_def cand_insert [OF i(1) xe])
    moreover have "mode_inv mode p G F (insert i E) X st'"
      using knn_accept_inv [OF inv0(1) _ i(1) _ ef d cand _ st'(7)] range_accept_inv [OF inv0(1) _ i(1) cand] inv0(2) True top
      by (cases mode) (simp_all add: limit_for_def)
    ultimately show ?thesis using st'(1,4) run True same(4) by auto
  qed
qed

lemma scan_candidates_ok:
  assumes "search_inv p G F V E X st" and "mode_inv mode p G F E X st" and "distinct is"
    and "set is \<subseteq> vl_marked (s_vl st) - E" and "0 < p_ef p" and "\<forall>i. \<not> is_nan (query_dist p F i)" and "dups_ok p G"
  shows "\<exists>st'. scan_candidates mode p G F c hops is st = Inr st' \<and> s_vl st' = s_vl st \<and>
    search_inv p G F V (E \<union> set is) X st' \<and> mode_inv mode p G F (E \<union> set is) X st'"
  using assms(1-4)
proof (induction "is" arbitrary: st E)
  case (Cons i "is")
  obtain st1 where st1: "scan_candidate mode p G F c hops i st = Inr st1" "s_vl st1 = s_vl st"
      "search_inv p G F V (insert i E) X st1" "mode_inv mode p G F (insert i E) X st1"
    using scan_candidate_ok [OF Cons.prems(1,2) _ _ assms(5) _ assms(7), of i c hops] Cons.prems(4) assms(6) by auto
  then show ?case using Cons.IH [OF st1(3,4)] Cons.prems(3,4) by auto
qed simp

section \<open>Start and main loop\<close>

lemma reach_refl [simp]: "i \<in> reach G i"
  by (simp add: reach_def)

lemma reach_step: "i \<in> reach G a \<Longrightarrow> neighbours G i \<subseteq> reach G a"
  by (auto simp: reach_def intro: rtranclp.rtrancl_into_rtrancl)

lemma reach_bounded:
  assumes "graph_ok G V" and "a \<in> V" and "i \<in> reach G a"
  shows "i \<in> V"
proof -
  have "(\<lambda>a b. b \<in> neighbours G a)\<^sup>*\<^sup>* a i" using assms(3) by (simp add: reach_def)
  then show ?thesis
  proof induction
    case (step j k)
    obtain ns where "go_GetNeighbors G j [] = Inr ns" "set ns \<subseteq> V"
      using assms(1) step.IH unfolding graph_ok_def by blast
    then show ?case using step.hyps(2) by (auto simp: neighbours_def)
  qed (rule assms(2))
qed

lemma FLT_MAX_ok: "\<not> is_nan FLT_MAX"
  by (simp add: is_nan_def FLT_MAX_def)

lemma start_heap_ok:
  assumes d: "\<not> is_nan (query_dist p F (p_ep p))"
  obtains h lb h' where "(if check_func p (p_ep p)
      then bind_r (StandardHeap_Push True False (StandardHeap_new (- 1)) (query_dist p F (p_ep p)) (p_ep p)) (\<lambda>h.
           bind_r (StandardHeap_Top h) (\<lambda>t. Inr (h, fst t)))
      else Inr (StandardHeap_new (- 1), FLT_MAX)) = Inr (h, lb)"
    and "(if mode = RANGE_SEARCH \<and> float_lt (p_radius p) (query_dist p F (p_ep p)) \<and> queue h \<noteq> []
      then StandardHeap_Pop True h else Inr h) = Inr h'" and "heap_ok h'" and "\<not> is_nan lb"
    and "entries h' \<subseteq># offered p G F {p_ep p}"
    and "mode = KNN_SEARCH \<longrightarrow> entries h' = offered p G F {p_ep p} \<and> (queue h' \<noteq> [] \<longrightarrow> lb = fst (hd (queue h')))"
    and "mode = RANGE_SEARCH \<longrightarrow> (\<forall>y \<in># offered p G F {p_ep p} - entries h'. \<not> float_le (fst y) (p_radius p))"
proof -
  let ?d = "query_dist p F (p_ep p)"
  show thesis
  proof (cases "check_func p (p_ep p)")
    case True
    obtain h where h: "StandardHeap_Push True False (StandardHeap_new (- 1)) ?d (p_ep p) = Inr h" "heap_ok h" "entries h = {#(?d, p_ep p)#}"
      using heap_push [OF heap_new(1) d] by (metis heap_new(2) mset.simps(1))
    have q: "queue h = [(?d, p_ep p)]" using h(3) by simp
    have off: "offered p G F {p_ep p} = {#(?d, p_ep p)#}" using True by (simp add: offered_def offers_def pushed_def)
    have top: "StandardHeap_Top h = Inr (?d, p_ep p)" using heap_top(1) [OF h(2)] q by simp
    show thesis
    proof (cases "mode = RANGE_SEARCH \<and> float_lt (p_radius p) ?d")
      case far: True
      obtain h' where "StandardHeap_Pop True h = Inr h'" "heap_ok h'" "entries h' = entries h - {#hd (queue h)#}"
        by (rule heap_pop [OF h(2)]) (simp add: q)
      then show thesis using that [of h ?d h'] h(1) top True far d off q by (simp add: float_le_def float_lt_def)
    next
      case False
      then show thesis using that [of h ?d h] h top True d off q by auto
    qed
  next
    case False
    then have "offered p G F {p_ep p} = {#}" by (simp add: offered_def offers_def pushed_def)
    then show thesis using that [of "StandardHeap_new (- 1)" FLT_MAX "StandardHeap_new (- 1)"] False FLT_MAX_ok heap_new by simp
  qed
qed

lemma search_start_ok:
  assumes "vl_inv vl" and "vl_marked vl = {}" and "\<forall>i \<in> V. unat i < vl_room vl" and "p_ep p \<in> V" and "\<forall>i. \<not> is_nan (query_dist p F i)"
  shows "\<exists>st. search_start mode p G F vl s rabitq calls = Inr st \<and> search_inv p G F V {p_ep p} {} st \<and>
    mode_inv mode p G F {p_ep p} {} st \<and> vl_marked (s_vl st) = {p_ep p}"
proof -
  let ?d = "query_dist p F (p_ep p)"
  have d: "\<not> is_nan ?d" using assms(5) by blast
  obtain h lb h' where h: "(if check_func p (p_ep p)
      then bind_r (StandardHeap_Push True False (StandardHeap_new (- 1)) ?d (p_ep p)) (\<lambda>h.
           bind_r (StandardHeap_Top h) (\<lambda>t. Inr (h, fst t)))
      else Inr (StandardHeap_new (- 1), FLT_MAX)) = Inr (h, lb)"
    "(if mode = RANGE_SEARCH \<and> float_lt (p_radius p) ?d \<and> queue h \<noteq> [] then StandardHeap_Pop True h else Inr h) = Inr h'"
    "heap_ok h'" "\<not> is_nan lb" "entries h' \<subseteq># offered p G F {p_ep p}"
    "mode = KNN_SEARCH \<longrightarrow> entries h' = offered p G F {p_ep p} \<and> (queue h' \<noteq> [] \<longrightarrow> lb = fst (hd (queue h')))"
    "mode = RANGE_SEARCH \<longrightarrow> (\<forall>y \<in># offered p G F {p_ep p} - entries h'. \<not> float_le (fst y) (p_radius p))"
    by (rule start_heap_ok [OF d, of mode G])
  obtain cand where cand: "StandardHeap_Push True False (StandardHeap_new (- 1)) (float_neg ?d) (p_ep p) = Inr cand" "heap_ok cand"
      "entries cand = {#cand_entry p F (p_ep p)#}"
    using heap_push [OF heap_new(1), of "float_neg ?d"] d by (metis heap_new(2) mset.simps(1) is_nan_neg cand_entry_def)
  have "unat (p_ep p) < vl_room vl" using assms(3,4) by simp
  then obtain vl' where vl': "VisitedList_Set vl (p_ep p) = Inr vl'" "vl_inv vl'" "vl_marked vl' = {p_ep p}" "vl_room vl' = vl_room vl"
    using vl.mark_ok [OF assms(1), of "p_ep p"] assms(2) by auto
  define st where "st = \<lparr>top_candidates = h', candidate_set = cand, lower_bound = lb, s_vl = vl', s_skip = s,
    s_neighbors = replicate (unat (go_MaximumDegree G)) 0, dist_cmp = 1,
    rabitq_lower_bound_candidates = map_option (\<lambda>_. []) rabitq, is_timeout = False, reasoning = calls\<rparr>"
  have "search_start mode p G F vl s rabitq calls = Inr st"
    using h(1,2) cand(1) vl'(1) by (simp add: search_start_def Let_def st_def)
  moreover have "search_inv p G F V {p_ep p} {} st"
    using h(3,4,5) cand(2,3) vl'(2-4) assms(3) by (simp add: search_inv_def st_def)
  moreover have "mode_inv mode p G F {p_ep p} {} st"
    using h(6,7) cand(3) by (cases mode) (simp_all add: mode_inv_def st_def best_of_def)
  moreover have "vl_marked (s_vl st) = {p_ep p}" using vl'(3) by (simp add: st_def)
  ultimately show ?thesis by blast
qed

lemma cand_top:
  assumes "search_inv p G F V E X st" and "queue (candidate_set st) \<noteq> []"
  obtains i where "hd (queue (candidate_set st)) = cand_entry p F i" and "i \<in> E - X"
proof -
  have "hd (queue (candidate_set st)) \<in># entries (candidate_set st)" using assms(2) by simp
  then have "hd (queue (candidate_set st)) \<in># image_mset (cand_entry p F) (mset_set (E - X))"
    using assms(1) unfolding search_inv_def by (meson mset_subset_eqD)
  then show thesis using that by auto
qed

lemma subset_image_remove:
  assumes "M \<subseteq># image_mset f (mset_set A)" and "i \<in> A" and "finite A"
  shows "M - {#f i#} \<subseteq># image_mset f (mset_set (A - {i}))"
proof -
  have "mset_set A = add_mset i (mset_set (A - {i}))" using assms(2,3) by (metis mset_set.remove)
  then show ?thesis using assms(1) by (simp add: subset_eq_diff_conv)
qed

lemma expand_ok:
  assumes inv: "search_inv p G F V E X st" "mode_inv mode p G F E X st" and ne: "queue (candidate_set st) \<noteq> []"
    and ef: "0 < p_ef p" and d: "\<forall>i. \<not> is_nan (query_dist p F i)" and dups: "dups_ok p G"
    and g: "graph_ok G V" "p_ep p \<in> V"
  shows "\<exists>st' E' i. expand_nearest mode p G F sv hops (hd (queue (candidate_set st))) st = Inr st' \<and> i \<in> E - X \<and> E \<subseteq> E' \<and>
    search_inv p G F V E' (insert i X) st' \<and> mode_inv mode p G F E' (insert i X) st' \<and>
    (never_skips (p_is_inner_id_allowed p) sv \<and> vl_marked (s_vl st) = E \<longrightarrow> vl_marked (s_vl st') = E')"
proof -
  obtain i where i: "hd (queue (candidate_set st)) = cand_entry p F i" "i \<in> E - X" by (rule cand_top [OF inv(1) ne])
  have h: "heap_ok (candidate_set st)" and v: "vl_inv (s_vl st)" "\<forall>i \<in> V. unat i < vl_room (s_vl st)" and ir: "i \<in> reach G (p_ep p)"
    using inv(1) i(2) by (auto simp: search_inv_def)
  obtain cand where cand: "StandardHeap_Pop True (candidate_set st) = Inr cand" "heap_ok cand"
      "entries cand = entries (candidate_set st) - {#cand_entry p F i#}"
    by (rule heap_pop [OF h ne]) (simp add: i(1))
  obtain ns where ns: "\<forall>buf. go_GetNeighbors G i buf = Inr ns" "length ns \<le> unat (go_MaximumDegree G)" "set ns \<subseteq> V"
    using g(1) reach_bounded [OF g ir] unfolding graph_ok_def by blast
  have room: "\<forall>j \<in> set ns. unat j < vl_room (s_vl st)" using ns(3) v(2) by blast
  obtain ids vl s where vis: "visit G (p_is_inner_id_allowed p) sv (s_vl st) (s_skip st) (s_neighbors st) i = Inr (ns, ids, vl, s)" "vl_inv vl"
      "vl_room vl = vl_room (s_vl st)" "vl_marked vl = vl_marked (s_vl st) \<union> set ns" "distinct ids"
      "set ids \<subseteq> set ns - vl_marked (s_vl st)"
      "never_skips (p_is_inner_id_allowed p) sv \<longrightarrow> set ids = set ns - vl_marked (s_vl st)"
    using visit_loop_ok [OF v(1), of ns "[]" "unat (go_MaximumDegree G)" "p_is_inner_id_allowed p" sv "s_skip st"] ns(1,2) room
    by (auto simp: visit_def)
  define st1 where "st1 = st\<lparr>candidate_set := cand, s_vl := vl, s_skip := s, s_neighbors := ns, dist_cmp := dist_cmp st + word_of_nat (length ids)\<rparr>"
  have nb: "neighbours G i = set ns" using ns(1) by (simp add: neighbours_def)
  have xe: "E - insert i X = E - X - {i}" by auto
  have "entries cand \<subseteq># image_mset (cand_entry p F) (mset_set (E - insert i X))"
    using inv(1) i(2) unfolding cand(3) xe by (intro subset_image_remove) (simp_all add: search_inv_def)
  then have inv1: "search_inv p G F V E (insert i X) st1"
    using inv(1) i(2) cand(2) vis(2-4) reach_step [OF ir] nb unfolding search_inv_def st1_def by auto
  have other: "cand_entry p F j \<in># entries cand" if "cand_entry p F j \<in># entries (candidate_set st)" "j \<noteq> i" for j
    using that by (simp add: cand(3) in_diff_count cand_entry_def)
  have mode1: "mode_inv mode p G F E (insert i X) st1"
    using inv(2) other by (cases mode) (auto simp: mode_inv_def st1_def)
  have "set ids \<subseteq> vl_marked (s_vl st1) - E" using vis(4,6) inv(1) by (auto simp: st1_def search_inv_def)
  moreover define c where "c \<longleftrightarrow> p_enable_rabitq_one_bit_search p \<and> length (queue (top_candidates st)) = unat (p_ef p) \<and>
    rabitq_lower_bound_candidates st \<noteq> None"
  ultimately obtain st' where st': "scan_candidates mode p G F c hops ids st1 = Inr st'" "s_vl st' = s_vl st1"
      "search_inv p G F V (E \<union> set ids) (insert i X) st'" "mode_inv mode p G F (E \<union> set ids) (insert i X) st'"
    using scan_candidates_ok [OF inv1 mode1 vis(5) _ ef d dups, of c hops] by blast
  have "expand_nearest mode p G F sv hops (hd (queue (candidate_set st))) st = Inr st'"
    using cand(1) vis(1) st'(1) by (simp add: expand_nearest_def i(1) cand_entry_def c_def st1_def Let_def)
  moreover have "never_skips (p_is_inner_id_allowed p) sv \<and> vl_marked (s_vl st) = E \<longrightarrow> vl_marked (s_vl st') = E \<union> set ids"
    using vis(4,7) st'(2) by (auto simp: st1_def)
  ultimately show ?thesis using st'(3,4) i(2) by blast
qed

definition search_env :: "InnerSearchParam \<Rightarrow> graph_ops \<Rightarrow> flatten_ops \<Rightarrow> InnerIdType set \<Rightarrow> bool" where
  "search_env p G F V \<longleftrightarrow>
     graph_ok G V \<and> p_ep p \<in> V \<and> dups_ok p G \<and> (\<forall>i. \<not> is_nan (query_dist p F i)) \<and> 0 < p_ef p"

text \<open>Why the main loop ended.\<close>

definition loop_end :: "InnerSearchMode \<Rightarrow> InnerSearchParam \<Rightarrow> InnerIdType set \<Rightarrow> nat \<Rightarrow> 's search_state \<Rightarrow> bool" where
  "loop_end mode p E hops st \<longleftrightarrow>
     queue (candidate_set st) = [] \<or> p_time_cost p \<noteq> None \<or> unat (p_hops_limit p) \<le> hops \<and> hops \<le> card E \<or>
     mode = KNN_SEARCH \<and> float_lt (lower_bound st) (float_neg (fst (hd (queue (candidate_set st))))) \<and>
       length (queue (top_candidates st)) = unat (p_ef p)"

definition loop_result ::
    "InnerSearchMode \<Rightarrow> InnerSearchParam \<Rightarrow> graph_ops \<Rightarrow> flatten_ops \<Rightarrow> ('s \<Rightarrow> bool \<times> 's) \<Rightarrow> InnerIdType set \<Rightarrow> bool \<Rightarrow> InnerIdType set \<Rightarrow>
     nat \<times> 's search_state \<Rightarrow> bool" where
  "loop_result mode p G F sv V all E r \<longleftrightarrow>
     (\<exists>X. search_inv p G F V E X (snd r) \<and> mode_inv mode p G F E X (snd r) \<and> loop_end mode p E (fst r) (snd r) \<and>
       (never_skips (p_is_inner_id_allowed p) sv \<and> all \<longrightarrow> vl_marked (s_vl (snd r)) = E))"

lemma search_loop_ok:
  assumes env: "search_env p G F V"
    and "search_inv p G F V E X st" and "mode_inv mode p G F E X st" and "hops = card X"
  shows "\<exists>r E'. search_loop mode p G F sv hops st = Inr r \<and> loop_result mode p G F sv V (vl_marked (s_vl st) = E) E' r"
  using assms(2-)
proof (induction "unat (p_hops_limit p) - hops" arbitrary: hops st E X rule: less_induct)
  case less
  note inv = less.prems(1,2)
  have stop: "\<exists>E'. loop_result mode p G F sv V (vl_marked (s_vl st) = E) E' (h, report c st')"
    if "loop_end mode p E h (report c st')" "top_candidates st' = top_candidates st" "candidate_set st' = candidate_set st"
      "lower_bound st' = lower_bound st" "s_vl st' = s_vl st" for c h st'
    using that inv inv_same [of "report c st'" st] by (intro exI [of _ E]) (auto simp: loop_result_def)
  show ?case
  proof (cases "queue (candidate_set st) = []")
    case True
    then show ?thesis
      using inv by (intro exI [of _ "(hops, st)"] exI [of _ E]) (auto simp: search_loop.simps loop_result_def loop_end_def)
  next
    case ne: False
    obtain i where "i \<in> E - X" by (rule cand_top [OF inv(1) ne])
    moreover have xe: "X \<subseteq> E" using inv(1) by (simp add: search_inv_def)
    ultimately have "card X < card E" by (intro psubset_card_mono) auto
    then have he: "hops + 1 \<le> card E" using less.prems(3) by simp
    define st1 where "st1 = report AddSearchHop st"
    have same: "top_candidates st1 = top_candidates st" "candidate_set st1 = candidate_set st" "lower_bound st1 = lower_bound st"
      "s_vl st1 = s_vl st" by (simp_all add: st1_def)
    have top: "StandardHeap_Top (candidate_set st) = Inr (hd (queue (candidate_set st)))"
      using heap_top(1) [OF _ ne] inv(1) by (simp add: search_inv_def)
    define over where "over \<longleftrightarrow> (case p_time_cost p of None \<Rightarrow> False | Some CheckOvertime \<Rightarrow> CheckOvertime (Suc hops))"
    define far where "far \<longleftrightarrow> mode = KNN_SEARCH \<and> float_lt (lower_bound st) (float_neg (fst (hd (queue (candidate_set st))))) \<and>
      length (queue (top_candidates st)) = unat (p_ef p)"
    have run: "search_loop mode p G F sv hops st =
       (if unat (p_hops_limit p) \<le> hops + 1 then Inr (hops + 1, report (SetTermination HopsLimitReached) st)
        else if over then Inr (hops + 1, report (SetTermination Timeout) (st1\<lparr>is_timeout := True\<rparr>))
        else if far then Inr (hops + 1, report (SetTermination LowerBoundReached) st1)
        else bind_r (expand_nearest mode p G F sv (hops + 1) (hd (queue (candidate_set st))) st1) (search_loop mode p G F sv (hops + 1)))"
      by (subst search_loop.simps) (simp add: ne Let_def top over_def far_def same st1_def)
    have ends: "\<exists>E'. loop_result mode p G F sv V (vl_marked (s_vl st) = E) E' (hops + 1, report c st')"
      if w: "unat (p_hops_limit p) \<le> hops + 1 \<or> over \<or> far" and
        s: "top_candidates st' = top_candidates st" "candidate_set st' = candidate_set st"
        "lower_bound st' = lower_bound st" "s_vl st' = s_vl st" for c st'
      by (rule stop [OF _ s]) (use w he s in \<open>auto simp: loop_end_def over_def far_def split: option.splits\<close>)
    consider "unat (p_hops_limit p) \<le> hops + 1 \<or> over \<or> far" |
        "\<not> unat (p_hops_limit p) \<le> hops + 1" "\<not> over" "\<not> far" by blast
    then show ?thesis
    proof cases
      case 1
      then show ?thesis using run ends same by (cases "unat (p_hops_limit p) \<le> hops + 1"; cases over) (simp_all add: st1_def)
    next
      case 2
      have inv1: "search_inv p G F V E X st1" "mode_inv mode p G F E X st1" using inv inv_same [OF same] by simp_all
      obtain st' E' j where e: "expand_nearest mode p G F sv (hops + 1) (hd (queue (candidate_set st1))) st1 = Inr st'" "j \<in> E - X"
          "search_inv p G F V E' (insert j X) st'" "mode_inv mode p G F E' (insert j X) st'"
          "never_skips (p_is_inner_id_allowed p) sv \<and> vl_marked (s_vl st1) = E \<longrightarrow> vl_marked (s_vl st') = E'"
        using expand_ok [OF inv1, of sv "hops + 1"] ne env unfolding search_env_def same by blast
      have "hops + 1 = card (insert j X)" using e(2) less.prems(3) by simp
      then obtain r E'' where "search_loop mode p G F sv (hops + 1) st' = Inr r"
          "loop_result mode p G F sv V (vl_marked (s_vl st') = E') E'' r"
        using less.hyps [OF _ e(3,4)] 2(1) by fastforce
      then show ?thesis using run 2 e(1,5) same by (auto simp: loop_result_def)
    qed
  qed
qed

section \<open>Shortening the results\<close>

lemma pop_while_ok:
  assumes "heap_ok h" and cond: "\<forall>g. cond g \<longrightarrow> queue g \<noteq> []" and P: "\<forall>g. heap_ok g \<and> cond g \<longrightarrow> P (hd (queue g))"
  shows "\<exists>h' R. pop_while cond h = Inr h' \<and> heap_ok h' \<and> \<not> cond h' \<and> entries h = entries h' + R \<and>
    (\<forall>x y. x \<in># entries h' \<and> y \<in># R \<longrightarrow> key x \<le> key y) \<and> (\<forall>y \<in># R. P y) \<and>
    (R \<noteq> {#} \<longrightarrow> (\<exists>g. cond g \<and> length (queue g) = Suc (length (queue h'))))"
  using assms(1)
proof (induction "length (queue h)" arbitrary: h rule: less_induct)
  case less
  show ?case
  proof (cases "cond h")
    case False
    then show ?thesis using less.prems by (intro exI [of _ h] exI [of _ "{#}"]) (auto simp: pop_while.simps)
  next
    case True
    have ne: "queue h \<noteq> []" using cond True by blast
    note t = heap_top [OF less.prems ne]
    obtain h1 where h1: "StandardHeap_Pop True h = Inr h1" "heap_ok h1" "entries h1 = entries h - {#hd (queue h)#}"
      by (rule heap_pop [OF less.prems ne])
    have eq: "entries h = add_mset (hd (queue h)) (entries h1)" using h1(3) t(2) by simp
    have len: "length (queue h) = Suc (length (queue h1))" using arg_cong [OF eq, of size] by simp
    then obtain h' R where h': "pop_while cond h1 = Inr h'" "heap_ok h'" "\<not> cond h'" "entries h1 = entries h' + R"
        "\<forall>x y. x \<in># entries h' \<and> y \<in># R \<longrightarrow> key x \<le> key y" "\<forall>y \<in># R. P y"
        "R \<noteq> {#} \<longrightarrow> (\<exists>g. cond g \<and> length (queue g) = Suc (length (queue h')))"
      using less.hyps [OF _ h1(2)] by auto
    have "key x \<le> key (hd (queue h))" if "x \<in># entries h'" for x using t(3) [of x] eq h'(4) that by simp
    moreover have "\<exists>g. cond g \<and> length (queue g) = Suc (length (queue h'))"
    proof (cases "R = {#}")
      case none: True
      then have "length (queue h1) = length (queue h')" using h'(4) mset_eq_length by simp
      then show ?thesis using True len by auto
    qed (use h'(7) in simp)
    moreover have "pop_while cond h = Inr h'" by (subst pop_while.simps) (simp add: True h1(1) h'(1))
    moreover have "entries h = entries h' + add_mset (hd (queue h)) R" using eq h'(4) by simp
    ultimately have "pop_while cond h = Inr h' \<and> heap_ok h' \<and> \<not> cond h' \<and> entries h = entries h' + add_mset (hd (queue h)) R \<and>
      (\<forall>x y. x \<in># entries h' \<and> y \<in># add_mset (hd (queue h)) R \<longrightarrow> key x \<le> key y) \<and> (\<forall>y \<in># add_mset (hd (queue h)) R. P y) \<and>
      (add_mset (hd (queue h)) R \<noteq> {#} \<longrightarrow> (\<exists>g. cond g \<and> length (queue g) = Suc (length (queue h'))))"
      using h'(2,3,5,6) P less.prems True by (intro conjI) (simp_all del: split_paired_All, metis insert_noteq_member)
    then show ?thesis by blast
  qed
qed

lemma pop_to_ok:
  assumes "heap_ok h"
  shows "\<exists>h'. pop_while (\<lambda>h. length (queue h) > k) h = Inr h' \<and> heap_ok h' \<and> best_of k key (entries h) (entries h') \<and>
    length (queue h') = min k (length (queue h))"
proof -
  define cond :: "StandardHeap \<Rightarrow> bool" where "cond h \<longleftrightarrow> length (queue h) > k" for h
  obtain h' R where h': "pop_while cond h = Inr h'" "heap_ok h'" "\<not> cond h'" and eq: "entries h = entries h' + R"
      and le: "\<forall>x y. x \<in># entries h' \<and> y \<in># R \<longrightarrow> key x \<le> key y"
      and last: "R \<noteq> {#} \<longrightarrow> (\<exists>g. cond g \<and> length (queue g) = Suc (length (queue h')))"
  proof -
    have ne: "\<forall>g. cond g \<longrightarrow> queue g \<noteq> []" by (auto simp: cond_def)
    have "\<forall>g. heap_ok g \<and> cond g \<longrightarrow> True" by simp
    from pop_while_ok [OF assms ne this] obtain h' R
      where "pop_while cond h = Inr h'" "heap_ok h'" "\<not> cond h'" "entries h = entries h' + R"
        "\<forall>x y. x \<in># entries h' \<and> y \<in># R \<longrightarrow> key x \<le> key y"
        "R \<noteq> {#} \<longrightarrow> (\<exists>g. cond g \<and> length (queue g) = Suc (length (queue h')))"
      by (elim exE conjE)
    then show thesis by (rule that)
  qed
  have len: "length (queue h) = length (queue h') + size R" using arg_cong [OF eq, of size] by simp
  have "length (queue h') = min k (length (queue h))"
    using h'(3) last len by (cases "R = {#}") (auto simp: cond_def)
  moreover have "best_of k key (entries h) (entries h')"
    unfolding best_of_def eq using le len calculation by simp
  ultimately show ?thesis using h'(1,2) unfolding cond_def by auto
qed

lemma shorten_knn:
  assumes "heap_ok h"
  shows "\<exists>h'. shorten_results KNN_SEARCH p h = Inr h' \<and> best_of (unat (p_topk p)) key (entries h) (entries h') \<and>
    length (queue h') = min (unat (p_topk p)) (length (queue h))"
  using pop_to_ok [OF assms, of "unat (p_topk p)"] by (auto simp: shorten_results_def)

lemma shorten_range:
  assumes "heap_ok h"
  shows "\<exists>h'. shorten_results RANGE_SEARCH p h = Inr h' \<and> heap_ok h' \<and> entries h' \<subseteq># entries h \<and>
    (\<forall>y \<in># entries h'. \<not> float_lt (float_add (p_radius p) THRESHOLD_ERROR) (fst y)) \<and>
    (sint (p_range_search_limit_size p) \<le> 0 \<longrightarrow>
      (\<forall>y \<in># entries h - entries h'. float_lt (float_add (p_radius p) THRESHOLD_ERROR) (fst y))) \<and>
    (0 < sint (p_range_search_limit_size p) \<longrightarrow> length (queue h') \<le> nat (sint (p_range_search_limit_size p)))"
proof -
  let ?k = "nat (sint (p_range_search_limit_size p))" and ?b = "float_add (p_radius p) THRESHOLD_ERROR"
  define lim where "lim = (if sint (p_range_search_limit_size p) > 0 then pop_while (\<lambda>h. length (queue h) > ?k) h else Inr h)"
  obtain h1 where h1: "lim = Inr h1" "heap_ok h1" "entries h1 \<subseteq># entries h"
      "0 < sint (p_range_search_limit_size p) \<longrightarrow> length (queue h1) \<le> ?k"
      "sint (p_range_search_limit_size p) \<le> 0 \<longrightarrow> h1 = h"
  proof (cases "sint (p_range_search_limit_size p) > 0")
    case True
    obtain h1 where "pop_while (\<lambda>h. length (queue h) > ?k) h = Inr h1" "heap_ok h1" "best_of ?k key (entries h) (entries h1)"
        "length (queue h1) = min ?k (length (queue h))"
      using pop_to_ok [OF assms, of ?k] by blast
    then show thesis using that True by (simp add: lim_def best_of_def)
  qed (use that assms in \<open>simp add: lim_def\<close>)
  define cond :: "StandardHeap \<Rightarrow> bool" where "cond h \<longleftrightarrow> queue h \<noteq> [] \<and> float_lt ?b (fst (hd (queue h)))" for h
  obtain h' R where h': "pop_while cond h1 = Inr h'" "heap_ok h'" "\<not> cond h'" "entries h1 = entries h' + R"
      "\<forall>y \<in># R. float_lt ?b (fst y)"
    using pop_while_ok [OF h1(2), of cond "\<lambda>r. float_lt ?b (fst r)"] by (auto simp: cond_def)
  have "\<not> float_lt ?b (fst y)" if "y \<in># entries h'" for y
  proof -
    have "queue h' \<noteq> []" using that by auto
    then have "key y \<le> key (hd (queue h'))" "\<not> is_nan (fst (hd (queue h')))" "\<not> float_lt ?b (fst (hd (queue h')))"
      using heap_top(3) [OF h'(2) _ that] heap_top(4) [OF h'(2)] h'(3) by (auto simp: cond_def)
    then show ?thesis by (auto simp: float_lt_def)
  qed
  moreover have "shorten_results RANGE_SEARCH p h = Inr h'"
    using h1(1) h'(1) by (simp add: shorten_results_def lim_def cond_def [abs_def])
  moreover have "length (queue h') \<le> length (queue h1)" using arg_cong [OF h'(4), of size] by simp
  moreover have "entries h' \<subseteq># entries h" using subset_mset.order_trans [OF _ h1(3), of "entries h'"] h'(4) by simp
  moreover have "h1 = h \<Longrightarrow> entries h - entries h' = R" using h'(4) by simp
  ultimately show ?thesis using h1(4,5) h'(2,5) by (intro exI [of _ h'] conjI) auto
qed

lemma distinct_results:
  assumes "\<not> p_consider_duplicate p" and "entries h \<subseteq># offered p G F E"
  shows "distinct (map snd (queue h))"
proof -
  have "image_mset snd (entries h) \<subseteq># image_mset snd (offered p G F E)" by (rule image_mset_subseteq_mono [OF assms(2)])
  then have "mset (map snd (queue h)) \<subseteq># mset_set {i \<in> E. check_func p i}"
    by (simp add: offered_plain [OF assms(1)] image_mset.compositionality comp_def)
  then have le: "count (mset (map snd (queue h))) i \<le> count (mset_set {i \<in> E. check_func p i}) i" for i
    by (rule mset_subset_eq_count)
  have "count (mset (map snd (queue h))) i \<le> 1" for i
    using le [of i] by (cases "i \<in> {i \<in> E. check_func p i}") auto
  then show ?thesis
    unfolding distinct_count_atmost_1 by (metis count_mset_gt_0 count_mset_0_iff le_antisym less_one linorder_not_le)
qed

section \<open>Properties of the search\<close>

definition fresh_list :: "VisitedList \<Rightarrow> InnerIdType set \<Rightarrow> bool" where
  "fresh_list vl V \<longleftrightarrow> vl_inv vl \<and> vl_marked vl = {} \<and> (\<forall>i \<in> V. unat i < vl_room vl)"

lemma search_run:
  fixes sv :: "'s \<Rightarrow> bool \<times> 's"
  assumes "search_env p G F V" and "fresh_list vl V"
  obtains hops and st :: "'s search_state" and E X where "search_impl mode p (Some G) (Some F) sv vl s rabitq calls = search_finish mode p F (hops, st)"
    and "search_inv p G F V E X st" and "mode_inv mode p G F E X st" and "loop_end mode p E hops st"
    and "never_skips (p_is_inner_id_allowed p) sv \<longrightarrow> vl_marked (s_vl st) = E"
proof -
  obtain st where st: "search_start mode p G F vl s rabitq calls = Inr st" "search_inv p G F V {p_ep p} {} st"
      "mode_inv mode p G F {p_ep p} {} st" "vl_marked (s_vl st) = {p_ep p}"
    using search_start_ok [of vl V p F mode G s rabitq calls] assms by (auto simp: fresh_list_def search_env_def)
  obtain r E where r: "search_loop mode p G F sv 0 st = Inr r" "loop_result mode p G F sv V (vl_marked (s_vl st) = {p_ep p}) E r"
    using search_loop_ok [OF assms(1) st(2,3), of 0 sv] by auto
  then obtain X where "search_inv p G F V E X (snd r)" "mode_inv mode p G F E X (snd r)" "loop_end mode p E (fst r) (snd r)"
      "never_skips (p_is_inner_id_allowed p) sv \<longrightarrow> vl_marked (s_vl (snd r)) = E"
    using st(4) by (auto simp: loop_result_def)
  then show thesis using that [of "fst r" "snd r" E X] st(1) r(1) by (simp add: search_impl_def)
qed

lemma results_sound:
  assumes "search_inv p G F V E X st" and "entries h \<subseteq># entries (top_candidates st)"
  shows "\<forall>r \<in> set (queue h). check_func p (snd r) \<and>
      (\<exists>i \<in> reach G (p_ep p). fst r = query_dist p F i \<and> snd r \<in> set (if i = p_ep p then [i] else i # dup_list p G i))"
    and "\<not> p_consider_duplicate p \<Longrightarrow> distinct (map snd (queue h))"
proof -
  have sub: "entries h \<subseteq># offered p G F E" "E \<subseteq> reach G (p_ep p)"
    using assms by (auto simp: search_inv_def intro: subset_mset.order_trans)
  show "\<forall>r \<in> set (queue h). check_func p (snd r) \<and>
      (\<exists>i \<in> reach G (p_ep p). fst r = query_dist p F i \<and> snd r \<in> set (if i = p_ep p then [i] else i # dup_list p G i))"
  proof
    fix r assume "r \<in> set (queue h)"
    then have "r \<in># offered p G F E" using sub(1) by (meson mset_subset_eqD set_mset_mset subset_iff in_multiset_in_set)
    then show "check_func p (snd r) \<and> (\<exists>i \<in> reach G (p_ep p). fst r = query_dist p F i \<and> snd r \<in> set (if i = p_ep p then [i] else i # dup_list p G i))"
      by (rule offered_member) (use sub(2) in blast)
  qed
  show "\<not> p_consider_duplicate p \<Longrightarrow> distinct (map snd (queue h))" using distinct_results sub(1) by blast
qed

text \<open>A small graph, its distances and the parameters of a query.\<close>

definition demo_ops :: graph_ops where
  "demo_ops =
     \<lparr>go_GetNeighbors = \<lambda>i buf. Inr (if i = 0 then [1, 2] else if i = 1 then [3] else []),
      go_GetDuplicateIds = \<lambda>i. Inr [], go_MaximumDegree = 2\<rparr>"

definition demo_flatten :: flatten_ops where
  "demo_flatten =
     \<lparr>fo_Query = \<lambda>i. if i = 0 then 0x40400000 else if i = 1 then 0x40000000 else if i = 2 then 0x3F800000 else 0x3F000000,
      fo_QueryWithDistanceLowerBound = \<lambda>i. (0, 0), fo_TotalCount = 4, fo_CompareVectors = \<lambda>i j. False,
      fo_CompareRawVectorWithId = \<lambda>i. False\<rparr>"

definition demo_param :: "InnerSearchMode \<Rightarrow> InnerSearchParam" where
  "demo_param mode =
     \<lparr>p_topk = 2, p_radius = 0x40200000, p_ep = 0, p_ef = 10, p_hops_limit = 100,
      p_is_inner_id_allowed = Some (\<lambda>i. i \<noteq> 2), p_search_mode = mode, p_range_search_limit_size = - 1,
      p_enable_rabitq_one_bit_search = False, p_executors = [], p_duplicate_query_id = 0, p_find_duplicate = False,
      p_duplicate_distance_threshold = 0, p_consider_duplicate = False, p_time_cost = None\<rparr>"

abbreviation demo_search :: "InnerSearchMode \<Rightarrow> search_outcome result" where
  "demo_search mode \<equiv> BasicSearcher_Search (demo_param mode) (Some demo_ops) (Some demo_flatten) (\<lambda>s. (True, s))
     (VisitedList_new (\<lambda>n. - 1) 8) () None None"

lemma demo_dist: "query_dist (demo_param mode) demo_flatten i =
    (if i = 0 then 0x40400000 else if i = 1 then 0x40000000 else if i = 2 then 0x3F800000 else 0x3F000000)"
  by (simp add: query_dist_def demo_param_def demo_flatten_def)

lemma demo_env: "search_env (demo_param mode) demo_ops demo_flatten {0, 1, 2, 3}"
proof -
  have "\<not> is_nan (query_dist (demo_param mode) demo_flatten i)" for i
    by (simp add: demo_dist is_nan_def)
  then show ?thesis
    by (simp add: search_env_def graph_ok_def dups_ok_def) (simp add: demo_param_def demo_ops_def)
qed

lemma demo_list: "fresh_list (VisitedList_new memory 8) {0, 1, 2, 3}"
  using vl_new_ok [of memory 8] by (auto simp: fresh_list_def)

lemma demo_check: "check_func (demo_param mode) i \<longleftrightarrow> i \<noteq> 2"
  by (simp add: check_func_def attr_ft_def demo_param_def)

text \<open>C2: a search on a graph whose adjacency lists stay inside the graph and the maximum degree,
  with distances that are numbers, ends without leaving a buffer, whatever the limits, the filters,
  the skip strategy and the timer do. Every result is allowed by the filters and is a vertex reachable
  from the entry point, or a duplicate of one other than the entry point itself, whose duplicates are
  never reported, with its distance to the query; without duplicate handling no vertex is reported twice. A k-nearest search returns at most \<open>topk\<close>
  results and a range search nothing beyond the radius plus the tolerance.\<close>

theorem graph_search_sound:
  fixes should_visit :: "'s \<Rightarrow> bool \<times> 's"
  assumes "search_env p G F V" and "fresh_list vl V"
  shows "\<exists>out. BasicSearcher_Search p (Some G) (Some F) should_visit vl s rabitq calls = Inr out \<and>
    (\<forall>r \<in> set (queue (so_results out)). check_func p (snd r) \<and>
      (\<exists>i \<in> reach G (p_ep p). fst r = query_dist p F i \<and> snd r \<in> set (if i = p_ep p then [i] else i # dup_list p G i))) \<and>
    (\<not> p_consider_duplicate p \<longrightarrow> distinct (map snd (queue (so_results out)))) \<and>
    (case p_search_mode p of
       KNN_SEARCH \<Rightarrow> length (queue (so_results out)) \<le> unat (p_topk p)
     | RANGE_SEARCH \<Rightarrow> \<forall>r \<in> set (queue (so_results out)). \<not> float_lt (float_add (p_radius p) THRESHOLD_ERROR) (fst r))"
proof -
  define mode where "mode = p_search_mode p"
  obtain hops and st :: "'s search_state" and E X where run: "search_impl mode p (Some G) (Some F) should_visit vl s rabitq calls = search_finish mode p F (hops, st)"
    and inv: "search_inv p G F V E X st"
    by (rule search_run [OF assms, of mode should_visit s rabitq calls])
  have h: "heap_ok (top_candidates st)" using inv by (simp add: search_inv_def)
  have impl: "BasicSearcher_Search p (Some G) (Some F) should_visit vl s rabitq calls =
      search_impl mode p (Some G) (Some F) should_visit vl s rabitq calls"
    by (cases mode) (simp_all add: BasicSearcher_Search_def mode_def)
  obtain h' where h': "shorten_results mode p (top_candidates st) = Inr h'" "entries h' \<subseteq># entries (top_candidates st)"
      "case mode of KNN_SEARCH \<Rightarrow> length (queue h') \<le> unat (p_topk p)
       | RANGE_SEARCH \<Rightarrow> \<forall>r \<in> set (queue h'). \<not> float_lt (float_add (p_radius p) THRESHOLD_ERROR) (fst r)"
    using shorten_knn [OF h, of p] shorten_range [OF h, of p] by (cases mode) (auto simp: best_of_def)
  then show ?thesis
    unfolding impl run using results_sound [OF inv h'(2)] by (simp add: search_finish_def mode_def split: InnerSearchMode.splits)
qed

theorem graph_search_sound_witness:
  "\<exists>out. demo_search RANGE_SEARCH = Inr out \<and> (\<forall>r \<in> set (queue (so_results out)). snd r \<noteq> 2) \<and>
    distinct (map snd (queue (so_results out)))"
  using graph_search_sound [OF demo_env [of RANGE_SEARCH] demo_list, of "\<lambda>s. (True, s)" "\<lambda>n. - 1" "()" None None]
  by (auto simp: demo_check) (simp add: demo_param_def)

lemma evaluated_card:
  assumes "search_inv p G F V E X st" and "search_env p G F V"
  shows "card E \<le> card V"
proof -
  have "E \<subseteq> V" using reach_bounded [of G V "p_ep p"] assms by (auto simp: search_inv_def search_env_def)
  then show ?thesis by (intro card_mono) simp
qed

lemma knn_end:
  assumes inv: "search_inv p G F V E X st" "mode_inv KNN_SEARCH p G F E X st" and fin: "loop_end KNN_SEARCH p E hops st"
    and env: "search_env p G F V" and t: "p_time_cost p = None" and lim: "card V < unat (p_hops_limit p)" and i: "i \<in> E - X"
  shows "unat (p_ef p) \<le> length (queue (top_candidates st))"
    and "x \<in># entries (top_candidates st) \<Longrightarrow> key x \<le> float_key (query_dist p F i)"
    and "\<not> p_consider_duplicate p \<Longrightarrow> (query_dist p F i, i) \<notin># entries (top_candidates st)"
proof -
  have hops: "\<not> (unat (p_hops_limit p) \<le> hops \<and> hops \<le> card E)" using evaluated_card [OF inv(1) env] lim by simp
  let ?top = "top_candidates st" and ?cand = "candidate_set st"
  have h: "heap_ok ?top" "heap_ok ?cand" using inv(1) by (simp_all add: search_inv_def)
  have far: "unat (p_ef p) = length (queue ?top) \<and> (\<forall>x \<in># entries ?top. key x < float_key (query_dist p F i))"
    if m: "cand_entry p F i \<in># entries ?cand"
  proof -
    have ne: "queue ?cand \<noteq> []" using m by auto
    have e: "float_lt (lower_bound st) (float_neg (fst (hd (queue ?cand))))" "length (queue ?top) = unat (p_ef p)"
      using fin ne t hops by (auto simp: loop_end_def)
    have "queue ?top \<noteq> []" using e(2) env by (auto simp: search_env_def word_gt_0 unsigned_eq_0_iff)
    then have lb: "lower_bound st = fst (hd (queue ?top))" and le: "\<forall>x \<in># entries ?top. key x \<le> float_key (lower_bound st)"
      using inv(2) heap_top(3) [OF h(1)] by (auto simp: mode_inv_def)
    have "key (cand_entry p F i) \<le> key (hd (queue ?cand))" by (rule heap_top(3) [OF h(2) ne m])
    then have "float_key (lower_bound st) < float_key (query_dist p F i)"
      using e(1) by (simp add: cand_entry_def float_lt_def)
    then show ?thesis using e(2) le by fastforce
  qed
  have other: "unat (p_ef p) \<le> length (queue ?top) \<and> (\<forall>x \<in># entries ?top. key x \<le> float_key (query_dist p F i)) \<and>
      (p_consider_duplicate p \<or> i \<notin> snd ` set_mset (entries ?top))"
    if "cand_entry p F i \<notin># entries ?cand"
    using inv(2) i that by (auto simp: mode_inv_def)
  show "unat (p_ef p) \<le> length (queue ?top)" using far other by linarith
  show "x \<in># entries ?top \<Longrightarrow> key x \<le> float_key (query_dist p F i)" using far other by force
  show "(query_dist p F i, i) \<notin># entries ?top" if "\<not> p_consider_duplicate p"
    using far other that by (cases "cand_entry p F i \<in># entries ?cand") force+
qed

text \<open>A k-nearest search that is not cut short by the hop limit, the timer or skipping.\<close>

definition full_knn :: "InnerSearchParam \<Rightarrow> InnerIdType set \<Rightarrow> ('s \<Rightarrow> bool \<times> 's) \<Rightarrow> bool" where
  "full_knn p V should_visit \<longleftrightarrow>
     p_search_mode p = KNN_SEARCH \<and> \<not> p_consider_duplicate p \<and> p_time_cost p = None \<and> card V < unat (p_hops_limit p) \<and>
     never_skips (p_is_inner_id_allowed p) should_visit"

lemma full_knn_run:
  fixes should_visit :: "'s \<Rightarrow> bool \<times> 's"
  assumes env: "search_env p G F V" and "fresh_list vl V" and full: "full_knn p V should_visit"
  obtains out top E X where "BasicSearcher_Search p (Some G) (Some F) should_visit vl s rabitq calls = Inr out"
    and "best_of (unat (p_topk p)) key top (entries (so_results out))"
    and "length (queue (so_results out)) = min (unat (p_topk p)) (size top)"
    and "best_of (unat (p_ef p)) key (offered p G F E) top"
    and "p_ep p \<in> E" and "E \<subseteq> reach G (p_ep p)" and "\<forall>i \<in> X. neighbours G i \<subseteq> E" and "X \<subseteq> E"
    and "\<forall>i \<in> E - X. unat (p_ef p) \<le> size top \<and> (query_dist p F i, i) \<notin># top"
proof -
  obtain hops and st :: "'s search_state" and E X where run: "search_impl KNN_SEARCH p (Some G) (Some F) should_visit vl s rabitq calls =
      search_finish KNN_SEARCH p F (hops, st)" and inv: "search_inv p G F V E X st" "mode_inv KNN_SEARCH p G F E X st"
    and fin: "loop_end KNN_SEARCH p E hops st"
    and all: "never_skips (p_is_inner_id_allowed p) should_visit \<longrightarrow> vl_marked (s_vl st) = E"
    by (rule search_run [OF assms(1,2), of KNN_SEARCH should_visit s rabitq calls])
  have "heap_ok (top_candidates st)" using inv(1) by (simp add: search_inv_def)
  then obtain h where h: "shorten_results KNN_SEARCH p (top_candidates st) = Inr h"
      "best_of (unat (p_topk p)) key (entries (top_candidates st)) (entries h)"
      "length (queue h) = min (unat (p_topk p)) (length (queue (top_candidates st)))"
    using shorten_knn by blast
  have e: "p_time_cost p = None" "card V < unat (p_hops_limit p)" "\<not> p_consider_duplicate p" using full by (simp_all add: full_knn_def)
  show thesis
  proof (rule that)
    show "BasicSearcher_Search p (Some G) (Some F) should_visit vl s rabitq calls =
      Inr \<lparr>so_results = h, so_duplicate_id = find_duplicate_id p F h, so_hops = hops, so_dist_cmp = dist_cmp st,
           so_is_timeout = is_timeout st, so_vl = s_vl st,
           so_rabitq_lower_bound_candidates = rabitq_lower_bound_candidates st, so_reasoning = reasoning st\<rparr>"
      using run h(1) full by (simp add: BasicSearcher_Search_def search_finish_def full_knn_def)
    show "\<forall>i \<in> E - X. unat (p_ef p) \<le> size (entries (top_candidates st)) \<and> (query_dist p F i, i) \<notin># entries (top_candidates st)"
      using knn_end(1,3) [OF inv fin env e(1,2)] e(3) by simp
  qed (use h inv all full in \<open>auto simp: search_inv_def mode_inv_def full_knn_def\<close>)
qed

lemma in_rest: "y \<in># V \<Longrightarrow> y \<notin># T \<Longrightarrow> y \<in># V - T"
  by (simp add: in_diff_count not_in_iff)

lemma best_of_rest:
  assumes "best_of k f V T" and "y \<in># V" and "y \<notin># T" and "x \<in># T"
  shows "f x \<le> f y"
  using in_rest [OF assms(2,3)] assms(1,4) by (simp add: best_of_def)

lemma best_of_sub: "best_of k f V T \<Longrightarrow> x \<in># T \<Longrightarrow> x \<in># V"
  by (auto simp: best_of_def dest: mset_subset_eqD)

lemma best_of_best:
  assumes "best_of k f V T" and "best_of l f T R" and "y \<in># V" and "y \<notin># R" and "x \<in># R"
  shows "f x \<le> f y"
  using assms best_of_rest [OF assms(1,3)] best_of_rest [OF assms(2)] best_of_sub [OF assms(2)] by blast

lemma not_nearer:
  assumes "best_of k key V T" and "best_of l key T R" and "y \<in># V" and "x \<in># R"
  shows "y \<in># R \<or> \<not> float_lt (fst y) (fst x)"
  using best_of_best [OF assms(1-3) _ assms(4)] by (auto simp: float_lt_def)

lemma offered_at:
  assumes "\<not> p_consider_duplicate p"
  shows "r \<in># offered p G F E \<longleftrightarrow> snd r \<in> E \<and> check_func p (snd r) \<and> fst r = query_dist p F (snd r)"
    and "size (offered p G F E) = card {i \<in> E. check_func p i}"
  by (cases r, auto simp: offered_plain [OF assms])

text \<open>A k-nearest search that no limit cuts short ends in a local optimum: every allowed
  neighbour of a result is a result itself or is not nearer to the query than any result.\<close>

lemma graph_search_local_optimum:
  fixes should_visit :: "'s \<Rightarrow> bool \<times> 's"
  assumes "search_env p G F V" and "fresh_list vl V" and "full_knn p V should_visit"
  shows "\<exists>out. BasicSearcher_Search p (Some G) (Some F) should_visit vl s rabitq calls = Inr out \<and>
    (\<forall>r \<in> set (queue (so_results out)). \<forall>n \<in> neighbours G (snd r). check_func p n \<longrightarrow>
      (query_dist p F n, n) \<in> set (queue (so_results out)) \<or>
      (\<forall>r' \<in> set (queue (so_results out)). \<not> float_lt (query_dist p F n) (fst r')))"
proof -
  have nd: "\<not> p_consider_duplicate p" using assms(3) by (simp add: full_knn_def)
  note at = offered_at [OF nd]
  obtain out top E X where run: "BasicSearcher_Search p (Some G) (Some F) should_visit vl s rabitq calls = Inr out"
    and R: "best_of (unat (p_topk p)) key top (entries (so_results out))"
      "length (queue (so_results out)) = min (unat (p_topk p)) (size top)"
    and T: "best_of (unat (p_ef p)) key (offered p G F E) top"
    and E: "p_ep p \<in> E" "E \<subseteq> reach G (p_ep p)" "\<forall>i \<in> X. neighbours G i \<subseteq> E" "X \<subseteq> E"
      "\<forall>i \<in> E - X. unat (p_ef p) \<le> size top \<and> (query_dist p F i, i) \<notin># top"
    by (rule full_knn_run [OF assms])
  have "(query_dist p F n, n) \<in># entries (so_results out) \<or> \<not> float_lt (query_dist p F n) (fst r')"
    if r: "r \<in># entries (so_results out)" "n \<in> neighbours G (snd r)" "check_func p n" "r' \<in># entries (so_results out)" for r n r'
  proof -
    have top: "r \<in># top" by (rule best_of_sub [OF R(1) r(1)])
    then have "snd r \<in> E" "r = (query_dist p F (snd r), snd r)"
      using best_of_sub [OF T] at(1) by (auto simp: prod_eq_iff)
    then have "n \<in> E" using top E(3,5) r(2) by (metis DiffI subset_iff)
    then have "(query_dist p F n, n) \<in># offered p G F E" using r(3) at(1) by simp
    from not_nearer [OF T R(1) this r(4)] show ?thesis by simp
  qed
  then show ?thesis using run by (intro exI [of _ out]) (simp, blast)
qed

lemma demo_full: "full_knn (demo_param KNN_SEARCH) {0, 1, 2, 3} (\<lambda>s. (True, s))"
  by (simp add: full_knn_def demo_param_def never_skips_def)

lemma graph_search_local_optimum_example:
  "\<exists>out. demo_search KNN_SEARCH = Inr out \<and>
    (\<forall>r \<in> set (queue (so_results out)). \<forall>n \<in> neighbours demo_ops (snd r). n \<noteq> 2 \<longrightarrow>
      (query_dist (demo_param KNN_SEARCH) demo_flatten n, n) \<in> set (queue (so_results out)) \<or>
      (\<forall>r' \<in> set (queue (so_results out)). \<not> float_lt (query_dist (demo_param KNN_SEARCH) demo_flatten n) (fst r')))"
  using graph_search_local_optimum [OF demo_env [of KNN_SEARCH] demo_list demo_full, of "\<lambda>n. - 1" "()" None None]
  unfolding demo_check .

lemma knn_complete:
  fixes should_visit :: "'s \<Rightarrow> bool \<times> 's"
  assumes "search_env p G F V" and "fresh_list vl V" and "full_knn p V should_visit" and ef: "p_topk p \<le> p_ef p"
  shows "\<exists>out. BasicSearcher_Search p (Some G) (Some F) should_visit vl s rabitq calls = Inr out \<and>
    distinct (map snd (queue (so_results out))) \<and>
    (\<forall>r \<in> set (queue (so_results out)). snd r \<in> reach G (p_ep p) \<and> check_func p (snd r) \<and> fst r = query_dist p F (snd r)) \<and>
    length (queue (so_results out)) = min (unat (p_topk p)) (card {i \<in> reach G (p_ep p). check_func p i}) \<and>
    (card {i \<in> reach G (p_ep p). check_func p i} \<le> unat (p_topk p) \<longrightarrow>
      snd ` set (queue (so_results out)) = {i \<in> reach G (p_ep p). check_func p i}) \<and>
    (card {i \<in> reach G (p_ep p). check_func p i} \<le> unat (p_ef p) \<longrightarrow>
      (\<forall>i \<in> reach G (p_ep p). check_func p i \<longrightarrow>
        (query_dist p F i, i) \<in> set (queue (so_results out)) \<or>
        (\<forall>r \<in> set (queue (so_results out)). \<not> float_lt (query_dist p F i) (fst r))))"
proof -
  have nd: "\<not> p_consider_duplicate p" using assms(3) by (simp add: full_knn_def)
  note at = offered_at [OF nd]
  let ?all = "{i \<in> reach G (p_ep p). check_func p i}"
  obtain out top E X where run: "BasicSearcher_Search p (Some G) (Some F) should_visit vl s rabitq calls = Inr out"
    and R: "best_of (unat (p_topk p)) key top (entries (so_results out))"
      "length (queue (so_results out)) = min (unat (p_topk p)) (size top)"
    and T: "best_of (unat (p_ef p)) key (offered p G F E) top"
    and E: "p_ep p \<in> E" "E \<subseteq> reach G (p_ep p)" "\<forall>i \<in> X. neighbours G i \<subseteq> E" "X \<subseteq> E"
      "\<forall>i \<in> E - X. unat (p_ef p) \<le> size top \<and> (query_dist p F i, i) \<notin># top"
    by (rule full_knn_run [OF assms(1-3)])
  let ?seen = "{i \<in> E. check_func p i}"
  have sub: "?seen \<subseteq> ?all" using E(2) by auto
  have le: "size top \<le> card ?seen" "min (unat (p_ef p)) (card ?seen) \<le> size top" "card ?seen \<le> card ?all"
    using T at(2) card_mono [OF _ sub] by (auto simp: best_of_def dest: size_mset_mono)
  have closed: "?all = ?seen" if "E = X"
  proof -
    have "i \<in> E" if "i \<in> reach G (p_ep p)" for i
    proof -
      have "(\<lambda>a b. b \<in> neighbours G a)\<^sup>*\<^sup>* (p_ep p) i" using that by (simp add: reach_def)
      then show ?thesis by induction (use E(1,3) \<open>E = X\<close> in auto)
    qed
    then show ?thesis using E(2) by auto
  qed
  have full: "E = X \<or> unat (p_ef p) \<le> size top" using E(4,5) by auto
  have tk: "unat (p_topk p) \<le> unat (p_ef p)" using ef by (simp add: word_le_nat_alt)
  have "entries (so_results out) \<subseteq># offered p G F E" using R(1) T by (auto simp: best_of_def intro: subset_mset.order_trans)
  then have dist: "distinct (map snd (queue (so_results out)))" by (rule distinct_results [OF nd])
  have valid: "snd r \<in> ?all \<and> fst r = query_dist p F (snd r)" if "r \<in> set (queue (so_results out))" for r
    using best_of_sub [OF T best_of_sub [OF R(1)], of r] that at(1) E(2) by auto
  have len: "length (queue (so_results out)) = min (unat (p_topk p)) (card ?all)"
    using full
  proof
    assume "E = X"
    then have "card ?all = card ?seen" by (simp add: closed)
    then show ?thesis using le R(2) tk by linarith
  qed (use le R(2) tk in linarith)
  have everything: "snd ` set (queue (so_results out)) = ?all" if "card ?all \<le> unat (p_topk p)"
  proof (rule card_subset_eq)
    show "snd ` set (queue (so_results out)) \<subseteq> ?all" using valid by auto
    show "card (snd ` set (queue (so_results out))) = card ?all" using distinct_card [OF dist] len that by simp
  qed simp
  have "(query_dist p F i, i) \<in># entries (so_results out) \<or> \<not> float_lt (query_dist p F i) (fst r)"
    if few: "card ?all \<le> unat (p_ef p)" and i: "i \<in> ?all" and r: "r \<in># entries (so_results out)" for i r
  proof -
    have "card ?all = card ?seen" using full
    proof
      assume "unat (p_ef p) \<le> size top"
      then show ?thesis using le few by linarith
    qed (simp add: closed)
    then have "?all = ?seen" using card_subset_eq [OF _ sub] by simp
    then have "(query_dist p F i, i) \<in># offered p G F E" using i at(1) by auto
    from not_nearer [OF T R(1) this r] show ?thesis by simp
  qed
  then show ?thesis using run dist valid len everything by (intro exI [of _ out]) (simp, blast)
qed

text \<open>C3: a k-nearest search without duplicate handling, with \<open>topk\<close> at most \<open>ef\<close>, that neither the hop limit, the timer
  nor a skip strategy cuts short, returns records of distinct allowed vertices reachable from the entry point
  with their distances: \<open>topk\<close> of them, or all such vertices when there are at most \<open>topk\<close>. When \<open>ef\<close> is at
  least the number of these vertices, no vertex that is left out is nearer than a result.\<close>

theorem graph_search_complete:
  fixes should_visit :: "'s \<Rightarrow> bool \<times> 's"
  assumes "search_env p G F V" and "fresh_list vl V" and "full_knn p V should_visit" and ef: "p_topk p \<le> p_ef p"
  shows "\<exists>out. BasicSearcher_Search p (Some G) (Some F) should_visit vl s rabitq calls = Inr out \<and>
    distinct (map snd (queue (so_results out))) \<and>
    (\<forall>r \<in> set (queue (so_results out)). snd r \<in> reach G (p_ep p) \<and> check_func p (snd r) \<and> fst r = query_dist p F (snd r)) \<and>
    length (queue (so_results out)) = min (unat (p_topk p)) (card {i \<in> reach G (p_ep p). check_func p i}) \<and>
    (card {i \<in> reach G (p_ep p). check_func p i} \<le> unat (p_topk p) \<longrightarrow>
      snd ` set (queue (so_results out)) = {i \<in> reach G (p_ep p). check_func p i}) \<and>
    (card {i \<in> reach G (p_ep p). check_func p i} \<le> unat (p_ef p) \<longrightarrow>
      (\<forall>i \<in> reach G (p_ep p). check_func p i \<longrightarrow>
        (query_dist p F i, i) \<in> set (queue (so_results out)) \<or>
        (\<forall>r \<in> set (queue (so_results out)). \<not> float_lt (query_dist p F i) (fst r))))"
  by (rule knn_complete [OF assms])

theorem graph_search_complete_witness:
  "\<exists>out. demo_search KNN_SEARCH = Inr out \<and>
    (\<forall>r \<in> set (queue (so_results out)). snd r \<in> reach demo_ops 0 \<and> snd r \<noteq> 2) \<and>
    length (queue (so_results out)) = min 2 (card {i \<in> reach demo_ops 0. i \<noteq> 2})"
proof -
  have "p_topk (demo_param KNN_SEARCH) = 2" "p_ep (demo_param KNN_SEARCH) = 0" "p_topk (demo_param KNN_SEARCH) \<le> p_ef (demo_param KNN_SEARCH)"
    by (simp_all add: demo_param_def)
  then show ?thesis
    using graph_search_complete [OF demo_env [of KNN_SEARCH] demo_list demo_full, of "\<lambda>n. - 1" "()" None None]
    by (auto simp: demo_check)
qed





end
