(* ===== verification/CompressedGraph.thy ===== *)
theory CompressedGraph
  imports GraphInterface EliasFano
begin

text \<open>
  The compressed graph storage \<open>CompressedGraphDataCell\<close> of
  \<^verbatim>\<open>src/src/datacell/compressed_graph_datacell.{h,cpp}\<close>: each vertex owns an Elias-Fano encoder of its
  sorted neighbours, or none when it has no neighbour. The storage keeps no incoming edges and does
  not support deletion, moving or merging; these calls end in the throwing defaults of the base
  class. The invariant \<open>cg_inv\<close> says that every encoder holds some sorted list.
\<close>

section \<open>State and operations\<close>

record 'd CompressedGraphDataCell = "'d GraphInterface" +
  neighbor_sets :: "EliasFanoEncoder option list"

definition CompressedGraphDataCell_new ::
    "u32 \<Rightarrow> bool \<Rightarrow> bool \<Rightarrow> SparseDuplicateTracker CompressedGraphDataCell result" where
  "CompressedGraphDataCell_new max_degree support_duplicate use_reverse_edges =
     (if use_reverse_edges then Inl (Vsag UNSUPPORTED_INDEX_OPERATION)
      else
        Inr \<lparr>max_capacity = 0, maximum_degree = max_degree, g_total_count = 0,
             g_duplicate_tracker = (if support_duplicate then Some SparseDuplicateTracker_new else None),
             reverse_edges = None, neighbor_sets = []\<rparr>)"

definition CompressedGraph_InsertNeighborsById ::
    "'d CompressedGraphDataCell \<Rightarrow> InnerIdType \<Rightarrow> InnerIdType list \<Rightarrow> 'd CompressedGraphDataCell result" where
  "CompressedGraph_InsertNeighborsById g i neighbor_ids =
     (if length neighbor_ids > unat (maximum_degree g) then Inl (Vsag INVALID_ARGUMENT)
      else
        (let tmp = sort neighbor_ids in
         bind_r (if tmp = [] then Inr None
                 else bind_r (EliasFano_Encode tmp (max_capacity g)) (\<lambda>e. Inr (Some e))) (\<lambda>new_node.
         if unat i < length (neighbor_sets g) then
           Inr (g\<lparr>neighbor_sets := (neighbor_sets g)[unat i := new_node],
                  g_total_count := max (g_total_count g) (i + 1)\<rparr>)
         else Inl UndefinedBehaviour)))"

definition CompressedGraph_GetNeighborSize :: "'d CompressedGraphDataCell \<Rightarrow> InnerIdType \<Rightarrow> u32 result" where
  "CompressedGraph_GetNeighborSize g i =
     (if unat i < length (neighbor_sets g) then
        Inr (case neighbor_sets g ! unat i of None \<Rightarrow> 0 | Some e \<Rightarrow> ucast (EliasFano_Size e))
      else Inl UndefinedBehaviour)"

definition CompressedGraph_GetNeighbors ::
    "'d CompressedGraphDataCell \<Rightarrow> InnerIdType \<Rightarrow> InnerIdType list \<Rightarrow> InnerIdType list result" where
  "CompressedGraph_GetNeighbors g i neighbor_ids =
     bind_r (CompressedGraph_GetNeighborSize g i) (\<lambda>sz.
       if sz > 0 then
         (case neighbor_sets g ! unat i of
            None \<Rightarrow> Inl UndefinedBehaviour
          | Some e \<Rightarrow> EliasFano_DecompressAll e [])
       else Inr [])"

definition CompressedGraph_CheckIdExists :: "'d CompressedGraphDataCell \<Rightarrow> InnerIdType \<Rightarrow> bool" where
  "CompressedGraph_CheckIdExists g i \<longleftrightarrow>
     unat i < length (neighbor_sets g) \<and> neighbor_sets g ! unat i \<noteq> None"

definition CompressedGraph_GetIds :: "'d CompressedGraphDataCell \<Rightarrow> InnerIdType list" where
  "CompressedGraph_GetIds g =
     filter (\<lambda>i. neighbor_sets g ! unat i \<noteq> None) (map word_of_nat [0..<length (neighbor_sets g)])"

definition CompressedGraph_Resize ::
    "('d \<Rightarrow> InnerIdType \<Rightarrow> 'd) \<Rightarrow> 'd CompressedGraphDataCell \<Rightarrow> InnerIdType \<Rightarrow> 'd CompressedGraphDataCell" where
  "CompressedGraph_Resize dt_resize g new_size =
     (if new_size < max_capacity g then g
      else
        g\<lparr>neighbor_sets := vresize (unat new_size) None (neighbor_sets g), max_capacity := new_size,
          g_duplicate_tracker := map_option (\<lambda>d. dt_resize d new_size) (g_duplicate_tracker g)\<rparr>)"

definition write_encoder :: "EliasFanoEncoder option \<Rightarrow> byte list list result" where
  "write_encoder s =
     (case s of
        None \<Rightarrow> Inr (WriteObj [0])
      | Some e \<Rightarrow>
          if EliasFano_Size e = 0 then Inr (WriteObj [0])
          else
            (let n = unat (low_bits_size e) + unat (high_bits_size e) in
             if n \<le> length (ef_bits e) then
               Inr (WriteObj [num_elements e] @ WriteObj [low_bits_width e] @ WriteObj [low_bits_size e] @
                    WriteObj [high_bits_size e] @ concat (map (\<lambda>w. WriteObj (enc_u64 w)) (take n (ef_bits e))))
             else Inl UndefinedBehaviour))"

fun write_encoders :: "EliasFanoEncoder option list \<Rightarrow> byte list list result" where
  "write_encoders [] = Inr []"
| "write_encoders (s # sets) =
     bind_r (write_encoder s) (\<lambda>w. bind_r (write_encoders sets) (\<lambda>ws. Inr (w @ ws)))"

definition CompressedGraph_Serialize ::
    "('d \<Rightarrow> byte list list exec) \<Rightarrow> 'd CompressedGraphDataCell \<Rightarrow> byte list list exec" where
  "CompressedGraph_Serialize dt_ser g =
     bind_e (GraphInterface_Serialize dt_ser g) (\<lambda>base.
     bind_e (Some (write_encoders (neighbor_sets g))) (\<lambda>sets.
       Some (Inr (base @ WriteObj (enc_u64 (word_of_nat (length (neighbor_sets g)))) @ sets))))"

fun read_words :: "'r read_op \<Rightarrow> nat \<Rightarrow> 'r \<Rightarrow> (u64 list \<times> 'r) result" where
  "read_words rd 0 r = Inr ([], r)"
| "read_words rd (Suc n) r =
     bind_r (ReadObj rd 8 dec_u64 r) (\<lambda>(w, r).
     bind_r (read_words rd n r) (\<lambda>(ws, r). Inr (w # ws, r)))"

definition read_encoder :: "'r read_op \<Rightarrow> byte \<Rightarrow> 'r \<Rightarrow> (EliasFanoEncoder \<times> 'r) result" where
  "read_encoder rd n r =
     bind_r (ReadObj rd (Suc 0) hd r) (\<lambda>(width, r).
     bind_r (ReadObj rd (Suc 0) hd r) (\<lambda>(low_size, r).
     bind_r (ReadObj rd (Suc 0) hd r) (\<lambda>(high_size, r).
     bind_r (read_words rd (unat low_size + unat high_size) r) (\<lambda>(words, r).
       Inr (\<lparr>ef_bits = words, num_elements = n, low_bits_width = width, low_bits_size = low_size,
             high_bits_size = high_size\<rparr>, r)))))"

fun read_encoders ::
    "'r read_op \<Rightarrow> nat list \<Rightarrow> EliasFanoEncoder option list \<Rightarrow> 'r \<Rightarrow> (EliasFanoEncoder option list \<times> 'r) result" where
  "read_encoders rd [] sets r = Inr (sets, r)"
| "read_encoders rd (i # is) sets r =
     bind_r (ReadObj rd (Suc 0) hd r) (\<lambda>(n, r).
       if n > 0 then
         (if i < length sets then
            bind_r (read_encoder rd n r) (\<lambda>(e, r). read_encoders rd is (sets[i := Some e]) r)
          else Inl UndefinedBehaviour)
       else read_encoders rd is sets r)"

definition CompressedGraph_Deserialize ::
    "('d \<Rightarrow> InnerIdType \<Rightarrow> 'd) \<Rightarrow> ('d \<Rightarrow> 'r \<Rightarrow> ('d \<times> 'r) result) \<Rightarrow> 'r read_op \<Rightarrow>
     'd CompressedGraphDataCell \<Rightarrow> 'r \<Rightarrow> ('d CompressedGraphDataCell \<times> 'r) result" where
  "CompressedGraph_Deserialize dt_resize dt_deser rd g r =
     bind_r (GraphInterface_Deserialize dt_deser rd g r) (\<lambda>(g, r).
     bind_r (ReadObj rd 8 dec_u64 r) (\<lambda>(vertex_num, r).
     let g = CompressedGraph_Resize dt_resize g (ucast vertex_num) in
     bind_r (read_encoders rd [0..<unat vertex_num] (neighbor_sets g) r) (\<lambda>(sets, r).
       Inr (g\<lparr>neighbor_sets := sets\<rparr>, r))))"

section \<open>Invariant\<close>

definition cg_inv :: "'d CompressedGraphDataCell \<Rightarrow> bool" where
  "cg_inv g \<longleftrightarrow>
     length (neighbor_sets g) = unat (max_capacity g) \<and> unat (max_capacity g) < 2 ^ 32 - 1 \<and>
     (\<forall>e. Some e \<in> set (neighbor_sets g) \<longrightarrow> (\<exists>xs. xs \<noteq> [] \<and> ef_holds e xs))"

lemma cg_get_some:
  assumes "unat i < length (neighbor_sets g)" and "neighbor_sets g ! unat i = Some e"
    and "ef_holds e xs" and "xs \<noteq> []"
  shows "CompressedGraph_GetNeighbors g i buf = Inr xs"
proof -
  have n: "unat (EliasFano_Size e) = length xs" using ef_holdsD(2) [OF assms(3)] by (simp add: EliasFano_Size_def)
  then have "0 < unat (ucast (EliasFano_Size e) :: u32)"
    using assms(4) by (simp add: unat_ucast_u8_u32)
  then show ?thesis
    using assms DecompressAll_ok [OF assms(3)]
    by (simp add: CompressedGraph_GetNeighbors_def CompressedGraph_GetNeighborSize_def word_less_nat_alt)
qed

lemma cg_get_none:
  assumes "unat i < length (neighbor_sets g)" and "neighbor_sets g ! unat i = None"
  shows "CompressedGraph_GetNeighbors g i buf = Inr []"
  using assms by (simp add: CompressedGraph_GetNeighbors_def CompressedGraph_GetNeighborSize_def)

lemma cg_get_cong:
  assumes "unat i < length (neighbor_sets g)" and "unat i < length (neighbor_sets h)"
    and "neighbor_sets g ! unat i = neighbor_sets h ! unat i"
  shows "CompressedGraph_GetNeighbors g i buf = CompressedGraph_GetNeighbors h i buf"
  using assms by (simp add: CompressedGraph_GetNeighbors_def CompressedGraph_GetNeighborSize_def)

lemma cg_size_cong:
  assumes "unat i < length (neighbor_sets g)" and "unat i < length (neighbor_sets h)"
    and "neighbor_sets g ! unat i = neighbor_sets h ! unat i"
  shows "CompressedGraph_GetNeighborSize g i = CompressedGraph_GetNeighborSize h i"
  using assms by (simp add: CompressedGraph_GetNeighborSize_def)

lemma EliasFano_Size_holds: "ef_holds e xs \<Longrightarrow> ucast (EliasFano_Size e) = (word_of_nat (length xs) :: u32)"
  by (simp add: EliasFano_Size_def flip: ef_holdsD(2))

lemma cg_encode_ok:
  assumes "unat (max_capacity g) < 2 ^ 32 - 1" and "length ns \<le> 255" and "\<forall>n \<in> set ns. n \<le> max_capacity g"
    and "length ns \<le> unat (max_capacity g) + 1" and "ns \<noteq> []"
  obtains e where "EliasFano_Encode (sort ns) (max_capacity g) = Inr e" and "ef_holds e (sort ns)"
proof -
  have "sort ns \<noteq> []" using assms(5) by (metis length_0_conv length_sort)
  then show thesis by (rule Encode_ok [of "sort ns" "max_capacity g"]) (use assms that in auto)
qed

lemma cg_insert_ok:
  assumes inv: "cg_inv g" and i: "i < max_capacity g" and n: "\<forall>n \<in> set ns. n \<le> max_capacity g"
    and len: "length ns \<le> unat (maximum_degree g)" "length ns \<le> 255" "length ns \<le> unat (max_capacity g) + 1"
  obtains s where "CompressedGraph_InsertNeighborsById g i ns =
      Inr (g\<lparr>neighbor_sets := (neighbor_sets g)[unat i := s], g_total_count := max (g_total_count g) (i + 1)\<rparr>)"
    and "case s of None \<Rightarrow> ns = [] | Some e \<Rightarrow> ns \<noteq> [] \<and> ef_holds e (sort ns)"
proof (cases "ns = []")
  case True
  then show thesis
    using that [of None] inv i len by (simp add: CompressedGraph_InsertNeighborsById_def cg_inv_def word_less_nat_alt)
next
  case False
  have ne: "sort ns \<noteq> []" using False by (metis length_0_conv length_sort)
  obtain e where "EliasFano_Encode (sort ns) (max_capacity g) = Inr e" "ef_holds e (sort ns)"
    by (rule cg_encode_ok [OF _ len(2) n len(3) False]) (use inv in \<open>simp add: cg_inv_def\<close>)
  then show thesis
    using that [of "Some e"] inv i len False ne
    by (simp add: CompressedGraph_InsertNeighborsById_def cg_inv_def word_less_nat_alt Let_def)
qed

section \<open>Reading back a serialized graph\<close>

lemma write_encoder_ok:
  assumes "\<And>e. s = Some e \<Longrightarrow> \<exists>xs. xs \<noteq> [] \<and> ef_holds e xs"
  shows "write_encoder s = Inr (case s of None \<Rightarrow> WriteObj [0]
    | Some e \<Rightarrow> WriteObj [num_elements e] @ WriteObj [low_bits_width e] @ WriteObj [low_bits_size e] @
        WriteObj [high_bits_size e] @ concat (map (\<lambda>w. WriteObj (enc_u64 w)) (ef_bits e)))"
proof (cases s)
  case (Some e)
  then obtain xs where xs: "xs \<noteq> []" "ef_holds e xs" using assms by blast
  have "num_elements e \<noteq> 0" using ef_holdsD(2) [OF xs(2)] xs(1) by auto
  then show ?thesis
    using Some ef_holdsD(1) [OF xs(2)] by (simp add: write_encoder_def ef_shape_def EliasFano_Size_def Let_def)
qed (simp add: write_encoder_def)

definition encoder_bytes :: "EliasFanoEncoder option \<Rightarrow> byte list" where
  "encoder_bytes s = (case s of None \<Rightarrow> [0]
     | Some e \<Rightarrow> [num_elements e, low_bits_width e, low_bits_size e, high_bits_size e] @ concat (map enc_u64 (ef_bits e)))"

lemma write_encoders_ok:
  assumes "\<And>e. Some e \<in> set sets \<Longrightarrow> \<exists>xs. xs \<noteq> [] \<and> ef_holds e xs"
  shows "\<exists>out. write_encoders sets = Inr out \<and> concat out = concat (map encoder_bytes sets)"
  using assms
proof (induction sets)
  case (Cons s sets)
  have w: "\<exists>out. write_encoder s = Inr out \<and> concat out = encoder_bytes s"
    using write_encoder_ok [of s] Cons.prems
    by (cases s) (auto simp: encoder_bytes_def WriteObj_def comp_def)
  obtain out where "write_encoders sets = Inr out" "concat out = concat (map encoder_bytes sets)"
    using Cons by auto
  then show ?case using w by auto
qed simp

context byte_source
begin

lemma read_words_yields:
  "rest r = concat (map enc_u64 ws) @ s \<Longrightarrow> ok r \<Longrightarrow> yields rest ok (read_words rd (length ws) r) ws s"
proof (induction ws arbitrary: r)
  case (Cons w ws)
  have r: "rest r = enc_u64 w @ concat (map enc_u64 ws) @ s" using Cons.prems(1) by simp
  show ?case
    by (simp, rule yields_bind [OF ReadObj_u64 [OF r Cons.prems(2)]]) (auto intro!: yields_bind [OF Cons.IH])
qed auto

lemma read_encoder_yields:
  assumes "rest r = [low_bits_width e, low_bits_size e, high_bits_size e] @ concat (map enc_u64 (ef_bits e)) @ s"
    and "ok r" and "length (ef_bits e) = unat (low_bits_size e) + unat (high_bits_size e)"
  shows "yields rest ok (read_encoder rd (num_elements e) r) e s"
proof -
  have e: "\<lparr>ef_bits = ef_bits e, num_elements = num_elements e, low_bits_width = low_bits_width e,
      low_bits_size = low_bits_size e, high_bits_size = high_bits_size e\<rparr> = e" by simp
  note words = read_words_yields [of _ "ef_bits e" s, unfolded assms(3)]
  show ?thesis
    unfolding read_encoder_def
    by (rule yields_bind [OF ReadObj_byte, where v = "low_bits_width e"], use assms(1,2) in simp_all,
        rule yields_bind [OF ReadObj_byte, where v = "low_bits_size e"], assumption, assumption, simp,
        rule yields_bind [OF ReadObj_byte, where v = "high_bits_size e"], assumption, assumption, simp,
        rule yields_bind [OF words]) (auto simp only: prod.case e intro!: yields_Inr)
qed

lemma read_encoders_yields:
  assumes "rest r = concat (map encoder_bytes (drop i sets)) @ s" and "ok r" and "i \<le> length sets"
    and "\<And>e. Some e \<in> set sets \<Longrightarrow> \<exists>xs. xs \<noteq> [] \<and> ef_holds e xs"
  shows "yields rest ok (read_encoders rd [i..<length sets] (take i sets @ replicate (length sets - i) None) r) sets s"
  using assms
proof (induction "length sets - i" arbitrary: i r)
  case 0
  then show ?case by auto
next
  case (Suc m)
  have i: "i < length sets" and m: "m = length sets - (i + 1)" using Suc(2) by simp_all
  let ?cur = "take i sets @ replicate (length sets - i) None"
  have rep: "replicate (length sets - i) None = None # replicate (length sets - (i + 1)) (None :: EliasFanoEncoder option)"
    using i by (simp flip: replicate_Suc)
  have upd: "?cur[i := sets ! i] = take (i + 1) sets @ replicate (length sets - (i + 1)) None"
    using i by (simp add: rep list_update_append take_Suc_conv_app_nth)
  have none: "?cur = take (i + 1) sets @ replicate (length sets - (i + 1)) None" if "sets ! i = None"
    using i that by (simp add: rep take_Suc_conv_app_nth)
  have dr: "drop i sets = sets ! i # drop (i + 1) sets" using i by (simp add: Cons_nth_drop_Suc)
  have nxt: "yields rest ok (read_encoders rd [i + 1..<length sets] (take (i + 1) sets @ replicate (length sets - (i + 1)) None) r') sets s"
    if "rest r' = concat (map encoder_bytes (drop (i + 1) sets)) @ s" "ok r'" for r'
    by (rule Suc.hyps(1) [OF m that]) (use i Suc.prems(4) in auto)
  have up: "[i..<length sets] = i # [i + 1..<length sets]" using i by (simp add: upt_rec)
  show ?case
  proof (cases "sets ! i")
    case None
    have r: "rest r = 0 # concat (map encoder_bytes (drop (i + 1) sets)) @ s"
      using Suc.prems(1) None by (simp add: dr encoder_bytes_def)
    show ?thesis
      unfolding up none [OF None]
      by (simp, rule yields_bind [OF ReadObj_byte [OF r Suc.prems(2)]]) (use nxt none [OF None] in auto)
  next
    case (Some e)
    obtain xs where xs: "xs \<noteq> []" "ef_holds e xs" using Suc.prems(4) [of e] Some i by (metis nth_mem)
    have n0: "num_elements e > 0" using ef_holdsD(2) [OF xs(2)] xs(1) by (simp add: word_greater_zero_iff) auto
    have sh: "length (ef_bits e) = unat (low_bits_size e) + unat (high_bits_size e)"
      using ef_holdsD(1) [OF xs(2)] by (simp add: ef_shape_def)
    have r: "rest r = num_elements e # [low_bits_width e, low_bits_size e, high_bits_size e] @
        concat (map enc_u64 (ef_bits e)) @ concat (map encoder_bytes (drop (i + 1) sets)) @ s"
      using Suc.prems(1) Some by (simp add: dr encoder_bytes_def)
    have "?cur[i := Some e] = take (i + 1) sets @ replicate (length sets - (i + 1)) None" using upd Some by simp
    then show ?thesis
      unfolding up
      by (simp only: read_encoders.simps, intro yields_bind [OF ReadObj_byte [OF r Suc.prems(2)]])
        (use n0 i nxt in \<open>auto intro!: yields_bind [OF read_encoder_yields [OF _ _ sh]]\<close>)
  qed
qed

end

lemma CompressedGraph_Serialize_ok:
  assumes "cg_inv g" and "g_duplicate_tracker g = None"
  obtains out where "CompressedGraph_Serialize dt_ser g = Some (Inr out)"
    and "concat out = enc_u32 (g_total_count g) @ enc_u32 (max_capacity g) @ enc_u32 (maximum_degree g) @
      enc_u64 (word_of_nat (length (neighbor_sets g))) @ concat (map encoder_bytes (neighbor_sets g))"
proof -
  obtain sets where "write_encoders (neighbor_sets g) = Inr sets"
      "concat sets = concat (map encoder_bytes (neighbor_sets g))"
    using write_encoders_ok [of "neighbor_sets g"] assms(1) by (auto simp: cg_inv_def)
  then show thesis
    using that assms(2) by (simp add: CompressedGraph_Serialize_def GraphInterface_Serialize_def WriteObj_def)
qed

section \<open>Properties\<close>

text \<open>C35: \<open>InsertNeighborsById\<close> with at most 255 ids (the encoder counts in a \<open>uint8_t\<close>), none above the capacity
  and no more than there are ids up to it, replaces the neighbours of one vertex below the capacity:
  \<open>GetNeighbors\<close> delivers them in ascending order, repetitions kept, \<open>GetNeighborSize\<close> their number, both
  deliver for every other vertex what they did, and the vertex exists exactly when it has a
  neighbour. A list longer than the maximum degree is refused.\<close>

theorem compressed_graph_insert_get:
  assumes "cg_inv g" and "i < max_capacity g" and "\<forall>n \<in> set ns. n \<le> max_capacity g"
    and "length ns \<le> 255" and "length ns \<le> unat (max_capacity g) + 1"
  shows "if length ns \<le> unat (maximum_degree g) then
      \<exists>g'. CompressedGraph_InsertNeighborsById g i ns = Inr g' \<and> cg_inv g' \<and>
        CompressedGraph_GetNeighbors g' i buf = Inr (sort ns) \<and>
        CompressedGraph_GetNeighborSize g' i = Inr (word_of_nat (length ns)) \<and>
        (\<forall>x. x \<noteq> i \<and> x < max_capacity g \<longrightarrow>
          CompressedGraph_GetNeighbors g' x buf = CompressedGraph_GetNeighbors g x buf \<and>
          CompressedGraph_GetNeighborSize g' x = CompressedGraph_GetNeighborSize g x) \<and>
        (\<forall>x. CompressedGraph_CheckIdExists g' x \<longleftrightarrow> (if x = i then ns \<noteq> [] else CompressedGraph_CheckIdExists g x))
    else CompressedGraph_InsertNeighborsById g i ns = Inl (Vsag INVALID_ARGUMENT)"
proof (cases "length ns \<le> unat (maximum_degree g)")
  case True
  have len: "length (neighbor_sets g) = unat (max_capacity g)" "unat i < length (neighbor_sets g)"
    using assms(1,2) by (simp_all add: cg_inv_def word_less_nat_alt)
  obtain s where ins: "CompressedGraph_InsertNeighborsById g i ns =
      Inr (g\<lparr>neighbor_sets := (neighbor_sets g)[unat i := s], g_total_count := max (g_total_count g) (i + 1)\<rparr>)"
    and s: "case s of None \<Rightarrow> ns = [] | Some e \<Rightarrow> ns \<noteq> [] \<and> ef_holds e (sort ns)"
    by (rule cg_insert_ok [OF assms(1-3) True assms(4,5)])
  define g' where "g' = g\<lparr>neighbor_sets := (neighbor_sets g)[unat i := s], g_total_count := max (g_total_count g) (i + 1)\<rparr>"
  have sets: "neighbor_sets g' = (neighbor_sets g)[unat i := s]" "max_capacity g' = max_capacity g" by (simp_all add: g'_def)
  have ne: "ns \<noteq> [] \<Longrightarrow> sort ns \<noteq> []" by (metis length_0_conv length_sort)
  have "\<exists>xs. xs \<noteq> [] \<and> ef_holds e xs" if "Some e \<in> set (neighbor_sets g')" for e
    using that set_update_subset_insert [of "neighbor_sets g" "unat i" s] s assms(1) ne
    unfolding sets cg_inv_def by (cases s) auto
  then have inv': "cg_inv g'" using assms(1) by (simp add: cg_inv_def sets)
  have get: "CompressedGraph_GetNeighbors g' i buf = Inr (sort ns)"
    using s cg_get_some [of i g' _ "sort ns" buf] cg_get_none [of i g' buf] len(2) ne by (cases s) (auto simp: sets)
  have size: "CompressedGraph_GetNeighborSize g' i = Inr (word_of_nat (length ns))"
    using s len(2) by (cases s) (auto simp: sets CompressedGraph_GetNeighborSize_def dest: EliasFano_Size_holds)
  have other: "CompressedGraph_GetNeighbors g' x buf = CompressedGraph_GetNeighbors g x buf"
      "CompressedGraph_GetNeighborSize g' x = CompressedGraph_GetNeighborSize g x"
    if "x \<noteq> i" "x < max_capacity g" for x
    using that len by (auto simp: sets word_less_nat_alt word_unat_eq_iff intro!: cg_get_cong cg_size_cong)
  have ex: "CompressedGraph_CheckIdExists g' x \<longleftrightarrow> (if x = i then ns \<noteq> [] else CompressedGraph_CheckIdExists g x)" for x
    using s len(2) by (cases s) (auto simp: CompressedGraph_CheckIdExists_def sets nth_list_update word_unat_eq_iff)
  show ?thesis using True ins inv' get size other ex by (auto simp flip: g'_def)
next
  case False
  then show ?thesis by (simp add: CompressedGraph_InsertNeighborsById_def)
qed

text \<open>A small graph built by the operations.\<close>

definition cg_built :: "SparseDuplicateTracker CompressedGraphDataCell result" where
  "cg_built =
     bind_r (CompressedGraphDataCell_new 4 False False) (\<lambda>g.
       CompressedGraph_InsertNeighborsById (CompressedGraph_Resize (\<lambda>d n. d) g 8) 3 [7, 2, 5])"

lemma cg_built_ok:
  obtains g where "cg_built = Inr g" and "cg_inv g" and "max_capacity g = 8" and "maximum_degree g = 4"
    and "g_duplicate_tracker g = None" and "length (neighbor_sets g) = 8"
proof -
  define g0 :: "SparseDuplicateTracker CompressedGraphDataCell" where
    "g0 = \<lparr>max_capacity = 8, maximum_degree = 4, g_total_count = 0, g_duplicate_tracker = None,
      reverse_edges = None, neighbor_sets = replicate 8 None\<rparr>"
  have inv0: "cg_inv g0" by (simp add: g0_def cg_inv_def)
  have new: "cg_built = CompressedGraph_InsertNeighborsById g0 3 [7, 2, 5]"
    by (simp add: cg_built_def CompressedGraphDataCell_new_def CompressedGraph_Resize_def vresize_def g0_def)
  obtain s where ins: "CompressedGraph_InsertNeighborsById g0 3 [7, 2, 5] =
      Inr (g0\<lparr>neighbor_sets := (neighbor_sets g0)[unat (3 :: InnerIdType) := s], g_total_count := max (g_total_count g0) (3 + 1)\<rparr>)"
    and s: "case s of None \<Rightarrow> [7, 2, 5 :: InnerIdType] = [] | Some e \<Rightarrow> [7, 2, 5 :: InnerIdType] \<noteq> [] \<and> ef_holds e (sort [7, 2, 5])"
    by (rule cg_insert_ok [OF inv0, of 3 "[7, 2, 5]"]) (simp_all add: g0_def)
  then obtain e where e: "s = Some e" "ef_holds e [2, 5, 7]" by (cases s) auto
  let ?g = "g0\<lparr>neighbor_sets := (neighbor_sets g0)[unat (3 :: InnerIdType) := s], g_total_count := max (g_total_count g0) (3 + 1)\<rparr>"
  have "cg_inv ?g"
    using inv0 e set_update_subset_insert [of "neighbor_sets g0" 3 s] by (auto simp: cg_inv_def g0_def)
  then show thesis using that [of ?g] new ins by (simp add: g0_def)
qed

theorem compressed_graph_insert_get_witness:
  "\<exists>g g'. cg_built = Inr g \<and> CompressedGraph_InsertNeighborsById g 1 [6, 0, 6] = Inr g' \<and>
    CompressedGraph_GetNeighbors g' 1 [] = Inr [0, 6, 6] \<and> CompressedGraph_GetNeighborSize g' 1 = Inr 3 \<and>
    CompressedGraph_GetNeighbors g' 3 [] = CompressedGraph_GetNeighbors g 3 []"
proof -
  obtain g where g: "cg_built = Inr g" "cg_inv g" "max_capacity g = 8" "maximum_degree g = 4" by (rule cg_built_ok)
  show ?thesis
    using compressed_graph_insert_get [OF g(2), of 1 "[6, 0, 6]" "[]"] g by auto
qed

text \<open>A compressed graph without a duplicate tracker that is serialized and read into a new graph has the
  same counts and exactly the same encoders, so every neighbour list reads back, and the reader stops
  at its end.\<close>

lemma compressed_graph_roundtrip:
  assumes "cg_inv g" and "g_duplicate_tracker g = None" and "g_duplicate_tracker h = None" and "neighbor_sets h = []"
    and "CompressedGraph_Serialize dt_ser g = Some (Inr out)" and "length (concat out @ s) < 2 ^ 63"
  shows "\<exists>h' r. CompressedGraph_Deserialize dt_resize dt_deser ForwardStreamReader_Read h
      (open_forward (concat out @ s)) = Inr (h', r) \<and>
    neighbor_sets h' = neighbor_sets g \<and> max_capacity h' = max_capacity g \<and> maximum_degree h' = maximum_degree g \<and>
    g_total_count h' = g_total_count g \<and> fr_istream r = s"
proof -
  let ?n = "length (neighbor_sets g)"
  have n: "?n = unat (max_capacity g)" "\<And>e. Some e \<in> set (neighbor_sets g) \<Longrightarrow> \<exists>xs. xs \<noteq> [] \<and> ef_holds e xs"
    using assms(1) by (auto simp: cg_inv_def)
  have n64: "unat (word_of_nat ?n :: u64) = ?n"
    using unat_u32_lt [of "max_capacity g"] n(1) by (intro unat_word_of_nat_u64) simp
  have cast: "ucast (word_of_nat ?n :: u64) = max_capacity g"
    by (simp add: n(1) word_unat_eq_iff unsigned_ucast_eq unat_u32_lt take_bit_nat_eq_self)
  have bytes: "concat out @ s = enc_u32 (g_total_count g) @ enc_u32 (max_capacity g) @ enc_u32 (maximum_degree g) @
      enc_u64 (word_of_nat ?n) @ concat (map encoder_bytes (neighbor_sets g)) @ s"
    using CompressedGraph_Serialize_ok [OF assms(1,2), of dt_ser] assms(5) by auto
  have start: "fr_istream (open_forward (concat out @ s)) = enc_u32 (g_total_count g) @ enc_u32 (max_capacity g) @
      enc_u32 (maximum_degree g) @ enc_u64 (word_of_nat ?n) @ concat (map encoder_bytes (neighbor_sets g)) @ s"
    unfolding fr_istream_open by (rule bytes)
  have ok: "fr_ok (open_forward (concat out @ s))" unfolding fr_ok_open by (rule assms(6))
  note sets = fwd.read_encoders_yields [of _ 0 "neighbor_sets g" s, OF _ _ _ n(2)]
  have "yields fr_istream fr_ok (CompressedGraph_Deserialize dt_resize dt_deser ForwardStreamReader_Read h
      (open_forward (concat out @ s)))
    (h\<lparr>g_total_count := g_total_count g, maximum_degree := maximum_degree g, max_capacity := max_capacity g,
       g_duplicate_tracker := None, neighbor_sets := neighbor_sets g\<rparr>) s"
    unfolding CompressedGraph_Deserialize_def
    by (rule yields_bind [OF fwd.GraphInterface_Deserialize_yields [OF start ok assms(3)]], simp only: prod.case,
        rule yields_bind [OF fwd.ReadObj_u64], assumption, assumption)
      (auto simp: CompressedGraph_Resize_def cast n64 assms(4) vresize_def n(1) [symmetric]
        intro!: yields_bind [OF sets [simplified]])
  then show ?thesis unfolding yields_def by fastforce
qed

lemma compressed_graph_roundtrip_example:
  "\<exists>g out h' r. cg_built = Inr g \<and> CompressedGraph_Serialize (\<lambda>d. None) g = Some (Inr out) \<and>
    CompressedGraph_Deserialize (\<lambda>d n. d) (\<lambda>d r. Inr (d, r)) ForwardStreamReader_Read
      (g\<lparr>neighbor_sets := []\<rparr>) (open_forward (concat out @ [9])) = Inr (h', r) \<and>
    neighbor_sets h' = neighbor_sets g \<and> fr_istream r = [9]"
proof -
  obtain g where g: "cg_built = Inr g" "cg_inv g" "max_capacity g = 8" "g_duplicate_tracker g = None"
      "length (neighbor_sets g) = 8"
    by (rule cg_built_ok)
  obtain out where out: "CompressedGraph_Serialize (\<lambda>d. None) g = Some (Inr out)"
      "concat out = enc_u32 (g_total_count g) @ enc_u32 (max_capacity g) @ enc_u32 (maximum_degree g) @
        enc_u64 (word_of_nat (length (neighbor_sets g))) @ concat (map encoder_bytes (neighbor_sets g))"
    by (rule CompressedGraph_Serialize_ok [OF g(2,4)])
  have each: "length (encoder_bytes s) \<le> 4 + 8 * 510" if m: "s \<in> set (neighbor_sets g)" for s
  proof (cases s)
    case (Some e)
    then obtain xs where "ef_holds e xs" using m g(2) by (auto simp: cg_inv_def)
    then have "length (ef_bits e) = unat (low_bits_size e) + unat (high_bits_size e)"
      using ef_holdsD(1) by (auto simp: ef_shape_def)
    then have "length (ef_bits e) \<le> 510" using unat_u8_lt [of "low_bits_size e"] unat_u8_lt [of "high_bits_size e"] by simp
    then show ?thesis using Some length_concat_const [of "map enc_u64 (ef_bits e)" 8] by (simp add: encoder_bytes_def)
  qed (simp add: encoder_bytes_def)
  have "length (concat (map encoder_bytes (neighbor_sets g))) = sum_list (map (\<lambda>s. length (encoder_bytes s)) (neighbor_sets g))"
    by (simp add: length_concat comp_def)
  also have "\<dots> \<le> sum_list (map (\<lambda>s. 4 + 8 * 510) (neighbor_sets g))" by (rule sum_list_mono) (rule each)
  also have "\<dots> = 8 * (4 + 8 * 510)" by (simp add: sum_list_triv g(5))
  finally have "length (concat out @ [9]) < 2 ^ 63" by (simp add: out(2))
  then show ?thesis
    using compressed_graph_roundtrip [OF g(2,4) _ _ out(1), of "g\<lparr>neighbor_sets := []\<rparr>" "[9]" "\<lambda>d n. d" "\<lambda>d r. Inr (d, r)"]
      g(1,4) out(1) by auto
qed

end
