(* ===== verification/GraphSearch.thy ===== *)
theory GraphSearch
  imports SearchProperties CompressedGraph SparseGraph DenseGraph
begin

text \<open>
  The graph search on the graph storages: \<open>GraphInterface\<close> dispatches \<open>GetNeighbors\<close> and
  \<open>MaximumDegree\<close> to the compressed, the sparse or the flat storage. The locale \<open>searchable_storage\<close> is
  what the search needs of a storage; each storage is an instance, and what was shown for the search
  holds for all of them.
\<close>

section \<open>Dispatch\<close>

datatype ('c, 's, 'd) GraphStorage =
    CompressedStorage "'c CompressedGraphDataCell"
  | SparseStorage "'s SparseGraphDataCell"
  | FlatStorage "('d, MemoryBlockIO) GraphDataCell"

fun GetNeighbors :: "('c, 's, 'd) GraphStorage \<Rightarrow> InnerIdType \<Rightarrow> InnerIdType list \<Rightarrow> InnerIdType list result" where
  "GetNeighbors (CompressedStorage g) = CompressedGraph_GetNeighbors g"
| "GetNeighbors (SparseStorage g) = SparseGraph_GetNeighbors g"
| "GetNeighbors (FlatStorage g) = GraphDataCell_GetNeighbors MemoryBlockIO_ReadImpl g"

fun MaximumDegree :: "('c, 's, 'd) GraphStorage \<Rightarrow> u32" where
  "MaximumDegree (CompressedStorage g) = maximum_degree g"
| "MaximumDegree (SparseStorage g) = maximum_degree g"
| "MaximumDegree (FlatStorage g) = maximum_degree g"

definition storage_ops ::
    "(InnerIdType \<Rightarrow> InnerIdType list result) \<Rightarrow> ('c, 's, 'd) GraphStorage \<Rightarrow> graph_ops" where
  "storage_ops dup_ids g =
     \<lparr>go_GetNeighbors = GetNeighbors g, go_GetDuplicateIds = dup_ids, go_MaximumDegree = MaximumDegree g\<rparr>"

section \<open>What a search needs of a storage\<close>

locale searchable_storage =
  fixes ok :: "'g \<Rightarrow> bool" and vertices :: "'g \<Rightarrow> InnerIdType set" and adjacent :: "'g \<Rightarrow> InnerIdType \<Rightarrow> InnerIdType list"
    and get :: "'g \<Rightarrow> InnerIdType \<Rightarrow> InnerIdType list \<Rightarrow> InnerIdType list result" and degree :: "'g \<Rightarrow> u32"
  assumes get_ok: "ok g \<Longrightarrow> i \<in> vertices g \<Longrightarrow> get g i buf = Inr (adjacent g i)"
    and degree_ok: "ok g \<Longrightarrow> i \<in> vertices g \<Longrightarrow> length (adjacent g i) \<le> unat (degree g)"
begin

lemma graph_ok_closed:
  assumes "ok g" and "\<forall>i \<in> vertices g. set (adjacent g i) \<subseteq> vertices g"
  shows "graph_ok \<lparr>go_GetNeighbors = get g, go_GetDuplicateIds = d, go_MaximumDegree = degree g\<rparr> (vertices g)"
  unfolding graph_ok_def using get_ok [OF assms(1)] degree_ok [OF assms(1)] assms(2) by fastforce

lemma neighbours_adjacent:
  assumes "ok g" and "i \<in> vertices g"
  shows "neighbours \<lparr>go_GetNeighbors = get g, go_GetDuplicateIds = d, go_MaximumDegree = degree g\<rparr> i = set (adjacent g i)"
  using get_ok [OF assms] by (simp add: neighbours_def)

end

section \<open>The storages\<close>

definition cg_adjacent :: "'d CompressedGraphDataCell \<Rightarrow> InnerIdType \<Rightarrow> InnerIdType list" where
  "cg_adjacent g i = (case CompressedGraph_GetNeighbors g i [] of Inl e \<Rightarrow> [] | Inr ns \<Rightarrow> ns)"

definition cg_ok :: "'d CompressedGraphDataCell \<Rightarrow> bool" where
  "cg_ok g \<longleftrightarrow> cg_inv g \<and> (\<forall>i < max_capacity g. length (cg_adjacent g i) \<le> unat (maximum_degree g))"

interpretation compressed: searchable_storage cg_ok "\<lambda>g. {i. i < max_capacity g}" cg_adjacent CompressedGraph_GetNeighbors maximum_degree
proof unfold_locales
  fix g :: "'d CompressedGraphDataCell" and i :: InnerIdType and buf
  assume g: "cg_ok g" and i: "i \<in> {i. i < max_capacity g}"
  have lt: "unat i < length (neighbor_sets g)" using g i by (simp add: cg_ok_def cg_inv_def word_less_nat_alt)
  show "CompressedGraph_GetNeighbors g i buf = Inr (cg_adjacent g i)"
  proof (cases "neighbor_sets g ! unat i")
    case None
    then show ?thesis using cg_get_none [OF lt None] by (simp add: cg_adjacent_def)
  next
    case (Some e)
    then obtain xs where "xs \<noteq> []" "ef_holds e xs" using g lt nth_mem [OF lt] by (auto simp: cg_ok_def cg_inv_def)
    then show ?thesis using cg_get_some [OF lt Some] by (simp add: cg_adjacent_def)
  qed
  show "length (cg_adjacent g i) \<le> unat (maximum_degree g)" using g i by (simp add: cg_ok_def)
qed

interpretation sparse: searchable_storage sg_inv "\<lambda>g. dom (neighbors g)" sg_live SparseGraph_GetNeighbors maximum_degree
  by unfold_locales (auto simp: sg_GetNeighbors length_sg_live)

interpretation flat: searchable_storage block_graph_inv "\<lambda>g. {i. i < g_total_count g}" "gd_nbrs mb_bytes" block_get maximum_degree
  by unfold_locales (use libc.block_io.gd_get_ok gd_nbrs_length gd_invD(1) in blast)+

text \<open>Insertion keeps a compressed storage searchable.\<close>

lemma cg_insert_searchable:
  assumes ok: "cg_ok g" and i: "i < max_capacity g" and ns: "\<forall>n \<in> set ns. n < max_capacity g"
    and len: "length ns \<le> unat (maximum_degree g)" "length ns \<le> 255" "length ns \<le> unat (max_capacity g) + 1"
  obtains g' where "CompressedGraph_InsertNeighborsById g i ns = Inr g'" and "cg_ok g'" and "max_capacity g' = max_capacity g"
    and "maximum_degree g' = maximum_degree g" and "\<forall>x < max_capacity g. cg_adjacent g' x = (if x = i then sort ns else cg_adjacent g x)"
proof -
  have inv: "cg_inv g" using ok by (simp add: cg_ok_def)
  have le: "\<forall>n \<in> set ns. n \<le> max_capacity g" using ns by auto
  obtain s where s: "CompressedGraph_InsertNeighborsById g i ns =
        Inr (g\<lparr>neighbor_sets := (neighbor_sets g)[unat i := s], g_total_count := max (g_total_count g) (i + 1)\<rparr>)"
      "case s of None \<Rightarrow> ns = [] | Some e \<Rightarrow> ns \<noteq> [] \<and> ef_holds e (sort ns)"
    by (rule cg_insert_ok [OF inv i le len])
  have ne: "sort ns = [] \<longleftrightarrow> ns = []" by (metis length_0_conv length_sort)
  define g' where "g' = g\<lparr>neighbor_sets := (neighbor_sets g)[unat i := s], g_total_count := max (g_total_count g) (i + 1)\<rparr>"
  have room: "unat x < length (neighbor_sets g)" if "x < max_capacity g" for x
    using inv that by (simp add: cg_inv_def word_less_nat_alt)
  have adj: "cg_adjacent g' x = (if x = i then sort ns else cg_adjacent g x)" if x: "x < max_capacity g" for x
  proof (cases "x = i")
    case True
    have "unat i < length (neighbor_sets g')" "neighbor_sets g' ! unat i = s" using room [OF i] by (simp_all add: g'_def)
    note at = this
    have "CompressedGraph_GetNeighbors g' i [] = Inr (sort ns)"
    proof (cases s)
      case None
      then show ?thesis using cg_get_none [OF at(1)] at(2) s(2) by simp
    next
      case (Some e)
      then have "ef_holds e (sort ns)" "sort ns \<noteq> []" using s(2) by (simp_all add: ne)
      then show ?thesis using cg_get_some [OF at(1)] at(2) Some by simp
    qed
    then show ?thesis using True by (simp add: cg_adjacent_def)
  next
    case False
    then have "unat x \<noteq> unat i" by (simp add: word_unat_eq_iff)
    then show ?thesis
      using False room [OF x] cg_get_cong [of x g' g "[]"] by (simp add: g'_def cg_adjacent_def)
  qed
  have "e \<in> set (neighbor_sets g) \<or> e = s" if "e \<in> set ((neighbor_sets g)[unat i := s])" for e
    using set_update_subset_insert [THEN subsetD, OF that] by auto
  moreover have "\<exists>xs. xs \<noteq> [] \<and> ef_holds e xs" if "s = Some e" for e
    using s(2) that ne by (intro exI [of _ "sort ns"]) simp
  ultimately have "cg_inv g'" using inv by (auto simp: cg_inv_def g'_def)
  then have "cg_ok g'" using adj ok len(1) by (simp add: cg_ok_def g'_def)
  then show thesis using that [of g'] s(1) adj by (simp add: g'_def)
qed

section \<open>Search on a storage\<close>

fun storage_ok :: "('c, 's, 'd) GraphStorage \<Rightarrow> bool" where
  "storage_ok (CompressedStorage g) = cg_ok g"
| "storage_ok (SparseStorage g) = sg_inv g"
| "storage_ok (FlatStorage g) = block_graph_inv g"

fun storage_vertices :: "('c, 's, 'd) GraphStorage \<Rightarrow> InnerIdType set" where
  "storage_vertices (CompressedStorage g) = {i. i < max_capacity g}"
| "storage_vertices (SparseStorage g) = dom (neighbors g)"
| "storage_vertices (FlatStorage g) = {i. i < g_total_count g}"

fun storage_adjacent :: "('c, 's, 'd) GraphStorage \<Rightarrow> InnerIdType \<Rightarrow> InnerIdType list" where
  "storage_adjacent (CompressedStorage g) = cg_adjacent g"
| "storage_adjacent (SparseStorage g) = sg_live g"
| "storage_adjacent (FlatStorage g) = gd_nbrs mb_bytes g"

interpretation storage: searchable_storage storage_ok storage_vertices storage_adjacent GetNeighbors MaximumDegree
proof unfold_locales
  fix g and i :: InnerIdType and buf :: "InnerIdType list"
  assume "storage_ok g" and "i \<in> storage_vertices g"
  then have "GetNeighbors g i buf = Inr (storage_adjacent g i) \<and> length (storage_adjacent g i) \<le> unat (MaximumDegree g)"
    by (cases g) (use compressed.get_ok [of _ i buf] compressed.degree_ok [of _ i] in force,
      use sparse.get_ok [of _ i buf] sparse.degree_ok [of _ i] in force, use flat.get_ok [of _ i buf] flat.degree_ok [of _ i] in force)
  then show "GetNeighbors g i buf = Inr (storage_adjacent g i)" and "length (storage_adjacent g i) \<le> unat (MaximumDegree g)" by simp_all
qed

definition connected :: "('c, 's, 'd) GraphStorage \<Rightarrow> InnerIdType \<Rightarrow> InnerIdType set" where
  "connected g i = {j. (\<lambda>a b. b \<in> set (storage_adjacent g a))\<^sup>*\<^sup>* i j}"

lemma connected_inside:
  assumes "\<forall>i \<in> storage_vertices g. set (storage_adjacent g i) \<subseteq> storage_vertices g" and "i \<in> storage_vertices g"
  shows "connected g i \<subseteq> storage_vertices g"
proof
  fix j assume "j \<in> connected g i"
  then have "(\<lambda>a b. b \<in> set (storage_adjacent g a))\<^sup>*\<^sup>* i j" by (simp add: connected_def)
  then show "j \<in> storage_vertices g" by induction (use assms in auto)
qed

lemma reach_connected:
  assumes "storage_ok g" and "\<forall>i \<in> storage_vertices g. set (storage_adjacent g i) \<subseteq> storage_vertices g" and "i \<in> storage_vertices g"
  shows "reach (storage_ops d g) i = connected g i"
proof -
  have n: "neighbours (storage_ops d g) a = set (storage_adjacent g a)" if "a \<in> storage_vertices g" for a
    unfolding storage_ops_def by (rule storage.neighbours_adjacent [OF assms(1) that])
  have ok: "graph_ok (storage_ops d g) (storage_vertices g)"
    unfolding storage_ops_def by (rule storage.graph_ok_closed [OF assms(1,2)])
  have "j \<in> connected g i" if "(\<lambda>a b. b \<in> neighbours (storage_ops d g) a)\<^sup>*\<^sup>* i j" for j
    using that
  proof induction
    case (step a b)
    then have "a \<in> storage_vertices g" using connected_inside [OF assms(2,3)] by blast
    then show ?case using step n by (auto simp: connected_def intro: rtranclp.rtrancl_into_rtrancl)
  qed (simp add: connected_def)
  moreover have "j \<in> reach (storage_ops d g) i" if "(\<lambda>a b. b \<in> set (storage_adjacent g a))\<^sup>*\<^sup>* i j" for j
    using that
  proof induction
    case (step a b)
    then have "a \<in> storage_vertices g" using reach_bounded [OF ok assms(3)] by blast
    then show ?case using step n reach_step [of a "storage_ops d g" i] by auto
  qed simp
  ultimately show ?thesis by (auto simp: reach_def connected_def)
qed

text \<open>C1: on a compressed, sparse or flat graph storage without dangling edges, a k-nearest search without duplicate
  handling, with \<open>topk\<close> at most \<open>ef\<close>, that no limit, timer or skip strategy cuts short and whose \<open>ef\<close> covers the
  allowed vertices connected to the entry point, returns exactly the \<open>topk\<close> nearest of these vertices, or all of
  them when there are fewer: its records are distinct allowed connected vertices with their distances to the query, and no such
  vertex that is left out is nearer than one that is returned.\<close>

theorem storage_search_nearest:
  fixes should_visit :: "'t \<Rightarrow> bool \<times> 't"
  assumes g: "storage_ok g" "\<forall>i \<in> storage_vertices g. set (storage_adjacent g i) \<subseteq> storage_vertices g"
      "p_ep p \<in> storage_vertices g"
    and d: "\<forall>i. \<not> is_nan (query_dist p F i)" and vl: "fresh_list vl (storage_vertices g)"
    and p: "full_knn p (storage_vertices g) should_visit" "0 < p_ef p" "p_topk p \<le> p_ef p"
      "card {i \<in> connected g (p_ep p). check_func p i} \<le> unat (p_ef p)"
  shows "\<exists>out. BasicSearcher_Search p (Some (storage_ops dup_ids g)) (Some F) should_visit vl s rabitq calls = Inr out \<and>
    distinct (map snd (queue (so_results out))) \<and>
    (\<forall>r \<in> set (queue (so_results out)). snd r \<in> connected g (p_ep p) \<and> check_func p (snd r) \<and> fst r = query_dist p F (snd r)) \<and>
    length (queue (so_results out)) = min (unat (p_topk p)) (card {i \<in> connected g (p_ep p). check_func p i}) \<and>
    (card {i \<in> connected g (p_ep p). check_func p i} \<le> unat (p_topk p) \<longrightarrow>
      snd ` set (queue (so_results out)) = {i \<in> connected g (p_ep p). check_func p i}) \<and>
    (\<forall>i \<in> connected g (p_ep p). check_func p i \<longrightarrow>
      (query_dist p F i, i) \<in> set (queue (so_results out)) \<or>
      (\<forall>r \<in> set (queue (so_results out)). \<not> float_lt (query_dist p F i) (fst r)))"
proof -
  have "graph_ok (storage_ops dup_ids g) (storage_vertices g)"
    unfolding storage_ops_def by (rule storage.graph_ok_closed [OF g(1,2)])
  then have "search_env p (storage_ops dup_ids g) F (storage_vertices g)"
    using g(3) d p(1,2) by (simp add: search_env_def dups_ok_def full_knn_def)
  from knn_complete [OF this vl p(1,3)] show ?thesis
    unfolding reach_connected [OF g] using p(4) by blast
qed

theorem storage_search_nearest_witness:
  "\<exists>(g :: (unit, unit, DenseDuplicateTracker) GraphStorage) h out. gd_built = Inr h \<and> g = FlatStorage h \<and>
    BasicSearcher_Search ((demo_param KNN_SEARCH)\<lparr>p_ep := 2\<rparr>) (Some (storage_ops (\<lambda>i. Inr []) g)) (Some demo_flatten)
      (\<lambda>s. (True, s)) (VisitedList_new (\<lambda>n. - 1) 8) () None None = Inr out \<and>
    distinct (map snd (queue (so_results out))) \<and>
    (\<forall>r \<in> set (queue (so_results out)). snd r \<in> connected g 2 \<and> snd r \<noteq> 2 \<and> fst r = query_dist ((demo_param KNN_SEARCH)\<lparr>p_ep := 2\<rparr>) demo_flatten (snd r)) \<and>
    length (queue (so_results out)) = min 2 (card {i \<in> connected g 2. i \<noteq> 2})"
proof -
  obtain h where h: "gd_built = Inr h" "block_graph_inv h" "g_total_count h = 3"
      "gd_nbrs mb_bytes h = (\<lambda>x. [])(1 := [0], 2 := [1, 0])"
    by (rule gd_built_ok)
  define g :: "(unit, unit, DenseDuplicateTracker) GraphStorage" where "g = FlatStorage h"
  let ?p = "(demo_param KNN_SEARCH)\<lparr>p_ep := 2\<rparr>"
  have v: "storage_vertices g = {i. i < 3}" and a: "storage_adjacent g = (\<lambda>x. [])(1 := [0], 2 := [1, 0])"
    and ok: "storage_ok g" using h by (simp_all add: g_def)
  have closed: "\<forall>i \<in> storage_vertices g. set (storage_adjacent g i) \<subseteq> storage_vertices g" by (auto simp: v a)
  have ep: "p_ep ?p \<in> storage_vertices g" by (simp add: v)
  have card3: "card {i :: InnerIdType. i < 3} \<le> 3"
  proof -
    have "unat ` {i :: InnerIdType. i < 3} \<subseteq> {..<3}" by (auto simp: word_less_nat_alt)
    then have "card (unat ` {i :: InnerIdType. i < 3}) \<le> card {..<3 :: nat}" by (intro card_mono) auto
    moreover have "card (unat ` {i :: InnerIdType. i < 3}) = card {i :: InnerIdType. i < 3}"
      by (intro card_image inj_onI) (simp add: word_unat_eq_iff)
    ultimately show ?thesis by simp
  qed
  have vl: "fresh_list (VisitedList_new (\<lambda>n. - 1) 8) (storage_vertices g)"
    using vl_new_ok [of "\<lambda>n. - 1" 8] by (auto simp: fresh_list_def v word_less_nat_alt)
  have d: "\<forall>i. \<not> is_nan (query_dist ?p demo_flatten i)"
    using demo_env [of KNN_SEARCH] by (simp add: search_env_def query_dist_def)
  have full: "full_knn ?p (storage_vertices g) (\<lambda>s :: unit. (True, s))"
    using card3 by (simp add: full_knn_def demo_param_def never_skips_def v)
  have ef: "0 < p_ef ?p" "p_topk ?p \<le> p_ef ?p" "unat (p_ef ?p) = 10" "unat (p_topk ?p) = 2" "p_ep ?p = 2"
    by (simp_all add: demo_param_def)
  have few: "card {i \<in> connected g (p_ep ?p). check_func ?p i} \<le> unat (p_ef ?p)"
  proof -
    have "{i \<in> connected g (p_ep ?p). check_func ?p i} \<subseteq> {i. i < 3}" using connected_inside [OF closed ep] v by auto
    then have "card {i \<in> connected g (p_ep ?p). check_func ?p i} \<le> card {i :: InnerIdType. i < 3}" by (intro card_mono) simp_all
    then show ?thesis using card3 ef(3) by linarith
  qed
  have "check_func ?p = (\<lambda>i. i \<noteq> 2)" by (simp add: fun_eq_iff check_func_def attr_ft_def demo_param_def)
  note res = storage_search_nearest [OF ok closed ep d vl full ef(1,2) few, of "\<lambda>i. Inr []" "()" None None, unfolded this ef(4,5)]
  then obtain out where out: "BasicSearcher_Search ?p (Some (storage_ops (\<lambda>i. Inr []) g)) (Some demo_flatten)
        (\<lambda>s. (True, s)) (VisitedList_new (\<lambda>n. - 1) 8) () None None = Inr out"
      "distinct (map snd (queue (so_results out)))"
      "\<forall>r \<in> set (queue (so_results out)). snd r \<in> connected g 2 \<and> snd r \<noteq> 2 \<and> fst r = query_dist ?p demo_flatten (snd r)"
      "length (queue (so_results out)) = min 2 (card {i \<in> connected g 2. i \<noteq> 2})"
    by (elim exE conjE)
  show ?thesis by (rule exI [of _ g], rule exI [of _ h], rule exI [of _ out]) (intro conjI h(1) g_def out)
qed

end
