(* ===== verification/PruningStrategy.thy ===== *)
theory PruningStrategy
  imports SearchProperties SparseGraph
begin

text \<open>
  The choice of edges when a vertex is linked into a graph:
  \<^verbatim>\<open>src/src/impl/pruning_strategy.{h,cpp}\<close>. \<open>select_edges_by_heuristic\<close> keeps, in order of distance,
  the candidates that are nearer to the new vertex than to every candidate picks before, scaled by
  \<open>alpha\<close>; \<open>mutually_connect_new_element\<close> links the new vertex to the picks candidates and back, pruning
  the list of a neighbour that is full. The distance between two stored vectors,
  \<open>flatten->ComputePairVectors\<close>, is the argument \<open>pair_dist\<close>, and the graph is its \<open>GetNeighbors\<close> and
  \<open>InsertNeighborsById\<close>. Locks are left out.
\<close>

section \<open>Multiplication of distances\<close>

text \<open>
  Multiplication rounded to nearest, ties to even: the product of two multiples of the least
  positive value counts units of \<open>2 ^ -149\<close> of it.
\<close>

definition round_product :: "nat \<Rightarrow> nat" where
  "round_product u =
     (let e = floor_log2 u - 172; q = u div 2 ^ (149 + e); r = u mod 2 ^ (149 + e);
          q = (if 2 * r > 2 ^ (149 + e) \<or> 2 * r = 2 ^ (149 + e) \<and> odd q then q + 1 else q) in
      min (q + e * 2 ^ 23) 0x7F800000)"

definition float_mul :: "float32 \<Rightarrow> float32 \<Rightarrow> float32" where
  "float_mul x y =
     (let negative = (bit x 31 \<noteq> bit y 31); signed = (\<lambda>m :: float32. if negative then float_neg m else m) in
      if is_nan x \<or> is_nan y then 0x7FC00000
      else if is_inf x \<or> is_inf y then
        (if take_bit 31 x = 0 \<or> take_bit 31 y = 0 then 0x7FC00000 else signed 0x7F800000)
      else signed (word_of_nat (round_product (nat \<bar>float_units x\<bar> * nat \<bar>float_units y\<bar>))))"

section \<open>Operations\<close>

function move_negated :: "StandardHeap \<Rightarrow> StandardHeap \<Rightarrow> StandardHeap result" where
  "move_negated edges queue_closest =
     (if queue edges = [] then Inr queue_closest
      else
        bind_r (StandardHeap_Top edges) (\<lambda>t.
        bind_r (StandardHeap_Push True False queue_closest (float_neg (fst t)) (snd t)) (\<lambda>queue_closest.
        bind_r (StandardHeap_Pop True edges) (\<lambda>edges. move_negated edges queue_closest))))"
  by pat_completeness auto
termination
  by (relation "measure (\<lambda>(edges, c). length (queue edges))") (auto simp: StandardHeap_Pop_def split: if_splits)

declare move_negated.simps [simp del]

fun is_good :: "(InnerIdType \<Rightarrow> InnerIdType \<Rightarrow> float32) \<Rightarrow> float32 \<Rightarrow> DistanceRecord \<Rightarrow> DistanceRecord list \<Rightarrow> bool" where
  "is_good pair_dist alpha current [] = True"
| "is_good pair_dist alpha current (second_pair # return_list) =
     (if float_lt (float_mul alpha (pair_dist (snd second_pair) (snd current))) (float_neg (fst current)) then False
      else is_good pair_dist alpha current return_list)"

function select_loop ::
    "(InnerIdType \<Rightarrow> InnerIdType \<Rightarrow> float32) \<Rightarrow> float32 \<Rightarrow> u64 \<Rightarrow> StandardHeap \<Rightarrow> DistanceRecord list \<Rightarrow> DistanceRecord list result" where
  "select_loop pair_dist alpha max_size queue_closest return_list =
     (if queue queue_closest = [] then Inr return_list
      else if length return_list \<ge> unat max_size then Inr return_list
      else
        bind_r (StandardHeap_Top queue_closest) (\<lambda>current.
        bind_r (StandardHeap_Pop True queue_closest) (\<lambda>queue_closest.
          select_loop pair_dist alpha max_size queue_closest
            (if is_good pair_dist alpha current return_list then return_list @ [current] else return_list))))"
  by pat_completeness auto
termination
  by (relation "measure (\<lambda>(d, a, m, h, r). length (queue h))") (auto simp: StandardHeap_Pop_def split: if_splits)

declare select_loop.simps [simp del]

fun push_records :: "DistanceRecord list \<Rightarrow> StandardHeap \<Rightarrow> StandardHeap result" where
  "push_records [] h = Inr h"
| "push_records (r # rs) h = bind_r (StandardHeap_Push True False h (fst r) (snd r)) (push_records rs)"

definition select_edges_by_heuristic ::
    "(InnerIdType \<Rightarrow> InnerIdType \<Rightarrow> float32) \<Rightarrow> float32 \<Rightarrow> u64 \<Rightarrow> StandardHeap \<Rightarrow> StandardHeap result" where
  "select_edges_by_heuristic pair_dist alpha max_size edges =
     (if length (queue edges) < unat max_size then Inr edges
      else
        bind_r (move_negated edges (StandardHeap_new (- 1))) (\<lambda>queue_closest.
        bind_r (select_loop pair_dist alpha max_size queue_closest []) (\<lambda>return_list.
          push_records (map (\<lambda>r. (float_neg (fst r), snd r)) return_list) (edges\<lparr>queue := []\<rparr>))))"

function drain_heap :: "StandardHeap \<Rightarrow> DistanceRecord list result" where
  "drain_heap h =
     (if queue h = [] then Inr []
      else
        bind_r (StandardHeap_Top h) (\<lambda>t.
        bind_r (StandardHeap_Pop True h) (\<lambda>h. bind_r (drain_heap h) (\<lambda>rs. Inr (t # rs)))))"
  by pat_completeness auto
termination
  by (relation "measure (\<lambda>h. length (queue h))") (auto simp: StandardHeap_Pop_def split: if_splits)

declare drain_heap.simps [simp del]

definition select_neighbors_by_heuristic ::
    "(InnerIdType \<Rightarrow> InnerIdType \<Rightarrow> float32) \<Rightarrow> float32 \<Rightarrow> u64 \<Rightarrow> InnerIdType \<Rightarrow> InnerIdType list \<Rightarrow> InnerIdType list result" where
  "select_neighbors_by_heuristic pair_dist alpha max_size node_id ns =
     bind_r (push_records (map (\<lambda>n. (pair_dist node_id n, n)) ns) (StandardHeap_new (- 1))) (\<lambda>edges.
     bind_r (select_edges_by_heuristic pair_dist alpha max_size edges) (\<lambda>edges.
     bind_r (drain_heap edges) (\<lambda>rs. Inr (map snd rs))))"

definition link_back ::
    "('g \<Rightarrow> InnerIdType \<Rightarrow> InnerIdType list \<Rightarrow> InnerIdType list result) \<Rightarrow> ('g \<Rightarrow> InnerIdType \<Rightarrow> InnerIdType list \<Rightarrow> 'g result) \<Rightarrow>
     (InnerIdType \<Rightarrow> InnerIdType \<Rightarrow> float32) \<Rightarrow> float32 \<Rightarrow> u64 \<Rightarrow> InnerIdType \<Rightarrow> InnerIdType \<Rightarrow> 'g \<Rightarrow> 'g result" where
  "link_back get ins pair_dist alpha max_size cur_c selected_neighbor g =
     (if selected_neighbor = cur_c then Inl (Vsag INTERNAL_ERROR)
      else
        bind_r (get g selected_neighbor []) (\<lambda>ns.
        if length ns > unat max_size then Inl (Vsag INTERNAL_ERROR)
        else if length ns < unat max_size then ins g selected_neighbor (ns @ [cur_c])
        else
          bind_r (push_records ((pair_dist cur_c selected_neighbor, cur_c) #
                    map (\<lambda>n. (pair_dist n selected_neighbor, n)) ns) (StandardHeap_new (- 1))) (\<lambda>candidates.
          bind_r (select_edges_by_heuristic pair_dist alpha max_size candidates) (\<lambda>candidates.
          bind_r (drain_heap candidates) (\<lambda>rs. ins g selected_neighbor (map snd rs))))))"

fun link_all ::
    "('g \<Rightarrow> InnerIdType \<Rightarrow> InnerIdType list \<Rightarrow> InnerIdType list result) \<Rightarrow> ('g \<Rightarrow> InnerIdType \<Rightarrow> InnerIdType list \<Rightarrow> 'g result) \<Rightarrow>
     (InnerIdType \<Rightarrow> InnerIdType \<Rightarrow> float32) \<Rightarrow> float32 \<Rightarrow> u64 \<Rightarrow> InnerIdType \<Rightarrow> InnerIdType list \<Rightarrow> 'g \<Rightarrow> 'g result" where
  "link_all get ins pair_dist alpha max_size cur_c [] g = Inr g"
| "link_all get ins pair_dist alpha max_size cur_c (s # selected) g =
     bind_r (link_back get ins pair_dist alpha max_size cur_c s g) (link_all get ins pair_dist alpha max_size cur_c selected)"

definition mutually_connect_new_element ::
    "('g \<Rightarrow> InnerIdType \<Rightarrow> InnerIdType list \<Rightarrow> InnerIdType list result) \<Rightarrow> ('g \<Rightarrow> InnerIdType \<Rightarrow> InnerIdType list \<Rightarrow> 'g result) \<Rightarrow>
     ('g \<Rightarrow> u32) \<Rightarrow> (InnerIdType \<Rightarrow> InnerIdType \<Rightarrow> float32) \<Rightarrow> float32 \<Rightarrow> InnerIdType \<Rightarrow> StandardHeap \<Rightarrow> 'g \<Rightarrow> (InnerIdType \<times> 'g) result" where
  "mutually_connect_new_element get ins degree pair_dist alpha cur_c cands g =
     (let max_size = ucast (degree g) in
      bind_r (select_edges_by_heuristic pair_dist alpha max_size cands) (\<lambda>cands.
      if length (queue cands) > unat max_size then Inl (Vsag INTERNAL_ERROR)
      else
        bind_r (drain_heap cands) (\<lambda>rs.
        let selected_neighbors = map snd rs in
        if selected_neighbors = [] then Inl UndefinedBehaviour
        else
          (let next_closest_entry_point = last selected_neighbors in
           bind_r (ins g cur_c selected_neighbors) (\<lambda>g.
           bind_r (link_all get ins pair_dist alpha max_size cur_c selected_neighbors g) (\<lambda>g.
             Inr (next_closest_entry_point, g)))))))"

section \<open>Draining and refilling heaps\<close>

lemma float_neg_neg [simp]: "float_neg (float_neg x) = x"
  by (simp add: float_neg_def ac_simps)

abbreviation neg_record :: "DistanceRecord \<Rightarrow> DistanceRecord" where
  "neg_record r \<equiv> (float_neg (fst r), snd r)"

lemma neg_record_neg: "neg_record (neg_record r) = r"
  by simp

lemma heap_ok_proper: "heap_ok h \<Longrightarrow> r \<in># entries h \<Longrightarrow> \<not> is_nan (fst r)"
  by (auto simp: sh_inv_def proper_def)

lemma heap_split:
  assumes "heap_ok h" and "queue h \<noteq> []"
  obtains h' where "StandardHeap_Top h = Inr (hd (queue h))" and "StandardHeap_Pop True h = Inr h'" and "heap_ok h'"
    and "entries h = add_mset (hd (queue h)) (entries h')" and "length (queue h) = Suc (length (queue h'))"
    and "\<forall>x \<in># entries h'. key x \<le> key (hd (queue h))" and "\<not> is_nan (fst (hd (queue h)))"
proof -
  obtain h' where h': "StandardHeap_Pop True h = Inr h'" "heap_ok h'" "entries h' = entries h - {#hd (queue h)#}"
    by (rule heap_pop [OF assms])
  have eq: "entries h = add_mset (hd (queue h)) (entries h')" using h'(3) heap_top(2) [OF assms] by simp
  moreover have "length (queue h) = Suc (length (queue h'))" using arg_cong [OF eq, of size] by simp
  moreover have "\<forall>x \<in># entries h'. key x \<le> key (hd (queue h))" using heap_top(3) [OF assms] eq by simp
  ultimately show thesis using that h'(1,2) heap_top(1,4) [OF assms] by blast
qed

lemma move_negated_ok:
  assumes "heap_ok h" and "heap_ok c"
  shows "\<exists>c'. move_negated h c = Inr c' \<and> heap_ok c' \<and> entries c' = entries c + image_mset neg_record (entries h)"
  using assms
proof (induction "length (queue h)" arbitrary: h c)
  case 0
  then show ?case by (simp add: move_negated.simps)
next
  case (Suc n)
  then have ne: "queue h \<noteq> []" by auto
  obtain h' where h': "StandardHeap_Top h = Inr (hd (queue h))" "StandardHeap_Pop True h = Inr h'" "heap_ok h'"
      "entries h = add_mset (hd (queue h)) (entries h')" "length (queue h) = Suc (length (queue h'))"
      "\<not> is_nan (fst (hd (queue h)))"
    by (rule heap_split [OF Suc.prems(1) ne])
  obtain c1 where c1: "StandardHeap_Push True False c (float_neg (fst (hd (queue h)))) (snd (hd (queue h))) = Inr c1" "heap_ok c1"
      "entries c1 = add_mset (neg_record (hd (queue h))) (entries c)"
    by (rule heap_push [OF Suc.prems(2), of "float_neg (fst (hd (queue h)))" "snd (hd (queue h))"]) (use h'(6) in simp)
  have "n = length (queue h')" using Suc.hyps(2) h'(5) by simp
  from Suc.hyps(1) [OF this h'(3) c1(2)] show ?case
    using ne h'(1,2,4) c1(1,3) by (subst move_negated.simps) auto
qed

lemma push_records_ok:
  assumes "heap_ok h" and "\<forall>r \<in> set rs. \<not> is_nan (fst r)"
  shows "\<exists>h'. push_records rs h = Inr h' \<and> heap_ok h' \<and> entries h' = entries h + mset rs"
  using assms
proof (induction rs arbitrary: h)
  case (Cons r rs)
  obtain h1 where h1: "StandardHeap_Push True False h (fst r) (snd r) = Inr h1" "heap_ok h1"
      "entries h1 = add_mset (fst r, snd r) (entries h)"
    by (rule heap_push [OF Cons.prems(1), of "fst r" "snd r"]) (use Cons.prems(2) in simp)
  then show ?case using Cons.IH [OF h1(2)] Cons.prems(2) by auto
qed simp

lemma push_new_ok:
  assumes "\<forall>r \<in> set rs. \<not> is_nan (fst r)"
  obtains h where "push_records rs (StandardHeap_new n) = Inr h" and "heap_ok h" and "entries h = mset rs"
  using push_records_ok [OF heap_new(1) assms, of n] unfolding heap_new(2) by auto

lemma drain_heap_ok:
  assumes "heap_ok h"
  shows "\<exists>rs. drain_heap h = Inr rs \<and> mset rs = entries h \<and> sorted (rev (map key rs))"
  using assms
proof (induction "length (queue h)" arbitrary: h)
  case 0
  then show ?case by (simp add: drain_heap.simps)
next
  case (Suc n)
  then have ne: "queue h \<noteq> []" by auto
  obtain h' where h': "StandardHeap_Top h = Inr (hd (queue h))" "StandardHeap_Pop True h = Inr h'" "heap_ok h'"
      "entries h = add_mset (hd (queue h)) (entries h')" "length (queue h) = Suc (length (queue h'))"
      "\<forall>x \<in># entries h'. key x \<le> key (hd (queue h))"
    by (rule heap_split [OF Suc.prems ne])
  have "n = length (queue h')" using Suc.hyps(2) h'(5) by simp
  from Suc.hyps(1) [OF this h'(3)] obtain rs where rs: "drain_heap h' = Inr rs" "mset rs = entries h'" "sorted (rev (map key rs))"
    by blast
  have "drain_heap h = Inr (hd (queue h) # rs)" using ne h'(1,2) rs(1) by (subst drain_heap.simps) simp
  moreover have "\<forall>x \<in> set rs. key x \<le> key (hd (queue h))" using h'(6) rs(2) by (metis set_mset_mset)
  ultimately show ?case using rs(2,3) h'(4) by (auto simp: sorted_append)
qed

section \<open>The greedy choice\<close>

text \<open>The candidate \<open>c\<close> is not too close to the chosen \<open>s\<close>.\<close>

definition apart :: "(InnerIdType \<Rightarrow> InnerIdType \<Rightarrow> float32) \<Rightarrow> float32 \<Rightarrow> DistanceRecord \<Rightarrow> DistanceRecord \<Rightarrow> bool" where
  "apart pair_dist alpha s c \<longleftrightarrow> \<not> float_lt (float_mul alpha (pair_dist (snd s) (snd c))) (fst c)"

fun greedy :: "('r \<Rightarrow> 'r \<Rightarrow> bool) \<Rightarrow> nat \<Rightarrow> 'r list \<Rightarrow> 'r list \<Rightarrow> 'r list" where
  "greedy far k [] sel = sel"
| "greedy far k (c # cs) sel =
     (if k \<le> length sel then sel
      else greedy far k cs (if \<forall>s \<in> set sel. far s c then sel @ [c] else sel))"

lemma is_good_iff: "is_good pair_dist alpha c rs \<longleftrightarrow> (\<forall>s \<in> set rs. apart pair_dist alpha (neg_record s) (neg_record c))"
  by (induction rs) (auto simp: apart_def)

lemma select_loop_ok:
  assumes "heap_ok h"
  shows "\<exists>cs. select_loop pair_dist alpha k h (map neg_record sel) =
      Inr (map neg_record (greedy (apart pair_dist alpha) (unat k) cs sel)) \<and>
    image_mset neg_record (entries h) = mset cs \<and> sorted (map key cs)"
  using assms
proof (induction "length (queue h)" arbitrary: h sel)
  case 0
  then show ?case by (intro exI [of _ "[]"]) (simp add: select_loop.simps)
next
  case (Suc n)
  then have ne: "queue h \<noteq> []" by auto
  obtain h' where h': "StandardHeap_Top h = Inr (hd (queue h))" "StandardHeap_Pop True h = Inr h'" "heap_ok h'"
      "entries h = add_mset (hd (queue h)) (entries h')" "length (queue h) = Suc (length (queue h'))"
      "\<forall>x \<in># entries h'. key x \<le> key (hd (queue h))"
    by (rule heap_split [OF Suc.prems ne])
  define c where "c = neg_record (hd (queue h))"
  have c: "neg_record c = hd (queue h)" by (simp add: c_def)
  define sel' where "sel' = (if \<forall>s \<in> set sel. apart pair_dist alpha s c then sel @ [c] else sel)"
  have good: "(if is_good pair_dist alpha (hd (queue h)) (map neg_record sel) then map neg_record sel @ [hd (queue h)]
      else map neg_record sel) = map neg_record sel'"
    unfolding is_good_iff using c by (auto simp: sel'_def c_def)
  have "n = length (queue h')" using Suc.hyps(2) h'(5) by simp
  from Suc.hyps(1) [OF this h'(3), of sel'] obtain cs where cs:
      "select_loop pair_dist alpha k h' (map neg_record sel') = Inr (map neg_record (greedy (apart pair_dist alpha) (unat k) cs sel'))"
      "image_mset neg_record (entries h') = mset cs" "sorted (map key cs)"
    by blast
  have "key c \<le> key x" if "x \<in> set cs" for x
  proof -
    have "x \<in># image_mset neg_record (entries h')" using that cs(2) by simp
    then show ?thesis using h'(6) by (auto simp: c_def)
  qed
  then have "sorted (map key (c # cs))" using cs(3) by simp
  moreover have "image_mset neg_record (entries h) = mset (c # cs)" using h'(4) cs(2) by (simp add: c_def)
  moreover have "select_loop pair_dist alpha k h (map neg_record sel) =
      Inr (map neg_record (greedy (apart pair_dist alpha) (unat k) (c # cs) sel))"
    using ne h'(1,2) cs(1) good by (subst select_loop.simps) (simp add: sel'_def)
  ultimately show ?case by blast
qed

text \<open>
  The specification of the choice of at most \<open>k\<close> of the candidates \<open>M\<close>: all when there are fewer than \<open>k\<close>, and
  otherwise a diverse choice whose every rejected candidate is beyond a full choice or too close to a
  chosen one that is not farther.
\<close>

definition chosen :: "('r \<Rightarrow> 'r \<Rightarrow> bool) \<Rightarrow> ('r \<Rightarrow> int) \<Rightarrow> nat \<Rightarrow> 'r multiset \<Rightarrow> 'r list \<Rightarrow> bool" where
  "chosen far weight k M picks \<longleftrightarrow>
     mset picks \<subseteq># M \<and> length picks \<le> k \<and> sorted (map weight picks) \<and>
     (if size M < k then mset picks = M
      else sorted_wrt far picks \<and>
        (\<forall>c \<in># M - mset picks. (length picks = k \<and> (\<forall>s \<in> set picks. weight s \<le> weight c)) \<or>
           (\<exists>s \<in> set picks. weight s \<le> weight c \<and> \<not> far s c)))"

lemma greedy_extends: "set sel \<subseteq> set (greedy far k cs sel)"
  by (induction far k cs sel rule: greedy.induct) (auto split: if_splits)

lemma greedy_order:
  assumes "length sel \<le> k" and "sorted_wrt far sel" and "sorted (map weight (sel @ cs))"
  shows "mset (greedy far k cs sel) \<subseteq># mset (sel @ cs) \<and> length (greedy far k cs sel) \<le> k \<and>
    sorted_wrt far (greedy far k cs sel) \<and> sorted (map weight (greedy far k cs sel))"
  using assms
proof (induction far k cs sel rule: greedy.induct)
  case (2 far k c cs sel)
  show ?case
  proof (cases "k \<le> length sel")
    case True
    then show ?thesis using 2(2-4) by (simp add: sorted_append)
  next
    case False
    let ?sel = "if \<forall>s \<in> set sel. far s c then sel @ [c] else sel"
    have "mset (greedy far k cs ?sel) \<subseteq># mset (?sel @ cs) \<and> length (greedy far k cs ?sel) \<le> k \<and>
        sorted_wrt far (greedy far k cs ?sel) \<and> sorted (map weight (greedy far k cs ?sel))"
      using False 2(2-4) by (intro 2(1)) (auto simp: sorted_append sorted_wrt_append)
    moreover have "mset (?sel @ cs) \<subseteq># mset (sel @ c # cs)" by simp
    ultimately have "mset (greedy far k cs ?sel) \<subseteq># mset (sel @ c # cs) \<and> length (greedy far k cs ?sel) \<le> k \<and>
        sorted_wrt far (greedy far k cs ?sel) \<and> sorted (map weight (greedy far k cs ?sel))"
      by (meson subset_mset.order_trans)
    then show ?thesis using False by (simp del: mset_append mset.simps)
  qed
qed (simp add: sorted_append)

lemma greedy_dropped:
  assumes "length sel \<le> k" and "sorted_wrt far sel" and "sorted (map weight (sel @ cs))" and "c \<in># mset (sel @ cs) - mset (greedy far k cs sel)"
  shows "(length (greedy far k cs sel) = k \<and> (\<forall>s \<in> set (greedy far k cs sel). weight s \<le> weight c)) \<or>
    (\<exists>s \<in> set (greedy far k cs sel). weight s \<le> weight c \<and> \<not> far s c)"
  using assms
proof (induction far k cs sel rule: greedy.induct)
  case (2 far k x cs sel)
  show ?case
  proof (cases "k \<le> length sel")
    case True
    then show ?thesis using 2(2-5) by (auto simp: sorted_append)
  next
    case False
    let ?sel = "if \<forall>s \<in> set sel. far s x then sel @ [x] else sel"
    have ok: "length ?sel \<le> k" "sorted_wrt far ?sel" "sorted (map weight (?sel @ cs))"
      using False 2(2-4) by (auto simp: sorted_append sorted_wrt_append)
    have sub: "mset (greedy far k cs ?sel) \<subseteq># mset (?sel @ cs)" using greedy_order [OF ok] by blast
    show ?thesis
    proof (cases "c \<in># mset (?sel @ cs) - mset (greedy far k cs ?sel)")
      case True
      then show ?thesis using 2(1) [OF False ok] False by simp
    next
      case out: False
      then have bad: "\<not> (\<forall>s \<in> set sel. far s x)" 
        using 2(5) False by (cases "\<forall>s \<in> set sel. far s x") simp_all
      have "mset (sel @ x # cs) - mset (greedy far k cs sel) = add_mset x (mset (sel @ cs) - mset (greedy far k cs sel))"
        using sub bad multiset_diff_union_assoc [of "mset (greedy far k cs sel)" "mset (sel @ cs)" "{#x#}"] by auto
      moreover have "c \<notin># mset (sel @ cs) - mset (greedy far k cs sel)" using out bad by (auto split: if_splits)
      ultimately have c: "c = x" using 2(5) False bad by auto
      with bad obtain s where "s \<in> set sel" "\<not> far s c" by blast
      then show ?thesis using greedy_extends [of sel far k cs] 2(4) bad c False by (auto simp: sorted_append)
    qed
  qed
qed simp

lemma greedy_chosen:
  assumes "sorted (map weight cs)" and "k \<le> length cs"
  shows "chosen far weight k (mset cs) (greedy far k cs [])"
  using greedy_order [of "[]" k far weight cs] greedy_dropped [of "[]" k far weight cs] assms by (simp add: chosen_def)

lemma chosen_nearest:
  assumes ch: "chosen far weight k M picks" and "M \<noteq> {#}" and "0 < k"
  shows "picks \<noteq> []" and "c \<in># M \<Longrightarrow> weight (hd picks) \<le> weight c"
proof -
  have drop: "(length picks = k \<and> (\<forall>s \<in> set picks. weight s \<le> weight c)) \<or> (\<exists>s \<in> set picks. weight s \<le> weight c)"
    if "c \<in># M - mset picks" for c
    using ch that by (auto simp: chosen_def split: if_splits)
  show ne: "picks \<noteq> []"
  proof
    assume "picks = []"
    moreover obtain c where "c \<in># M" using assms(2) by blast
    ultimately show False using drop [of c] \<open>0 < k\<close> by simp
  qed
  have hd: "weight (hd picks) \<le> weight s" if "s \<in> set picks" for s
    using ch that ne by (cases picks) (auto simp: chosen_def)
  show "weight (hd picks) \<le> weight c" if c: "c \<in># M"
  proof (cases "c \<in> set picks")
    case False
    then have "c \<in># M - mset picks" using c by (simp add: in_diff_count count_eq_zero_iff [THEN iffD2])
    then show ?thesis using drop [of c] hd hd_in_set [OF ne] order_trans by blast
  qed (rule hd)
qed

lemma select_edges_chosen:
  assumes "heap_ok edges"
  shows "\<exists>edges' picks. select_edges_by_heuristic pair_dist alpha k edges = Inr edges' \<and> heap_ok edges' \<and>
    entries edges' = mset picks \<and> chosen (apart pair_dist alpha) key (unat k) (entries edges) picks"
proof (cases "length (queue edges) < unat k")
  case True
  have "chosen (apart pair_dist alpha) key (unat k) (entries edges) (sort_key key (queue edges))"
    using True by (simp add: chosen_def)
  moreover have "select_edges_by_heuristic pair_dist alpha k edges = Inr edges" using True by (simp add: select_edges_by_heuristic_def)
  ultimately show ?thesis using assms by (metis mset_sort)
next
  case False
  obtain c where c: "move_negated edges (StandardHeap_new (- 1)) = Inr c" "heap_ok c" "entries c = image_mset neg_record (entries edges)"
    using move_negated_ok [OF assms heap_new(1)] by (auto simp: heap_new)
  obtain cs where cs: "select_loop pair_dist alpha k c [] = Inr (map neg_record (greedy (apart pair_dist alpha) (unat k) cs []))"
      "image_mset neg_record (entries c) = mset cs" "sorted (map key cs)"
    using select_loop_ok [OF c(2), of pair_dist alpha k "[]"] by auto
  let ?picks = "greedy (apart pair_dist alpha) (unat k) cs []"
  have eq: "mset cs = entries edges" using cs(2) c(3) by (simp add: multiset.map_comp o_def del: mset_map)
  have len: "unat k \<le> length cs" using arg_cong [OF eq, of size] False by simp
  have ch: "chosen (apart pair_dist alpha) key (unat k) (entries edges) ?picks"
    using greedy_chosen [OF cs(3) len] by (simp add: eq)
  then have "\<forall>r \<in> set ?picks. \<not> is_nan (fst r)"
    using heap_ok_proper [OF assms] mset_subset_eqD by (fastforce simp: chosen_def)
  moreover have "heap_ok (edges\<lparr>queue := []\<rparr>)" using heap_new(1) by (simp add: sh_inv_def heap_new)
  ultimately obtain h where h: "push_records ?picks (edges\<lparr>queue := []\<rparr>) = Inr h" "heap_ok h" "entries h = mset ?picks"
    using push_records_ok [of "edges\<lparr>queue := []\<rparr>" ?picks] by auto
  have "map (\<lambda>r. neg_record r) (map neg_record ?picks) = ?picks" by (simp add: o_def)
  then have "select_edges_by_heuristic pair_dist alpha k edges = Inr h"
    using False c(1) cs(1) h(1) by (simp add: select_edges_by_heuristic_def)
  then show ?thesis using h(2,3) ch by blast
qed

section \<open>Linking a vertex\<close>

text \<open>The distances of the vertices \<open>xs\<close> to \<open>s\<close>, as the candidates for the list of \<open>s\<close>.\<close>

abbreviation dist_to :: "(InnerIdType \<Rightarrow> InnerIdType \<Rightarrow> float32) \<Rightarrow> InnerIdType \<Rightarrow> InnerIdType list \<Rightarrow> DistanceRecord list" where
  "dist_to pair_dist s xs \<equiv> map (\<lambda>n. (pair_dist n s, n)) xs"

text \<open>The list \<open>ns\<close> is what linking \<open>cur\<close> makes of the list \<open>old\<close> of \<open>s\<close>, in a graph of degree \<open>k\<close>.\<close>

definition linked ::
    "(InnerIdType \<Rightarrow> InnerIdType \<Rightarrow> float32) \<Rightarrow> float32 \<Rightarrow> nat \<Rightarrow> InnerIdType \<Rightarrow> InnerIdType \<Rightarrow> InnerIdType list \<Rightarrow> InnerIdType list \<Rightarrow> bool" where
  "linked pair_dist alpha k cur s old ns \<longleftrightarrow>
     (if length old < k then ns = old @ [cur]
      else \<exists>picks. mset ns = mset (map snd picks) \<and>
        chosen (apart pair_dist alpha) key k (mset (dist_to pair_dist s (cur # old))) picks)"

lemma linked_subset: "linked pair_dist alpha k cur s old ns \<Longrightarrow> set ns \<subseteq> insert cur (set old)"
proof (cases "length old < k")
  case False
  assume "linked pair_dist alpha k cur s old ns"
  then obtain picks where p: "mset ns = mset (map snd picks)" "mset picks \<subseteq># mset (dist_to pair_dist s (cur # old))"
    using False by (auto simp: linked_def chosen_def)
  have "mset ns \<subseteq># mset (map snd (dist_to pair_dist s (cur # old)))"
    unfolding p(1) mset_map using image_mset_subseteq_mono [OF p(2), of snd] by simp
  then have "set_mset (mset ns) \<subseteq> set_mset (mset (cur # old))" by (intro set_mset_mono) (simp add: o_def)
  then show ?thesis by simp
qed (simp add: linked_def)

lemma linked_length: "linked pair_dist alpha k cur s old ns \<Longrightarrow> length ns \<le> k"
  unfolding linked_def chosen_def by (cases "length old < k") (auto dest!: mset_eq_length [of ns] simp del: mset_map)

text \<open>
  The choice as it leaves the heap, farthest first: the last record is a nearest candidate.
\<close>

definition drained_choice ::
    "(InnerIdType \<Rightarrow> InnerIdType \<Rightarrow> float32) \<Rightarrow> float32 \<Rightarrow> nat \<Rightarrow> DistanceRecord list \<Rightarrow> DistanceRecord list \<Rightarrow> bool" where
  "drained_choice pair_dist alpha k cands rs \<longleftrightarrow>
     rs \<noteq> [] \<and> sorted (rev (map key rs)) \<and> (\<forall>r \<in> set cands. key (last rs) \<le> key r) \<and>
     (\<exists>picks. mset rs = mset picks \<and> chosen (apart pair_dist alpha) key k (mset cands) picks)"

lemma drained_choiceD:
  assumes "drained_choice pair_dist alpha k cands rs"
  shows "rs \<noteq> []" and "length rs \<le> k" and "mset rs \<subseteq># mset cands"
  using assms by (auto simp: drained_choice_def chosen_def dest: mset_eq_length)

lemma distinct_map_sub:
  assumes "mset xs \<subseteq># mset ys" and "distinct (map f ys)"
  shows "distinct (map f xs)"
proof -
  have "mset (map f xs) \<subseteq># mset (map f ys)" unfolding mset_map by (rule image_mset_subseteq_mono [OF assms(1)])
  then have "count (mset (map f xs)) a \<le> 1" for a
    using mset_subset_eq_count [of "mset (map f xs)" "mset (map f ys)" a] assms(2)
    unfolding distinct_count_atmost_1 [of "map f ys"] by (metis le_trans zero_le_one order_refl)
  moreover have "0 < count (mset (map f xs)) a \<longleftrightarrow> a \<in> set (map f xs)" for a by (simp only: count_greater_zero_iff set_mset_mset)
  ultimately show ?thesis
    unfolding distinct_count_atmost_1 by (metis Suc_leI One_nat_def le_antisym neq0_conv)
qed

lemma select_drain_ok:
  assumes "heap_ok cands" and "queue cands \<noteq> []" and "0 < unat k"
  shows "\<exists>h' rs. select_edges_by_heuristic pair_dist alpha k cands = Inr h' \<and> drain_heap h' = Inr rs \<and>
    length (queue h') = length rs \<and> drained_choice pair_dist alpha (unat k) (queue cands) rs"
proof -
  obtain h' picks where h': "select_edges_by_heuristic pair_dist alpha k cands = Inr h'" "heap_ok h'" "entries h' = mset picks"
      "chosen (apart pair_dist alpha) key (unat k) (entries cands) picks"
    using select_edges_chosen [OF assms(1), of pair_dist alpha k] by blast
  obtain rs where rs: "drain_heap h' = Inr rs" "mset rs = mset picks" "sorted (rev (map key rs))"
    using drain_heap_ok [OF h'(2)] unfolding h'(3) by blast
  have "entries cands \<noteq> {#}" using assms(2) by simp
  note near = chosen_nearest [OF h'(4) this assms(3)]
  have ne: "rs \<noteq> []" using near(1) rs(2) by auto
  have "hd picks \<in> set rs" using hd_in_set [OF near(1)] mset_eq_setD [OF rs(2)] by simp
  then have "key (last rs) \<le> key (hd picks)" using rs(3) ne by (cases rs rule: rev_cases) (auto simp: sorted_append)
  then have "key (last rs) \<le> key r" if "r \<in> set (queue cands)" for r using near(2) [of r] that by simp
  moreover have "length (queue h') = length rs" using arg_cong [OF h'(3), of size] mset_eq_length [OF rs(2)] by simp
  ultimately show ?thesis using h'(1,4) rs ne unfolding drained_choice_def by blast
qed

context edge_store
begin

lemma link_back_ok:
  assumes inv: "inv g" and v: "valid g s" "valid g cur" and ne: "s \<noteq> cur" and k: "unat k = deg g"
    and nan: "\<forall>a b. \<not> is_nan (pair_dist a b)"
  shows "\<exists>g' ns. link_back get ins pair_dist alpha k cur s g = Inr g' \<and> inv g' \<and> nbrs g' = (nbrs g)(s := ns) \<and>
    deg g' = deg g \<and> valid g' = valid g \<and> linked pair_dist alpha (deg g) cur s (nbrs g s) ns"
proof -
  have get: "get g s [] = Inr (nbrs g s)" and len: "length (nbrs g s) \<le> deg g" by (rule get_ok [OF inv v(1)], rule nbrs_length [OF inv])
  have ins: "\<exists>g'. ins g s ns = Inr g' \<and> inv g' \<and> nbrs g' = (nbrs g)(s := ns) \<and> deg g' = deg g \<and> valid g' = valid g"
    if l: "linked pair_dist alpha (deg g) cur s (nbrs g s) ns" for ns
    by (rule ins_ok [OF inv v(1) _ linked_length [OF l]]) (use linked_subset [OF l] nbrs_valid [OF inv] v(2) in blast)
  show ?thesis
  proof (cases "length (nbrs g s) < deg g")
    case True
    then have "link_back get ins pair_dist alpha k cur s g = ins g s (nbrs g s @ [cur])"
      using ne k get len by (simp add: link_back_def)
    moreover have l: "linked pair_dist alpha (deg g) cur s (nbrs g s) (nbrs g s @ [cur])" using True by (simp add: linked_def)
    ultimately show ?thesis using ins [OF l] by metis
  next
    case False
    let ?rs = "dist_to pair_dist s (cur # nbrs g s)"
    obtain h where h: "push_records ?rs (StandardHeap_new (- 1)) = Inr h" "heap_ok h" "entries h = mset ?rs"
      by (rule push_new_ok [of ?rs "- 1"]) (use nan in simp)
    obtain h' picks where h': "select_edges_by_heuristic pair_dist alpha k h = Inr h'" "heap_ok h'" "entries h' = mset picks"
        "chosen (apart pair_dist alpha) key (unat k) (entries h) picks"
      using select_edges_chosen [OF h(2)] by blast
    obtain rs where rs: "drain_heap h' = Inr rs" "mset rs = entries h'" using drain_heap_ok [OF h'(2)] by blast
    have l: "linked pair_dist alpha (deg g) cur s (nbrs g s) (map snd rs)"
      unfolding linked_def using False h'(3,4) rs(2) k h(3) by (auto intro!: exI [of _ picks])
    have "link_back get ins pair_dist alpha k cur s g = ins g s (map snd rs)"
      using False ne k get len h(1) h'(1) rs(1) by (simp add: link_back_def)
    then show ?thesis using ins [OF l] l by metis
  qed
qed

lemma link_all_ok:
  assumes "inv g" and "\<forall>s \<in> set sel. valid g s \<and> s \<noteq> cur" and "valid g cur" and "unat k = deg g" and "distinct sel"
    and nan: "\<forall>a b. \<not> is_nan (pair_dist a b)"
  shows "\<exists>g'. link_all get ins pair_dist alpha k cur sel g = Inr g' \<and> inv g' \<and> deg g' = deg g \<and> valid g' = valid g \<and>
    (\<forall>s \<in> set sel. linked pair_dist alpha (deg g) cur s (nbrs g s) (nbrs g' s)) \<and> (\<forall>x. x \<notin> set sel \<longrightarrow> nbrs g' x = nbrs g x)"
  using assms(1-5)
proof (induction sel arbitrary: g)
  case (Cons s sel)
  from link_back_ok [OF Cons.prems(1) _ Cons.prems(3) _ Cons.prems(4) nan, of s] Cons.prems(2)
  obtain g1 ns where g1: "link_back get ins pair_dist alpha k cur s g = Inr g1" "inv g1" "nbrs g1 = (nbrs g)(s := ns)"
      "deg g1 = deg g" "valid g1 = valid g" "linked pair_dist alpha (deg g) cur s (nbrs g s) ns"
    by (metis list.set_intros(1))
  from Cons.IH [OF g1(2)] Cons.prems g1(3-5)
  obtain g' where g': "link_all get ins pair_dist alpha k cur sel g1 = Inr g'" "inv g'" "deg g' = deg g" "valid g' = valid g"
      "\<forall>s \<in> set sel. linked pair_dist alpha (deg g) cur s (nbrs g1 s) (nbrs g' s)" "\<forall>x. x \<notin> set sel \<longrightarrow> nbrs g' x = nbrs g1 x"
    by auto
  have "s \<notin> set sel" using Cons.prems(5) by simp
  then have "\<forall>x \<in> set (s # sel). linked pair_dist alpha (deg g) cur x (nbrs g x) (nbrs g' x)"
    using g'(5,6) g1(3,6) by (metis fun_upd_apply set_ConsD)
  then show ?case using g1(1,3) g' by auto
qed simp

lemma mutually_connect_ok:
  assumes inv: "inv g" and cur: "valid g cur" and deg: "unat (degree g) = deg g" "0 < deg g"
    and h: "heap_ok cands" "queue cands \<noteq> []" "distinct (map snd (queue cands))" "\<forall>r \<in> set (queue cands). valid g (snd r) \<and> snd r \<noteq> cur"
    and nan: "\<forall>a b. \<not> is_nan (pair_dist a b)"
  shows "\<exists>rs g'. mutually_connect_new_element get ins degree pair_dist alpha cur cands g = Inr (snd (last rs), g') \<and> inv g' \<and>
    drained_choice pair_dist alpha (deg g) (queue cands) rs \<and> nbrs g' cur = map snd rs \<and>
    (\<forall>s \<in> set (map snd rs). linked pair_dist alpha (deg g) cur s (nbrs g s) (nbrs g' s)) \<and>
    (\<forall>x. x \<notin> insert cur (set (map snd rs)) \<longrightarrow> nbrs g' x = nbrs g x)"
proof -
  let ?k = "ucast (degree g) :: u64"
  have k: "unat ?k = deg g" using deg(1) by (simp add: unat_ucast_u32_u64)
  obtain h' rs where h': "select_edges_by_heuristic pair_dist alpha ?k cands = Inr h'" "drain_heap h' = Inr rs"
      "length (queue h') = length rs" and rs: "drained_choice pair_dist alpha (deg g) (queue cands) rs"
    using select_drain_ok [OF h(1,2), of ?k pair_dist alpha] k deg(2) by auto
  have len: "length rs \<le> deg g" and ne: "rs \<noteq> []" and sub: "mset rs \<subseteq># mset (queue cands)"
    using drained_choiceD [OF rs] by blast+
  have dist: "distinct (map snd rs)" by (rule distinct_map_sub [OF sub h(3)])
  have "set rs \<subseteq> set (queue cands)" using set_mset_mono [OF sub] by simp
  then have vs: "\<forall>s \<in> set (map snd rs). valid g s \<and> s \<noteq> cur" using h(4) by auto
  obtain g1 where g1: "ins g cur (map snd rs) = Inr g1" "inv g1" "nbrs g1 = (nbrs g)(cur := map snd rs)" "deg g1 = deg g" "valid g1 = valid g"
    using ins_ok [OF inv cur, of "map snd rs"] vs len by auto
  have "\<exists>g'. link_all get ins pair_dist alpha ?k cur (map snd rs) g1 = Inr g' \<and> inv g' \<and> deg g' = deg g1 \<and> valid g' = valid g1 \<and>
      (\<forall>s \<in> set (map snd rs). linked pair_dist alpha (deg g1) cur s (nbrs g1 s) (nbrs g' s)) \<and>
      (\<forall>x. x \<notin> set (map snd rs) \<longrightarrow> nbrs g' x = nbrs g1 x)"
    by (rule link_all_ok [OF g1(2)]) (use vs cur k dist nan g1(4,5) in simp_all)
  then obtain g' where g': "link_all get ins pair_dist alpha ?k cur (map snd rs) g1 = Inr g'" "inv g'"
      "\<forall>s \<in> set (map snd rs). linked pair_dist alpha (deg g) cur s (nbrs g1 s) (nbrs g' s)"
      "\<forall>x. x \<notin> set (map snd rs) \<longrightarrow> nbrs g' x = nbrs g1 x"
    unfolding g1(4) by blast
  have "mutually_connect_new_element get ins degree pair_dist alpha cur cands g = Inr (snd (last rs), g')"
    using h' ne len k g1(1) g'(1) by (simp add: mutually_connect_new_element_def Let_def last_map)
  moreover have "nbrs g' cur = map snd rs" using g'(4) g1(3) vs by (metis fun_upd_same)
  moreover have "\<forall>s \<in> set (map snd rs). linked pair_dist alpha (deg g) cur s (nbrs g s) (nbrs g' s)"
    using g'(3) g1(3) vs by (metis fun_upd_other)
  moreover have "\<forall>x. x \<notin> insert cur (set (map snd rs)) \<longrightarrow> nbrs g' x = nbrs g x" using g'(4) g1(3) by simp
  ultimately show ?thesis using g'(2) rs by blast
qed

end

interpretation sparse_links: edge_store sg_inv sg_valid "\<lambda>g. unat (maximum_degree g)" sg_live
  SparseGraph_GetNeighbors SparseGraph_InsertNeighborsById
proof unfold_locales
  fix g :: "'d SparseGraphDataCell" and i ns
  assume g: "sg_inv g" and i: "sg_valid g i" and ns: "\<And>n. n \<in> set ns \<Longrightarrow> sg_valid g n" and len: "length ns \<le> unat (maximum_degree g)"
  show "\<exists>g'. SparseGraph_InsertNeighborsById g i ns = Inr g' \<and> sg_inv g' \<and> sg_live g' = (sg_live g)(i := ns) \<and>
      unat (maximum_degree g') = unat (maximum_degree g) \<and> sg_valid g' = sg_valid g"
    by (rule sg_insert_ok [OF g i ns len]) simp_all
next
  fix g :: "'d SparseGraphDataCell" and i
  assume "sg_inv g"
  then show "SparseGraph_GetNeighbors g i [] = Inr (sg_live g i)"
    by (cases "neighbors g i") (simp_all add: sg_GetNeighbors, simp add: sg_live_def)
next
  fix g :: "'d SparseGraphDataCell" and x y
  assume "sg_inv g" and "y \<in> set (sg_live g x)"
  then show "sg_valid g x \<and> sg_valid g y"
    using sg_stored_valid [of g y x] set_live_stored [of g x] by blast
qed (simp add: length_sg_live)

section \<open>Properties\<close>

text \<open>C6: \<open>select_edges_by_heuristic\<close> ends normally on every heap of proper distances. With fewer than \<open>max_size\<close>
  candidates it keeps them all, close ones included; otherwise it leaves a diverse choice: at most \<open>max_size\<close>, each of
  which is apart from all nearer ones chosen before it, and every rejected candidate is not nearer than
  any choice of a full set or is too close to a choice that is not farther than it.\<close>

theorem select_edges_diverse:
  assumes "sh_inv True False 0 edges"
  shows "\<exists>edges' picks. select_edges_by_heuristic pair_dist alpha max_size edges = Inr edges' \<and> sh_inv True False 0 edges' \<and>
    mset (queue edges') = mset picks \<and> chosen (apart pair_dist alpha) key (unat max_size) (mset (queue edges)) picks"
  by (rule select_edges_chosen [OF assms])

text \<open>Three candidates at distances 1, 2 and 3 that are at distance 1 from each other.\<close>

definition demo_edges :: "StandardHeap result" where
  "demo_edges = push_records [(0x3F800000, 5), (0x40000000, 6), (0x40400000, 7)] (StandardHeap_new (- 1))"

lemma demo_edges_ok:
  obtains h where "demo_edges = Inr h" and "heap_ok h" and "mset (queue h) = {#(0x3F800000, 5), (0x40000000, 6), (0x40400000, 7)#}"
proof -
  have ok: "\<forall>r \<in> set [(0x3F800000, 5), (0x40000000, 6), (0x40400000, 7 :: InnerIdType)]. \<not> is_nan (fst r)" by code_simp
  show thesis by (rule push_new_ok [OF ok, of "- 1"]) (rule that, simp_all add: demo_edges_def)
qed

theorem select_edges_diverse_witness:
  "\<exists>h h' picks. demo_edges = Inr h \<and> select_edges_by_heuristic (\<lambda>_ _. 0x3F800000) 0x3F800000 2 h = Inr h' \<and>
    mset (queue h') = mset picks \<and> length picks \<le> 2 \<and> mset picks \<subseteq># mset (queue h)"
proof -
  obtain h where h: "demo_edges = Inr h" "heap_ok h" by (rule demo_edges_ok)
  obtain h' picks where h': "select_edges_by_heuristic (\<lambda>_ _. 0x3F800000) 0x3F800000 2 h = Inr h'" "mset (queue h') = mset picks"
      "chosen (apart (\<lambda>_ _. 0x3F800000) 0x3F800000) key (unat (2 :: u64)) (mset (queue h)) picks"
    using select_edges_diverse [OF h(2)] by blast
  then have "length picks \<le> 2" "mset picks \<subseteq># mset (queue h)" by (simp_all add: chosen_def)
  then show ?thesis using h(1) h'(1,2) by blast
qed

text \<open>On a list of neighbours the choice is the same, delivered from the farthest to the nearest.\<close>

lemma select_neighbors_ok:
  assumes "\<forall>a b. \<not> is_nan (pair_dist a b)" and "ns \<noteq> []" and "0 < unat max_size"
  shows "\<exists>rs. select_neighbors_by_heuristic pair_dist alpha max_size node_id ns = Inr (map snd rs) \<and>
    drained_choice pair_dist alpha (unat max_size) (map (\<lambda>n. (pair_dist node_id n, n)) ns) rs"
proof -
  let ?rs = "map (\<lambda>n. (pair_dist node_id n, n)) ns"
  obtain h where h: "push_records ?rs (StandardHeap_new (- 1)) = Inr h" "heap_ok h" "entries h = mset ?rs"
    by (rule push_new_ok [of ?rs "- 1"]) (use assms(1) in simp)
  have ne: "queue h \<noteq> []" using mset_eq_length [OF h(3)] assms(2) by auto
  obtain h' rs where "select_edges_by_heuristic pair_dist alpha max_size h = Inr h'" "drain_heap h' = Inr rs"
      "drained_choice pair_dist alpha (unat max_size) (queue h) rs"
    using select_drain_ok [OF h(2) ne assms(3)] by blast
  moreover have "drained_choice pair_dist alpha (unat max_size) (queue h) rs = drained_choice pair_dist alpha (unat max_size) ?rs rs"
    unfolding drained_choice_def mset_eq_setD [OF h(3)] h(3) ..
  ultimately show ?thesis using h(1) by (intro exI [of _ rs]) (simp add: select_neighbors_by_heuristic_def)
qed

text \<open>C7: \<open>mutually_connect_new_element\<close> on a sparse graph with degree above 0 ends normally for a non-empty heap of
  distinct valid candidates that excludes the vertex: it keeps the invariant; the list of the vertex becomes
  the choice of \<open>select_edges_by_heuristic\<close> (all candidates when they are fewer than the maximum degree, otherwise
  the diverse choice), farthest first; the chosen get the vertex appended while they have room, otherwise a
  diverse choice of their old list and the vertex; all other lists stay; and the entry point returned is a
  nearest candidate, where the comment of the declaration promises the farthest selected one.\<close>

theorem connect_new_element:
  assumes "sg_inv g" and "sg_valid g cur" and "0 < maximum_degree g"
    and "sh_inv True False 0 cands" and "queue cands \<noteq> []" and "distinct (map snd (queue cands))"
    and "\<forall>r \<in> set (queue cands). sg_valid g (snd r) \<and> snd r \<noteq> cur" and "\<forall>a b. \<not> is_nan (pair_dist a b)"
  shows "\<exists>rs g'. mutually_connect_new_element SparseGraph_GetNeighbors SparseGraph_InsertNeighborsById maximum_degree
      pair_dist alpha cur cands g = Inr (snd (last rs), g') \<and> sg_inv g' \<and>
    drained_choice pair_dist alpha (unat (maximum_degree g)) (queue cands) rs \<and> sg_live g' cur = map snd rs \<and>
    (\<forall>s \<in> set (map snd rs). linked pair_dist alpha (unat (maximum_degree g)) cur s (sg_live g s) (sg_live g' s)) \<and>
    (\<forall>x. x \<notin> insert cur (set (map snd rs)) \<longrightarrow> sg_live g' x = sg_live g x)"
  by (rule sparse_links.mutually_connect_ok) (use assms in \<open>simp_all add: word_less_nat_alt\<close>)

theorem connect_new_element_witness:
  "\<exists>g h ep g'. sg_built = Inr g \<and> demo_edges = Inr h \<and>
    mutually_connect_new_element SparseGraph_GetNeighbors SparseGraph_InsertNeighborsById maximum_degree
      (\<lambda>_ _. 0x3F800000) 0x3F800000 4 h g = Inr (ep, g') \<and> sg_inv g' \<and> sg_live g' 3 = sg_live g 3"
proof -
  obtain g where g: "sg_built = Inr g" "sg_inv g" "unat (maximum_degree g) = 4" "\<forall>i. take_bit 24 i = i \<longrightarrow> sg_valid g i"
    by (rule sg_built_ok)
  obtain h where h: "demo_edges = Inr h" "heap_ok h" "mset (queue h) = {#(0x3F800000, 5), (0x40000000, 6), (0x40400000, 7)#}"
    by (rule demo_edges_ok)
  have eq: "mset (map snd (queue h)) = mset [5, 6, 7]" by (simp add: h(3))
  have ids: "distinct (map snd (queue h))" "snd ` set (queue h) = {5, 6, 7}"
    using mset_eq_imp_distinct_iff [OF eq] mset_eq_setD [OF eq] by simp_all
  have ok: "\<forall>r \<in> set (queue h). sg_valid g (snd r) \<and> snd r \<noteq> 4" 
  proof
    fix r
    assume "r \<in> set (queue h)"
    then have "snd r \<in> {5, 6, 7}" using ids(2) by blast
    then show "sg_valid g (snd r) \<and> snd r \<noteq> 4" using g(4) by auto
  qed
  have ne: "queue h \<noteq> []" and pos: "0 < maximum_degree g" and v: "sg_valid g 4" and num: "\<not> is_nan 0x3F800000"
    using h(3) g(3,4) by (auto simp: word_less_nat_alt is_nan_def)
  from connect_new_element [OF g(2) v pos h(2) ne ids(1) ok, of "\<lambda>_ _. 0x3F800000" "0x3F800000"] num
  obtain rs g' where r: "mutually_connect_new_element SparseGraph_GetNeighbors SparseGraph_InsertNeighborsById maximum_degree
      (\<lambda>_ _. 0x3F800000) 0x3F800000 4 h g = Inr (snd (last rs), g')" "sg_inv g'"
      "drained_choice (\<lambda>_ _. 0x3F800000) 0x3F800000 (unat (maximum_degree g)) (queue h) rs"
      "\<forall>x. x \<notin> insert 4 (set (map snd rs)) \<longrightarrow> sg_live g' x = sg_live g x"
    by blast
  have "set rs \<subseteq> set (queue h)" using set_mset_mono [OF drained_choiceD(3) [OF r(3)]] by simp
  then have "set (map snd rs) \<subseteq> {5, 6, 7}" unfolding set_map using ids(2) by blast
  then have "3 \<notin> insert 4 (set (map snd rs))" by auto
  then show ?thesis using r(1,2,4) g(1) h(1) by blast
qed

end
