(* ===== verification/ComputableBitset.thy ===== *)
theory ComputableBitset
  imports FastBitset
begin

text \<open>
  The bitsets the attribute index works with: \<^verbatim>\<open>src/src/impl/bitset/computable_bitset.{h,cpp}\<close>,
  the compressed bitset \<^verbatim>\<open>src/src/impl/bitset/sparse_bitset.{h,cpp}\<close>, and the groups of bitsets of
  \<^verbatim>\<open>src/src/attr/multi_bitset_manager.{h,cpp}\<close>.

  The compressed bitset wraps a \<open>Roaring\<close> bitmap of the CRoaring library, which is not part of the
  repository: it is the argument \<open>R\<close>, a record of the functions that are called, and \<open>roaring_laws\<close>
  says that they are the set operations their documentation promises. A virtual call is a case
  distinction on the object; \<open>reinterpret_cast\<close> to the wrong class is undefined behaviour.
\<close>

section \<open>State and operations\<close>

record 'r Roaring =
  r_empty :: 'r
  r_contains :: "'r \<Rightarrow> u32 \<Rightarrow> bool"
  r_add :: "'r \<Rightarrow> u32 \<Rightarrow> 'r"
  r_remove :: "'r \<Rightarrow> u32 \<Rightarrow> 'r"
  r_or :: "'r \<Rightarrow> 'r \<Rightarrow> 'r"
  r_and :: "'r \<Rightarrow> 'r \<Rightarrow> 'r"
  r_flip_closed :: "'r \<Rightarrow> u32 \<Rightarrow> u32 \<Rightarrow> 'r"
  r_minimum :: "'r \<Rightarrow> u32"
  r_maximum :: "'r \<Rightarrow> u32"

datatype ComputableBitsetType = SparseBitsetType | FastBitsetType

datatype 'r Bitset = Sparse 'r | Fast FastBitset

definition MakeRawInstance :: "'r Roaring \<Rightarrow> ComputableBitsetType \<Rightarrow> 'r Bitset" where
  "MakeRawInstance R t = (case t of SparseBitsetType \<Rightarrow> Sparse (r_empty R) | FastBitsetType \<Rightarrow> Fast FastBitset_new)"

text \<open>The position of a \<open>Roaring\<close> bitmap is the \<open>int64_t\<close> converted to \<open>uint32_t\<close>.\<close>

definition SparseBitset_Set :: "'r Roaring \<Rightarrow> 'r \<Rightarrow> int \<Rightarrow> bool \<Rightarrow> 'r" where
  "SparseBitset_Set R r pos v = (if v then r_add R r (word_of_int pos) else r_remove R r (word_of_int pos))"

definition SparseBitset_Test :: "'r Roaring \<Rightarrow> 'r \<Rightarrow> int \<Rightarrow> bool" where
  "SparseBitset_Test R r pos = r_contains R r (word_of_int pos)"

definition SparseBitset_Or_ptr :: "'r Roaring \<Rightarrow> 'r \<Rightarrow> 'r option \<Rightarrow> 'r" where
  "SparseBitset_Or_ptr R r another = (case another of None \<Rightarrow> r | Some a \<Rightarrow> r_or R r a)"

definition SparseBitset_Clear :: "'r Roaring \<Rightarrow> 'r \<Rightarrow> 'r" where
  "SparseBitset_Clear R r = r_empty R"

definition SparseBitset_And_ptr :: "'r Roaring \<Rightarrow> 'r \<Rightarrow> 'r option \<Rightarrow> 'r" where
  "SparseBitset_And_ptr R r another = (case another of None \<Rightarrow> SparseBitset_Clear R r | Some a \<Rightarrow> r_and R r a)"

definition SparseBitset_Not :: "'r Roaring \<Rightarrow> 'r \<Rightarrow> 'r" where
  "SparseBitset_Not R r = r_flip_closed R r (r_minimum R r) (r_maximum R r)"

fun Bitset_Set :: "'r Roaring \<Rightarrow> 'r Bitset \<Rightarrow> int \<Rightarrow> bool \<Rightarrow> 'r Bitset result" where
  "Bitset_Set R (Sparse r) pos v = Inr (Sparse (SparseBitset_Set R r pos v))"
| "Bitset_Set R (Fast s) pos v = bind_r (FastBitset_Set s pos v) (\<lambda>s. Inr (Fast s))"

fun Bitset_Test :: "'r Roaring \<Rightarrow> 'r Bitset \<Rightarrow> int \<Rightarrow> bool result" where
  "Bitset_Test R (Sparse r) pos = Inr (SparseBitset_Test R r pos)"
| "Bitset_Test R (Fast s) pos = FastBitset_Test s pos"

fun Bitset_Or :: "'r Roaring \<Rightarrow> 'r Bitset \<Rightarrow> 'r Bitset option \<Rightarrow> 'r Bitset result" where
  "Bitset_Or R (Sparse r) None = Inr (Sparse (SparseBitset_Or_ptr R r None))"
| "Bitset_Or R (Sparse r) (Some (Sparse a)) = Inr (Sparse (SparseBitset_Or_ptr R r (Some a)))"
| "Bitset_Or R (Fast s) None = bind_r (FastBitset_Or_ptr s None) (\<lambda>s. Inr (Fast s))"
| "Bitset_Or R (Fast s) (Some (Fast a)) = bind_r (FastBitset_Or_ptr s (Some a)) (\<lambda>s. Inr (Fast s))"
| "Bitset_Or R _ _ = Inl UndefinedBehaviour"

fun Bitset_And :: "'r Roaring \<Rightarrow> 'r Bitset \<Rightarrow> 'r Bitset option \<Rightarrow> 'r Bitset result" where
  "Bitset_And R (Sparse r) None = Inr (Sparse (SparseBitset_And_ptr R r None))"
| "Bitset_And R (Sparse r) (Some (Sparse a)) = Inr (Sparse (SparseBitset_And_ptr R r (Some a)))"
| "Bitset_And R (Fast s) None = bind_r (FastBitset_And_ptr s None) (\<lambda>s. Inr (Fast s))"
| "Bitset_And R (Fast s) (Some (Fast a)) = bind_r (FastBitset_And_ptr s (Some a)) (\<lambda>s. Inr (Fast s))"
| "Bitset_And R _ _ = Inl UndefinedBehaviour"

fun Bitset_Not :: "'r Roaring \<Rightarrow> 'r Bitset \<Rightarrow> 'r Bitset result" where
  "Bitset_Not R (Sparse r) = Inr (Sparse (SparseBitset_Not R r))"
| "Bitset_Not R (Fast s) = bind_r (FastBitset_Not s) (\<lambda>s. Inr (Fast s))"

fun Bitset_Clear :: "'r Roaring \<Rightarrow> 'r Bitset \<Rightarrow> 'r Bitset" where
  "Bitset_Clear R (Sparse r) = Sparse (SparseBitset_Clear R r)"
| "Bitset_Clear R (Fast s) = Fast (FastBitset_Clear s)"

section \<open>Bitsets as sets of ids\<close>

definition roaring_laws :: "'r Roaring \<Rightarrow> bool" where
  "roaring_laws R \<longleftrightarrow>
     (\<forall>x. \<not> r_contains R (r_empty R) x) \<and>
     (\<forall>r x y. r_contains R (r_add R r x) y \<longleftrightarrow> y = x \<or> r_contains R r y) \<and>
     (\<forall>r x y. r_contains R (r_remove R r x) y \<longleftrightarrow> y \<noteq> x \<and> r_contains R r y) \<and>
     (\<forall>r a y. r_contains R (r_or R r a) y \<longleftrightarrow> r_contains R r y \<or> r_contains R a y) \<and>
     (\<forall>r a y. r_contains R (r_and R r a) y \<longleftrightarrow> r_contains R r y \<and> r_contains R a y)"

fun cb_ok :: "ComputableBitsetType \<Rightarrow> 'r Bitset \<Rightarrow> bool" where
  "cb_ok SparseBitsetType (Sparse r) = True"
| "cb_ok FastBitsetType (Fast s) = fb_inv s"
| "cb_ok _ _ = False"

fun cb_mem :: "'r Roaring \<Rightarrow> 'r Bitset \<Rightarrow> u32 \<Rightarrow> bool" where
  "cb_mem R (Sparse r) i = r_contains R r i"
| "cb_mem R (Fast s) i = fb_mem s (unat i)"

lemma cb_okE:
  assumes "cb_ok t b"
  obtains r where "t = SparseBitsetType" and "b = Sparse r" | s where "t = FastBitsetType" and "b = Fast s" and "fb_inv s"
  using assms by (cases t; cases b) auto

text \<open>An id that every bitset can hold.\<close>

definition storable :: "u32 \<Rightarrow> bool" where
  "storable i \<longleftrightarrow> unat i < 2 ^ 32 - 64"

lemma Bitset_new_ok: "roaring_laws R \<Longrightarrow> cb_ok t (MakeRawInstance R t) \<and> cb_mem R (MakeRawInstance R t) = (\<lambda>_. False)"
  by (cases t) (auto simp: MakeRawInstance_def roaring_laws_def fun_eq_iff)

lemma Bitset_Clear_ok: "roaring_laws R \<Longrightarrow> cb_ok t b \<Longrightarrow> cb_ok t (Bitset_Clear R b) \<and> cb_mem R (Bitset_Clear R b) = (\<lambda>_. False)"
  by (auto simp: roaring_laws_def SparseBitset_Clear_def fun_eq_iff elim!: cb_okE)

lemma Bitset_Test_ok: "cb_ok t b \<Longrightarrow> Bitset_Test R b (uint i) = Inr (cb_mem R b i)"
  using FastBitset_Test_mem [of _ "unat i"] by (auto simp: SparseBitset_Test_def elim!: cb_okE)

lemma Bitset_Set_ok:
  assumes "roaring_laws R" and "cb_ok t b" and "storable i"
  shows "\<exists>b'. Bitset_Set R b (uint i) v = Inr b' \<and> cb_ok t b' \<and> cb_mem R b' = (cb_mem R b)(i := v)"
  using assms(2)
proof (cases rule: cb_okE)
  case (1 r)
  then show ?thesis using assms(1) by (auto simp: SparseBitset_Set_def roaring_laws_def fun_eq_iff)
next
  case (2 s)
  have "unat i < 2 ^ 32 - 64" using assms(3) by (simp add: storable_def)
  from FastBitset_Set_ok [OF 2(3) this, of v] obtain s' where
      "FastBitset_Set s (int (unat i)) v = Inr s'" "fb_inv s'" "fb_mem s' = (fb_mem s)(unat i := v)" .
  then show ?thesis using 2 by (auto simp: fun_eq_iff word_unat_eq_iff)
qed

lemma Bitset_Or_ok:
  assumes "roaring_laws R" and "cb_ok t b" and "pred_option (cb_ok t) p"
  shows "\<exists>b'. Bitset_Or R b p = Inr b' \<and> cb_ok t b' \<and> cb_mem R b' = (\<lambda>i. cb_mem R b i \<or> (case p of None \<Rightarrow> False | Some a \<Rightarrow> cb_mem R a i))"
  using assms(2)
proof (cases rule: cb_okE)
  case (1 r)
  then show ?thesis using assms(1,3) by (cases p) (auto simp: SparseBitset_Or_ptr_def roaring_laws_def fun_eq_iff elim!: cb_okE)
next
  case (2 s)
  then show ?thesis
    using fb.or_ok [OF 2(3), of None] fb.or_ok [OF 2(3), of "Some _"] assms(3)
    by (cases p) (fastforce simp: ptr_mem_def fun_eq_iff elim!: cb_okE)+
qed

lemma Bitset_And_ok:
  assumes "roaring_laws R" and "cb_ok t b" and "cb_ok t a"
  shows "\<exists>b'. Bitset_And R b (Some a) = Inr b' \<and> cb_ok t b' \<and> cb_mem R b' = (\<lambda>i. cb_mem R b i \<and> cb_mem R a i)"
  using assms(2)
proof (cases rule: cb_okE)
  case (1 r)
  then show ?thesis using assms(1,3) by (auto simp: SparseBitset_And_ptr_def roaring_laws_def fun_eq_iff elim!: cb_okE)
next
  case (2 s)
  then show ?thesis
    using fb.and_ok [OF 2(3), of "Some _"] assms(3) by (fastforce simp: ptr_mem_def fun_eq_iff elim!: cb_okE)
qed

lemma Bitset_Not_ok:
  assumes "cb_ok FastBitsetType b"
  shows "\<exists>b'. Bitset_Not R b = Inr b' \<and> cb_ok FastBitsetType b' \<and> cb_mem R b' = (\<lambda>i. \<not> cb_mem R b i)"
  using assms fb.not_ok by (fastforce simp: fun_eq_iff elim!: cb_okE)

section \<open>Groups of bitsets\<close>

text \<open>
  \<open>bitset_map_\<close> gives the position of the bitset of a bucket as an \<open>int16_t\<close>, -1 for none. Indexing with
  it converts to \<open>uint64_t\<close>, so that a negative position is far outside the vector.
\<close>

record 'r MultiBitsetManager =
  bitsets :: "'r Bitset list"
  bitset_map :: "u16 list"
  mb_count :: u64
  mb_bitset_type :: ComputableBitsetType

definition MultiBitsetManager_new :: "u64 \<Rightarrow> ComputableBitsetType \<Rightarrow> 'r MultiBitsetManager" where
  "MultiBitsetManager_new count t =
     \<lparr>bitsets = [], bitset_map = replicate (unat count) (- 1), mb_count = count, mb_bitset_type = t\<rparr>"

definition SetNewCount :: "'r MultiBitsetManager \<Rightarrow> u64 \<Rightarrow> 'r MultiBitsetManager result" where
  "SetNewCount m new_count =
     (if new_count \<le> mb_count m then Inr m
      else if unat new_count > (2 ^ 63 - 1) div 2 then Inl StdLengthError
      else Inr (m\<lparr>mb_count := new_count, bitset_map := vresize (unat new_count) (- 1) (bitset_map m)\<rparr>))"

definition bitset_at :: "'r MultiBitsetManager \<Rightarrow> u16 \<Rightarrow> 'r Bitset result" where
  "bitset_at m iid =
     (if sint iid < 0 \<or> length (bitsets m) \<le> nat (sint iid) then Inl UndefinedBehaviour
      else Inr (bitsets m ! nat (sint iid)))"

definition GetOneBitset :: "'r MultiBitsetManager \<Rightarrow> u64 \<Rightarrow> 'r Bitset option result" where
  "GetOneBitset m i =
     (if i \<ge> mb_count m then Inr None
      else if length (bitset_map m) \<le> unat i then Inl UndefinedBehaviour
      else
        (let iid = bitset_map m ! unat i in
         if iid = - 1 then Inr None else bind_r (bitset_at m iid) (\<lambda>b. Inr (Some b))))"

definition InsertValue :: "'r Roaring \<Rightarrow> 'r MultiBitsetManager \<Rightarrow> u64 \<Rightarrow> u64 \<Rightarrow> bool \<Rightarrow> 'r MultiBitsetManager result" where
  "InsertValue R m i offset v =
     bind_r (if i \<ge> mb_count m then SetNewCount m (i + 1) else Inr m) (\<lambda>m.
     if length (bitset_map m) \<le> unat i then Inl UndefinedBehaviour
     else
       (let iid = bitset_map m ! unat i;
            (iid, m) =
              (if iid = - 1 then
                 (let iid = word_of_nat (length (bitsets m)) in
                  (iid, m\<lparr>bitset_map := (bitset_map m)[unat i := iid],
                          bitsets := bitsets m @ [MakeRawInstance R (mb_bitset_type m)]\<rparr>))
               else (iid, m)) in
        bind_r (bitset_at m iid) (\<lambda>b.
        bind_r (Bitset_Set R b (sint offset) v) (\<lambda>b.
          Inr (m\<lparr>bitsets := (bitsets m)[nat (sint iid) := b]\<rparr>)))))"

fun write_bitsets :: "('r Bitset \<Rightarrow> byte list list result) \<Rightarrow> 'r Bitset list \<Rightarrow> byte list list result" where
  "write_bitsets ser [] = Inr []"
| "write_bitsets ser (b # bs) = bind_r (ser b) (\<lambda>out. bind_r (write_bitsets ser bs) (\<lambda>rest. Inr (out @ rest)))"

definition MultiBitsetManager_Serialize ::
    "('r Bitset \<Rightarrow> byte list list result) \<Rightarrow> 'r MultiBitsetManager \<Rightarrow> byte list list result" where
  "MultiBitsetManager_Serialize ser m =
     bind_r (write_bitsets ser (bitsets m)) (\<lambda>out.
       Inr (WriteObj (enc_u64 (mb_count m)) @ concat (map (\<lambda>i. WriteObj (enc_u16 i)) (bitset_map m)) @
            WriteObj (enc_u64 (word_of_nat (length (bitsets m)))) @ out))"

fun read_inner_ids :: "'s read_op \<Rightarrow> nat \<Rightarrow> 's \<Rightarrow> (u16 list \<times> 's) result" where
  "read_inner_ids rd 0 s = Inr ([], s)"
| "read_inner_ids rd (Suc n) s =
     bind_r (ReadObj rd 2 dec_u16 s) (\<lambda>(i, s). bind_r (read_inner_ids rd n s) (\<lambda>(is, s). Inr (i # is, s)))"

fun read_bitsets ::
    "('r Bitset \<Rightarrow> 's \<Rightarrow> ('r Bitset \<times> 's) result) \<Rightarrow> 'r Bitset \<Rightarrow> nat \<Rightarrow> 's \<Rightarrow> ('r Bitset list \<times> 's) result" where
  "read_bitsets deser b0 0 s = Inr ([], s)"
| "read_bitsets deser b0 (Suc n) s =
     bind_r (deser b0 s) (\<lambda>(b, s). bind_r (read_bitsets deser b0 n s) (\<lambda>(bs, s). Inr (b # bs, s)))"

definition MultiBitsetManager_Deserialize ::
    "'r Roaring \<Rightarrow> ('r Bitset \<Rightarrow> 's \<Rightarrow> ('r Bitset \<times> 's) result) \<Rightarrow> 's read_op \<Rightarrow> 'r MultiBitsetManager \<Rightarrow> 's \<Rightarrow>
     ('r MultiBitsetManager \<times> 's) result" where
  "MultiBitsetManager_Deserialize R deser rd m s =
     bind_r (ReadObj rd 8 dec_u64 s) (\<lambda>(count, s).
     if unat count > (2 ^ 63 - 1) div 2 then Inl StdLengthError
     else
       bind_r (read_inner_ids rd (unat count) s) (\<lambda>(ids, s).
       bind_r (ReadObj rd 8 dec_u64 s) (\<lambda>(size, s).
       if unat size > (2 ^ 63 - 1) div 8 then Inl StdLengthError
       else
         bind_r (read_bitsets deser (MakeRawInstance R (mb_bitset_type m)) (unat size) s) (\<lambda>(bs, s).
           Inr (m\<lparr>mb_count := count, bitset_map := ids, bitsets := bs\<rparr>, s)))))"

section \<open>A group is a family of sets\<close>

text \<open>
  Every entry of the map is -1 or a position of the vector, and no two buckets share a bitset.
\<close>

definition mb_ok :: "ComputableBitsetType \<Rightarrow> 'r MultiBitsetManager \<Rightarrow> bool" where
  "mb_ok t m \<longleftrightarrow>
     mb_bitset_type m = t \<and> length (bitset_map m) = unat (mb_count m) \<and> length (bitsets m) \<le> 2 ^ 15 \<and>
     (\<forall>b \<in> set (bitsets m). cb_ok t b) \<and>
     (\<forall>i < length (bitset_map m). bitset_map m ! i \<noteq> - 1 \<longrightarrow>
        0 \<le> sint (bitset_map m ! i) \<and> nat (sint (bitset_map m ! i)) < length (bitsets m)) \<and>
     (\<forall>i < length (bitset_map m). \<forall>j < length (bitset_map m).
        bitset_map m ! i \<noteq> - 1 \<and> bitset_map m ! i = bitset_map m ! j \<longrightarrow> i = j)"

definition mb_get :: "'r MultiBitsetManager \<Rightarrow> u64 \<Rightarrow> 'r Bitset option" where
  "mb_get m i =
     (if unat i < length (bitset_map m) \<and> bitset_map m ! unat i \<noteq> - 1
      then Some (bitsets m ! nat (sint (bitset_map m ! unat i))) else None)"

definition mb_mem :: "'r Roaring \<Rightarrow> 'r MultiBitsetManager \<Rightarrow> u64 \<Rightarrow> u32 \<Rightarrow> bool" where
  "mb_mem R m i x \<longleftrightarrow> (case mb_get m i of None \<Rightarrow> False | Some b \<Rightarrow> cb_mem R b x)"

lemma mb_okD:
  assumes "mb_ok t m"
  shows "mb_bitset_type m = t" and "length (bitset_map m) = unat (mb_count m)" and "length (bitsets m) \<le> 2 ^ 15"
    and "b \<in> set (bitsets m) \<Longrightarrow> cb_ok t b"
    and "i < length (bitset_map m) \<Longrightarrow> bitset_map m ! i \<noteq> - 1 \<Longrightarrow>
      0 \<le> sint (bitset_map m ! i) \<and> nat (sint (bitset_map m ! i)) < length (bitsets m)"
    and "i < length (bitset_map m) \<Longrightarrow> j < length (bitset_map m) \<Longrightarrow> bitset_map m ! i \<noteq> - 1 \<Longrightarrow> bitset_map m ! i = bitset_map m ! j \<Longrightarrow> i = j"
  using assms by (simp_all add: mb_ok_def)

lemma mb_ok_new: "mb_ok t (MultiBitsetManager_new count t)" "mb_mem R (MultiBitsetManager_new count t) = (\<lambda>_ _. False)"
  by (auto simp: mb_ok_def mb_mem_def mb_get_def MultiBitsetManager_new_def fun_eq_iff)

lemma GetOneBitset_ok:
  assumes "mb_ok t m"
  shows "GetOneBitset m i = Inr (mb_get m i)" and "pred_option (cb_ok t) (mb_get m i)"
  using mb_okD(2) [OF assms] mb_okD(5) [OF assms, of "unat i"] mb_okD(4) [OF assms]
  by (auto simp: GetOneBitset_def mb_get_def bitset_at_def Let_def word_le_nat_alt not_le)

lemma sint_u16: "n < 2 ^ 15 \<Longrightarrow> sint (word_of_nat n :: u16) = int n"
  by (simp add: signed_of_nat signed_take_bit_int_eq_self)

lemma u16_eq_iff: "(a :: u16) = b \<longleftrightarrow> sint a = sint b"
  by (auto intro: signed_word_eqI)

lemma sint_ucast_u32: "sint (ucast (x :: u32) :: u64) = uint x"
proof -
  have x: "0 \<le> uint x" "uint x < 4294967296" using unsigned_less [of x, where ?'a = int] by simp_all
  have "sint (ucast x :: u64) = signed_take_bit 63 (uint x)" using x by (simp add: sint_uint unsigned_ucast_eq take_bit_int_eq_self)
  also have "\<dots> = uint x" 
    by (rule signed_take_bit_int_eq_self) (rule order_trans [OF _ x(1)], simp, rule less_trans [OF x(2)], simp)
  finally show ?thesis .
qed

lemma SetNewCount_ok:
  assumes ok: "mb_ok t m" and i: "unat i < 2 ^ 62 - 1"
  shows "\<exists>m'. (if i \<ge> mb_count m then SetNewCount m (i + 1) else Inr m) = Inr m' \<and> mb_ok t m' \<and>
    mb_get m' = mb_get m \<and> unat i < length (bitset_map m') \<and> bitsets m' = bitsets m"
proof (cases "i \<ge> mb_count m")
  case True
  have u: "unat (i + 1) = unat i + 1" using i by (simp add: unat_word_ariths)
  let ?m = "m\<lparr>mb_count := i + 1, bitset_map := vresize (unat i + 1) (- 1) (bitset_map m)\<rparr>"
  have len: "length (bitset_map m) \<le> unat i" using True mb_okD(2) [OF ok] by (simp add: word_le_nat_alt)
  have "SetNewCount m (i + 1) = Inr ?m" using u True i by (simp add: SetNewCount_def word_le_nat_alt)
  moreover have nth: "vresize (unat i + 1) (- 1) (bitset_map m) ! k = (if k < length (bitset_map m) then bitset_map m ! k else - 1)"
    if "k < unat i + 1" for k
    using that by simp
  have "mb_ok t ?m"
    unfolding mb_ok_def using mb_okD [OF ok] u by (auto simp: nth)
  moreover have "mb_get ?m = mb_get m" using len by (auto simp: mb_get_def nth fun_eq_iff split: if_splits)
  ultimately show ?thesis using True by (intro exI [of _ ?m]) simp
next
  case False
  then have "unat i < length (bitset_map m)" using mb_okD(2) [OF ok] by (simp add: not_le word_less_nat_alt)
  then show ?thesis using False ok by simp
qed

text \<open>The bitset of a bucket, created when there is none.\<close>

definition with_bitset :: "'r Roaring \<Rightarrow> 'r MultiBitsetManager \<Rightarrow> u64 \<Rightarrow> u16 \<times> 'r MultiBitsetManager" where
  "with_bitset R m i =
     (if bitset_map m ! unat i = - 1 then
        (word_of_nat (length (bitsets m)),
         m\<lparr>bitset_map := (bitset_map m)[unat i := word_of_nat (length (bitsets m))],
           bitsets := bitsets m @ [MakeRawInstance R (mb_bitset_type m)]\<rparr>)
      else (bitset_map m ! unat i, m))"

lemma InsertValue_eq:
  "InsertValue R m i offset v =
     bind_r (if i \<ge> mb_count m then SetNewCount m (i + 1) else Inr m) (\<lambda>m.
     if length (bitset_map m) \<le> unat i then Inl UndefinedBehaviour
     else
       (let (iid, m) = with_bitset R m i in
        bind_r (bitset_at m iid) (\<lambda>b.
        bind_r (Bitset_Set R b (sint offset) v) (\<lambda>b.
          Inr (m\<lparr>bitsets := (bitsets m)[nat (sint iid) := b]\<rparr>)))))"
  by (simp add: InsertValue_def with_bitset_def Let_def cong: if_cong)

lemma with_bitset_ok:
  assumes R: "roaring_laws R" and ok: "mb_ok t m" and i: "unat i < length (bitset_map m)"
    and room: "mb_get m i \<noteq> None \<or> length (bitsets m) < 2 ^ 15"
  shows "\<exists>iid m'. with_bitset R m i = (iid, m') \<and> mb_ok t m' \<and> mb_mem R m' = mb_mem R m \<and>
    length (bitset_map m') = length (bitset_map m) \<and> bitset_map m' ! unat i = iid \<and> iid \<noteq> - 1"
proof (cases "bitset_map m ! unat i = - 1")
  case True
  let ?n = "length (bitsets m)" and ?b = "MakeRawInstance R (mb_bitset_type m)"
  let ?m = "m\<lparr>bitset_map := (bitset_map m)[unat i := word_of_nat ?n], bitsets := bitsets m @ [?b]\<rparr>"
  have n: "?n < 2 ^ 15" using room True i by (simp add: mb_get_def)
  have s: "sint (word_of_nat ?n :: u16) = int ?n" by (rule sint_u16 [OF n])
  have new: "cb_ok t ?b" "cb_mem R ?b = (\<lambda>_. False)" using Bitset_new_ok [OF R, of t] mb_okD(1) [OF ok] by auto
  have ne: "(word_of_nat ?n :: u16) \<noteq> - 1" using s by (metis of_nat_0_le_iff sint_n1 neg_0_le_iff_le not_one_le_zero)
  have old: "bitset_map m ! k \<noteq> word_of_nat ?n" if "k < length (bitset_map m)" "bitset_map m ! k \<noteq> - 1" for k
    using mb_okD(5) [OF ok that] s by auto
  have upd: "bitset_map ?m ! k = (if k = unat i then word_of_nat ?n else bitset_map m ! k)" for k
    using i by (cases "k = unat i") simp_all
  have pos: "0 \<le> sint (bitset_map ?m ! k) \<and> nat (sint (bitset_map ?m ! k)) < length (bitsets ?m)"
    if "k < length (bitset_map m)" "bitset_map ?m ! k \<noteq> - 1" for k
    using that mb_okD(5) [OF ok that(1)] s unfolding upd by (auto split: if_splits)
  have inj: "j = k" if "j < length (bitset_map m)" "k < length (bitset_map m)" "bitset_map ?m ! j \<noteq> - 1" "bitset_map ?m ! j = bitset_map ?m ! k" for j k
    using that mb_okD(6) [OF ok that(1,2)] old [OF that(1)] old [OF that(2)] unfolding upd by (auto split: if_splits)
  have "mb_ok t ?m"
    unfolding mb_ok_def using mb_okD(1-4) [OF ok] n new(1) pos inj by auto
  moreover have "mb_mem R ?m = mb_mem R m"
  proof (intro ext)
    fix j x
    show "mb_mem R ?m j x = mb_mem R m j x"
      using True i mb_okD(5) [OF ok, of "unat j"] new(2) s ne
      by (cases "unat j = unat i") (auto simp: mb_mem_def mb_get_def nth_append)
  qed
  ultimately show ?thesis
    using True i ne by (intro exI [of _ "word_of_nat ?n"] exI [of _ ?m]) (simp add: with_bitset_def)
next
  case False
  then show ?thesis using ok i by (intro exI [of _ "bitset_map m ! unat i"] exI [of _ m]) (simp add: with_bitset_def)
qed

lemma mb_ok_update:
  assumes "mb_ok t m" and "cb_ok t b"
  shows "mb_ok t (m\<lparr>bitsets := (bitsets m)[k := b]\<rparr>)"
proof -
  have "\<forall>b' \<in> set ((bitsets m)[k := b]). cb_ok t b'"
    using set_update_subset_insert [of "bitsets m" k b] mb_okD(4) [OF assms(1)] assms(2) by blast
  then show ?thesis using assms(1) by (auto simp: mb_ok_def)
qed

lemma mb_mem_update:
  assumes ok: "mb_ok t m" and i: "unat i < length (bitset_map m)" "bitset_map m ! unat i \<noteq> - 1"
    and b: "cb_mem R b = (cb_mem R (bitsets m ! nat (sint (bitset_map m ! unat i))))(x := v)"
  shows "mb_mem R (m\<lparr>bitsets := (bitsets m)[nat (sint (bitset_map m ! unat i)) := b]\<rparr>) = (mb_mem R m)(i := (mb_mem R m i)(x := v))"
proof (intro ext)
  fix j y
  let ?k = "nat (sint (bitset_map m ! unat i))"
  note k = mb_okD(5) [OF ok i]
  show "mb_mem R (m\<lparr>bitsets := (bitsets m)[?k := b]\<rparr>) j y = ((mb_mem R m)(i := (mb_mem R m i)(x := v))) j y"
  proof (cases "j = i")
    case True
    then show ?thesis using i k b by (simp add: mb_mem_def mb_get_def)
  next
    case False
    then have "nat (sint (bitset_map m ! unat j)) \<noteq> ?k" if "unat j < length (bitset_map m)" "bitset_map m ! unat j \<noteq> - 1"
      using mb_okD(5) [OF ok that] k mb_okD(6) [OF ok that(1) i(1) that(2)]
      by (auto simp: u16_eq_iff word_unat_eq_iff eq_nat_nat_iff)
    then show ?thesis using False by (auto simp: mb_mem_def mb_get_def)
  qed
qed

lemma InsertValue_ok:
  assumes R: "roaring_laws R" and ok: "mb_ok t m" and i: "unat i < 2 ^ 62 - 1" and x: "storable x"
    and room: "mb_get m i \<noteq> None \<or> length (bitsets m) < 2 ^ 15"
  shows "\<exists>m'. InsertValue R m i (ucast x) v = Inr m' \<and> mb_ok t m' \<and> mb_mem R m' = (mb_mem R m)(i := (mb_mem R m i)(x := v))"
proof -
  obtain m1 where m1: "(if i \<ge> mb_count m then SetNewCount m (i + 1) else Inr m) = Inr m1" "mb_ok t m1" "mb_get m1 = mb_get m"
      "unat i < length (bitset_map m1)" "bitsets m1 = bitsets m"
    using SetNewCount_ok [OF ok i] by blast
  have room1: "mb_get m1 i \<noteq> None \<or> length (bitsets m1) < 2 ^ 15" using room by (simp add: m1(3,5))
  obtain iid m2 where m2: "with_bitset R m1 i = (iid, m2)" "mb_ok t m2" "mb_mem R m2 = mb_mem R m1" "unat i < length (bitset_map m2)"
      "bitset_map m2 ! unat i = iid" "bitset_map m2 ! unat i \<noteq> - 1"
    using with_bitset_ok [OF R m1(2,4) room1] m1(4) by auto
  let ?k = "nat (sint iid)"
  have k: "0 \<le> sint iid" "?k < length (bitsets m2)" using mb_okD(5) [OF m2(2,4,6)] m2(5) by auto
  obtain b where b: "Bitset_Set R (bitsets m2 ! ?k) (uint x) v = Inr b" "cb_ok t b"
      "cb_mem R b = (cb_mem R (bitsets m2 ! ?k))(x := v)"
    using Bitset_Set_ok [OF R mb_okD(4) [OF m2(2) nth_mem [OF k(2)]] x] by blast
  then have "InsertValue R m i (ucast x) v = Inr (m2\<lparr>bitsets := (bitsets m2)[?k := b]\<rparr>)"
    using m1(1,4) m2(1) k sint_ucast_u32 [of x] by (simp add: InsertValue_eq bitset_at_def)
  moreover have "mb_mem R (m2\<lparr>bitsets := (bitsets m2)[?k := b]\<rparr>) = (mb_mem R m2)(i := (mb_mem R m2 i)(x := v))"
    using mb_mem_update [OF m2(2,4,6) b(3) [folded m2(5)]] by (simp only: m2(5))
  moreover have "mb_mem R m2 = mb_mem R m" unfolding m2(3) by (simp add: mb_mem_def m1(3) fun_eq_iff)
  ultimately show ?thesis using mb_ok_update [OF m2(2) b(2)] by simp
qed

text \<open>
  A group whose buckets are below \<open>2 ^ 15\<close> and that has no unused bitset always has room.
\<close>

definition mb_small :: "'r MultiBitsetManager \<Rightarrow> bool" where
  "mb_small m \<longleftrightarrow> length (bitset_map m) \<le> 2 ^ 15 \<and> length (bitsets m) = length (filter (\<lambda>i. i \<noteq> - 1) (bitset_map m))"

lemma mb_small_new: "mb_small (MultiBitsetManager_new 1 t)"
  by (simp add: mb_small_def MultiBitsetManager_new_def)

lemma mb_small_room:
  assumes "mb_small m" and "unat i < length (bitset_map m)" and "bitset_map m ! unat i = - 1"
  shows "length (bitsets m) < 2 ^ 15"
proof -
  have "bitset_map m ! unat i \<in> set (bitset_map m)" using assms(2) by simp
  then have "length (filter (\<lambda>i. i \<noteq> - 1) (bitset_map m)) < length (bitset_map m)"
    using assms(3) length_filter_less [of "bitset_map m ! unat i" "bitset_map m" "\<lambda>i. i \<noteq> - 1"] by simp
  then show ?thesis using assms(1) by (simp add: mb_small_def)
qed

lemma SetNewCount_small:
  assumes "mb_small m" and "unat i < 2 ^ 15" and "(if i \<ge> mb_count m then SetNewCount m (i + 1) else Inr m) = Inr m'"
    and "length (bitset_map m) = unat (mb_count m)"
  shows "mb_small m'"
proof (cases "i \<ge> mb_count m \<and> \<not> i + 1 \<le> mb_count m")
  case True
  have u: "unat (i + 1) = unat i + 1" using assms(2) by (simp add: unat_word_ariths)
  have "filter (\<lambda>i. i \<noteq> - 1) (vresize (unat i + 1) (- 1) (bitset_map m)) = filter (\<lambda>i. i \<noteq> - 1) (bitset_map m)"
    using True assms(4) by (simp add: vresize_def word_le_nat_alt)
  then show ?thesis using True assms(1-3) u by (auto simp: SetNewCount_def mb_small_def split: if_splits)
next
  case False
  then show ?thesis using assms(1,3) by (auto simp: SetNewCount_def split: if_splits)
qed

lemma InsertValue_small:
  assumes R: "roaring_laws R" and ok: "mb_ok t m" "mb_small m" and i: "unat i < 2 ^ 15" and x: "storable x"
  shows "\<exists>m'. InsertValue R m i (ucast x) v = Inr m' \<and> mb_ok t m' \<and> mb_small m' \<and> mb_mem R m' = (mb_mem R m)(i := (mb_mem R m i)(x := v))"
proof -
  have i62: "unat i < 2 ^ 62 - 1" using i by simp
  obtain m1 where m1: "(if i \<ge> mb_count m then SetNewCount m (i + 1) else Inr m) = Inr m1" "mb_ok t m1" "mb_get m1 = mb_get m"
      "unat i < length (bitset_map m1)" "bitsets m1 = bitsets m"
    using SetNewCount_ok [OF ok(1) i62] by blast
  have s1: "mb_small m1" by (rule SetNewCount_small [OF ok(2) i m1(1) mb_okD(2) [OF ok(1)]])
  have room: "mb_get m i \<noteq> None \<or> length (bitsets m) < 2 ^ 15"
    using mb_small_room [OF s1 m1(4)] m1(4,5) unfolding m1(3) [symmetric] by (auto simp: mb_get_def)
  then obtain m' where m': "InsertValue R m i (ucast x) v = Inr m'" "mb_ok t m'" "mb_mem R m' = (mb_mem R m)(i := (mb_mem R m i)(x := v))"
    using InsertValue_ok [OF R ok(1) i62 x] by blast
  obtain iid m2 where m2: "with_bitset R m1 i = (iid, m2)" "bitset_map m2 ! unat i = iid" "iid \<noteq> - 1" "unat i < length (bitset_map m2)"
    using with_bitset_ok [OF R m1(2,4), unfolded m1(3,5), OF room] m1(4) by auto
  have "mb_small m2"
    using m2 s1 m1(4) length_filter_update [of "unat i" "bitset_map m1" "\<lambda>i. i \<noteq> - 1" iid]
    by (auto simp: with_bitset_def mb_small_def split: if_splits)
  moreover have "\<exists>bs. m' = m2\<lparr>bitsets := bs\<rparr> \<and> length bs = length (bitsets m2)"
    using m'(1) m1(1,4) m2(1) by (auto simp: InsertValue_eq bind_r_eq_Inr_iff)
  ultimately have "mb_small m'" by (auto simp: mb_small_def)
  then show ?thesis using m' by blast
qed

text \<open>Clearing a bit in the bitset of a bucket, if it has one.\<close>

definition erase_one :: "'r Roaring \<Rightarrow> 'r MultiBitsetManager \<Rightarrow> u64 \<Rightarrow> u32 \<Rightarrow> 'r MultiBitsetManager result" where
  "erase_one R m i x =
     bind_r (GetOneBitset m i) (\<lambda>p.
       case p of None \<Rightarrow> Inr m
       | Some b \<Rightarrow> bind_r (Bitset_Set R b (uint x) False) (\<lambda>b.
           Inr (m\<lparr>bitsets := (bitsets m)[nat (sint (bitset_map m ! unat i)) := b]\<rparr>)))"

lemma erase_one_ok:
  assumes R: "roaring_laws R" and ok: "mb_ok t m" "mb_small m" and x: "storable x"
  shows "\<exists>m'. erase_one R m i x = Inr m' \<and> mb_ok t m' \<and> mb_small m' \<and> mb_mem R m' = (mb_mem R m)(i := (mb_mem R m i)(x := False))"
proof (cases "mb_get m i")
  case None
  then show ?thesis using ok GetOneBitset_ok(1) [OF ok(1)] by (auto simp: erase_one_def mb_mem_def fun_eq_iff)
next
  case (Some b)
  then have i: "unat i < length (bitset_map m)" "bitset_map m ! unat i \<noteq> - 1" and b: "b = bitsets m ! nat (sint (bitset_map m ! unat i))"
    by (auto simp: mb_get_def split: if_splits)
  let ?k = "nat (sint (bitset_map m ! unat i))"
  have k: "?k < length (bitsets m)" using mb_okD(5) [OF ok(1) i] by simp
  obtain b' where b': "Bitset_Set R b (uint x) False = Inr b'" "cb_ok t b'" "cb_mem R b' = (cb_mem R b)(x := False)"
    using Bitset_Set_ok [OF R mb_okD(4) [OF ok(1) nth_mem [OF k]] x] b by blast
  have "erase_one R m i x = Inr (m\<lparr>bitsets := (bitsets m)[?k := b']\<rparr>)"
    using Some b'(1) GetOneBitset_ok(1) [OF ok(1)] by (simp add: erase_one_def)
  moreover have "mb_ok t (m\<lparr>bitsets := (bitsets m)[?k := b']\<rparr>)" by (rule mb_ok_update [OF ok(1) b'(2)])
  moreover have "mb_mem R (m\<lparr>bitsets := (bitsets m)[?k := b']\<rparr>) = (mb_mem R m)(i := (mb_mem R m i)(x := False))"
    using mb_mem_update [OF ok(1) i b'(3) [unfolded b]] .
  ultimately show ?thesis using ok(2) by (simp add: mb_small_def)
qed

section \<open>Properties\<close>

text \<open>C36: a group of bitsets is a family of sets indexed by bucket: \<open>InsertValue\<close> with an id below \<open>2 ^ 32 - 64\<close> changes the
  membership of that id in that bucket only, for old and new buckets and both kinds of bitset, as long as
  fewer than \<open>2 ^ 15\<close> buckets have a bitset; \<open>GetOneBitset\<close> never leaves the vectors.\<close>

theorem multi_bitset_insert:
  assumes "roaring_laws R" and "mb_ok t m" and "unat i < 2 ^ 62 - 1" and "storable x" and "length (bitsets m) < 2 ^ 15"
  shows "\<exists>m'. InsertValue R m i (ucast x) v = Inr m' \<and> mb_ok t m' \<and>
    (\<forall>j. \<exists>p. GetOneBitset m' j = Inr p \<and>
      (\<forall>y. (case p of None \<Rightarrow> False | Some b \<Rightarrow> Bitset_Test R b (uint y) = Inr True) \<longleftrightarrow>
        (if j = i \<and> y = x then v else mb_mem R m j y)))"
proof -
  obtain m' where m': "InsertValue R m i (ucast x) v = Inr m'" "mb_ok t m'" "mb_mem R m' = (mb_mem R m)(i := (mb_mem R m i)(x := v))"
    using InsertValue_ok [OF assms(1-4)] assms(5) by blast
  have "(case mb_get m' j of None \<Rightarrow> False | Some b \<Rightarrow> Bitset_Test R b (uint y) = Inr True) \<longleftrightarrow> mb_mem R m' j y" for j y
    using GetOneBitset_ok(2) [OF m'(2), of j] Bitset_Test_ok [of t _ R] by (cases "mb_get m' j") (auto simp: mb_mem_def)
  moreover have "mb_mem R m' j y \<longleftrightarrow> (if j = i \<and> y = x then v else mb_mem R m j y)" for j y by (simp add: m'(3))
  ultimately show ?thesis using m'(1,2) GetOneBitset_ok(1) [OF m'(2)] by blast
qed

text \<open>A bitmap that satisfies the laws: a list of members.\<close>

definition list_roaring :: "u32 list Roaring" where
  "list_roaring = \<lparr>r_empty = [], r_contains = (\<lambda>r x. x \<in> set r), r_add = (\<lambda>r x. x # r), r_remove = (\<lambda>r x. filter (\<lambda>y. y \<noteq> x) r),
     r_or = (@), r_and = (\<lambda>r a. filter (\<lambda>y. y \<in> set a) r),
     r_flip_closed = (\<lambda>r a b. filter (\<lambda>x. x \<notin> set r) (map word_of_nat [unat a..<unat b + 1])),
     r_minimum = (\<lambda>r. fold min r (- 1)), r_maximum = (\<lambda>r. fold max r 0)\<rparr>"

lemma list_roaring_laws: "roaring_laws list_roaring"
  by (auto simp: roaring_laws_def list_roaring_def)

theorem multi_bitset_insert_witness:
  "\<exists>m'. InsertValue list_roaring (MultiBitsetManager_new 1 SparseBitsetType) 7 (ucast (42 :: u32)) True = Inr m' \<and>
    (\<exists>p. GetOneBitset m' 7 = Inr p \<and> p \<noteq> None)"
proof -
  have st: "storable 42" and l: "length (bitsets (MultiBitsetManager_new 1 SparseBitsetType)) < 2 ^ 15"
    by (simp_all add: storable_def MultiBitsetManager_new_def)
  have "unat (7 :: u64) < 2 ^ 62 - 1" by simp
  from multi_bitset_insert [OF list_roaring_laws mb_ok_new(1) this st l, of True]
  obtain m' p where "InsertValue list_roaring (MultiBitsetManager_new 1 SparseBitsetType) 7 (ucast (42 :: u32)) True = Inr m'"
      "GetOneBitset m' 7 = Inr p" "case p of None \<Rightarrow> False | Some b \<Rightarrow> Bitset_Test list_roaring b (uint (42 :: u32)) = Inr True"
    by metis
  then show ?thesis by (cases p) auto
qed

text \<open>C40: the bound on the number of buckets is needed: when \<open>2 ^ 15\<close> buckets have a bitset, inserting into a new bucket
  stores the position 32768 as the \<open>int16_t\<close> -32768 and the vector is indexed far outside its elements.\<close>

theorem multi_bitset_overflow:
  assumes "mb_ok t m" and "length (bitsets m) = 2 ^ 15" and "unat i < 2 ^ 62 - 1" and "GetOneBitset m i = Inr None"
  shows "InsertValue R m i x v = Inl UndefinedBehaviour"
proof -
  obtain m1 where m1: "(if i \<ge> mb_count m then SetNewCount m (i + 1) else Inr m) = Inr m1" "mb_ok t m1" "mb_get m1 = mb_get m"
      "unat i < length (bitset_map m1)" "bitsets m1 = bitsets m"
    using SetNewCount_ok [OF assms(1,3)] by blast
  have "mb_get m1 i = None" using assms(4) GetOneBitset_ok(1) [OF assms(1)] m1(3) by simp
  then have "bitset_map m1 ! unat i = - 1" using m1(4) by (auto simp: mb_get_def split: if_splits)
  moreover have "sint (word_of_nat (2 ^ 15) :: u16) < 0" by code_simp
  ultimately show ?thesis
    using m1(1,4,5) assms(2) by (simp add: InsertValue_eq with_bitset_def bitset_at_def)
qed

text \<open>A group in which the buckets 0 to 32767 have a bitset.\<close>

definition full_group :: "u32 list MultiBitsetManager" where
  "full_group = \<lparr>bitsets = replicate 32768 (Sparse []), bitset_map = map word_of_nat [0..<32768], mb_count = 32768,
     mb_bitset_type = SparseBitsetType\<rparr>"

theorem multi_bitset_overflow_witness: "InsertValue list_roaring full_group 32768 5 True = Inl UndefinedBehaviour"
proof (rule multi_bitset_overflow)
  have s: "sint (word_of_nat i :: u16) = int i" if "i < 32768" for i using sint_u16 [of i] that by simp
  show "mb_ok SparseBitsetType full_group"
    unfolding mb_ok_def full_group_def by (auto simp: u16_eq_iff s)
qed (simp_all add: full_group_def GetOneBitset_def)

end
