(* ===== verification/AttributeIndex.thy ===== *)
theory AttributeIndex
  imports ComputableBitset "HOL-Library.AList"
begin

text \<open>
  The inverted index over attributes: \<^verbatim>\<open>src/include/vsag/attribute.h\<close>,
  \<^verbatim>\<open>src/src/attr/attr_type_schema.{h,cpp}\<close>, \<^verbatim>\<open>src/src/attr/attr_value_map.{h,cpp}\<close>,
  \<^verbatim>\<open>src/src/datacell/attribute_inverted_interface.h\<close> and
  \<^verbatim>\<open>src/src/datacell/attribute_bucket_inverted_datacell.{h,cpp}\<close>.

  For every field, type and value the index keeps a group of bitsets, one for each bucket, with the ids
  that carry the value. The nine maps of \<open>AttrValueMap\<close>, which \<open>get_map_by_type\<close> selects by the type of the
  value, are a function from types to maps. An \<open>UnorderedMap\<close> is an association list in the order of its
  iteration. A \<open>shared_ptr\<close> is an option, a call on a null pointer is undefined behaviour. The mutex is
  left out, each operation is a step.
\<close>

section \<open>Attributes\<close>

text \<open>\<open>Unnamed\<close> stands for the values of the enumeration type that have no name.\<close>

datatype AttrValueType = INT32 | UINT32 | INT64 | UINT64 | INT8 | UINT8 | INT16 | UINT16 | STRING | is_Unnamed: Unnamed u64

fun type_code :: "AttrValueType \<Rightarrow> u64" where
  "type_code INT32 = 1" | "type_code UINT32 = 2" | "type_code INT64 = 3" | "type_code UINT64 = 4" | "type_code INT8 = 5"
| "type_code UINT8 = 6" | "type_code INT16 = 7" | "type_code UINT16 = 8" | "type_code STRING = 9" | "type_code (Unnamed n) = n"

definition type_of_code :: "u64 \<Rightarrow> AttrValueType" where
  "type_of_code c =
     (case map_of (map (\<lambda>t. (type_code t, t)) [INT32, UINT32, INT64, UINT64, INT8, UINT8, INT16, UINT16, STRING]) c of
        Some t \<Rightarrow> t | None \<Rightarrow> Unnamed c)"

fun type_bits :: "AttrValueType \<Rightarrow> nat" where
  "type_bits INT32 = 32" | "type_bits UINT32 = 32" | "type_bits INT64 = 64" | "type_bits UINT64 = 64" | "type_bits INT8 = 8"
| "type_bits UINT8 = 8" | "type_bits INT16 = 16" | "type_bits UINT16 = 16" | "type_bits _ = 0"

definition is_signed :: "AttrValueType \<Rightarrow> bool" where
  "is_signed t \<longleftrightarrow> t \<in> {INT8, INT16, INT32, INT64}"

definition is_integer :: "AttrValueType \<Rightarrow> bool" where
  "is_integer t \<longleftrightarrow> type_bits t \<noteq> 0"

definition type_min :: "AttrValueType \<Rightarrow> int" where
  "type_min t = (if is_signed t then - (2 ^ (type_bits t - 1)) else 0)"

definition type_max :: "AttrValueType \<Rightarrow> int" where
  "type_max t = (if is_signed t then 2 ^ (type_bits t - 1) - 1 else 2 ^ type_bits t - 1)"

datatype AttrKey = IntKey int | StrKey "byte list"

text \<open>The values of the C++ type a type tag stands for.\<close>

fun of_type :: "AttrValueType \<Rightarrow> AttrKey \<Rightarrow> bool" where
  "of_type t (IntKey n) \<longleftrightarrow> is_integer t \<and> type_min t \<le> n \<and> n \<le> type_max t"
| "of_type t (StrKey s) \<longleftrightarrow> t = STRING"

record Attribute =
  attr_name :: "byte list"
  GetValueType :: AttrValueType
  GetValue :: "AttrKey list"

definition GetValueCount :: "Attribute \<Rightarrow> nat" where
  "GetValueCount a = length (GetValue a)"

definition Attribute_DeepCopy :: "Attribute \<Rightarrow> Attribute" where
  "Attribute_DeepCopy a = \<lparr>attr_name = [], GetValueType = GetValueType a, GetValue = GetValue a\<rparr>"

definition Attribute_Equal :: "Attribute \<Rightarrow> Attribute \<Rightarrow> bool" where
  "Attribute_Equal a b = (if GetValueCount a \<noteq> GetValueCount b \<or> GetValueType a \<noteq> GetValueType b then False else GetValue a = GetValue b)"

section \<open>The type schema\<close>

type_synonym AttrTypeSchema = "(byte list \<times> AttrValueType) list"

definition GetTypeOfField :: "AttrTypeSchema \<Rightarrow> byte list \<Rightarrow> AttrValueType result" where
  "GetTypeOfField schema field_name =
     (case map_of schema field_name of None \<Rightarrow> Inl (Vsag INTERNAL_ERROR) | Some t \<Rightarrow> Inr t)"

definition SetTypeOfField :: "AttrTypeSchema \<Rightarrow> byte list \<Rightarrow> AttrValueType \<Rightarrow> AttrTypeSchema" where
  "SetTypeOfField schema field_name t = AList.update field_name t schema"

definition AttrTypeSchema_Serialize :: "AttrTypeSchema \<Rightarrow> byte list list" where
  "AttrTypeSchema_Serialize schema =
     WriteObj (enc_u64 (word_of_nat (length schema))) @
     concat (map (\<lambda>(k, v). WriteString k @ WriteObj (enc_u64 (type_code v))) schema)"

fun read_schema :: "'s read_op \<Rightarrow> nat \<Rightarrow> AttrTypeSchema \<Rightarrow> 's \<Rightarrow> (AttrTypeSchema \<times> 's) result" where
  "read_schema rd 0 schema s = Inr (schema, s)"
| "read_schema rd (Suc n) schema s =
     bind_r (ReadString rd s) (\<lambda>(k, s).
     bind_r (ReadObj rd 8 dec_u64 s) (\<lambda>(v, s). read_schema rd n (AList.update k (type_of_code v) schema) s))"

definition AttrTypeSchema_Deserialize :: "'s read_op \<Rightarrow> AttrTypeSchema \<Rightarrow> 's \<Rightarrow> (AttrTypeSchema \<times> 's) result" where
  "AttrTypeSchema_Deserialize rd schema s =
     bind_r (ReadObj rd 8 dec_u64 s) (\<lambda>(size, s). read_schema rd (unat size) schema s)"

section \<open>The values of a field\<close>

type_synonym BucketIdType = "32 word"

record 'r AttrValueMap =
  value_maps :: "AttrValueType \<Rightarrow> (AttrKey \<times> 'r MultiBitsetManager) list"
  vm_bitset_type :: ComputableBitsetType

definition AttrValueMap_new :: "ComputableBitsetType \<Rightarrow> 'r AttrValueMap" where
  "AttrValueMap_new t = \<lparr>value_maps = (\<lambda>_. []), vm_bitset_type = t\<rparr>"

definition put_map :: "'r AttrValueMap \<Rightarrow> AttrValueType \<Rightarrow> (AttrKey \<times> 'r MultiBitsetManager) list \<Rightarrow> 'r AttrValueMap" where
  "put_map vm t m = vm\<lparr>value_maps := (value_maps vm)(t := m)\<rparr>"

definition AttrValueMap_Insert ::
    "'r Roaring \<Rightarrow> 'r AttrValueMap \<Rightarrow> AttrValueType \<Rightarrow> AttrKey \<Rightarrow> InnerIdType \<Rightarrow> BucketIdType \<Rightarrow> 'r AttrValueMap result" where
  "AttrValueMap_Insert R vm t v inner_id bucket_id =
     (let manager = (case map_of (value_maps vm t) v of
            None \<Rightarrow> MultiBitsetManager_new 1 (vm_bitset_type vm) | Some manager \<Rightarrow> manager) in
      bind_r (InsertValue R manager (scast bucket_id) (ucast inner_id) True) (\<lambda>manager.
        Inr (put_map vm t (AList.update v manager (value_maps vm t)))))"

definition GetBitsetByValue :: "'r AttrValueMap \<Rightarrow> AttrValueType \<Rightarrow> AttrKey \<Rightarrow> 'r MultiBitsetManager option" where
  "GetBitsetByValue vm t v = map_of (value_maps vm t) v"

fun erase_entries ::
    "'r Roaring \<Rightarrow> InnerIdType \<Rightarrow> BucketIdType \<Rightarrow> (AttrKey \<times> 'r MultiBitsetManager) list \<Rightarrow>
     (AttrKey \<times> 'r MultiBitsetManager) list result" where
  "erase_entries R inner_id bucket_id [] = Inr []"
| "erase_entries R inner_id bucket_id ((k, manager) # m) =
     bind_r (erase_one R manager (scast bucket_id) inner_id) (\<lambda>manager.
     bind_r (erase_entries R inner_id bucket_id m) (\<lambda>m. Inr ((k, manager) # m)))"

definition AttrValueMap_Erase ::
    "'r Roaring \<Rightarrow> 'r AttrValueMap \<Rightarrow> AttrValueType \<Rightarrow> InnerIdType \<Rightarrow> BucketIdType \<Rightarrow> 'r AttrValueMap result" where
  "AttrValueMap_Erase R vm t inner_id bucket_id =
     bind_r (erase_entries R inner_id bucket_id (value_maps vm t)) (\<lambda>m. Inr (put_map vm t m))"

fun AttrValueMap_Erase_values ::
    "'r Roaring \<Rightarrow> 'r AttrValueMap \<Rightarrow> AttrValueType \<Rightarrow> InnerIdType \<Rightarrow> AttrKey list \<Rightarrow> BucketIdType \<Rightarrow> 'r AttrValueMap result" where
  "AttrValueMap_Erase_values R vm t inner_id [] bucket_id = Inr vm"
| "AttrValueMap_Erase_values R vm t inner_id (v # values) bucket_id =
     bind_r
       (case map_of (value_maps vm t) v of
          None \<Rightarrow> Inr vm
        | Some manager \<Rightarrow> bind_r (erase_one R manager (scast bucket_id) inner_id) (\<lambda>manager.
            Inr (put_map vm t (AList.update v manager (value_maps vm t)))))
       (\<lambda>vm. AttrValueMap_Erase_values R vm t inner_id values bucket_id)"

fun collect_keys ::
    "'r Roaring \<Rightarrow> InnerIdType \<Rightarrow> BucketIdType \<Rightarrow> (AttrKey \<times> 'r MultiBitsetManager) list \<Rightarrow> AttrKey list result" where
  "collect_keys R inner_id bucket_id [] = Inr []"
| "collect_keys R inner_id bucket_id ((k, manager) # m) =
     bind_r (GetOneBitset manager (scast bucket_id)) (\<lambda>p.
     bind_r (case p of None \<Rightarrow> Inr False | Some b \<Rightarrow> Bitset_Test R b (uint inner_id)) (\<lambda>hit.
     bind_r (collect_keys R inner_id bucket_id m) (\<lambda>ks. Inr (if hit then k # ks else ks))))"

definition AttrValueMap_GetAttr ::
    "'r Roaring \<Rightarrow> 'r AttrValueMap \<Rightarrow> AttrValueType \<Rightarrow> InnerIdType \<Rightarrow> BucketIdType \<Rightarrow> AttrKey list option result" where
  "AttrValueMap_GetAttr R vm t inner_id bucket_id =
     bind_r (collect_keys R inner_id bucket_id (value_maps vm t)) (\<lambda>ks. Inr (if ks = [] then None else Some ks))"

section \<open>The index\<close>

record 'r AttributeIndex =
  field_2_value_map :: "(byte list \<times> 'r AttrValueMap option) list"
  field_type_map :: AttrTypeSchema
  ai_bitset_type :: ComputableBitsetType

definition AttributeIndex_MakeInstance :: "bool \<Rightarrow> 'r AttributeIndex" where
  "AttributeIndex_MakeInstance have_bucket =
     \<lparr>field_2_value_map = [], field_type_map = [],
      ai_bitset_type = (if \<not> have_bucket then SparseBitsetType else FastBitsetType)\<rparr>"

definition call_on :: "'r AttrValueMap option \<Rightarrow> ('r AttrValueMap \<Rightarrow> 'a result) \<Rightarrow> 'a result" where
  "call_on p f = (case p of None \<Rightarrow> Inl UndefinedBehaviour | Some vm \<Rightarrow> f vm)"

fun insert_values ::
    "'r Roaring \<Rightarrow> 'r AttrValueMap option \<Rightarrow> AttrValueType \<Rightarrow> AttrKey list \<Rightarrow> InnerIdType \<Rightarrow> BucketIdType \<Rightarrow> 'r AttrValueMap option result" where
  "insert_values R p t [] inner_id bucket_id = Inr p"
| "insert_values R p t (v # values) inner_id bucket_id =
     bind_r (call_on p (\<lambda>vm. AttrValueMap_Insert R vm t v inner_id bucket_id)) (\<lambda>vm.
       insert_values R (Some vm) t values inner_id bucket_id)"

definition insert_by_type ::
    "'r Roaring \<Rightarrow> 'r AttrValueMap option \<Rightarrow> Attribute \<Rightarrow> InnerIdType \<Rightarrow> BucketIdType \<Rightarrow> 'r AttrValueMap option result" where
  "insert_by_type R p attr inner_id bucket_id =
     (if is_Unnamed (GetValueType attr) then Inl (Vsag INTERNAL_ERROR)
      else insert_values R p (GetValueType attr) (GetValue attr) inner_id bucket_id)"

definition erase_by_type ::
    "'r Roaring \<Rightarrow> 'r AttrValueMap option \<Rightarrow> AttrValueType \<Rightarrow> InnerIdType \<Rightarrow> BucketIdType \<Rightarrow> 'r AttrValueMap option result" where
  "erase_by_type R p value_type inner_id bucket_id =
     (if is_Unnamed value_type then Inl (Vsag INTERNAL_ERROR)
      else bind_r (call_on p (\<lambda>vm. AttrValueMap_Erase R vm value_type inner_id bucket_id)) (\<lambda>vm. Inr (Some vm)))"

definition erase_by_attr ::
    "'r Roaring \<Rightarrow> 'r AttrValueMap option \<Rightarrow> Attribute \<Rightarrow> InnerIdType \<Rightarrow> BucketIdType \<Rightarrow> 'r AttrValueMap option result" where
  "erase_by_attr R p attr inner_id bucket_id =
     (if is_Unnamed (GetValueType attr) then Inl (Vsag INTERNAL_ERROR)
      else bind_r (call_on p (\<lambda>vm. AttrValueMap_Erase_values R vm (GetValueType attr) inner_id (GetValue attr) bucket_id)) (\<lambda>vm. Inr (Some vm)))"

text \<open>The element \<open>operator[]\<close> of the map delivers, a null pointer when the field is new.\<close>

definition field_slot :: "'r AttributeIndex \<Rightarrow> byte list \<Rightarrow> 'r AttrValueMap option" where
  "field_slot ix name = (case map_of (field_2_value_map ix) name of None \<Rightarrow> None | Some p \<Rightarrow> p)"

definition put_field :: "'r AttributeIndex \<Rightarrow> byte list \<Rightarrow> 'r AttrValueMap option \<Rightarrow> 'r AttributeIndex" where
  "put_field ix name p = ix\<lparr>field_2_value_map := AList.update name p (field_2_value_map ix)\<rparr>"

fun AttributeIndex_Insert ::
    "'r Roaring \<Rightarrow> 'r AttributeIndex \<Rightarrow> Attribute list \<Rightarrow> InnerIdType \<Rightarrow> BucketIdType \<Rightarrow> 'r AttributeIndex result" where
  "AttributeIndex_Insert R ix [] inner_id bucket_id = Inr ix"
| "AttributeIndex_Insert R ix (attr # attrs) inner_id bucket_id =
     (let ix = (if map_of (field_2_value_map ix) (attr_name attr) = None
                then put_field ix (attr_name attr) (Some (AttrValueMap_new (ai_bitset_type ix))) else ix);
          ix = ix\<lparr>field_type_map := SetTypeOfField (field_type_map ix) (attr_name attr) (GetValueType attr)\<rparr> in
      bind_r (insert_by_type R (field_slot ix (attr_name attr)) attr inner_id bucket_id) (\<lambda>p.
        AttributeIndex_Insert R (put_field ix (attr_name attr) p) attrs inner_id bucket_id))"

text \<open>A pointer to a group is the field, type and value it belongs to; groups are never removed.\<close>

type_synonym manager_ptr = "(byte list \<times> AttrValueType \<times> AttrKey) option"

definition GetBitsetsByAttr :: "'r AttributeIndex \<Rightarrow> Attribute \<Rightarrow> manager_ptr list result" where
  "GetBitsetsByAttr ix attr =
     (case map_of (field_2_value_map ix) (attr_name attr) of
        None \<Rightarrow> Inr (replicate (GetValueCount attr) None)
      | Some p \<Rightarrow>
          (if is_Unnamed (GetValueType attr) then Inl (Vsag INTERNAL_ERROR)
           else if GetValue attr = [] then Inr []
           else call_on p (\<lambda>vm. Inr (map (\<lambda>v.
             if GetBitsetByValue vm (GetValueType attr) v = None then None else Some (attr_name attr, GetValueType attr, v))
             (GetValue attr)))))"

definition deref :: "'r AttributeIndex \<Rightarrow> byte list \<times> AttrValueType \<times> AttrKey \<Rightarrow> 'r MultiBitsetManager result" where
  "deref ix ptr =
     (case ptr of (name, t, v) \<Rightarrow>
        (case field_slot ix name of None \<Rightarrow> Inl UndefinedBehaviour
         | Some vm \<Rightarrow> (case GetBitsetByValue vm t v of None \<Rightarrow> Inl UndefinedBehaviour | Some manager \<Rightarrow> Inr manager)))"

fun UpdateBitsetsByAttr ::
    "'r Roaring \<Rightarrow> 'r AttributeIndex \<Rightarrow> Attribute list \<Rightarrow> InnerIdType \<Rightarrow> BucketIdType \<Rightarrow> 'r AttributeIndex result" where
  "UpdateBitsetsByAttr R ix [] offset_id bucket_id = Inr ix"
| "UpdateBitsetsByAttr R ix (attr # attrs) offset_id bucket_id =
     bind_r (erase_by_type R (field_slot ix (attr_name attr)) (GetValueType attr) offset_id bucket_id) (\<lambda>p.
     bind_r (insert_by_type R p attr offset_id bucket_id) (\<lambda>p.
       UpdateBitsetsByAttr R (put_field ix (attr_name attr) p) attrs offset_id bucket_id))"

fun erase_origin ::
    "'r Roaring \<Rightarrow> 'r AttributeIndex \<Rightarrow> Attribute list \<Rightarrow> InnerIdType \<Rightarrow> BucketIdType \<Rightarrow> 'r AttributeIndex result" where
  "erase_origin R ix [] offset_id bucket_id = Inr ix"
| "erase_origin R ix (attr # attrs) offset_id bucket_id =
     bind_r (erase_by_attr R (field_slot ix (attr_name attr)) attr offset_id bucket_id) (\<lambda>p.
       erase_origin R (put_field ix (attr_name attr) p) attrs offset_id bucket_id)"

fun insert_updated ::
    "'r Roaring \<Rightarrow> 'r AttributeIndex \<Rightarrow> Attribute list \<Rightarrow> InnerIdType \<Rightarrow> BucketIdType \<Rightarrow> 'r AttributeIndex result" where
  "insert_updated R ix [] offset_id bucket_id = Inr ix"
| "insert_updated R ix (attr # attrs) offset_id bucket_id =
     bind_r (insert_by_type R (field_slot ix (attr_name attr)) attr offset_id bucket_id) (\<lambda>p.
       insert_updated R (put_field ix (attr_name attr) p) attrs offset_id bucket_id)"

definition UpdateBitsetsByAttr_origin ::
    "'r Roaring \<Rightarrow> 'r AttributeIndex \<Rightarrow> Attribute list \<Rightarrow> InnerIdType \<Rightarrow> BucketIdType \<Rightarrow> Attribute list \<Rightarrow> 'r AttributeIndex result" where
  "UpdateBitsetsByAttr_origin R ix attrs offset_id bucket_id origin =
     bind_r (erase_origin R ix origin offset_id bucket_id) (\<lambda>ix. insert_updated R ix attrs offset_id bucket_id)"

definition get_attr_by_type ::
    "'r Roaring \<Rightarrow> 'r AttrValueMap option \<Rightarrow> AttrValueType \<Rightarrow> InnerIdType \<Rightarrow> BucketIdType \<Rightarrow> byte list \<Rightarrow> Attribute option result" where
  "get_attr_by_type R p value_type inner_id bucket_id name =
     (if is_Unnamed value_type then Inl (Vsag INTERNAL_ERROR)
      else bind_r (call_on p (\<lambda>vm. AttrValueMap_GetAttr R vm value_type inner_id bucket_id)) (\<lambda>ks.
          Inr (map_option (\<lambda>ks. \<lparr>attr_name = name, GetValueType = value_type, GetValue = ks\<rparr>) ks)))"

fun get_attributes ::
    "'r Roaring \<Rightarrow> AttrTypeSchema \<Rightarrow> BucketIdType \<Rightarrow> InnerIdType \<Rightarrow> (byte list \<times> 'r AttrValueMap option) list \<Rightarrow> Attribute list result" where
  "get_attributes R schema bucket_id inner_id [] = Inr []"
| "get_attributes R schema bucket_id inner_id ((name, p) # flds) =
     bind_r (GetTypeOfField schema name) (\<lambda>t.
     bind_r (get_attr_by_type R p t inner_id bucket_id name) (\<lambda>a.
     bind_r (get_attributes R schema bucket_id inner_id flds) (\<lambda>as.
       Inr (case a of None \<Rightarrow> as | Some a \<Rightarrow> a # as))))"

definition GetAttribute :: "'r Roaring \<Rightarrow> 'r AttributeIndex \<Rightarrow> BucketIdType \<Rightarrow> InnerIdType \<Rightarrow> Attribute list result" where
  "GetAttribute R ix bucket_id inner_id = get_attributes R (field_type_map ix) bucket_id inner_id (field_2_value_map ix)"

section \<open>The values of a field as a relation\<close>

text \<open>Buckets the groups can hold.\<close>

definition bucket_ok :: "BucketIdType \<Rightarrow> bool" where
  "bucket_ok b \<longleftrightarrow> 0 \<le> sint b \<and> sint b < 2 ^ 15"

lemma sint_scast_bucket: "sint (scast (b :: BucketIdType) :: u64) = sint b"
proof -
  have r: "- (2 ^ 31) \<le> sint b" "sint b < 2 ^ 31" using sint_greater_eq [of b] sint_less [of b] by simp_all
  have "sint (scast b :: u64) = signed_take_bit 63 (sint b)" by (simp add: signed_scast_eq)
  also have "\<dots> = sint b"
    by (rule signed_take_bit_int_eq_self) (rule order_trans [OF _ r(1)], simp, rule less_trans [OF r(2)], simp)
  finally show ?thesis .
qed

lemma scast_bucket_inj: "(scast (b :: BucketIdType) :: u64) = scast c \<longleftrightarrow> b = c"
  by (metis sint_scast_bucket signed_word_eqI)

lemma bucket_small:
  assumes "bucket_ok b"
  shows "unat (scast b :: u64) < 2 ^ 15"
proof -
  have r: "0 \<le> sint b" "sint b < 2 ^ 15" using assms by (simp_all add: bucket_ok_def)
  have "uint (scast b :: u64) = take_bit 64 (sint b)" using uint_sint [of "scast b :: u64"] by (simp add: sint_scast_bucket)
  also have "\<dots> = sint b" by (rule take_bit_int_eq_self [OF r(1)]) (rule less_trans [OF r(2)], simp)
  finally show ?thesis using r by (simp add: unat_eq_nat_uint)
qed

definition vm_ok :: "ComputableBitsetType \<Rightarrow> 'r AttrValueMap \<Rightarrow> bool" where
  "vm_ok bt vm \<longleftrightarrow> vm_bitset_type vm = bt \<and> (\<forall>t. distinct (map fst (value_maps vm t))) \<and>
     (\<forall>t k m. (k, m) \<in> set (value_maps vm t) \<longrightarrow> of_type t k \<and> mb_ok bt m \<and> mb_small m)"

definition vm_mem :: "'r Roaring \<Rightarrow> 'r AttrValueMap \<Rightarrow> AttrValueType \<Rightarrow> AttrKey \<Rightarrow> BucketIdType \<Rightarrow> InnerIdType \<Rightarrow> bool" where
  "vm_mem R vm t k b i \<longleftrightarrow> (case map_of (value_maps vm t) k of None \<Rightarrow> False | Some m \<Rightarrow> mb_mem R m (scast b) i)"

lemma vm_ok_new: "vm_ok bt (AttrValueMap_new bt)" "vm_mem R (AttrValueMap_new bt) = (\<lambda>_ _ _ _. False)"
  by (auto simp: vm_ok_def vm_mem_def AttrValueMap_new_def fun_eq_iff)

lemma vm_okD:
  assumes "vm_ok bt vm" and "map_of (value_maps vm t) k = Some m"
  shows "of_type t k" and "mb_ok bt m" and "mb_small m"
  using assms map_of_SomeD [OF assms(2)] by (auto simp: vm_ok_def)

lemma vm_mem_iff:
  assumes "vm_ok bt vm"
  shows "vm_mem R vm t k b i \<longleftrightarrow> (\<exists>m. (k, m) \<in> set (value_maps vm t) \<and> mb_mem R m (scast b) i)"
proof -
  have "distinct (map fst (value_maps vm t))" using assms by (simp add: vm_ok_def)
  then have "map_of (value_maps vm t) k = Some m \<longleftrightarrow> (k, m) \<in> set (value_maps vm t)" for m by (rule map_of_eq_Some_iff)
  then show ?thesis unfolding vm_mem_def by (cases "map_of (value_maps vm t) k") (metis option.simps(3,4), metis option.inject option.simps(5))
qed

lemma vm_ok_put:
  assumes "vm_ok bt vm" and "\<forall>(k, m) \<in> set xs. of_type t k \<and> mb_ok bt m \<and> mb_small m" and "distinct (map fst xs)"
  shows "vm_ok bt (put_map vm t xs)"
  using assms by (auto simp: vm_ok_def put_map_def)

lemma vm_ok_update:
  assumes "vm_ok bt vm" and "of_type t k" and "mb_ok bt m" and "mb_small m"
  shows "vm_ok bt (put_map vm t (AList.update k m (value_maps vm t)))"
proof -
  have "set (AList.update k m xs) \<subseteq> insert (k, m) (set xs)" for xs :: "(AttrKey \<times> 'a MultiBitsetManager) list"
    by (induction xs) auto
  then have "x \<in> set (AList.update k m (value_maps vm t)) \<Longrightarrow> x = (k, m) \<or> x \<in> set (value_maps vm t)" for x by blast
  then show ?thesis using assms by (intro vm_ok_put) (fastforce simp: vm_ok_def distinct_update)+
qed

lemma vm_mem_update:
  assumes "mb_mem R m' = (f :: u64 \<Rightarrow> u32 \<Rightarrow> bool)"
  shows "vm_mem R (put_map vm t (AList.update k m' (value_maps vm t))) t' k' b i =
    (if t' = t \<and> k' = k then f (scast b) i else vm_mem R vm t' k' b i)"
  using assms by (simp add: vm_mem_def put_map_def update_conv')

lemma AttrValueMap_Insert_ok:
  assumes R: "roaring_laws R" and ok: "vm_ok bt vm" and v: "of_type t v" and b: "bucket_ok b" and i: "storable i"
  shows "\<exists>vm'. AttrValueMap_Insert R vm t v i b = Inr vm' \<and> vm_ok bt vm' \<and>
    vm_mem R vm' = (\<lambda>t' k b' i'. vm_mem R vm t' k b' i' \<or> t' = t \<and> k = v \<and> b' = b \<and> i' = i)"
proof -
  define m where "m = (case map_of (value_maps vm t) v of None \<Rightarrow> MultiBitsetManager_new 1 (vm_bitset_type vm) | Some m \<Rightarrow> m)"
  have m: "mb_ok bt m" "mb_small m" "mb_mem R m (scast b') i' = vm_mem R vm t v b' i'" for b' i'
    using ok vm_okD [OF ok] mb_ok_new(1) [of bt 1] mb_ok_new(2) [of R 1 bt] mb_small_new [of bt]
    by (auto simp: m_def vm_mem_def vm_ok_def split: option.split)
  obtain m' where m': "InsertValue R m (scast b) (ucast i) True = Inr m'" "mb_ok bt m'" "mb_small m'"
      "mb_mem R m' = (mb_mem R m)(scast b := (mb_mem R m (scast b))(i := True))"
    using InsertValue_small [OF R m(1,2) bucket_small [OF b] i] by blast
  have "AttrValueMap_Insert R vm t v i b = Inr (put_map vm t (AList.update v m' (value_maps vm t)))"
    using m'(1) by (simp add: AttrValueMap_Insert_def m_def [symmetric])
  moreover have "vm_mem R (put_map vm t (AList.update v m' (value_maps vm t))) =
      (\<lambda>t' k b' i'. vm_mem R vm t' k b' i' \<or> t' = t \<and> k = v \<and> b' = b \<and> i' = i)"
    by (auto simp: fun_eq_iff vm_mem_update [OF m'(4)] scast_bucket_inj m(3))
  ultimately show ?thesis using vm_ok_update [OF ok v m'(2,3)] by blast
qed

lemma insert_values_ok:
  assumes R: "roaring_laws R" and "vm_ok bt vm" and "\<forall>v \<in> set vs. of_type t v" and b: "bucket_ok b" and i: "storable i"
  shows "\<exists>vm'. insert_values R (Some vm) t vs i b = Inr (Some vm') \<and> vm_ok bt vm' \<and>
    vm_mem R vm' = (\<lambda>t' k b' i'. vm_mem R vm t' k b' i' \<or> t' = t \<and> k \<in> set vs \<and> b' = b \<and> i' = i)"
  using assms(2,3)
proof (induction vs arbitrary: vm)
  case (Cons v vs)
  obtain vm1 where vm1: "AttrValueMap_Insert R vm t v i b = Inr vm1" "vm_ok bt vm1"
      "vm_mem R vm1 = (\<lambda>t' k b' i'. vm_mem R vm t' k b' i' \<or> t' = t \<and> k = v \<and> b' = b \<and> i' = i)"
    using AttrValueMap_Insert_ok [OF R Cons.prems(1) _ b i, of t v] Cons.prems(2) by auto
  obtain vm2 where vm2: "insert_values R (Some vm1) t vs i b = Inr (Some vm2)" "vm_ok bt vm2"
      "vm_mem R vm2 = (\<lambda>t' k b' i'. vm_mem R vm1 t' k b' i' \<or> t' = t \<and> k \<in> set vs \<and> b' = b \<and> i' = i)"
    using Cons.IH [OF vm1(2)] Cons.prems(2) by auto
  have "vm_mem R vm2 = (\<lambda>t' k b' i'. vm_mem R vm t' k b' i' \<or> t' = t \<and> k \<in> set (v # vs) \<and> b' = b \<and> i' = i)"
    unfolding vm2(3) vm1(3) by (auto simp: fun_eq_iff)
  then show ?case using vm1(1) vm2(1,2) by (simp add: call_on_def)
qed simp

definition erased :: "'r Roaring \<Rightarrow> BucketIdType \<Rightarrow> InnerIdType \<Rightarrow> 'r MultiBitsetManager \<Rightarrow> 'r MultiBitsetManager \<Rightarrow> bool" where
  "erased R b i m m' \<longleftrightarrow> mb_mem R m' = (mb_mem R m)(scast b := (mb_mem R m (scast b))(i := False))"

lemma erase_entries_ok:
  assumes R: "roaring_laws R" and "\<forall>(k, m) \<in> set xs. of_type t k \<and> mb_ok bt m \<and> mb_small m" and i: "storable i"
  shows "\<exists>ys. erase_entries R i b xs = Inr ys \<and> map fst ys = map fst xs \<and> (\<forall>(k, m) \<in> set ys. of_type t k \<and> mb_ok bt m \<and> mb_small m) \<and>
    (\<forall>k. rel_option (erased R b i) (map_of xs k) (map_of ys k))"
  using assms(2)
proof (induction xs)
  case (Cons x xs)
  obtain k m where x: "x = (k, m)" by (cases x)
  obtain m' where m': "erase_one R m (scast b) i = Inr m'" "mb_ok bt m'" "mb_small m'"
      "erased R b i m m'"
    unfolding erased_def using erase_one_ok [OF R _ _ i, of bt m "scast b"] Cons.prems x by auto
  then show ?case using Cons x by auto
qed simp

lemma AttrValueMap_Erase_ok:
  assumes R: "roaring_laws R" and ok: "vm_ok bt vm" and i: "storable i"
  shows "\<exists>vm'. AttrValueMap_Erase R vm t i b = Inr vm' \<and> vm_ok bt vm' \<and>
    vm_mem R vm' = (\<lambda>t' k b' i'. vm_mem R vm t' k b' i' \<and> \<not> (t' = t \<and> b' = b \<and> i' = i))"
proof -
  have "\<forall>(k, m) \<in> set (value_maps vm t). of_type t k \<and> mb_ok bt m \<and> mb_small m" using ok by (auto simp: vm_ok_def)
  from erase_entries_ok [OF R this i, of b] obtain ys where ys: "erase_entries R i b (value_maps vm t) = Inr ys" "map fst ys = map fst (value_maps vm t)"
      "\<forall>(k, m) \<in> set ys. of_type t k \<and> mb_ok bt m \<and> mb_small m"
      "\<forall>k. rel_option (erased R b i)
        (map_of (value_maps vm t) k) (map_of ys k)"
    by blast
  have "vm_mem R (put_map vm t ys) t' k b' i' = (vm_mem R vm t' k b' i' \<and> \<not> (t' = t \<and> b' = b \<and> i' = i))" for t' k b' i'
    using ys(4) [rule_format, of k]
    by (cases "map_of (value_maps vm t) k"; cases "map_of ys k") (auto simp: vm_mem_def put_map_def scast_bucket_inj erased_def split: if_splits)
  then show ?thesis using ys(1,2) vm_ok_put [OF ok ys(3)] ok by (auto simp: AttrValueMap_Erase_def fun_eq_iff vm_ok_def)
qed

lemma AttrValueMap_Erase_values_ok:
  assumes R: "roaring_laws R" and "vm_ok bt vm" and i: "storable i"
  shows "\<exists>vm'. AttrValueMap_Erase_values R vm t i vs b = Inr vm' \<and> vm_ok bt vm' \<and>
    vm_mem R vm' = (\<lambda>t' k b' i'. vm_mem R vm t' k b' i' \<and> \<not> (t' = t \<and> k \<in> set vs \<and> b' = b \<and> i' = i))"
  using assms(2)
proof (induction vs arbitrary: vm)
  case (Cons v vs)
  have "\<exists>vm1. (case map_of (value_maps vm t) v of None \<Rightarrow> Inr vm
      | Some m \<Rightarrow> bind_r (erase_one R m (scast b) i) (\<lambda>m. Inr (put_map vm t (AList.update v m (value_maps vm t))))) = Inr vm1 \<and>
      vm_ok bt vm1 \<and> vm_mem R vm1 = (\<lambda>t' k b' i'. vm_mem R vm t' k b' i' \<and> \<not> (t' = t \<and> k = v \<and> b' = b \<and> i' = i))"
  proof (cases "map_of (value_maps vm t) v")
    case None
    then show ?thesis using Cons.prems by (auto simp: vm_mem_def fun_eq_iff)
  next
    case (Some m)
    note D = vm_okD [OF Cons.prems Some]
    obtain m' where m': "erase_one R m (scast b) i = Inr m'" "mb_ok bt m'" "mb_small m'"
        "mb_mem R m' = (mb_mem R m)(scast b := (mb_mem R m (scast b))(i := False))"
      using erase_one_ok [OF R D(2,3) i] by blast
    have "vm_mem R (put_map vm t (AList.update v m' (value_maps vm t))) t' k b' i' =
        (vm_mem R vm t' k b' i' \<and> \<not> (t' = t \<and> k = v \<and> b' = b \<and> i' = i))" for t' k b' i'
      using Some unfolding vm_mem_update [OF m'(4)] by (auto simp: scast_bucket_inj vm_mem_def)
    then show ?thesis using Some m'(1) vm_ok_update [OF Cons.prems D(1) m'(2,3)] by (simp add: fun_eq_iff)
  qed
  then obtain vm1 where vm1: "(case map_of (value_maps vm t) v of None \<Rightarrow> Inr vm
      | Some m \<Rightarrow> bind_r (erase_one R m (scast b) i) (\<lambda>m. Inr (put_map vm t (AList.update v m (value_maps vm t))))) = Inr vm1"
      "vm_ok bt vm1" "vm_mem R vm1 = (\<lambda>t' k b' i'. vm_mem R vm t' k b' i' \<and> \<not> (t' = t \<and> k = v \<and> b' = b \<and> i' = i))"
    by blast
  then show ?case using Cons.IH [OF vm1(2)] by (auto simp: fun_eq_iff)
qed simp

lemma collect_keys_ok:
  assumes "\<forall>(k, m) \<in> set xs. mb_ok bt m"
  shows "collect_keys R i b xs = Inr (map fst (filter (\<lambda>(k, m). mb_mem R m (scast b) i) xs))"
  using assms
proof (induction xs)
  case (Cons x xs)
  obtain k m where x: "x = (k, m)" and ok: "mb_ok bt m" using Cons.prems by (cases x) auto
  have "(case mb_get m (scast b) of None \<Rightarrow> Inr False | Some s \<Rightarrow> Bitset_Test R s (uint i)) = Inr (mb_mem R m (scast b) i)"
    using GetOneBitset_ok(2) [OF ok, of "scast b"] Bitset_Test_ok [of bt _ R i] by (auto simp: mb_mem_def split: option.split)
  then show ?case using Cons x GetOneBitset_ok(1) [OF ok] by simp
qed simp

section \<open>The index as a relation\<close>

definition attr_ok :: "Attribute \<Rightarrow> bool" where
  "attr_ok a \<longleftrightarrow> \<not> is_Unnamed (GetValueType a) \<and> (\<forall>v \<in> set (GetValue a). of_type (GetValueType a) v)"

definition carries :: "Attribute list \<Rightarrow> byte list \<Rightarrow> AttrValueType \<Rightarrow> AttrKey \<Rightarrow> bool" where
  "carries attrs n t k \<longleftrightarrow> (\<exists>a \<in> set attrs. attr_name a = n \<and> GetValueType a = t \<and> k \<in> set (GetValue a))"

definition ix_ok :: "ComputableBitsetType \<Rightarrow> 'r AttributeIndex \<Rightarrow> bool" where
  "ix_ok bt ix \<longleftrightarrow> ai_bitset_type ix = bt \<and> distinct (map fst (field_2_value_map ix)) \<and>
     (\<forall>n p. map_of (field_2_value_map ix) n = Some p \<longrightarrow>
        (\<exists>vm t. p = Some vm \<and> vm_ok bt vm \<and> map_of (field_type_map ix) n = Some t \<and> \<not> is_Unnamed t))"

definition ix_mem ::
    "'r Roaring \<Rightarrow> 'r AttributeIndex \<Rightarrow> byte list \<Rightarrow> AttrValueType \<Rightarrow> AttrKey \<Rightarrow> BucketIdType \<Rightarrow> InnerIdType \<Rightarrow> bool" where
  "ix_mem R ix n t k b i \<longleftrightarrow> (case field_slot ix n of None \<Rightarrow> False | Some vm \<Rightarrow> vm_mem R vm t k b i)"

lemma ix_ok_new: "ix_ok (if hb then FastBitsetType else SparseBitsetType) (AttributeIndex_MakeInstance hb)"
    "ix_mem R (AttributeIndex_MakeInstance hb) = (\<lambda>_ _ _ _ _. False)"
  by (auto simp: ix_ok_def ix_mem_def AttributeIndex_MakeInstance_def field_slot_def fun_eq_iff)

lemma ix_okD:
  assumes "ix_ok bt ix" and "map_of (field_2_value_map ix) n \<noteq> None"
  obtains vm t where "field_slot ix n = Some vm" and "vm_ok bt vm" and "map_of (field_type_map ix) n = Some t" and "\<not> is_Unnamed t"
  using assms by (fastforce simp: ix_ok_def field_slot_def)

lemma ix_put:
  assumes "ix_ok bt ix" and "vm_ok bt vm" and "map_of (field_type_map ix) n = Some t" and "\<not> is_Unnamed t"
  shows "ix_ok bt (put_field ix n (Some vm))"
    and "ix_mem R (put_field ix n (Some vm)) = (\<lambda>n'. if n' = n then vm_mem R vm else ix_mem R ix n')"
  using assms by (auto simp: ix_ok_def ix_mem_def put_field_def field_slot_def fun_eq_iff update_conv' distinct_update simp del: map_of_eq_Some_iff)

lemma insert_by_type_ok:
  assumes "roaring_laws R" and "vm_ok bt vm" and "attr_ok a" and "bucket_ok b" and "storable i"
  shows "\<exists>vm'. insert_by_type R (Some vm) a i b = Inr (Some vm') \<and> vm_ok bt vm' \<and>
    vm_mem R vm' = (\<lambda>t k b' i'. vm_mem R vm t k b' i' \<or> t = GetValueType a \<and> k \<in> set (GetValue a) \<and> b' = b \<and> i' = i)"
  using insert_values_ok [OF assms(1,2) _ assms(4,5), of "GetValue a" "GetValueType a"] assms(3)
  by (simp add: insert_by_type_def attr_ok_def)

lemma carries_Cons: "carries (a # as) n t k \<longleftrightarrow> attr_name a = n \<and> GetValueType a = t \<and> k \<in> set (GetValue a) \<or> carries as n t k"
  by (auto simp: carries_def)

text \<open>The field of an attribute about to be inserted, with its type recorded.\<close>

definition open_field :: "'r AttributeIndex \<Rightarrow> Attribute \<Rightarrow> 'r AttributeIndex" where
  "open_field ix a =
     (let ix = (if map_of (field_2_value_map ix) (attr_name a) = None
                then put_field ix (attr_name a) (Some (AttrValueMap_new (ai_bitset_type ix))) else ix) in
      ix\<lparr>field_type_map := SetTypeOfField (field_type_map ix) (attr_name a) (GetValueType a)\<rparr>)"

lemma open_field_ok:
  assumes "ix_ok bt ix" and "\<not> is_Unnamed (GetValueType a)"
  shows "ix_ok bt (open_field ix a)" and "ix_mem R (open_field ix a) = ix_mem R ix"
    and "map_of (field_2_value_map (open_field ix a)) (attr_name a) \<noteq> None"
    and "map_of (field_type_map (open_field ix a)) = (map_of (field_type_map ix))(attr_name a \<mapsto> GetValueType a)"
  using assms vm_ok_new(1) [of bt] vm_ok_new(2) [of R bt]
  by (auto simp: open_field_def ix_ok_def ix_mem_def put_field_def field_slot_def SetTypeOfField_def Let_def
      fun_eq_iff update_conv' distinct_update simp del: map_of_eq_Some_iff split: option.splits) blast

lemma AttributeIndex_Insert_ok:
  assumes R: "roaring_laws R" and "ix_ok bt ix" and "\<forall>a \<in> set attrs. attr_ok a" and b: "bucket_ok b" and i: "storable i"
  shows "\<exists>ix'. AttributeIndex_Insert R ix attrs i b = Inr ix' \<and> ix_ok bt ix' \<and>
    ix_mem R ix' = (\<lambda>n t k b' i'. ix_mem R ix n t k b' i' \<or> carries attrs n t k \<and> b' = b \<and> i' = i) \<and>
    map_of (field_type_map ix') = map_of (field_type_map ix) ++ map_of (rev (map (\<lambda>a. (attr_name a, GetValueType a)) attrs))"
  using assms(2,3)
proof (induction attrs arbitrary: ix)
  case Nil
  then show ?case by (auto simp: carries_def)
next
  case (Cons a as)
  have a: "attr_ok a" "\<not> is_Unnamed (GetValueType a)" using Cons.prems(2) by (simp_all add: attr_ok_def)
  note o = open_field_ok [OF Cons.prems(1) a(2)]
  obtain vm t where vm: "field_slot (open_field ix a) (attr_name a) = Some vm" "vm_ok bt vm"
      "map_of (field_type_map (open_field ix a)) (attr_name a) = Some t" "\<not> is_Unnamed t"
    by (rule ix_okD [OF o(1,3)])
  obtain vm' where vm': "insert_by_type R (Some vm) a i b = Inr (Some vm')" "vm_ok bt vm'"
      "vm_mem R vm' = (\<lambda>t k b' i'. vm_mem R vm t k b' i' \<or> t = GetValueType a \<and> k \<in> set (GetValue a) \<and> b' = b \<and> i' = i)"
    using insert_by_type_ok [OF R vm(2) a(1) b i] by blast
  let ?ix = "put_field (open_field ix a) (attr_name a) (Some vm')"
  note put = ix_put [OF o(1) vm'(2) vm(3,4)]
  have "ix_mem R (open_field ix a) (attr_name a) = vm_mem R vm" by (simp add: ix_mem_def vm(1) fun_eq_iff)
  then have mem: "ix_mem R ?ix = (\<lambda>n t k b' i'. ix_mem R ix n t k b' i' \<or> attr_name a = n \<and> t = GetValueType a \<and> k \<in> set (GetValue a) \<and> b' = b \<and> i' = i)"
    unfolding put(2) o(2) [symmetric] vm'(3) by (auto simp: fun_eq_iff)
  have types: "map_of (field_type_map ?ix) = (map_of (field_type_map ix))(attr_name a \<mapsto> GetValueType a)"
    using o(4) by (simp add: put_field_def)
  obtain ix' where ix': "AttributeIndex_Insert R ?ix as i b = Inr ix'" "ix_ok bt ix'"
      "ix_mem R ix' = (\<lambda>n t k b' i'. ix_mem R ?ix n t k b' i' \<or> carries as n t k \<and> b' = b \<and> i' = i)"
      "map_of (field_type_map ix') = map_of (field_type_map ?ix) ++ map_of (rev (map (\<lambda>a. (attr_name a, GetValueType a)) as))"
    using Cons.IH [OF put(1)] Cons.prems(2) by auto
  have "AttributeIndex_Insert R ix (a # as) i b = Inr ix'"
    using ix'(1) vm(1) vm'(1) by (simp add: open_field_def Let_def)
  moreover have "ix_mem R ix' = (\<lambda>n t k b' i'. ix_mem R ix n t k b' i' \<or> carries (a # as) n t k \<and> b' = b \<and> i' = i)"
    unfolding ix'(3) mem by (auto simp: fun_eq_iff carries_Cons)
  moreover have "map_of (field_type_map ix') = map_of (field_type_map ix) ++ map_of (rev (map (\<lambda>a. (attr_name a, GetValueType a)) (a # as)))"
    unfolding ix'(4) types by (auto simp: map_add_def fun_eq_iff split: option.splits)
  ultimately show ?case using ix'(2) by blast
qed

lemma insert_updated_ok:
  assumes R: "roaring_laws R" and "ix_ok bt ix" and "\<forall>a \<in> set attrs. attr_ok a \<and> map_of (field_2_value_map ix) (attr_name a) \<noteq> None"
    and b: "bucket_ok b" and i: "storable i"
  shows "\<exists>ix'. insert_updated R ix attrs i b = Inr ix' \<and> ix_ok bt ix' \<and> field_type_map ix' = field_type_map ix \<and>
    ix_mem R ix' = (\<lambda>n t k b' i'. ix_mem R ix n t k b' i' \<or> carries attrs n t k \<and> b' = b \<and> i' = i)"
  using assms(2,3)
proof (induction attrs arbitrary: ix)
  case Nil
  then show ?case by (auto simp: carries_def)
next
  case (Cons a as)
  have a: "attr_ok a" "map_of (field_2_value_map ix) (attr_name a) \<noteq> None" using Cons.prems(2) by simp_all
  obtain vm t where vm: "field_slot ix (attr_name a) = Some vm" "vm_ok bt vm" "map_of (field_type_map ix) (attr_name a) = Some t" "\<not> is_Unnamed t"
    by (rule ix_okD [OF Cons.prems(1) a(2)])
  obtain vm' where vm': "insert_by_type R (Some vm) a i b = Inr (Some vm')" "vm_ok bt vm'"
      "vm_mem R vm' = (\<lambda>t k b' i'. vm_mem R vm t k b' i' \<or> t = GetValueType a \<and> k \<in> set (GetValue a) \<and> b' = b \<and> i' = i)"
    using insert_by_type_ok [OF R vm(2) a(1) b i] by blast
  let ?ix = "put_field ix (attr_name a) (Some vm')"
  note put = ix_put [OF Cons.prems(1) vm'(2) vm(3,4)]
  have "ix_mem R ix (attr_name a) = vm_mem R vm" by (simp add: ix_mem_def vm(1) fun_eq_iff)
  then have mem: "ix_mem R ?ix = (\<lambda>n t k b' i'. ix_mem R ix n t k b' i' \<or> attr_name a = n \<and> t = GetValueType a \<and> k \<in> set (GetValue a) \<and> b' = b \<and> i' = i)"
    unfolding put(2) vm'(3) by (auto simp: fun_eq_iff)
  have "\<forall>a \<in> set as. attr_ok a \<and> map_of (field_2_value_map ?ix) (attr_name a) \<noteq> None"
    using Cons.prems(2) by (auto simp: put_field_def update_conv')
  then obtain ix' where ix': "insert_updated R ?ix as i b = Inr ix'" "ix_ok bt ix'" "field_type_map ix' = field_type_map ?ix"
      "ix_mem R ix' = (\<lambda>n t k b' i'. ix_mem R ?ix n t k b' i' \<or> carries as n t k \<and> b' = b \<and> i' = i)"
    using Cons.IH [OF put(1)] by blast
  have "ix_mem R ix' = (\<lambda>n t k b' i'. ix_mem R ix n t k b' i' \<or> carries (a # as) n t k \<and> b' = b \<and> i' = i)"
    unfolding ix'(4) mem by (auto simp: fun_eq_iff carries_Cons)
  then show ?case using ix'(1-3) vm(1) vm'(1) by (simp add: put_field_def)
qed

lemma erase_origin_ok:
  assumes R: "roaring_laws R" and "ix_ok bt ix" and i: "storable i"
    and "\<forall>a \<in> set attrs. \<not> is_Unnamed (GetValueType a) \<and> map_of (field_2_value_map ix) (attr_name a) \<noteq> None"
  shows "\<exists>ix'. erase_origin R ix attrs i b = Inr ix' \<and> ix_ok bt ix' \<and> field_type_map ix' = field_type_map ix \<and>
    dom (map_of (field_2_value_map ix')) = dom (map_of (field_2_value_map ix)) \<and>
    ix_mem R ix' = (\<lambda>n t k b' i'. ix_mem R ix n t k b' i' \<and> \<not> (carries attrs n t k \<and> b' = b \<and> i' = i))"
  using assms(2,4)
proof (induction attrs arbitrary: ix)
  case Nil
  then show ?case by (auto simp: carries_def)
next
  case (Cons a as)
  have a: "\<not> is_Unnamed (GetValueType a)" "map_of (field_2_value_map ix) (attr_name a) \<noteq> None" using Cons.prems(2) by simp_all
  obtain vm t where vm: "field_slot ix (attr_name a) = Some vm" "vm_ok bt vm" "map_of (field_type_map ix) (attr_name a) = Some t" "\<not> is_Unnamed t"
    by (rule ix_okD [OF Cons.prems(1) a(2)])
  obtain vm' where vm': "AttrValueMap_Erase_values R vm (GetValueType a) i (GetValue a) b = Inr vm'" "vm_ok bt vm'"
      "vm_mem R vm' = (\<lambda>t k b' i'. vm_mem R vm t k b' i' \<and> \<not> (t = GetValueType a \<and> k \<in> set (GetValue a) \<and> b' = b \<and> i' = i))"
    using AttrValueMap_Erase_values_ok [OF R vm(2) i] by blast
  let ?ix = "put_field ix (attr_name a) (Some vm')"
  note put = ix_put [OF Cons.prems(1) vm'(2) vm(3,4)]
  have "ix_mem R ix (attr_name a) = vm_mem R vm" by (simp add: ix_mem_def vm(1) fun_eq_iff)
  then have mem: "ix_mem R ?ix = (\<lambda>n t k b' i'. ix_mem R ix n t k b' i' \<and> \<not> (attr_name a = n \<and> t = GetValueType a \<and> k \<in> set (GetValue a) \<and> b' = b \<and> i' = i))"
    unfolding put(2) vm'(3) by (auto simp: fun_eq_iff)
  have dom: "dom (map_of (field_2_value_map ?ix)) = dom (map_of (field_2_value_map ix))"
    using a(2) by (auto simp: put_field_def update_conv')
  have "\<forall>a \<in> set as. \<not> is_Unnamed (GetValueType a) \<and> map_of (field_2_value_map ?ix) (attr_name a) \<noteq> None"
    using Cons.prems(2) dom by auto
  then obtain ix' where ix': "erase_origin R ?ix as i b = Inr ix'" "ix_ok bt ix'" "field_type_map ix' = field_type_map ?ix"
      "dom (map_of (field_2_value_map ix')) = dom (map_of (field_2_value_map ?ix))"
      "ix_mem R ix' = (\<lambda>n t k b' i'. ix_mem R ?ix n t k b' i' \<and> \<not> (carries as n t k \<and> b' = b \<and> i' = i))"
    using Cons.IH [OF put(1)] by blast
  have "ix_mem R ix' = (\<lambda>n t k b' i'. ix_mem R ix n t k b' i' \<and> \<not> (carries (a # as) n t k \<and> b' = b \<and> i' = i))"
    unfolding ix'(5) mem by (auto simp: fun_eq_iff carries_Cons)
  then show ?case
    using ix'(1-4) vm(1) vm'(1) a(1) dom by (simp add: put_field_def erase_by_attr_def call_on_def)
qed

text \<open>Reading the attributes of an id.\<close>

lemma get_attr_by_type_ok:
  assumes ok: "vm_ok bt vm" and t: "\<not> is_Unnamed t"
  shows "\<exists>ks. get_attr_by_type R (Some vm) t i b n = Inr (if ks = [] then None else Some \<lparr>attr_name = n, GetValueType = t, GetValue = ks\<rparr>) \<and>
    (\<forall>k. k \<in> set ks \<longrightarrow> of_type t k) \<and> (\<forall>k. k \<in> set ks \<longleftrightarrow> vm_mem R vm t k b i)"
proof -
  let ?ks = "map fst (filter (\<lambda>(k, m). mb_mem R m (scast b) i) (value_maps vm t))"
  have "collect_keys R i b (value_maps vm t) = Inr ?ks"
    by (rule collect_keys_ok [of _ bt]) (use ok in \<open>auto simp: vm_ok_def\<close>)
  then have "get_attr_by_type R (Some vm) t i b n = Inr (if ?ks = [] then None else Some \<lparr>attr_name = n, GetValueType = t, GetValue = ?ks\<rparr>)"
    using t by (simp add: get_attr_by_type_def call_on_def AttrValueMap_GetAttr_def)
  moreover have "\<forall>k. k \<in> set ?ks \<longrightarrow> of_type t k" using ok by (auto simp: vm_ok_def)
  moreover have "\<forall>k. k \<in> set ?ks \<longleftrightarrow> vm_mem R vm t k b i" unfolding vm_mem_iff [OF ok] by force
  ultimately show ?thesis by (intro exI [of _ ?ks]) simp
qed

lemma get_attributes_ok:
  assumes "\<forall>(n, p) \<in> set fs. \<exists>vm t. p = Some vm \<and> vm_ok bt vm \<and> map_of schema n = Some t \<and> \<not> is_Unnamed t"
  shows "\<exists>as. get_attributes R schema b i fs = Inr as \<and> (\<forall>a \<in> set as. attr_ok a) \<and>
    (\<forall>n t k. carries as n t k \<longleftrightarrow> (\<exists>vm. (n, Some vm) \<in> set fs \<and> map_of schema n = Some t \<and> vm_mem R vm t k b i))"
  using assms
proof (induction fs)
  case Nil
  then show ?case by (simp add: carries_def)
next
  case (Cons x fs)
  obtain n vm t where x: "x = (n, Some vm)" and vm: "vm_ok bt vm" "map_of schema n = Some t" "\<not> is_Unnamed t"
    using Cons.prems by (cases x) auto
  obtain ks where ks: "get_attr_by_type R (Some vm) t i b n = Inr (if ks = [] then None else Some \<lparr>attr_name = n, GetValueType = t, GetValue = ks\<rparr>)"
      "\<forall>k. k \<in> set ks \<longrightarrow> of_type t k" "\<forall>k. k \<in> set ks \<longleftrightarrow> vm_mem R vm t k b i"
    using get_attr_by_type_ok [OF vm(1,3)] by blast
  obtain as where as: "get_attributes R schema b i fs = Inr as" "\<forall>a \<in> set as. attr_ok a"
      "\<forall>n t k. carries as n t k \<longleftrightarrow> (\<exists>vm. (n, Some vm) \<in> set fs \<and> map_of schema n = Some t \<and> vm_mem R vm t k b i)"
    using Cons by auto
  let ?as = "if ks = [] then as else \<lparr>attr_name = n, GetValueType = t, GetValue = ks\<rparr> # as"
  have "get_attributes R schema b i (x # fs) = Inr ?as"
    using x vm(2) ks(1) as(1) by (simp add: GetTypeOfField_def)
  moreover have "\<forall>a \<in> set ?as. attr_ok a" using as(2) ks(2) vm(3) by (auto simp: attr_ok_def)
  moreover have "carries ?as n' t' k \<longleftrightarrow> n' = n \<and> t' = t \<and> k \<in> set ks \<or> carries as n' t' k" for n' t' k
    by (auto simp: carries_Cons)
  ultimately show ?case using as(3) ks(3) x vm(2) by (intro exI [of _ ?as]) (auto simp del: if_image_distrib)
qed

lemma GetAttribute_ok:
  assumes "ix_ok bt ix"
  shows "\<exists>as. GetAttribute R ix b i = Inr as \<and> (\<forall>a \<in> set as. attr_ok a) \<and>
    (\<forall>n t k. carries as n t k \<longleftrightarrow> map_of (field_type_map ix) n = Some t \<and> ix_mem R ix n t k b i)"
proof -
  have d: "distinct (map fst (field_2_value_map ix))" using assms by (simp add: ix_ok_def)
  have *: "map_of (field_2_value_map ix) n = Some p \<longleftrightarrow> (n, p) \<in> set (field_2_value_map ix)" for n p
    by (rule map_of_eq_Some_iff [OF d])
  have "\<forall>(n, p) \<in> set (field_2_value_map ix). \<exists>vm t. p = Some vm \<and> vm_ok bt vm \<and> map_of (field_type_map ix) n = Some t \<and> \<not> is_Unnamed t"
    using assms unfolding ix_ok_def * by blast
  from get_attributes_ok [OF this, of R b i] obtain as where as: "GetAttribute R ix b i = Inr as" "\<forall>a \<in> set as. attr_ok a"
      "\<forall>n t k. carries as n t k \<longleftrightarrow> (\<exists>vm. (n, Some vm) \<in> set (field_2_value_map ix) \<and> map_of (field_type_map ix) n = Some t \<and> vm_mem R vm t k b i)"
    unfolding GetAttribute_def by blast
  have "field_slot ix n = Some vm \<longleftrightarrow> (n, Some vm) \<in> set (field_2_value_map ix)" for n vm
    unfolding * [symmetric] field_slot_def by (cases "map_of (field_2_value_map ix) n") simp_all
  moreover have "ix_mem R ix n t k b i \<longleftrightarrow> (\<exists>vm. field_slot ix n = Some vm \<and> vm_mem R vm t k b i)" for n t k
    by (simp add: ix_mem_def split: option.split)
  ultimately have "ix_mem R ix n t k b i \<longleftrightarrow> (\<exists>vm. (n, Some vm) \<in> set (field_2_value_map ix) \<and> vm_mem R vm t k b i)" for n t k
    by simp
  then show ?thesis using as by (intro exI [of _ as]) (simp, blast)
qed

section \<open>Properties\<close>

text \<open>C5: the index is the relation between ids and the values they carry: \<open>Insert\<close> of well-typed attributes adds exactly their
  values for the id in its bucket, on both kinds of bitset, and \<open>UpdateBitsetsByAttr\<close> with the former attributes removes
  exactly those and adds the new ones, for fields the index knows; both keep the invariant.\<close>

theorem attribute_index_refines:
  assumes "roaring_laws R" and "ix_ok bt ix" and "\<forall>a \<in> set attrs. attr_ok a" and "bucket_ok b" and "storable i"
  shows "(\<exists>ix'. AttributeIndex_Insert R ix attrs i b = Inr ix' \<and> ix_ok bt ix' \<and>
      (\<forall>n t k b' i'. ix_mem R ix' n t k b' i' \<longleftrightarrow> ix_mem R ix n t k b' i' \<or> carries attrs n t k \<and> b' = b \<and> i' = i)) \<and>
    ((\<forall>a \<in> set (origin @ attrs). \<not> is_Unnamed (GetValueType a) \<and> map_of (field_2_value_map ix) (attr_name a) \<noteq> None) \<longrightarrow>
      (\<exists>ix'. UpdateBitsetsByAttr_origin R ix attrs i b origin = Inr ix' \<and> ix_ok bt ix' \<and>
        (\<forall>n t k b' i'. ix_mem R ix' n t k b' i' \<longleftrightarrow>
          (if b' = b \<and> i' = i then ix_mem R ix n t k b i \<and> \<not> carries origin n t k \<or> carries attrs n t k
           else ix_mem R ix n t k b' i'))))"
proof (intro conjI impI)
  show "\<exists>ix'. AttributeIndex_Insert R ix attrs i b = Inr ix' \<and> ix_ok bt ix' \<and>
      (\<forall>n t k b' i'. ix_mem R ix' n t k b' i' \<longleftrightarrow> ix_mem R ix n t k b' i' \<or> carries attrs n t k \<and> b' = b \<and> i' = i)"
    using AttributeIndex_Insert_ok [OF assms] by auto
  assume names: "\<forall>a \<in> set (origin @ attrs). \<not> is_Unnamed (GetValueType a) \<and> map_of (field_2_value_map ix) (attr_name a) \<noteq> None"
  then obtain ix1 where ix1: "erase_origin R ix origin i b = Inr ix1" "ix_ok bt ix1"
      "dom (map_of (field_2_value_map ix1)) = dom (map_of (field_2_value_map ix))"
      "ix_mem R ix1 = (\<lambda>n t k b' i'. ix_mem R ix n t k b' i' \<and> \<not> (carries origin n t k \<and> b' = b \<and> i' = i))"
    using erase_origin_ok [OF assms(1,2,5), of origin b] by auto
  have "\<forall>a \<in> set attrs. attr_ok a \<and> map_of (field_2_value_map ix1) (attr_name a) \<noteq> None"
    using names assms(3) ix1(3) by (auto simp: set_eq_iff dom_def)
  from insert_updated_ok [OF assms(1) ix1(2) this assms(4,5)] obtain ix' where ix': "insert_updated R ix1 attrs i b = Inr ix'" "ix_ok bt ix'"
      "ix_mem R ix' = (\<lambda>n t k b' i'. ix_mem R ix1 n t k b' i' \<or> carries attrs n t k \<and> b' = b \<and> i' = i)"
    by blast
  then show "\<exists>ix'. UpdateBitsetsByAttr_origin R ix attrs i b origin = Inr ix' \<and> ix_ok bt ix' \<and>
      (\<forall>n t k b' i'. ix_mem R ix' n t k b' i' \<longleftrightarrow>
        (if b' = b \<and> i' = i then ix_mem R ix n t k b i \<and> \<not> carries origin n t k \<or> carries attrs n t k
         else ix_mem R ix n t k b' i'))"
    using ix1(1,4) by (auto simp: UpdateBitsetsByAttr_origin_def)
qed

definition demo_attrs :: "Attribute list" where
  "demo_attrs = [\<lparr>attr_name = [97], GetValueType = INT8, GetValue = [IntKey (- 3), IntKey 7]\<rparr>,
     \<lparr>attr_name = [98], GetValueType = STRING, GetValue = [StrKey [120]]\<rparr>]"

lemma demo_attrs_ok: "\<forall>a \<in> set demo_attrs. attr_ok a"
  by (simp add: demo_attrs_def attr_ok_def is_integer_def type_min_def type_max_def is_signed_def)

lemma demo_place: "bucket_ok 2" "storable 42"
  by (simp_all add: bucket_ok_def storable_def)

theorem attribute_index_refines_witness:
  "\<exists>ix'. AttributeIndex_Insert list_roaring (AttributeIndex_MakeInstance False) demo_attrs 42 2 = Inr ix' \<and>
    ix_mem list_roaring ix' [97] INT8 (IntKey 7) 2 42 \<and> \<not> ix_mem list_roaring ix' [97] INT8 (IntKey 8) 2 42"
  using attribute_index_refines [OF list_roaring_laws ix_ok_new(1) demo_attrs_ok demo_place, of False, THEN conjunct1]
  by (auto simp: ix_ok_new(2) demo_attrs_def carries_def)

text \<open>C37: the index is well-typed: every value it holds under a type is a value of that type, and the attributes
  \<open>GetAttribute\<close> returns have the type the schema gives their field and only values of that type; they are exactly the
  values the id carries under that type.\<close>

theorem attribute_index_typed:
  assumes "ix_ok bt ix"
  shows "(ix_mem R ix n t k b i \<longrightarrow> of_type t k) \<and>
    (\<exists>as. GetAttribute R ix b i = Inr as \<and>
      (\<forall>a \<in> set as. GetTypeOfField (field_type_map ix) (attr_name a) = Inr (GetValueType a) \<or> GetValue a = []) \<and>
      (\<forall>a \<in> set as. \<forall>k \<in> set (GetValue a). of_type (GetValueType a) k) \<and>
      (\<forall>n t k. carries as n t k \<longleftrightarrow> GetTypeOfField (field_type_map ix) n = Inr t \<and> ix_mem R ix n t k b i))"
proof
  show "ix_mem R ix n t k b i \<longrightarrow> of_type t k"
  proof
    assume m: "ix_mem R ix n t k b i"
    then have "map_of (field_2_value_map ix) n \<noteq> None" by (auto simp: ix_mem_def field_slot_def split: option.splits)
    then obtain vm where "field_slot ix n = Some vm" "vm_ok bt vm" by (rule ix_okD [OF assms])
    then show "of_type t k" using m vm_okD(1) by (auto simp: ix_mem_def vm_mem_def split: option.splits)
  qed
  obtain as where as: "GetAttribute R ix b i = Inr as" "\<forall>a \<in> set as. attr_ok a"
      "\<forall>n t k. carries as n t k \<longleftrightarrow> map_of (field_type_map ix) n = Some t \<and> ix_mem R ix n t k b i"
    using GetAttribute_ok [OF assms] by blast
  have g: "GetTypeOfField (field_type_map ix) n = Inr t \<longleftrightarrow> map_of (field_type_map ix) n = Some t" for n t
    by (simp add: GetTypeOfField_def split: option.split)
  have "GetTypeOfField (field_type_map ix) (attr_name a) = Inr (GetValueType a) \<or> GetValue a = []" if "a \<in> set as" for a
  proof (cases "GetValue a")
    case (Cons k ks)
    then have "carries as (attr_name a) (GetValueType a) k" using that by (auto simp: carries_def)
    then show ?thesis using as(3) g by blast
  qed simp
  then show "\<exists>as. GetAttribute R ix b i = Inr as \<and>
      (\<forall>a \<in> set as. GetTypeOfField (field_type_map ix) (attr_name a) = Inr (GetValueType a) \<or> GetValue a = []) \<and>
      (\<forall>a \<in> set as. \<forall>k \<in> set (GetValue a). of_type (GetValueType a) k) \<and>
      (\<forall>n t k. carries as n t k \<longleftrightarrow> GetTypeOfField (field_type_map ix) n = Inr t \<and> ix_mem R ix n t k b i)"
    using as g unfolding attr_ok_def by blast
qed

theorem attribute_index_typed_witness:
  "\<exists>ix' as. AttributeIndex_Insert list_roaring (AttributeIndex_MakeInstance True) demo_attrs 42 2 = Inr ix' \<and>
    GetAttribute list_roaring ix' 2 42 = Inr as \<and> carries as [98] STRING (StrKey [120])"
proof -
  let ?ix = "AttributeIndex_MakeInstance True :: u32 list AttributeIndex"
  obtain ix' where ix': "AttributeIndex_Insert list_roaring ?ix demo_attrs 42 2 = Inr ix'" "ix_ok FastBitsetType ix'"
      "ix_mem list_roaring ix' = (\<lambda>n t k b' i'. ix_mem list_roaring ?ix n t k b' i' \<or> carries demo_attrs n t k \<and> b' = 2 \<and> i' = 42)"
      "map_of (field_type_map ix') = map_of (field_type_map ?ix) ++ map_of (rev (map (\<lambda>a. (attr_name a, GetValueType a)) demo_attrs))"
    using AttributeIndex_Insert_ok [OF list_roaring_laws ix_ok_new(1) demo_attrs_ok demo_place, of True] by auto
  have "GetTypeOfField (field_type_map ix') [98] = Inr STRING"
    by (simp add: GetTypeOfField_def ix'(4) demo_attrs_def map_add_def)
  moreover have "ix_mem list_roaring ix' [98] STRING (StrKey [120]) 2 42" by (simp add: ix'(3) demo_attrs_def carries_def)
  ultimately show ?thesis using ix'(1) attribute_index_typed [OF ix'(2), of list_roaring "[98]" STRING "StrKey [120]" 2 42] by blast
qed

end
