(* ===== verification/AttrExecutor.thy ===== *)
theory AttrExecutor
  imports AttributeIndex
begin

text \<open>
  Evaluation of attribute filters: the expressions of \<^verbatim>\<open>src/src/attr/expression.h\<close>, the filters
  \<^verbatim>\<open>src/src/impl/filter/{white_list,black_list}_filter.{h,cpp}\<close> and the executors of
  \<^verbatim>\<open>src/src/attr/executor\<close>.

  An executor turns an expression into a filter for one bucket after another. Its bitset is reused: \<open>Run\<close>
  adds to it, \<open>Clear\<close> empties it. A logical executor does not own a bitset, it works on the one of its
  left operand: the model keeps only the fact that its pointer is set and reads and writes through the left
  operand. A filter that \<open>Run\<close> returns refers to the executor, so it is its state that tells what the
  filter answers.
\<close>

section \<open>Expressions\<close>

text \<open>A \<open>NumericValue\<close> is an \<open>int64_t\<close>, a \<open>uint64_t\<close> or a \<open>double\<close>, kept as its 64 bits.\<close>

datatype NumericValue = NumI64 u64 | NumU64 u64 | NumDouble u64

datatype ComparisonOperator = EQ | NE | GT | LT | GE | LE

datatype LogicalOperator = LogicalAnd | LogicalOr | LogicalNot

datatype ArithmeticOperator = ADD | SUB | MUL | DIV

datatype Expression =
    FieldExpression "byte list"
  | NumericConstant NumericValue
  | StringConstant "byte list"
  | StrListConstant "byte list list"
  | IntListConstantI64 "u64 list"
  | IntListConstantU64 "u64 list"
  | ArithmeticExpression Expression ArithmeticOperator Expression
  | ComparisonExpression Expression ComparisonOperator Expression
  | IntListExpression Expression bool Expression
  | StrListExpression Expression bool Expression
  | LogicalExpression Expression LogicalOperator Expression
  | NotExpression Expression

text \<open>
  Comparison of an \<open>int64_t\<close> or \<open>uint64_t\<close> with a limit of another type: when one of them is a
  \<open>uint64_t\<close> both are converted to it.
\<close>

definition cpp_less :: "bool \<Rightarrow> int \<Rightarrow> int \<Rightarrow> bool" where
  "cpp_less uns a b \<longleftrightarrow> (if uns then (word_of_int a :: u64) < word_of_int b else a < b)"

definition wrap_to :: "AttrValueType \<Rightarrow> int \<Rightarrow> int" where
  "wrap_to t n = (if is_signed t then signed_take_bit (type_bits t - 1) n else take_bit (type_bits t) n)"

definition GetNumericValue :: "AttrValueType \<Rightarrow> NumericValue \<Rightarrow> int result" where
  "GetNumericValue t v =
     (case v of
        NumDouble _ \<Rightarrow> Inl StdRuntimeError
      | NumI64 w \<Rightarrow>
          (let arg = sint w in
           if \<not> is_signed t \<and> arg < 0 then Inl StdRuntimeError
           else if cpp_less (t = UINT64) arg (type_min t) \<or> cpp_less (t = UINT64) (type_max t) arg then Inl StdRuntimeError
           else Inr (wrap_to t arg))
      | NumU64 w \<Rightarrow>
          (let arg = uint w in
           if cpp_less True arg (type_min t) \<or> cpp_less True (type_max t) arg then Inl StdRuntimeError
           else Inr (wrap_to t arg)))"

section \<open>Filters\<close>

datatype FilterState = NoFilter | WhiteBitset | WhiteFunc | BlackBitset

text \<open>\<open>CheckValid\<close> of a filter over a bitset, which masks the id to its low 32 bits.\<close>

definition WhiteListFilter_CheckValid :: "'r Roaring \<Rightarrow> 'r Bitset \<Rightarrow> int \<Rightarrow> bool result" where
  "WhiteListFilter_CheckValid R b i = Bitset_Test R b (i AND 0xFFFFFFFF)"

definition BlackListFilter_CheckValid :: "'r Roaring \<Rightarrow> 'r Bitset \<Rightarrow> int \<Rightarrow> bool result" where
  "BlackListFilter_CheckValid R b i = bind_r (Bitset_Test R b (i AND 0xFFFFFFFF)) (\<lambda>v. Inr (\<not> v))"

section \<open>Executors\<close>

record 'r LeafExecutor =
  ex_only_bitset :: bool
  ex_filter :: FilterState
  ex_bitset :: "'r Bitset option"
  ex_own_bitset :: bool
  ex_attribute :: Attribute
  ex_managers :: "manager_ptr list"

datatype 'r Executor =
    ComparisonExecutor "'r LeafExecutor" ComparisonOperator
  | IntegerListExecutor "'r LeafExecutor" bool
  | StringListExecutor "'r LeafExecutor" bool
  | LogicalExecutor bool FilterState bool LogicalOperator "'r Executor" "'r Executor"

definition LeafExecutor_new :: "byte list \<Rightarrow> AttrValueType \<Rightarrow> AttrKey list \<Rightarrow> 'r LeafExecutor" where
  "LeafExecutor_new field_name t ks =
     \<lparr>ex_only_bitset = True, ex_filter = NoFilter, ex_bitset = None, ex_own_bitset = False,
      ex_attribute = \<lparr>attr_name = field_name, GetValueType = t, GetValue = ks\<rparr>, ex_managers = []\<rparr>"

definition ComparisonExecutor_new :: "AttrTypeSchema \<Rightarrow> Expression \<Rightarrow> ComparisonOperator \<Rightarrow> Expression \<Rightarrow> 'r Executor result" where
  "ComparisonExecutor_new schema left op right =
     (case left of
        FieldExpression field_name \<Rightarrow>
          bind_r (GetTypeOfField schema field_name) (\<lambda>value_type.
          if value_type = STRING then
            (case right of
               StringConstant s \<Rightarrow> Inr (ComparisonExecutor (LeafExecutor_new field_name STRING [StrKey s]) op)
             | _ \<Rightarrow> Inl (Vsag INTERNAL_ERROR))
          else
            (case right of
               NumericConstant v \<Rightarrow>
                 if is_Unnamed value_type then Inl (Vsag INTERNAL_ERROR)
                 else bind_r (GetNumericValue value_type v) (\<lambda>n.
                   Inr (ComparisonExecutor (LeafExecutor_new field_name value_type [IntKey n]) op))
             | _ \<Rightarrow> Inl (Vsag INTERNAL_ERROR)))
      | _ \<Rightarrow> Inl (Vsag INTERNAL_ERROR))"

definition IntegerListExecutor_new :: "AttrTypeSchema \<Rightarrow> Expression \<Rightarrow> bool \<Rightarrow> Expression \<Rightarrow> 'r Executor result" where
  "IntegerListExecutor_new schema field is_not_in vals =
     (case field of
        FieldExpression field_name \<Rightarrow>
          bind_r
            (case vals of
               IntListConstantI64 ws \<Rightarrow> Inr (map sint ws)
             | IntListConstantU64 ws \<Rightarrow> Inr (map uint ws)
             | _ \<Rightarrow> Inl (Vsag INTERNAL_ERROR)) (\<lambda>list_variant.
          bind_r (GetTypeOfField schema field_name) (\<lambda>value_type.
            if value_type = STRING \<or> is_Unnamed value_type then Inl (Vsag INTERNAL_ERROR)
            else Inr (IntegerListExecutor
              (LeafExecutor_new field_name value_type (map (\<lambda>n. IntKey (wrap_to value_type n)) list_variant)) is_not_in)))
      | _ \<Rightarrow> Inl (Vsag INTERNAL_ERROR))"

definition StringListExecutor_new :: "Expression \<Rightarrow> bool \<Rightarrow> Expression \<Rightarrow> 'r Executor result" where
  "StringListExecutor_new field is_not_in vals =
     (case field of
        FieldExpression field_name \<Rightarrow>
          (case vals of
             StrListConstant ss \<Rightarrow> Inr (StringListExecutor (LeafExecutor_new field_name STRING (map StrKey ss)) is_not_in)
           | _ \<Rightarrow> Inl (Vsag INTERNAL_ERROR))
      | _ \<Rightarrow> Inl (Vsag INTERNAL_ERROR))"

fun Executor_MakeInstance :: "AttrTypeSchema \<Rightarrow> Expression \<Rightarrow> 'r Executor result" where
  "Executor_MakeInstance schema (ComparisonExpression left op right) = ComparisonExecutor_new schema left op right"
| "Executor_MakeInstance schema (IntListExpression field is_not_in vals) = IntegerListExecutor_new schema field is_not_in vals"
| "Executor_MakeInstance schema (StrListExpression field is_not_in vals) = StringListExecutor_new field is_not_in vals"
| "Executor_MakeInstance schema (LogicalExpression left op right) =
     bind_r (Executor_MakeInstance schema left) (\<lambda>l.
     bind_r (Executor_MakeInstance schema right) (\<lambda>r.
       Inr (LogicalExecutor True NoFilter False op l r)))"
| "Executor_MakeInstance schema _ = Inl (Vsag INTERNAL_ERROR)"

definition leaf_Init :: "'r Roaring \<Rightarrow> 'r AttributeIndex \<Rightarrow> 'r LeafExecutor \<Rightarrow> 'r LeafExecutor result" where
  "leaf_Init R ix x =
     (let x = (if ex_bitset x = None
               then x\<lparr>ex_bitset := Some (MakeRawInstance R (ai_bitset_type ix)), ex_own_bitset := True\<rparr> else x) in
      bind_r (GetBitsetsByAttr ix (ex_attribute x)) (\<lambda>ptrs. Inr (x\<lparr>ex_managers := ptrs\<rparr>)))"

fun Executor_Init :: "'r Roaring \<Rightarrow> 'r AttributeIndex \<Rightarrow> 'r Executor \<Rightarrow> 'r Executor result" where
  "Executor_Init R ix (ComparisonExecutor x op) = bind_r (leaf_Init R ix x) (\<lambda>x. Inr (ComparisonExecutor x op))"
| "Executor_Init R ix (IntegerListExecutor x neg) = bind_r (leaf_Init R ix x) (\<lambda>x. Inr (IntegerListExecutor x neg))"
| "Executor_Init R ix (StringListExecutor x neg) = bind_r (leaf_Init R ix x) (\<lambda>x. Inr (StringListExecutor x neg))"
| "Executor_Init R ix (LogicalExecutor ob fl al op l r) =
     bind_r (Executor_Init R ix l) (\<lambda>l. bind_r (Executor_Init R ix r) (\<lambda>r. Inr (LogicalExecutor ob fl al op l r)))"

text \<open>The bitset an executor points to, and a change of it.\<close>

fun Executor_bitset :: "'r Executor \<Rightarrow> 'r Bitset option" where
  "Executor_bitset (ComparisonExecutor x op) = ex_bitset x"
| "Executor_bitset (IntegerListExecutor x neg) = ex_bitset x"
| "Executor_bitset (StringListExecutor x neg) = ex_bitset x"
| "Executor_bitset (LogicalExecutor ob fl al op l r) = (if al then Executor_bitset l else None)"

fun put_bitset :: "'r Executor \<Rightarrow> 'r Bitset \<Rightarrow> 'r Executor" where
  "put_bitset (ComparisonExecutor x op) b = ComparisonExecutor (x\<lparr>ex_bitset := Some b\<rparr>) op"
| "put_bitset (IntegerListExecutor x neg) b = IntegerListExecutor (x\<lparr>ex_bitset := Some b\<rparr>) neg"
| "put_bitset (StringListExecutor x neg) b = StringListExecutor (x\<lparr>ex_bitset := Some b\<rparr>) neg"
| "put_bitset (LogicalExecutor ob fl al op l r) b = LogicalExecutor ob fl al op (put_bitset l b) r"

definition base_Clear :: "'r Roaring \<Rightarrow> 'r Executor \<Rightarrow> 'r Executor" where
  "base_Clear R ex = (case Executor_bitset ex of None \<Rightarrow> ex | Some b \<Rightarrow> put_bitset ex (Bitset_Clear R b))"

fun Executor_Clear :: "'r Roaring \<Rightarrow> 'r Executor \<Rightarrow> 'r Executor" where
  "Executor_Clear R (LogicalExecutor ob fl al op l r) =
     base_Clear R (LogicalExecutor ob fl al op (Executor_Clear R l) (Executor_Clear R r))"
| "Executor_Clear R ex = base_Clear R ex"

fun or_managers ::
    "'r Roaring \<Rightarrow> 'r AttributeIndex \<Rightarrow> BucketIdType \<Rightarrow> manager_ptr list \<Rightarrow> 'r Bitset option \<Rightarrow> 'r Bitset option result" where
  "or_managers R ix bucket_id [] p = Inr p"
| "or_managers R ix bucket_id (None # ptrs) p = or_managers R ix bucket_id ptrs p"
| "or_managers R ix bucket_id (Some ptr # ptrs) p =
     bind_r (deref ix ptr) (\<lambda>manager.
     bind_r (GetOneBitset manager (scast bucket_id)) (\<lambda>bitset.
       case p of None \<Rightarrow> Inl UndefinedBehaviour
       | Some b \<Rightarrow> bind_r (Bitset_Or R b bitset) (\<lambda>b. or_managers R ix bucket_id ptrs (Some b))))"

text \<open>The common part of the three leaf executors; \<open>negated\<close> is \<open>NE\<close> or \<open>NOT_IN\<close>.\<close>

definition leaf_Run :: "'r Roaring \<Rightarrow> 'r AttributeIndex \<Rightarrow> BucketIdType \<Rightarrow> bool \<Rightarrow> 'r LeafExecutor \<Rightarrow> 'r LeafExecutor result" where
  "leaf_Run R ix bucket_id negated x =
     bind_r (or_managers R ix bucket_id (ex_managers x) (ex_bitset x)) (\<lambda>p.
     if \<not> negated then Inr (x\<lparr>ex_bitset := p, ex_only_bitset := True, ex_filter := WhiteBitset\<rparr>)
     else if ai_bitset_type ix = FastBitsetType then
       (case p of None \<Rightarrow> Inl UndefinedBehaviour
        | Some b \<Rightarrow> bind_r (Bitset_Not R b) (\<lambda>b.
            Inr (x\<lparr>ex_bitset := Some b, ex_only_bitset := True, ex_filter := WhiteBitset\<rparr>)))
     else Inr (x\<lparr>ex_bitset := p, ex_only_bitset := False, ex_filter := BlackBitset\<rparr>))"

fun Executor_only_bitset :: "'r Executor \<Rightarrow> bool" where
  "Executor_only_bitset (ComparisonExecutor x op) = ex_only_bitset x"
| "Executor_only_bitset (IntegerListExecutor x neg) = ex_only_bitset x"
| "Executor_only_bitset (StringListExecutor x neg) = ex_only_bitset x"
| "Executor_only_bitset (LogicalExecutor ob fl al op l r) = ob"

definition logical_run :: "'r Roaring \<Rightarrow> bool \<Rightarrow> LogicalOperator \<Rightarrow> 'r Executor \<Rightarrow> 'r Executor \<Rightarrow> 'r Executor result" where
  "logical_run R al op l r =
     (if op = LogicalNot then Inl (Vsag INTERNAL_ERROR)
      else if Executor_only_bitset l \<and> Executor_only_bitset r then
        (case Executor_bitset l of None \<Rightarrow> Inl UndefinedBehaviour
         | Some b \<Rightarrow>
             bind_r (if op = LogicalAnd then Bitset_And R b (Executor_bitset r) else Bitset_Or R b (Executor_bitset r)) (\<lambda>b.
               Inr (LogicalExecutor True WhiteBitset True op (put_bitset l b) r)))
      else Inr (LogicalExecutor False WhiteFunc al op l r))"

fun Executor_Run :: "'r Roaring \<Rightarrow> 'r AttributeIndex \<Rightarrow> BucketIdType \<Rightarrow> 'r Executor \<Rightarrow> 'r Executor result" where
  "Executor_Run R ix bucket_id (ComparisonExecutor x op) =
     (if op \<noteq> EQ \<and> op \<noteq> NE then Inl (Vsag INTERNAL_ERROR)
      else bind_r (leaf_Run R ix bucket_id (op = NE) x) (\<lambda>x. Inr (ComparisonExecutor x op)))"
| "Executor_Run R ix bucket_id (IntegerListExecutor x neg) =
     bind_r (leaf_Run R ix bucket_id neg x) (\<lambda>x. Inr (IntegerListExecutor x neg))"
| "Executor_Run R ix bucket_id (StringListExecutor x neg) =
     bind_r (leaf_Run R ix bucket_id neg x) (\<lambda>x. Inr (StringListExecutor x neg))"
| "Executor_Run R ix bucket_id (LogicalExecutor ob fl al op l r) =
     bind_r (Executor_Run R ix bucket_id l) (\<lambda>l. bind_r (Executor_Run R ix bucket_id r) (\<lambda>r. logical_run R al op l r))"

definition bitset_CheckValid :: "'r Roaring \<Rightarrow> FilterState \<Rightarrow> 'r Bitset option \<Rightarrow> int \<Rightarrow> bool result" where
  "bitset_CheckValid R fl p i =
     (case p of None \<Rightarrow> Inl UndefinedBehaviour
      | Some b \<Rightarrow>
          if fl = WhiteBitset then WhiteListFilter_CheckValid R b i
          else if fl = BlackBitset then BlackListFilter_CheckValid R b i
          else Inl UndefinedBehaviour)"

fun Executor_CheckValid :: "'r Roaring \<Rightarrow> 'r Executor \<Rightarrow> int \<Rightarrow> bool result" where
  "Executor_CheckValid R (LogicalExecutor ob fl al op l r) i =
     (if fl = WhiteFunc then
        bind_r (Executor_CheckValid R l i) (\<lambda>v.
          if op = LogicalAnd \<and> \<not> v then Inr False
          else if op \<noteq> LogicalAnd \<and> v then Inr True
          else Executor_CheckValid R r i)
      else bitset_CheckValid R fl (if al then Executor_bitset l else None) i)"
| "Executor_CheckValid R (ComparisonExecutor x op) i = bitset_CheckValid R (ex_filter x) (ex_bitset x) i"
| "Executor_CheckValid R (IntegerListExecutor x neg) i = bitset_CheckValid R (ex_filter x) (ex_bitset x) i"
| "Executor_CheckValid R (StringListExecutor x neg) i = bitset_CheckValid R (ex_filter x) (ex_bitset x) i"

section \<open>What a filter means\<close>

text \<open>
  The meaning of an expression for an id, given which values the id carries in a field. Only equality,
  membership and their negations, joined by \<open>AND\<close> and \<open>OR\<close>, have one.
\<close>

fun literal :: "Expression \<Rightarrow> AttrKey" where
  "literal (NumericConstant (NumI64 w)) = IntKey (sint w)"
| "literal (NumericConstant (NumU64 w)) = IntKey (uint w)"
| "literal (StringConstant s) = StrKey s"
| "literal _ = StrKey []"

fun literals :: "Expression \<Rightarrow> AttrKey list" where
  "literals (IntListConstantI64 ws) = map (\<lambda>w. IntKey (sint w)) ws"
| "literals (IntListConstantU64 ws) = map (\<lambda>w. IntKey (uint w)) ws"
| "literals (StrListConstant ss) = map StrKey ss"
| "literals _ = []"

fun field_of :: "Expression \<Rightarrow> byte list" where
  "field_of (FieldExpression f) = f"
| "field_of _ = []"

fun satisfies :: "(byte list \<Rightarrow> AttrKey \<Rightarrow> bool) \<Rightarrow> Expression \<Rightarrow> bool" where
  "satisfies A (ComparisonExpression f op c) \<longleftrightarrow> (op = NE) \<noteq> A (field_of f) (literal c)"
| "satisfies A (IntListExpression f neg c) \<longleftrightarrow> neg \<noteq> (\<exists>k \<in> set (literals c). A (field_of f) k)"
| "satisfies A (StrListExpression f neg c) \<longleftrightarrow> neg \<noteq> (\<exists>k \<in> set (literals c). A (field_of f) k)"
| "satisfies A (LogicalExpression l op r) \<longleftrightarrow>
     (if op = LogicalAnd then satisfies A l \<and> satisfies A r else satisfies A l \<or> satisfies A r)"
| "satisfies A _ \<longleftrightarrow> False"

text \<open>Expressions the executors support on a schema: the literals are values of the type of the field.\<close>

fun supported :: "AttrTypeSchema \<Rightarrow> Expression \<Rightarrow> bool" where
  "supported schema (ComparisonExpression (FieldExpression f) op c) \<longleftrightarrow>
     (op = EQ \<or> op = NE) \<and>
     (case map_of schema f of None \<Rightarrow> False
      | Some t \<Rightarrow> of_type t (literal c) \<and> (case c of StringConstant _ \<Rightarrow> True | NumericConstant (NumI64 _) \<Rightarrow> True
          | NumericConstant (NumU64 _) \<Rightarrow> \<not> is_signed t | _ \<Rightarrow> False))"
| "supported schema (IntListExpression (FieldExpression f) neg c) \<longleftrightarrow>
     (case map_of schema f of None \<Rightarrow> False
      | Some t \<Rightarrow> is_integer t \<and> (\<forall>k \<in> set (literals c). of_type t k) \<and>
          (case c of IntListConstantI64 _ \<Rightarrow> True | IntListConstantU64 _ \<Rightarrow> True | _ \<Rightarrow> False))"
| "supported schema (StrListExpression (FieldExpression f) neg c) \<longleftrightarrow>
     map_of schema f = Some STRING \<and> (case c of StrListConstant _ \<Rightarrow> True | _ \<Rightarrow> False)"
| "supported schema (LogicalExpression l op r) \<longleftrightarrow> op \<noteq> LogicalNot \<and> supported schema l \<and> supported schema r"
| "supported schema _ \<longleftrightarrow> False"

section \<open>Conversions of literals\<close>

lemma wrap_to_id:
  assumes "type_min t \<le> n" and "n \<le> type_max t" and "is_integer t"
  shows "wrap_to t n = n"
  using assms by (cases t) (auto simp: wrap_to_def type_min_def type_max_def is_signed_def is_integer_def signed_take_bit_int_eq_self take_bit_int_eq_self)

lemma GetNumericValue_I64:
  assumes "of_type t (IntKey (sint w))"
  shows "GetNumericValue t (NumI64 w) = Inr (sint w)"
proof -
  have r: "is_integer t" "type_min t \<le> sint w" "sint w \<le> type_max t" using assms by auto
  have "\<not> cpp_less (t = UINT64) (sint w) (type_min t)" "\<not> cpp_less (t = UINT64) (type_max t) (sint w)"
    using r unsigned_less [of w, where ?'a = int] by (auto simp: cpp_less_def type_min_def type_max_def is_signed_def word_less_alt)
  then show ?thesis using r wrap_to_id [OF r(2,3,1)] by (auto simp: GetNumericValue_def type_min_def Let_def)
qed

lemma GetNumericValue_U64:
  assumes "of_type t (IntKey (uint w))" and "\<not> is_signed t"
  shows "GetNumericValue t (NumU64 w) = Inr (uint w)"
proof -
  have r: "is_integer t" "type_min t \<le> uint w" "uint w \<le> type_max t" using assms(1) by auto
  have t: "type_min t = 0" "type_bits t \<le> 64" using assms(2) by (cases t; simp add: type_min_def)+
  have "uint (word_of_int (type_max t) :: u64) = type_max t"
    using assms(2) t(2) r(1) by (cases t) (simp_all add: type_max_def is_signed_def is_integer_def)
  then show ?thesis using r wrap_to_id [OF r(2,3,1)] t(1) by (simp add: GetNumericValue_def cpp_less_def Let_def word_less_alt)
qed

section \<open>Leaf executors\<close>

text \<open>A pointer to a group that exists.\<close>

lemma deref_ok:
  assumes "ix_ok bt ix" and "field_slot ix n = Some vm" and "GetBitsetByValue vm t k = Some m"
  shows "deref ix (n, t, k) = Inr m" and "mb_ok bt m" and "mb_mem R m (scast b) i = ix_mem R ix n t k b i"
proof -
  show "deref ix (n, t, k) = Inr m" using assms(2,3) by (simp add: deref_def)
  have "map_of (field_2_value_map ix) n \<noteq> None" using assms(2) by (auto simp: field_slot_def split: option.splits)
  then have "vm_ok bt vm" using ix_okD [OF assms(1)] assms(2) by (metis option.inject)
  then show "mb_ok bt m" using vm_okD(2) assms(3) by (auto simp: GetBitsetByValue_def)
  show "mb_mem R m (scast b) i = ix_mem R ix n t k b i" using assms(2,3) by (simp add: ix_mem_def vm_mem_def GetBitsetByValue_def)
qed

text \<open>The pointers are the groups of the values of an attribute.\<close>

definition points_to :: "'r AttributeIndex \<Rightarrow> Attribute \<Rightarrow> manager_ptr list \<Rightarrow> bool" where
  "points_to ix a ptrs \<longleftrightarrow>
     list_all2 (\<lambda>k p. case field_slot ix (attr_name a) of None \<Rightarrow> p = None
       | Some vm \<Rightarrow> p = (if GetBitsetByValue vm (GetValueType a) k = None then None else Some (attr_name a, GetValueType a, k)))
       (GetValue a) ptrs"

lemma GetBitsetsByAttr_ok:
  assumes "ix_ok bt ix" and "\<not> is_Unnamed (GetValueType a)"
  shows "\<exists>ptrs. GetBitsetsByAttr ix a = Inr ptrs \<and> points_to ix a ptrs"
proof (cases "map_of (field_2_value_map ix) (attr_name a)")
  case None
  then show ?thesis by (auto simp: GetBitsetsByAttr_def points_to_def field_slot_def GetValueCount_def list_all2_conv_all_nth)
next
  case (Some p)
  then obtain vm where vm: "field_slot ix (attr_name a) = Some vm" using ix_okD [OF assms(1)] by (metis option.distinct(1))
  then have "p = Some vm" using Some by (simp add: field_slot_def)
  then show ?thesis using Some vm assms(2) by (auto simp: GetBitsetsByAttr_def points_to_def call_on_def list_all2_map2 list_all2_same)
qed

lemma or_managers_ok:
  assumes R: "roaring_laws R" and ix: "ix_ok bt ix" and "cb_ok bt s"
    and "list_all2 (\<lambda>k p. case field_slot ix n of None \<Rightarrow> p = None
       | Some vm \<Rightarrow> p = (if GetBitsetByValue vm t k = None then None else Some (n, t, k))) ks ptrs"
  shows "\<exists>s'. or_managers R ix b ptrs (Some s) = Inr (Some s') \<and> cb_ok bt s' \<and>
    cb_mem R s' = (\<lambda>i. cb_mem R s i \<or> (\<exists>k \<in> set ks. ix_mem R ix n t k b i))"
  using assms(4,3)
proof (induction ks ptrs arbitrary: s rule: list_all2_induct)
  case (Cons k ks p ptrs)
  show ?case
  proof (cases p)
    case None
    have "\<not> ix_mem R ix n t k b i" for i
      using Cons.hyps(1) None by (auto simp: ix_mem_def vm_mem_def GetBitsetByValue_def split: option.splits if_splits)
    then show ?thesis using Cons.IH [OF Cons.prems] None by simp
  next
    case (Some ptr)
    then obtain vm m where vm: "field_slot ix n = Some vm" "GetBitsetByValue vm t k = Some m" "ptr = (n, t, k)"
      using Cons.hyps(1) by (auto split: option.splits if_splits)
    note d = deref_ok [OF ix vm(1,2)]
    note g = GetOneBitset_ok [OF d(2), of "scast b"]
    obtain s1 where s1: "Bitset_Or R s (mb_get m (scast b)) = Inr s1" "cb_ok bt s1"
        "cb_mem R s1 = (\<lambda>i. cb_mem R s i \<or> (case mb_get m (scast b) of None \<Rightarrow> False | Some a \<Rightarrow> cb_mem R a i))"
      using Bitset_Or_ok [OF R Cons.prems g(2)] by blast
    have mem: "cb_mem R s1 = (\<lambda>i. cb_mem R s i \<or> ix_mem R ix n t k b i)"
      unfolding s1(3) d(3) [symmetric] by (simp add: mb_mem_def)
    show ?thesis using Cons.IH [OF s1(2)] mem s1(1) d(1) g(1) Some vm(3) by auto
  qed
qed auto

text \<open>
  An initialised leaf: its bitset exists and its pointers are those of its attribute. After \<open>Run\<close> its
  filter answers \<open>P\<close>, and when it reports \<open>only_bitset_\<close> its bitset is \<open>P\<close>.
\<close>

definition leaf_ready :: "'r AttributeIndex \<Rightarrow> 'r LeafExecutor \<Rightarrow> bool" where
  "leaf_ready ix x \<longleftrightarrow> (\<exists>b. ex_bitset x = Some b \<and> cb_ok (ai_bitset_type ix) b) \<and> points_to ix (ex_attribute x) (ex_managers x)"

lemma uint_mask: "uint (i :: u32) AND 0xFFFFFFFF = uint i"
proof -
  have "(0xFFFFFFFF :: int) = mask 32" by (simp add: mask_eq_exp_minus_1)
  then have "uint i AND 0xFFFFFFFF = take_bit 32 (uint i)" by (simp only: take_bit_eq_mask)
  then show ?thesis using unsigned_less [of i, where ?'a = int] by (simp add: take_bit_int_eq_self)
qed

lemma bitset_CheckValid_ok:
  assumes "cb_ok bt b"
  shows "bitset_CheckValid R WhiteBitset (Some b) (uint i) = Inr (cb_mem R b i)"
    and "bitset_CheckValid R BlackBitset (Some b) (uint i) = Inr (\<not> cb_mem R b i)"
  using Bitset_Test_ok [OF assms, of R i]
  by (simp_all add: bitset_CheckValid_def WhiteListFilter_CheckValid_def BlackListFilter_CheckValid_def uint_mask)

definition leaf_answers :: "'r Roaring \<Rightarrow> 'r LeafExecutor \<Rightarrow> (InnerIdType \<Rightarrow> bool) \<Rightarrow> bool" where
  "leaf_answers R x P \<longleftrightarrow> (\<forall>i. bitset_CheckValid R (ex_filter x) (ex_bitset x) (uint i) = Inr (P i)) \<and>
     (ex_only_bitset x \<longrightarrow> (\<exists>b. ex_bitset x = Some b \<and> cb_mem R b = P))"

lemma leaf_Run_ok:
  assumes R: "roaring_laws R" and ix: "ix_ok bt ix" and ready: "leaf_ready ix x" and empty: "\<forall>b. ex_bitset x = Some b \<longrightarrow> cb_mem R b = (\<lambda>_. False)"
  shows "\<exists>x'. leaf_Run R ix b neg x = Inr x' \<and> leaf_ready ix x' \<and> ex_attribute x' = ex_attribute x \<and>
    leaf_answers R x' (\<lambda>i. neg \<noteq> (\<exists>k \<in> set (GetValue (ex_attribute x)). ix_mem R ix (attr_name (ex_attribute x)) (GetValueType (ex_attribute x)) k b i))"
proof -
  have bt: "ai_bitset_type ix = bt" using ix by (simp add: ix_ok_def)
  obtain s where s: "ex_bitset x = Some s" "cb_ok bt s" "cb_mem R s = (\<lambda>_. False)" using ready empty bt by (auto simp: leaf_ready_def)
  let ?P = "\<lambda>i. \<exists>k \<in> set (GetValue (ex_attribute x)). ix_mem R ix (attr_name (ex_attribute x)) (GetValueType (ex_attribute x)) k b i"
  have "points_to ix (ex_attribute x) (ex_managers x)" using ready by (simp add: leaf_ready_def)
  from or_managers_ok [OF R ix s(2) this [unfolded points_to_def], of b] obtain s' where
      s': "or_managers R ix b (ex_managers x) (Some s) = Inr (Some s')" "cb_ok bt s'" "cb_mem R s' = ?P"
    unfolding s(3) by auto
  note v = bitset_CheckValid_ok [OF s'(2), of R]
  show ?thesis
  proof (cases "neg \<and> bt = FastBitsetType")
    case True
    then have "cb_ok FastBitsetType s'" using s'(2) by simp
    then obtain s2 where s2: "Bitset_Not R s' = Inr s2" "cb_ok bt s2" "cb_mem R s2 = (\<lambda>i. \<not> cb_mem R s' i)"
      using Bitset_Not_ok True by blast
    show ?thesis
      using True s(1) s'(1,3) s2 bt ready bitset_CheckValid_ok(1) [OF s2(2), of R]
      by (simp add: leaf_Run_def leaf_ready_def leaf_answers_def)
  next
    case False
    then show ?thesis
      using s(1) s' bt ready v by (cases neg) (simp_all add: leaf_Run_def leaf_ready_def leaf_answers_def)
  qed
qed

section \<open>Executors of expressions\<close>

definition carried :: "'r Roaring \<Rightarrow> 'r AttributeIndex \<Rightarrow> BucketIdType \<Rightarrow> InnerIdType \<Rightarrow> byte list \<Rightarrow> AttrKey \<Rightarrow> bool" where
  "carried R ix b i f k \<longleftrightarrow> (\<exists>t. GetTypeOfField (field_type_map ix) f = Inr t \<and> ix_mem R ix f t k b i)"

definition leaf_for :: "AttrTypeSchema \<Rightarrow> byte list \<Rightarrow> AttrKey list \<Rightarrow> 'r LeafExecutor \<Rightarrow> bool" where
  "leaf_for schema f ks x \<longleftrightarrow> (\<exists>t. map_of schema f = Some t \<and> \<not> is_Unnamed t \<and> ex_attribute x = \<lparr>attr_name = f, GetValueType = t, GetValue = ks\<rparr>)"

fun made_for :: "AttrTypeSchema \<Rightarrow> Expression \<Rightarrow> 'r Executor \<Rightarrow> bool" where
  "made_for schema (ComparisonExpression f op c) (ComparisonExecutor x op') \<longleftrightarrow> op' = op \<and> (op = EQ \<or> op = NE) \<and> leaf_for schema (field_of f) [literal c] x"
| "made_for schema (IntListExpression f neg c) (IntegerListExecutor x neg') \<longleftrightarrow> neg' = neg \<and> leaf_for schema (field_of f) (literals c) x"
| "made_for schema (StrListExpression f neg c) (StringListExecutor x neg') \<longleftrightarrow> neg' = neg \<and> leaf_for schema (field_of f) (literals c) x"
| "made_for schema (LogicalExpression l op r) (LogicalExecutor ob fl al op' xl xr) \<longleftrightarrow>
     op' = op \<and> op \<noteq> LogicalNot \<and> made_for schema l xl \<and> made_for schema r xr"
| "made_for schema _ _ \<longleftrightarrow> False"

lemma IntKey_wrap:
  assumes "is_integer t" and "\<forall>n \<in> set ns. of_type t (IntKey n)"
  shows "map (\<lambda>n. IntKey (wrap_to t n)) ns = map IntKey ns"
  using assms wrap_to_id by auto

lemma MakeInstance_ok:
  assumes "supported schema e"
  shows "\<exists>ex :: 'r Executor. Executor_MakeInstance schema e = Inr ex \<and> made_for schema e ex"
  using assms
proof (induction schema e rule: supported.induct)
  case (1 schema f op c)
  then obtain t where t: "map_of schema f = Some t" and c: "of_type t (literal c)" by (auto split: option.splits)
  have named: "\<not> is_Unnamed t" using c by (cases t; cases "literal c") (auto simp: is_integer_def)
  have type: "GetTypeOfField schema f = Inr t" using t by (simp add: GetTypeOfField_def)
  show ?case
  proof (cases c)
    case (StringConstant s)
    then show ?thesis using 1 t c type by (auto simp: ComparisonExecutor_new_def leaf_for_def LeafExecutor_new_def)
  next
    case (NumericConstant v)
    then have "t \<noteq> STRING" using c 1 t by (cases v) (auto simp: is_integer_def)
    moreover have "\<exists>n. GetNumericValue t v = Inr n \<and> literal c = IntKey n"
      using 1 t c NumericConstant GetNumericValue_I64 GetNumericValue_U64 by (cases v) auto
    ultimately show ?thesis using 1 t type named NumericConstant by (auto simp: ComparisonExecutor_new_def leaf_for_def LeafExecutor_new_def)
  qed (use 1 t in auto)
next
  case (2 schema f neg c)
  then obtain t where t: "map_of schema f = Some t" "is_integer t" and c: "\<forall>k \<in> set (literals c). of_type t k" by (auto split: option.splits)
  have named: "\<not> is_Unnamed t" "t \<noteq> STRING" using t(2) by (cases t; simp add: is_integer_def)+
  have type: "GetTypeOfField schema f = Inr t" using t by (simp add: GetTypeOfField_def)
  have "map (\<lambda>n. IntKey (wrap_to t n)) (map sint ws) = literals c" if "c = IntListConstantI64 ws" for ws
    using IntKey_wrap [OF t(2), of "map sint ws"] c that by (simp add: o_def)
  moreover have "map (\<lambda>n. IntKey (wrap_to t n)) (map uint ws) = literals c" if "c = IntListConstantU64 ws" for ws
    using IntKey_wrap [OF t(2), of "map uint ws"] c that by (simp add: o_def)
  ultimately show ?case
    using 2 t(1) type named
    by (cases c) (simp_all add: IntegerListExecutor_new_def leaf_for_def LeafExecutor_new_def)
next
  case (3 schema f neg c)
  then show ?case by (cases c) (auto simp: StringListExecutor_new_def leaf_for_def LeafExecutor_new_def)
qed auto

fun all_ready :: "'r AttributeIndex \<Rightarrow> 'r Executor \<Rightarrow> bool" where
  "all_ready ix (ComparisonExecutor x op) \<longleftrightarrow> leaf_ready ix x"
| "all_ready ix (IntegerListExecutor x neg) \<longleftrightarrow> leaf_ready ix x"
| "all_ready ix (StringListExecutor x neg) \<longleftrightarrow> leaf_ready ix x"
| "all_ready ix (LogicalExecutor ob fl al op l r) \<longleftrightarrow> all_ready ix l \<and> all_ready ix r"

definition leaf_empty :: "'r Roaring \<Rightarrow> 'r LeafExecutor \<Rightarrow> bool" where
  "leaf_empty R x \<longleftrightarrow> (\<forall>b. ex_bitset x = Some b \<longrightarrow> cb_mem R b = (\<lambda>_. False))"

fun all_empty :: "'r Roaring \<Rightarrow> 'r Executor \<Rightarrow> bool" where
  "all_empty R (ComparisonExecutor x op) \<longleftrightarrow> leaf_empty R x"
| "all_empty R (IntegerListExecutor x neg) \<longleftrightarrow> leaf_empty R x"
| "all_empty R (StringListExecutor x neg) \<longleftrightarrow> leaf_empty R x"
| "all_empty R (LogicalExecutor ob fl al op l r) \<longleftrightarrow> all_empty R l \<and> all_empty R r"

lemma leaf_Init_ok:
  assumes R: "roaring_laws R" and ix: "ix_ok bt ix" and x: "leaf_for schema f ks x" "ex_bitset x = None"
  shows "\<exists>x'. leaf_Init R ix x = Inr x' \<and> leaf_ready ix x' \<and> leaf_for schema f ks x'"
proof -
  have bt: "ai_bitset_type ix = bt" using ix by (simp add: ix_ok_def)
  have "\<not> is_Unnamed (GetValueType (ex_attribute x))" using x(1) by (auto simp: leaf_for_def)
  from GetBitsetsByAttr_ok [OF ix this] obtain ptrs where "GetBitsetsByAttr ix (ex_attribute x) = Inr ptrs" "points_to ix (ex_attribute x) ptrs"
    by blast
  then show ?thesis using x Bitset_new_ok [OF R, of bt] bt by (auto simp: leaf_Init_def leaf_ready_def leaf_for_def)
qed

text \<open>An executor that was just made has no bitsets.\<close>

fun all_null :: "'r Executor \<Rightarrow> bool" where
  "all_null (LogicalExecutor ob fl al op l r) \<longleftrightarrow> all_null l \<and> all_null r"
| "all_null ex \<longleftrightarrow> Executor_bitset ex = None"

lemma MakeInstance_null: "Executor_MakeInstance schema e = Inr ex \<Longrightarrow> all_null ex"
  by (induction e arbitrary: ex)
    (auto simp: ComparisonExecutor_new_def IntegerListExecutor_new_def StringListExecutor_new_def LeafExecutor_new_def
      elim!: bind_rE split: Expression.splits if_splits)

lemma Init_ok:
  assumes "roaring_laws R" and "ix_ok bt ix" and "made_for schema e ex" and "all_null ex"
  shows "\<exists>ex'. Executor_Init R ix ex = Inr ex' \<and> all_ready ix ex' \<and> made_for schema e ex'"
  using assms(3,4)
proof (induction schema e ex rule: made_for.induct)
  case (4 schema l op r ob fl al op' xl xr)
  then show ?case by fastforce
qed (use leaf_Init_ok [OF assms(1,2)] in fastforce)+

lemma put_bitset_ok:
  assumes "cb_ok (ai_bitset_type ix) b"
  shows "all_ready ix ex \<Longrightarrow> all_ready ix (put_bitset ex b)" and "made_for schema e ex \<Longrightarrow> made_for schema e (put_bitset ex b)"
    and "all_empty R ex \<Longrightarrow> cb_mem R b = (\<lambda>_. False) \<Longrightarrow> all_empty R (put_bitset ex b)"
    and "Executor_bitset ex \<noteq> None \<Longrightarrow> Executor_bitset (put_bitset ex b) = Some b"
proof -
  show "all_ready ix ex \<Longrightarrow> all_ready ix (put_bitset ex b)"
    by (induction ex) (use assms in \<open>auto simp: leaf_ready_def\<close>)
  show "made_for schema e ex \<Longrightarrow> made_for schema e (put_bitset ex b)"
    by (induction schema e ex rule: made_for.induct) (auto simp: leaf_for_def)
  show "all_empty R ex \<Longrightarrow> cb_mem R b = (\<lambda>_. False) \<Longrightarrow> all_empty R (put_bitset ex b)"
    by (induction ex) (auto simp: leaf_empty_def)
  show "Executor_bitset ex \<noteq> None \<Longrightarrow> Executor_bitset (put_bitset ex b) = Some b"
    by (induction ex) (auto split: if_splits)
qed

lemma ready_bitset: "all_ready ix ex \<Longrightarrow> Executor_bitset ex = Some b \<Longrightarrow> cb_ok (ai_bitset_type ix) b"
  by (induction ex) (auto simp: leaf_ready_def split: if_splits)

lemma base_Clear_ok:
  assumes R: "roaring_laws R" and "all_ready ix ex" and "made_for schema e ex"
  shows "all_ready ix (base_Clear R ex)" and "made_for schema e (base_Clear R ex)" and "all_empty R ex \<Longrightarrow> all_empty R (base_Clear R ex)"
proof -
  have c: "cb_ok (ai_bitset_type ix) (Bitset_Clear R b) \<and> cb_mem R (Bitset_Clear R b) = (\<lambda>_. False)" if "Executor_bitset ex = Some b" for b
    using Bitset_Clear_ok [OF R ready_bitset [OF assms(2) that]] .
  show "all_ready ix (base_Clear R ex)" "made_for schema e (base_Clear R ex)" "all_empty R ex \<Longrightarrow> all_empty R (base_Clear R ex)"
    using c assms(2,3) put_bitset_ok [of ix] by (auto simp: base_Clear_def split: option.split)
qed

lemma leaf_clear:
  assumes "roaring_laws R" and "leaf_ready ix x"
  obtains b where "ex_bitset x = Some b" and "cb_ok (ai_bitset_type ix) (Bitset_Clear R b)" and "cb_mem R (Bitset_Clear R b) = (\<lambda>_. False)"
  using assms Bitset_Clear_ok by (auto simp: leaf_ready_def)

lemma Clear_ok:
  assumes R: "roaring_laws R" and "all_ready ix ex" and "made_for schema e ex"
  shows "all_ready ix (Executor_Clear R ex) \<and> made_for schema e (Executor_Clear R ex) \<and> all_empty R (Executor_Clear R ex)"
  using assms(2,3)
proof (induction schema e ex rule: made_for.induct)
  case (4 schema l op r ob fl al op' xl xr)
  let ?ex = "LogicalExecutor ob fl al op' (Executor_Clear R xl) (Executor_Clear R xr)"
  have "all_ready ix ?ex" "made_for schema (LogicalExpression l op r) ?ex" "all_empty R ?ex" using 4 by auto
  then show ?case using base_Clear_ok [OF R, of ix ?ex schema "LogicalExpression l op r"] by simp
next
  case (1 schema f op c x op')
  then obtain b where "ex_bitset x = Some b" "cb_ok (ai_bitset_type ix) (Bitset_Clear R b)" "cb_mem R (Bitset_Clear R b) = (\<lambda>_. False)"
    using leaf_clear [OF R, of ix x] by auto
  then show ?case using 1 by (simp add: base_Clear_def leaf_ready_def leaf_for_def leaf_empty_def)
next
  case (2 schema f neg c x neg')
  then obtain b where "ex_bitset x = Some b" "cb_ok (ai_bitset_type ix) (Bitset_Clear R b)" "cb_mem R (Bitset_Clear R b) = (\<lambda>_. False)"
    using leaf_clear [OF R, of ix x] by auto
  then show ?case using 2 by (simp add: base_Clear_def leaf_ready_def leaf_for_def leaf_empty_def)
next
  case (3 schema f neg c x neg')
  then obtain b where "ex_bitset x = Some b" "cb_ok (ai_bitset_type ix) (Bitset_Clear R b)" "cb_mem R (Bitset_Clear R b) = (\<lambda>_. False)"
    using leaf_clear [OF R, of ix x] by auto
  then show ?case using 3 by (simp add: base_Clear_def leaf_ready_def leaf_for_def leaf_empty_def)
qed auto

definition answers :: "'r Roaring \<Rightarrow> 'r Executor \<Rightarrow> (InnerIdType \<Rightarrow> bool) \<Rightarrow> bool" where
  "answers R ex P \<longleftrightarrow> (\<forall>i. Executor_CheckValid R ex (uint i) = Inr (P i)) \<and>
     (Executor_only_bitset ex \<longrightarrow> (\<exists>b. Executor_bitset ex = Some b \<and> cb_mem R b = P))"

lemma leaf_Run_for:
  assumes R: "roaring_laws R" and ix: "ix_ok bt ix" and "leaf_ready ix x" and "leaf_empty R x" and x: "leaf_for (field_type_map ix) f ks x"
  shows "\<exists>x'. leaf_Run R ix b neg x = Inr x' \<and> leaf_ready ix x' \<and> leaf_for (field_type_map ix) f ks x' \<and>
    leaf_answers R x' (\<lambda>i. neg \<noteq> (\<exists>k \<in> set ks. carried R ix b i f k))"
proof -
  obtain t where t: "map_of (field_type_map ix) f = Some t" "ex_attribute x = \<lparr>attr_name = f, GetValueType = t, GetValue = ks\<rparr>"
    using x by (auto simp: leaf_for_def)
  have "carried R ix b i f k \<longleftrightarrow> ix_mem R ix f t k b i" for i k using t(1) by (simp add: carried_def GetTypeOfField_def)
  then show ?thesis
    using leaf_Run_ok [OF R ix assms(3), of b neg] assms(4) x t(2) by (auto simp: leaf_empty_def leaf_for_def)
qed

lemma logical_run_ok:
  assumes R: "roaring_laws R" and ready: "all_ready ix l" "all_ready ix r" and op: "op \<noteq> LogicalNot"
    and ans: "answers R l P" "answers R r Q"
  shows "\<exists>ob fl al' l'. logical_run R al op l r = Inr (LogicalExecutor ob fl al' op l' r) \<and> all_ready ix l' \<and>
    (\<forall>schema e. made_for schema e l \<longrightarrow> made_for schema e l') \<and>
    answers R (LogicalExecutor ob fl al' op l' r) (\<lambda>i. if op = LogicalAnd then P i \<and> Q i else P i \<or> Q i)"
proof (cases "Executor_only_bitset l \<and> Executor_only_bitset r")
  case True
  obtain s where s: "Executor_bitset l = Some s" "cb_mem R s = P" using ans(1) True by (auto simp: answers_def)
  obtain u where u: "Executor_bitset r = Some u" "cb_mem R u = Q" using ans(2) True by (auto simp: answers_def)
  note ok = ready_bitset [OF ready(1) s(1)] ready_bitset [OF ready(2) u(1)]
  obtain v where v: "(if op = LogicalAnd then Bitset_And R s (Some u) else Bitset_Or R s (Some u)) = Inr v" "cb_ok (ai_bitset_type ix) v"
      "cb_mem R v = (\<lambda>i. if op = LogicalAnd then P i \<and> Q i else P i \<or> Q i)"
    using Bitset_And_ok [OF R ok] Bitset_Or_ok [OF R ok(1), of "Some u"] ok(2) s(2) u(2) by (cases "op = LogicalAnd") auto
  note put = put_bitset_ok [OF v(2)]
  have "Executor_bitset (put_bitset l v) = Some v" using put(4) s(1) by simp
  then have "answers R (LogicalExecutor True WhiteBitset True op (put_bitset l v) r) (\<lambda>i. if op = LogicalAnd then P i \<and> Q i else P i \<or> Q i)"
    using bitset_CheckValid_ok(1) [OF v(2), of R] v(3) by (simp add: answers_def)
  moreover have "logical_run R al op l r = Inr (LogicalExecutor True WhiteBitset True op (put_bitset l v) r)"
    using True op s(1) u(1) v(1) by (auto simp: logical_run_def)
  ultimately show ?thesis using put(1) [OF ready(1)] put(2) by blast
next
  case False
  then have "logical_run R al op l r = Inr (LogicalExecutor False WhiteFunc al op l r)" using op by (auto simp: logical_run_def)
  moreover have "answers R (LogicalExecutor False WhiteFunc al op l r) (\<lambda>i. if op = LogicalAnd then P i \<and> Q i else P i \<or> Q i)"
    using ans by (auto simp: answers_def)
  ultimately show ?thesis using ready(1) by blast
qed

lemma Run_ok:
  assumes R: "roaring_laws R" and ix: "ix_ok bt ix" and "schema = field_type_map ix" and "made_for schema e ex" and "all_ready ix ex" and "all_empty R ex"
  shows "\<exists>ex'. Executor_Run R ix b ex = Inr ex' \<and> all_ready ix ex' \<and> made_for schema e ex' \<and>
    answers R ex' (\<lambda>i. satisfies (carried R ix b i) e)"
  using assms(3-6)
proof (induction schema e ex rule: made_for.induct)
  case (1 schema f op c x op')
  then show ?case using leaf_Run_for [OF R ix, of x "field_of f" "[literal c]" b "op = NE"] by (auto simp: answers_def leaf_answers_def)
next
  case (2 schema f neg c x neg')
  then show ?case using leaf_Run_for [OF R ix, of x "field_of f" "literals c" b neg] by (auto simp: answers_def leaf_answers_def)
next
  case (3 schema f neg c x neg')
  then show ?case using leaf_Run_for [OF R ix, of x "field_of f" "literals c" b neg] by (auto simp: answers_def leaf_answers_def)
next
  case (4 schema l op r ob fl al op' xl xr)
  obtain l' where l': "Executor_Run R ix b xl = Inr l'" "all_ready ix l'" "made_for schema l l'" "answers R l' (\<lambda>i. satisfies (carried R ix b i) l)"
    using 4 by auto
  obtain r' where r': "Executor_Run R ix b xr = Inr r'" "all_ready ix r'" "made_for schema r r'" "answers R r' (\<lambda>i. satisfies (carried R ix b i) r)"
    using 4 by auto
  have op: "op \<noteq> LogicalNot" "op' = op" using 4 by auto
  from logical_run_ok [OF R l'(2) r'(2) op(1) l'(4) r'(4), of al] show ?case
    using l'(1,3) r'(1,2,3) op by fastforce
qed auto

section \<open>Properties\<close>

text \<open>The states of an executor that is made and initialised once and then cleared and run for one bucket after another.\<close>

inductive executed :: "'r Roaring \<Rightarrow> 'r AttributeIndex \<Rightarrow> Expression \<Rightarrow> 'r Executor \<Rightarrow> bool" for R ix e where
  init: "Executor_MakeInstance (field_type_map ix) e = Inr x0 \<Longrightarrow> Executor_Init R ix x0 = Inr x \<Longrightarrow> executed R ix e x"
| run: "executed R ix e x \<Longrightarrow> Executor_Run R ix b (Executor_Clear R x) = Inr x' \<Longrightarrow> executed R ix e x'"

lemma executed_ok:
  fixes R :: "'r Roaring"
  assumes "executed R ix e x" and R: "roaring_laws R" and ix: "ix_ok bt ix" and e: "supported (field_type_map ix) e"
  shows "made_for (field_type_map ix) e x \<and> all_ready ix x"
  using assms(1)
proof (induction rule: executed.induct)
  case (init x0 x)
  have "made_for (field_type_map ix) e x0" using MakeInstance_ok [OF e, where ?'r = 'r] init(1) by auto
  then show ?case using Init_ok [OF R ix _ MakeInstance_null [OF init(1)]] init(2) by fastforce
next
  case (run x b x')
  then have "all_ready ix (Executor_Clear R x) \<and> made_for (field_type_map ix) e (Executor_Clear R x) \<and> all_empty R (Executor_Clear R x)"
    using Clear_ok [OF R] by blast
  then show ?case using Run_ok [OF R ix refl, of e "Executor_Clear R x" b] run(2) by auto
qed

text \<open>On a well-formed index an executor for a supported expression is made and initialised normally, and after any number of
  runs on other buckets, \<open>Clear\<close> and \<open>Run\<close> for a bucket give a filter that accepts exactly the ids whose values in that
  bucket satisfy the expression; no run leaves a buffer or follows a null pointer. This holds for both kinds of bitset.\<close>

lemma attribute_filter_correct:
  fixes R :: "'r Roaring"
  assumes "roaring_laws R" and "ix_ok bt ix" and "supported (field_type_map ix) e"
  shows "(\<exists>x0 x :: 'r Executor. Executor_MakeInstance (field_type_map ix) e = Inr x0 \<and> Executor_Init R ix x0 = Inr x) \<and>
    (\<forall>x b. executed R ix e x \<longrightarrow>
      (\<exists>x'. Executor_Run R ix b (Executor_Clear R x) = Inr x' \<and>
        (\<forall>i. Executor_CheckValid R x' (uint i) = Inr (satisfies (carried R ix b i) e))))"
proof (intro conjI allI impI)
  obtain x0 :: "'r Executor" where x0: "Executor_MakeInstance (field_type_map ix) e = Inr x0" "made_for (field_type_map ix) e x0"
    using MakeInstance_ok [OF assms(3), where ?'r = 'r] by blast
  then show "\<exists>x0 x. Executor_MakeInstance (field_type_map ix) e = Inr x0 \<and> Executor_Init R ix x0 = Inr x"
    using Init_ok [OF assms(1,2) x0(2) MakeInstance_null [OF x0(1)]] by blast
  fix x b
  assume "executed R ix e x"
  then have "all_ready ix (Executor_Clear R x) \<and> made_for (field_type_map ix) e (Executor_Clear R x) \<and> all_empty R (Executor_Clear R x)"
    using executed_ok [OF _ assms] Clear_ok [OF assms(1)] by blast
  then show "\<exists>x'. Executor_Run R ix b (Executor_Clear R x) = Inr x' \<and>
      (\<forall>i. Executor_CheckValid R x' (uint i) = Inr (satisfies (carried R ix b i) e))"
    using Run_ok [OF assms(1,2) refl, of e "Executor_Clear R x" b] by (auto simp: answers_def)
qed

text \<open>C39: a literal outside the range of the type of its field is refused in a comparison with \<open>std::runtime_error\<close>, but the same
  literal in a list is converted to the type without a check: the filter looks for the value that remains after the upper
  bits are dropped.\<close>

theorem list_literal_wraps:
  assumes "map_of schema f = Some t" and "is_integer t" and "\<not> of_type t (IntKey (sint w))"
  shows "Executor_MakeInstance schema (ComparisonExpression (FieldExpression f) op (NumericConstant (NumI64 w))) = (Inl StdRuntimeError :: 'r Executor result) \<and>
    Executor_MakeInstance schema (IntListExpression (FieldExpression f) neg (IntListConstantI64 [w])) =
      (Inr (IntegerListExecutor (LeafExecutor_new f t [IntKey (wrap_to t (sint w))]) neg) :: 'r Executor result) \<and>
    of_type t (IntKey (wrap_to t (sint w))) \<and> take_bit (type_bits t) (wrap_to t (sint w)) = take_bit (type_bits t) (sint w)"
proof -
  have t: "\<not> is_Unnamed t" "t \<noteq> STRING" "GetTypeOfField schema f = Inr t"
    using assms(1,2) by (cases t; simp add: is_integer_def GetTypeOfField_def)+
  have u: "sint w < 2 ^ 63" "- (2 ^ 63) \<le> sint w" using sint_less [of w] sint_greater_eq [of w] by simp_all
  have "GetNumericValue t (NumI64 w) = Inl StdRuntimeError"
    using assms(2,3) u by (cases t) (auto simp: GetNumericValue_def cpp_less_def type_min_def type_max_def is_signed_def is_integer_def Let_def)
  moreover have "of_type t (IntKey (wrap_to t (sint w)))"
    using assms(2) signed_take_bit_int_less_exp [of "type_bits t - 1" "sint w"] signed_take_bit_int_greater_eq_minus_exp [of "type_bits t - 1" "sint w"]
      take_bit_int_less_exp [of "type_bits t" "sint w"]
    by (auto simp: wrap_to_def type_min_def type_max_def)
  moreover have "take_bit (type_bits t) (wrap_to t (sint w)) = take_bit (type_bits t) (sint w)"
    using assms(2) by (cases t) (auto simp: wrap_to_def is_signed_def is_integer_def take_bit_signed_take_bit)
  ultimately show ?thesis using t by (simp add: ComparisonExecutor_new_def IntegerListExecutor_new_def)
qed

theorem list_literal_wraps_witness:
  "Executor_MakeInstance [([97], INT8)] (IntListExpression (FieldExpression [97]) False (IntListConstantI64 [300])) =
    (Inr (IntegerListExecutor (LeafExecutor_new [97] INT8 [IntKey 44]) False) :: u32 list Executor result)"
proof -
  have "wrap_to INT8 (sint (300 :: u64)) = 44" "\<not> of_type INT8 (IntKey (sint (300 :: u64)))" by code_simp+
  then show ?thesis
    using list_literal_wraps [of "[([97], INT8)]" "[97]" INT8 300 EQ False, where ?'r = "u32 list"] by (simp add: is_integer_def del: Executor_MakeInstance.simps)
qed

end
