(* ===== verification/ExpressionVisitor.thy ===== *)
theory ExpressionVisitor
  imports AttrExecutor
begin

text \<open>
  From the parse tree of a filter condition to an expression:
  \<^verbatim>\<open>src/src/attr/expression_visitor.{h,cpp}\<close>. The parser is generated from
  \<^verbatim>\<open>src/src/attr/grammar/FC.g4\<close>; its trees are the datatypes below, one constructor for each alternative
  of the grammar, with tokens as their text. The visitor consults the type schema of the index to tell string fields from
  numeric ones. \<open>std::stoll\<close>, \<open>std::stoull\<close> and \<open>std::to_string\<close> are written out; \<open>std::stod\<close> is the
  argument \<open>stod\<close>, no integer field accepts its result.
\<close>

section \<open>Parse trees\<close>

type_synonym token = "byte list"

datatype NumericContext = INTEGER token | FLOAT token

datatype Field_exprContext =
    ArithmeticExpr Field_exprContext token Field_exprContext
  | FieldRef token
  | NumericConst NumericContext
  | ParenFieldExpr Field_exprContext

datatype Int_pipe_listContext = INT_STRING token | PIPE_INT_STR token

datatype Str_pipe_listContext = STRING_token token | PIPE_STR_STR token

text \<open>
  The tokens of a \<open>str_value_list\<close> are either all \<open>STRING\<close> or all \<open>INT_STRING\<close>, and every string token has
  its two quotes. The flag of a list comparison tells whether its operator is the token \<open>NOT_IN\<close>.\<close>

datatype ComparisonContext =
    IntPipeListExpr bool token Int_pipe_listContext
  | StrPipeListExpr bool token Str_pipe_listContext
  | IntListExpr token bool "token list"
  | StrListExpr token bool "token list"
  | NumericComparison Field_exprContext token NumericContext
  | StringComparison token token token

datatype ExprContext =
    ParenExpr ExprContext
  | NotExpr ExprContext
  | LogicalExpr ExprContext token ExprContext
  | CompExpr ComparisonContext

section \<open>Number conversions of the standard library\<close>

definition isspace :: "byte \<Rightarrow> bool" where
  "isspace c \<longleftrightarrow> c \<in> {9, 10, 11, 12, 13, 32}"

definition isdigit :: "byte \<Rightarrow> bool" where
  "isdigit c \<longleftrightarrow> 48 \<le> c \<and> c \<le> 57"

definition dec_val :: "byte list \<Rightarrow> nat" where
  "dec_val ds = foldl (\<lambda>n d. n * 10 + (unat d - 48)) 0 ds"

text \<open>The sign and the digits \<open>strtoull\<close> and \<open>strtoll\<close> read.\<close>

definition split_sign :: "byte list \<Rightarrow> bool \<times> byte list" where
  "split_sign s =
     (case dropWhile isspace s of
        [] \<Rightarrow> (False, [])
      | c # t \<Rightarrow> if c = 45 then (True, takeWhile isdigit t) else if c = 43 then (False, takeWhile isdigit t)
          else (False, takeWhile isdigit (c # t)))"

definition stoull :: "byte list \<Rightarrow> u64 result" where
  "stoull s =
     (let (neg, ds) = split_sign s in
      if ds = [] then Inl StdInvalidArgument
      else if dec_val ds > 2 ^ 64 - 1 then Inl StdOutOfRange
      else Inr (if neg then - word_of_nat (dec_val ds) else word_of_nat (dec_val ds)))"

definition stoll :: "byte list \<Rightarrow> u64 result" where
  "stoll s =
     (let (neg, ds) = split_sign s in
      if ds = [] then Inl StdInvalidArgument
      else if dec_val ds > (if neg then 2 ^ 63 else 2 ^ 63 - 1) then Inl StdOutOfRange
      else Inr (if neg then - word_of_nat (dec_val ds) else word_of_nat (dec_val ds)))"

fun dec_digits :: "nat \<Rightarrow> byte list" where
  "dec_digits n = (if n < 10 then [word_of_nat (48 + n)] else dec_digits (n div 10) @ [word_of_nat (48 + n mod 10)])"

declare dec_digits.simps [simp del]

definition to_string :: "int \<Rightarrow> byte list" where
  "to_string n = (if n < 0 then 45 # dec_digits (nat (- n)) else dec_digits (nat n))"

text \<open>\<open>ToString\<close> of an integer constant.\<close>

fun NumericConstant_ToString :: "NumericValue \<Rightarrow> byte list option" where
  "NumericConstant_ToString (NumI64 w) = Some (to_string (sint w))"
| "NumericConstant_ToString (NumU64 w) = Some (to_string (uint w))"
| "NumericConstant_ToString (NumDouble w) = None"

section \<open>The visitor\<close>

definition trans_string_to_comparison_operator :: "token \<Rightarrow> ComparisonOperator result" where
  "trans_string_to_comparison_operator op =
     (if op = [62, 61] then Inr GE else if op = [60, 61] then Inr LE else if op = [62] then Inr GT
      else if op = [60] then Inr LT else if op = [61] then Inr EQ else if op = [33, 61] then Inr NE
      else Inl (Vsag INVALID_ARGUMENT))"

definition trans_string_to_logical_operator :: "token \<Rightarrow> LogicalOperator result" where
  "trans_string_to_logical_operator op =
     (if op \<in> {[65, 78, 68], [97, 110, 100], [38, 38]} then Inr LogicalAnd
      else if op \<in> {[79, 82], [111, 114], [124, 124]} then Inr LogicalOr
      else Inl (Vsag INVALID_ARGUMENT))"

definition trans_string_to_arithmetic_operator :: "token \<Rightarrow> ArithmeticOperator result" where
  "trans_string_to_arithmetic_operator op =
     (if op = [43] then Inr ADD else if op = [45] then Inr SUB else if op = [42] then Inr MUL else if op = [47] then Inr DIV
      else Inl (Vsag INVALID_ARGUMENT))"

definition visit_int_token :: "token \<Rightarrow> NumericValue result" where
  "visit_int_token int_token =
     (if int_token \<noteq> [] \<and> hd int_token = 45 then bind_r (stoll int_token) (\<lambda>v. Inr (NumI64 v))
      else bind_r (stoull int_token) (\<lambda>uval. if uval > 0x7FFFFFFFFFFFFFFF then Inr (NumU64 uval) else Inr (NumI64 uval)))"

fun visit_int_tokens :: "token list \<Rightarrow> NumericValue list result" where
  "visit_int_tokens [] = Inr []"
| "visit_int_tokens (t # ts) = bind_r (visit_int_token t) (\<lambda>v. bind_r (visit_int_tokens ts) (\<lambda>vs. Inr (v # vs)))"

fun is_NumI64 :: "NumericValue \<Rightarrow> bool" where
  "is_NumI64 (NumI64 w) = True"
| "is_NumI64 _ = False"

fun get_i64 :: "NumericValue \<Rightarrow> u64" where
  "get_i64 (NumI64 w) = w" | "get_i64 (NumU64 w) = w" | "get_i64 (NumDouble w) = w"

fun to_u64_list :: "NumericValue list \<Rightarrow> u64 list result" where
  "to_u64_list [] = Inr []"
| "to_u64_list (v # vs) = bind_r (GetNumericValue UINT64 v) (\<lambda>n. bind_r (to_u64_list vs) (\<lambda>ns. Inr (word_of_int n # ns)))"

definition build_int_list_ptr :: "NumericValue list \<Rightarrow> Expression result" where
  "build_int_list_ptr vs =
     (let signed_cnt = length (filter is_NumI64 vs) in
      if signed_cnt = length vs then Inr (IntListConstantI64 (map get_i64 vs))
      else bind_r (to_u64_list vs) (\<lambda>ns. Inr (IntListConstantU64 ns)))"

text \<open>
  The views \<open>string_view_split\<close> returns, as the rest of the string that starts at them; \<open>data()\<close> of a view is
  that rest, the view itself ends at the delimiter.
\<close>

function view_data :: "token \<Rightarrow> byte \<Rightarrow> token list" where
  "view_data str delim =
     (case dropWhile (\<lambda>c. c \<noteq> delim) str of [] \<Rightarrow> [str] | _ # rest \<Rightarrow> str # view_data rest delim)"
  by pat_completeness auto
termination
proof (relation "measure (\<lambda>(str, delim). length str)")
  fix str :: token and delim x rest
  assume "dropWhile (\<lambda>c. c \<noteq> delim) str = x # rest"
  then have "length (x # rest) \<le> length str" using length_dropWhile_le [of "\<lambda>c. c \<noteq> delim" str] by simp
  then show "((rest, delim), str, delim) \<in> measure (\<lambda>(str, delim). length str)" by simp
qed simp

declare view_data.simps [simp del]

definition string_view_split :: "token \<Rightarrow> byte \<Rightarrow> token list" where
  "string_view_split str delim = map (takeWhile (\<lambda>c. c \<noteq> delim)) (view_data str delim)"

text \<open>The text between the quotes of a string token.\<close>

definition unquote :: "token \<Rightarrow> token" where
  "unquote str = take (length str - 2) (drop 1 str)"

definition visitInt_pipe_list :: "Int_pipe_listContext \<Rightarrow> Expression result" where
  "visitInt_pipe_list ctx =
     (case ctx of
        INT_STRING str \<Rightarrow>
          bind_r (if length str \<ge> 2 then visit_int_tokens [unquote str] else Inr []) build_int_list_ptr
      | PIPE_INT_STR str \<Rightarrow>
          bind_r (if length str \<ge> 2 then visit_int_tokens (view_data (unquote str) 124) else Inr []) build_int_list_ptr)"

definition visitInt_pipe_list_string :: "Int_pipe_listContext \<Rightarrow> Expression" where
  "visitInt_pipe_list_string ctx =
     (case ctx of
        INT_STRING str \<Rightarrow> StrListConstant (if length str \<ge> 2 then [unquote str] else [])
      | PIPE_INT_STR str \<Rightarrow> StrListConstant (if length str \<ge> 2 then string_view_split (unquote str) 124 else []))"

definition visitStr_pipe_list :: "Str_pipe_listContext \<Rightarrow> Expression" where
  "visitStr_pipe_list ctx =
     (case ctx of
        STRING_token str \<Rightarrow> StrListConstant (if length str \<ge> 2 then [unquote str] else [])
      | PIPE_STR_STR str \<Rightarrow> StrListConstant (if length str \<ge> 2 then string_view_split (unquote str) 124 else []))"

definition visitInt_value_list :: "token list \<Rightarrow> Expression result" where
  "visitInt_value_list tokens = bind_r (visit_int_tokens tokens) build_int_list_ptr"

definition visitInt_value_list_string :: "token list \<Rightarrow> Expression" where
  "visitInt_value_list_string tokens = StrListConstant tokens"

definition visitStr_value_list :: "token list \<Rightarrow> Expression" where
  "visitStr_value_list tokens = StrListConstant (map unquote tokens)"

definition visitNumeric :: "(token \<Rightarrow> u64 result) \<Rightarrow> NumericContext \<Rightarrow> Expression result" where
  "visitNumeric stod ctx =
     (case ctx of
        INTEGER t \<Rightarrow> bind_r (visit_int_token t) (\<lambda>v. Inr (NumericConstant v))
      | FLOAT t \<Rightarrow> bind_r (stod t) (\<lambda>d. Inr (NumericConstant (NumDouble d))))"

text \<open>\<open>is_string_type\<close> of a field when there is a schema; without one the callers skip the test.\<close>

definition is_string_type :: "AttrTypeSchema \<Rightarrow> token \<Rightarrow> bool result" where
  "is_string_type schema field_name = bind_r (GetTypeOfField schema field_name) (\<lambda>t. Inr (t = STRING))"

definition string_field :: "AttrTypeSchema option \<Rightarrow> token \<Rightarrow> bool result" where
  "string_field schema field_name = (case schema of None \<Rightarrow> Inr False | Some s \<Rightarrow> is_string_type s field_name)"

definition not_string_field :: "AttrTypeSchema option \<Rightarrow> token \<Rightarrow> bool result" where
  "not_string_field schema field_name =
     (case schema of None \<Rightarrow> Inr False | Some s \<Rightarrow> bind_r (is_string_type s field_name) (\<lambda>b. Inr (\<not> b)))"

fun visitField_expr :: "(token \<Rightarrow> u64 result) \<Rightarrow> AttrTypeSchema option \<Rightarrow> Field_exprContext \<Rightarrow> Expression result" where
  "visitField_expr stod schema (ArithmeticExpr left op right) =
     bind_r (visitField_expr stod schema left) (\<lambda>l.
     bind_r (visitField_expr stod schema right) (\<lambda>r.
     bind_r (trans_string_to_arithmetic_operator op) (\<lambda>op. Inr (ArithmeticExpression l op r))))"
| "visitField_expr stod schema (FieldRef name) =
     bind_r (string_field schema name) (\<lambda>b. if b then Inl (Vsag INVALID_ARGUMENT) else Inr (FieldExpression name))"
| "visitField_expr stod schema (NumericConst n) = visitNumeric stod n"
| "visitField_expr stod schema (ParenFieldExpr e) = visitField_expr stod schema e"

fun visitComparison :: "(token \<Rightarrow> u64 result) \<Rightarrow> AttrTypeSchema option \<Rightarrow> ComparisonContext \<Rightarrow> Expression result" where
  "visitComparison stod schema (IntPipeListExpr not_in name ps) =
     bind_r (string_field schema name) (\<lambda>b.
       if b then Inr (StrListExpression (FieldExpression name) not_in (visitInt_pipe_list_string ps))
       else bind_r (visitInt_pipe_list ps) (\<lambda>right. Inr (IntListExpression (FieldExpression name) not_in right)))"
| "visitComparison stod schema (StrPipeListExpr not_in name ps) =
     bind_r (not_string_field schema name) (\<lambda>b.
       if b then Inl (Vsag INVALID_ARGUMENT)
       else Inr (StrListExpression (FieldExpression name) not_in (visitStr_pipe_list ps)))"
| "visitComparison stod schema (IntListExpr name not_in tokens) =
     bind_r (string_field schema name) (\<lambda>b.
       if b then Inr (StrListExpression (FieldExpression name) not_in (visitInt_value_list_string tokens))
       else bind_r (visitInt_value_list tokens) (\<lambda>right. Inr (IntListExpression (FieldExpression name) not_in right)))"
| "visitComparison stod schema (StrListExpr name not_in tokens) =
     bind_r (not_string_field schema name) (\<lambda>b.
       if b then Inl (Vsag INVALID_ARGUMENT)
       else Inr (StrListExpression (FieldExpression name) not_in (visitStr_value_list tokens)))"
| "visitComparison stod schema (NumericComparison fe op n) =
     bind_r (visitField_expr stod schema fe) (\<lambda>left.
     bind_r (visitNumeric stod n) (\<lambda>right.
     bind_r (trans_string_to_comparison_operator op) (\<lambda>op. Inr (ComparisonExpression left op right))))"
| "visitComparison stod schema (StringComparison name op str) =
     bind_r (not_string_field schema name) (\<lambda>b.
       if b then Inl (Vsag INVALID_ARGUMENT)
       else bind_r (trans_string_to_comparison_operator op) (\<lambda>op.
         Inr (ComparisonExpression (FieldExpression name) op (StringConstant (unquote str)))))"

fun visitExpr :: "(token \<Rightarrow> u64 result) \<Rightarrow> AttrTypeSchema option \<Rightarrow> ExprContext \<Rightarrow> Expression result" where
  "visitExpr stod schema (ParenExpr e) = visitExpr stod schema e"
| "visitExpr stod schema (NotExpr e) = bind_r (visitExpr stod schema e) (\<lambda>e. Inr (NotExpression e))"
| "visitExpr stod schema (LogicalExpr left op right) =
     bind_r (visitExpr stod schema left) (\<lambda>l.
     bind_r (visitExpr stod schema right) (\<lambda>r.
     bind_r (trans_string_to_logical_operator op) (\<lambda>op. Inr (LogicalExpression l op r))))"
| "visitExpr stod schema (CompExpr c) = visitComparison stod schema c"

section \<open>Printing and reading integers\<close>

lemma digit_word: "n < 10 \<Longrightarrow> unat (word_of_nat (48 + n) :: byte) = 48 + n"
  by (simp add: unat_of_nat del: of_nat_add)

lemma isdigit_word: "n < 10 \<Longrightarrow> isdigit (word_of_nat (48 + n))"
  using digit_word [of n] by (simp add: isdigit_def word_le_nat_alt)

lemma dec_val_snoc: "dec_val (ds @ [d]) = dec_val ds * 10 + (unat d - 48)"
  by (simp add: dec_val_def)

lemma dec_digits_ok: "dec_val (dec_digits n) = n \<and> (\<forall>d \<in> set (dec_digits n). isdigit d) \<and> dec_digits n \<noteq> []"
proof (induction n rule: dec_digits.induct)
  case (1 n)
  show ?case
  proof (cases "n < 10")
    case True
    then show ?thesis using digit_word [of n] isdigit_word [of n] by (simp add: dec_digits.simps [of n] dec_val_def)
  next
    case False
    have "n mod 10 < 10" by simp
    then show ?thesis
      using 1 [OF False] False digit_word [of "n mod 10"] isdigit_word [of "n mod 10"]
      by (subst dec_digits.simps, subst (2) dec_digits.simps, subst (3) dec_digits.simps) (simp add: dec_val_snoc)
  qed
qed

lemma digit_chars: "isdigit c \<Longrightarrow> c \<noteq> 45 \<and> c \<noteq> 43 \<and> \<not> isspace c"
  by (auto simp: isdigit_def isspace_def word_le_nat_alt)

lemma split_sign_digits: "split_sign (dec_digits n) = (False, dec_digits n)"
proof -
  obtain d ds where d: "dec_digits n = d # ds" using dec_digits_ok [of n] by (cases "dec_digits n") auto
  have "\<forall>x \<in> set (d # ds). isdigit x" using dec_digits_ok [of n] d by simp
  then have "takeWhile isdigit (d # ds) = d # ds" "isdigit d" by (simp_all add: takeWhile_eq_all_conv)
  then show ?thesis using digit_chars [of d] d by (simp add: split_sign_def)
qed

lemma split_sign_minus: "split_sign (45 # dec_digits n) = (True, dec_digits n)"
proof -
  have "takeWhile isdigit (dec_digits n) = dec_digits n" using dec_digits_ok [of n] by (simp add: takeWhile_eq_all_conv)
  moreover have "\<not> isspace 45" by (simp add: isspace_def)
  ultimately show ?thesis by (simp add: split_sign_def)
qed

lemma stoull_digits: "n \<le> 2 ^ 64 - 1 \<Longrightarrow> stoull (dec_digits n) = Inr (word_of_nat n)"
  using dec_digits_ok [of n] by (simp add: stoull_def split_sign_digits)

lemma stoll_minus: "n \<le> 2 ^ 63 \<Longrightarrow> stoll (45 # dec_digits n) = Inr (- word_of_nat n)"
  using dec_digits_ok [of n] by (simp add: stoll_def split_sign_minus)

text \<open>
  Only the part up to the delimiter matters when a number is read from \<open>data()\<close> of a view.
\<close>

lemma takeWhile_digits: "takeWhile isdigit (takeWhile (\<lambda>c. c \<noteq> 124) s) = takeWhile isdigit s"
  by (induction s) (auto simp: isdigit_def)

lemma dropWhile_spaces_view:
  "dropWhile isspace (takeWhile (\<lambda>c. c \<noteq> 124) s) = takeWhile (\<lambda>c. c \<noteq> 124) (dropWhile isspace s)"
  by (induction s) (auto simp: isspace_def)

lemma split_sign_view: "split_sign (takeWhile (\<lambda>c. c \<noteq> 124) s) = split_sign s"
proof -
  obtain r where r: "r = dropWhile isspace s" by simp
  have "\<not> isdigit 124" by (simp add: isdigit_def)
  then show ?thesis
    unfolding split_sign_def dropWhile_spaces_view r [symmetric]
    by (cases r) (simp_all add: takeWhile_digits)
qed

lemma visit_int_token_view: "visit_int_token (takeWhile (\<lambda>c. c \<noteq> 124) s) = visit_int_token s"
proof -
  have "stoll (takeWhile (\<lambda>c. c \<noteq> 124) s) = stoll s" "stoull (takeWhile (\<lambda>c. c \<noteq> 124) s) = stoull s"
    unfolding stoll_def stoull_def split_sign_view by simp_all
  moreover have "takeWhile (\<lambda>c. c \<noteq> 124) s \<noteq> [] \<and> hd (takeWhile (\<lambda>c. c \<noteq> 124) s) = 45 \<longleftrightarrow> s \<noteq> [] \<and> hd s = 45"
    by (cases s) auto
  ultimately show ?thesis unfolding visit_int_token_def by simp
qed


section \<open>Integer tokens\<close>

text \<open>A token of the lexer rule \<open>INTEGER\<close>, up to leading zeros, and its value.\<close>

definition token_digits :: "token \<Rightarrow> byte list" where
  "token_digits t = (if t \<noteq> [] \<and> (hd t = 45 \<or> hd t = 43) then tl t else t)"

definition int_token :: "token \<Rightarrow> bool" where
  "int_token t \<longleftrightarrow> token_digits t \<noteq> [] \<and> list_all isdigit (token_digits t)"

definition token_value :: "token \<Rightarrow> int" where
  "token_value t = (if t \<noteq> [] \<and> hd t = 45 then - int (dec_val (token_digits t)) else int (dec_val (token_digits t)))"

lemma int_token_split:
  assumes "int_token t"
  shows "split_sign t = (hd t = 45, token_digits t) \<and> t \<noteq> []"
proof -
  have d: "token_digits t \<noteq> []" "list_all isdigit (token_digits t)" using assms by (auto simp: int_token_def)
  obtain c u where t: "t = c # u" using d(1) by (cases t) (auto simp: token_digits_def)
  have all: "takeWhile isdigit (token_digits t) = token_digits t" using d(2) by (simp add: takeWhile_eq_all_conv list_all_iff)
  have "\<not> isspace c"
  proof (cases "c = 45 \<or> c = 43")
    case True
    then show ?thesis by (auto simp: isspace_def)
  next
    case False
    then show ?thesis using d(2) t digit_chars [of c] by (simp add: token_digits_def)
  qed
  then show ?thesis using all t by (auto simp: split_sign_def token_digits_def)
qed

lemma visit_int_token_value:
  assumes "int_token t" and "- (2 ^ 63) \<le> token_value t" and "token_value t < 2 ^ 64"
  shows "visit_int_token t =
    Inr (if token_value t < 2 ^ 63 then NumI64 (word_of_int (token_value t)) else NumU64 (word_of_int (token_value t)))"
proof (cases "hd t = 45")
  case True
  then have "visit_int_token t = Inr (NumI64 (- word_of_nat (dec_val (token_digits t))))"
    using assms int_token_split [OF assms(1)] by (simp add: visit_int_token_def stoll_def token_value_def int_token_def)
  then show ?thesis using True int_token_split [OF assms(1)] by (simp add: token_value_def)
next
  case False
  have v: "token_value t = int (dec_val (token_digits t))" "dec_val (token_digits t) < 2 ^ 64"
    using False assms(3) by (simp_all add: token_value_def)
  have "stoull t = Inr (word_of_nat (dec_val (token_digits t)))"
    using False assms(1) v(2) int_token_split [OF assms(1)] by (simp add: stoull_def int_token_def)
  moreover have "(word_of_nat (dec_val (token_digits t)) :: u64) > 0x7FFFFFFFFFFFFFFF \<longleftrightarrow> \<not> token_value t < 2 ^ 63"
    using v by (simp add: word_less_nat_alt unat_of_nat, linarith)
  ultimately show ?thesis using False int_token_split [OF assms(1)] v(1) by (simp add: visit_int_token_def)
qed

definition num_key :: "NumericValue \<Rightarrow> AttrKey" where
  "num_key v = literal (NumericConstant v)"

lemma num_key_token:
  assumes "- (2 ^ 63) \<le> n" and "n < 2 ^ 64"
  shows "num_key (if n < 2 ^ 63 then NumI64 (word_of_int n) else NumU64 (word_of_int n)) = IntKey n"
  using assms by (simp add: num_key_def sint_word_ariths signed_take_bit_int_eq_self take_bit_int_eq_self unsigned_of_int signed_of_int)

lemma dec_digits_token: "token_digits (dec_digits n) = dec_digits n" "hd (dec_digits n) \<noteq> 45"
proof -
  have "dec_digits n \<noteq> []" "\<forall>d \<in> set (dec_digits n). isdigit d" using dec_digits_ok [of n] by auto
  then have "isdigit (hd (dec_digits n))" by simp
  then show "token_digits (dec_digits n) = dec_digits n" "hd (dec_digits n) \<noteq> 45"
    using digit_chars [of "hd (dec_digits n)"] by (simp_all add: token_digits_def)
qed

lemma to_string_token: "int_token (to_string n)" "token_value (to_string n) = n"
  using dec_digits_ok dec_digits_token
  by (simp_all add: int_token_def token_value_def to_string_def token_digits_def [of "45 # t" for t] list_all_iff)

text \<open>An integer constant that is printed and read again is the same constant, except that a \<open>uint64_t\<close> that fits an
  \<open>int64_t\<close> comes back as one.\<close>

lemma int_literal_roundtrip:
  assumes "NumericConstant_ToString v = Some s"
  shows "visit_int_token s = Inr (case v of NumU64 w \<Rightarrow> if w > 0x7FFFFFFFFFFFFFFF then NumU64 w else NumI64 w | _ \<Rightarrow> v)"
proof (cases v)
  case (NumI64 w)
  have "- (2 ^ 63) \<le> sint w" "sint w < 2 ^ 63" using sint_less [of w] sint_greater_eq [of w] by simp_all
  then show ?thesis using assms NumI64 to_string_token [of "sint w"] visit_int_token_value [of s] by simp
next
  case (NumU64 w)
  have "- (2 ^ 63) \<le> uint w" by (rule order_trans [of _ 0]) simp_all
  moreover have "uint w < 2 ^ 64" using unsigned_less [of w, where ?'a = int] by simp
  moreover have "w > 0x7FFFFFFFFFFFFFFF \<longleftrightarrow> \<not> uint w < 2 ^ 63" by (simp add: word_less_alt, linarith)
  ultimately show ?thesis using assms NumU64 to_string_token [of "uint w"] visit_int_token_value [of s] by simp
qed (use assms in simp)

lemma int_literal_roundtrip_example: "visit_int_token [45, 49, 50] = Inr (NumI64 (- 12))"
proof -
  have "NumericConstant_ToString (NumI64 (- 12)) = Some [45, 49, 50]"
    by (simp add: to_string_def dec_digits.simps)
  then show ?thesis using int_literal_roundtrip by fastforce
qed

section \<open>Pipe lists\<close>

text \<open>The text of a pipe list, and a token in quotes.\<close>

fun pipe_join :: "token list \<Rightarrow> token" where
  "pipe_join [] = []"
| "pipe_join [t] = t"
| "pipe_join (t # ts) = t @ 124 # pipe_join ts"

definition quote :: "token \<Rightarrow> token" where
  "quote t = 34 # t @ [34]"

lemma unquote_quote [simp]: "unquote (quote t) = t"
  by (simp add: unquote_def quote_def)

lemma length_quote [simp]: "2 \<le> length (quote t)"
  by (simp add: quote_def)

lemma split_pipe_join:
  assumes "ts \<noteq> []" and "\<forall>t \<in> set ts. 124 \<notin> set t"
  shows "string_view_split (pipe_join ts) 124 = ts"
  using assms
proof (induction ts rule: pipe_join.induct)
  case (2 t)
  then have "dropWhile (\<lambda>c. c \<noteq> 124) t = []" "takeWhile (\<lambda>c. c \<noteq> 124) t = t" by auto
  then show ?case
    unfolding string_view_split_def pipe_join.simps
    by (subst view_data.simps) (simp only: list.case list.map)
next
  case (3 t t' ts)
  have "\<forall>c \<in> set t. c \<noteq> 124" using 3(3) by auto
  then have "dropWhile (\<lambda>c. c \<noteq> 124) (t @ 124 # r) = 124 # r" "takeWhile (\<lambda>c. c \<noteq> 124) (t @ 124 # r) = t" for r
    by simp_all
  then show ?case using 3 unfolding string_view_split_def pipe_join.simps by (subst view_data.simps) simp
qed simp

lemma visit_views: "visit_int_tokens (view_data s 124) = visit_int_tokens (string_view_split s 124)"
proof -
  have "visit_int_tokens (map (takeWhile (\<lambda>c. c \<noteq> 124)) ts) = visit_int_tokens ts" for ts
    by (induction ts) (simp_all add: visit_int_token_view)
  then show ?thesis unfolding string_view_split_def by (rule sym)
qed

text \<open>C38: \<open>IN(f, "t1|...|tn")\<close> means the same as \<open>f IN [t1, ..., tn]\<close>, on string and on numeric fields and also
  when a token is refused, although the numbers of a pipe list are read from \<open>data()\<close> of views that
  do not end at the delimiter; likewise for lists of strings.\<close>

theorem pipe_list_equivalent:
  assumes "ts \<noteq> []" and "\<forall>t \<in> set ts. 124 \<notin> set t"
  shows "visitComparison stod schema (IntPipeListExpr n f (PIPE_INT_STR (quote (pipe_join ts)))) =
      visitComparison stod schema (IntListExpr f n ts) \<and>
    visitComparison stod schema (StrPipeListExpr n f (PIPE_STR_STR (quote (pipe_join ts)))) =
      visitComparison stod schema (StrListExpr f n (map quote ts))"
proof -
  note [simp] = split_pipe_join [OF assms] visit_views
  have eq1: "visitInt_pipe_list (PIPE_INT_STR (quote (pipe_join ts))) = visitInt_value_list ts"
    by (simp add: visitInt_pipe_list_def visitInt_value_list_def)
  have eq2: "visitInt_pipe_list_string (PIPE_INT_STR (quote (pipe_join ts))) = visitInt_value_list_string ts"
    by (simp add: visitInt_pipe_list_string_def visitInt_value_list_string_def)
  have eq3: "visitStr_pipe_list (PIPE_STR_STR (quote (pipe_join ts))) = visitStr_value_list (map quote ts)"
    by (simp add: visitStr_pipe_list_def visitStr_value_list_def comp_def)
  show ?thesis unfolding visitComparison.simps eq1 eq2 eq3 by simp
qed

theorem pipe_list_equivalent_witness:
  "visitComparison (\<lambda>t. Inr 0) None (IntPipeListExpr True [97] (PIPE_INT_STR [34, 49, 124, 45, 50, 34])) =
    Inr (IntListExpression (FieldExpression [97]) True (IntListConstantI64 [1, - 2]))"
proof -
  have "visitComparison (\<lambda>t. Inr 0) None (IntListExpr [97] True [[49], [45, 50]]) =
      Inr (IntListExpression (FieldExpression [97]) True (IntListConstantI64 [1, - 2]))"
    by (simp add: string_field_def visitInt_value_list_def visit_int_token_def stoull_def stoll_def split_sign_def isspace_def
        isdigit_def dec_val_def build_int_list_ptr_def)
  moreover have "quote (pipe_join [[49], [45, 50]]) = [34, 49, 124, 45, 50, 34]" by (simp add: quote_def)
  ultimately show ?thesis
    using conjunct1 [OF pipe_list_equivalent [of "[[49], [45, 50]]" "\<lambda>t. Inr 0" None True "[97]"]] by simp
qed

section \<open>From a condition to the filter\<close>

text \<open>
  The meaning of a condition for an id, on the parse tree: \<open>A f k\<close> tells whether the id carries \<open>k\<close> in field
  \<open>f\<close>. A number that is compared with a string field stands for its text.
\<close>

fun pipe_tokens :: "Int_pipe_listContext \<Rightarrow> token list" where
  "pipe_tokens (INT_STRING s) = [unquote s]"
| "pipe_tokens (PIPE_INT_STR s) = string_view_split (unquote s) 124"

fun str_pipe_tokens :: "Str_pipe_listContext \<Rightarrow> token list" where
  "str_pipe_tokens (STRING_token s) = [unquote s]"
| "str_pipe_tokens (PIPE_STR_STR s) = string_view_split (unquote s) 124"

definition token_key :: "AttrTypeSchema \<Rightarrow> token \<Rightarrow> token \<Rightarrow> AttrKey" where
  "token_key s f t = (if map_of s f = Some STRING then StrKey t else IntKey (token_value t))"

fun field_name :: "Field_exprContext \<Rightarrow> token option" where
  "field_name (FieldRef f) = Some f"
| "field_name (ParenFieldExpr e) = field_name e"
| "field_name _ = None"

fun comparison_holds :: "AttrTypeSchema \<Rightarrow> (byte list \<Rightarrow> AttrKey \<Rightarrow> bool) \<Rightarrow> ComparisonContext \<Rightarrow> bool" where
  "comparison_holds s A (IntPipeListExpr n f ps) \<longleftrightarrow> n \<noteq> (\<exists>t \<in> set (pipe_tokens ps). A f (token_key s f t))"
| "comparison_holds s A (StrPipeListExpr n f ps) \<longleftrightarrow> n \<noteq> (\<exists>t \<in> set (str_pipe_tokens ps). A f (StrKey t))"
| "comparison_holds s A (IntListExpr f n ts) \<longleftrightarrow> n \<noteq> (\<exists>t \<in> set ts. A f (token_key s f t))"
| "comparison_holds s A (StrListExpr f n ts) \<longleftrightarrow> n \<noteq> (\<exists>t \<in> set ts. A f (StrKey (unquote t)))"
| "comparison_holds s A (NumericComparison e op (INTEGER t)) \<longleftrightarrow> (op = [33, 61]) \<noteq> A (the (field_name e)) (IntKey (token_value t))"
| "comparison_holds s A (NumericComparison e op (FLOAT t)) \<longleftrightarrow> False"
| "comparison_holds s A (StringComparison f op t) \<longleftrightarrow> (op = [33, 61]) \<noteq> A f (StrKey (unquote t))"

fun condition_holds :: "AttrTypeSchema \<Rightarrow> (byte list \<Rightarrow> AttrKey \<Rightarrow> bool) \<Rightarrow> ExprContext \<Rightarrow> bool" where
  "condition_holds s A (ParenExpr e) \<longleftrightarrow> condition_holds s A e"
| "condition_holds s A (NotExpr e) \<longleftrightarrow> \<not> condition_holds s A e"
| "condition_holds s A (LogicalExpr l op r) \<longleftrightarrow>
     (if op \<in> {[65, 78, 68], [97, 110, 100], [38, 38]} then condition_holds s A l \<and> condition_holds s A r
      else condition_holds s A l \<or> condition_holds s A r)"
| "condition_holds s A (CompExpr c) \<longleftrightarrow> comparison_holds s A c"

text \<open>
  The conditions the executors evaluate: fields of the schema, \<open>=\<close> and \<open>!=\<close> and lists, joined by \<open>AND\<close> and \<open>OR\<close>,
  with integer literals of the type of the field. Ordering, arithmetic, \<open>NOT\<close> and floating point are parsed
  but no executor exists for them.
\<close>

definition tokens_fit :: "AttrTypeSchema \<Rightarrow> token \<Rightarrow> token list \<Rightarrow> bool" where
  "tokens_fit s f ts \<longleftrightarrow>
     (case map_of s f of None \<Rightarrow> False
      | Some t \<Rightarrow> t = STRING \<or> is_integer t \<and> list_all (\<lambda>tok. int_token tok \<and> of_type t (IntKey (token_value tok))) ts)"

definition quoted :: "token \<Rightarrow> bool" where
  "quoted t \<longleftrightarrow> 2 \<le> length t"

fun comparison_ok :: "AttrTypeSchema \<Rightarrow> ComparisonContext \<Rightarrow> bool" where
  "comparison_ok s (IntPipeListExpr n f (INT_STRING t)) \<longleftrightarrow> quoted t \<and> tokens_fit s f (pipe_tokens (INT_STRING t))"
| "comparison_ok s (IntPipeListExpr n f (PIPE_INT_STR t)) \<longleftrightarrow> quoted t \<and> tokens_fit s f (pipe_tokens (PIPE_INT_STR t))"
| "comparison_ok s (StrPipeListExpr n f (STRING_token t)) \<longleftrightarrow> quoted t \<and> map_of s f = Some STRING"
| "comparison_ok s (StrPipeListExpr n f (PIPE_STR_STR t)) \<longleftrightarrow> quoted t \<and> map_of s f = Some STRING"
| "comparison_ok s (IntListExpr f n ts) \<longleftrightarrow> tokens_fit s f ts"
| "comparison_ok s (StrListExpr f n ts) \<longleftrightarrow> map_of s f = Some STRING"
| "comparison_ok s (NumericComparison e op (INTEGER t)) \<longleftrightarrow>
     op \<in> {[61], [33, 61]} \<and> (case field_name e of None \<Rightarrow> False | Some f \<Rightarrow> map_of s f \<noteq> Some STRING \<and> tokens_fit s f [t])"
| "comparison_ok s (NumericComparison e op (FLOAT t)) \<longleftrightarrow> False"
| "comparison_ok s (StringComparison f op t) \<longleftrightarrow> op \<in> {[61], [33, 61]} \<and> map_of s f = Some STRING"

fun condition_ok :: "AttrTypeSchema \<Rightarrow> ExprContext \<Rightarrow> bool" where
  "condition_ok s (ParenExpr e) \<longleftrightarrow> condition_ok s e"
| "condition_ok s (NotExpr e) \<longleftrightarrow> False"
| "condition_ok s (LogicalExpr l op r) \<longleftrightarrow>
     op \<in> {[65, 78, 68], [97, 110, 100], [38, 38], [79, 82], [111, 114], [124, 124]} \<and> condition_ok s l \<and> condition_ok s r"
| "condition_ok s (CompExpr c) \<longleftrightarrow> comparison_ok s c"

text \<open>A value of an integer type is a literal the visitor can read.\<close>

lemma of_type_range:
  assumes "of_type t (IntKey n)"
  shows "- (2 ^ 63) \<le> n \<and> n < 2 ^ 64 \<and> (2 ^ 63 \<le> n \<longrightarrow> t = UINT64)"
  using assms by (cases t) (auto simp: type_min_def type_max_def is_signed_def is_integer_def)

lemma visit_int_tokens_fit:
  assumes "list_all (\<lambda>tok. int_token tok \<and> of_type t (IntKey (token_value tok))) ts"
  shows "\<exists>vs. visit_int_tokens ts = Inr vs \<and> map num_key vs = map (\<lambda>tok. IntKey (token_value tok)) ts \<and>
    list_all (\<lambda>v. (\<exists>w. v = NumI64 w) \<or> (\<exists>w. v = NumU64 w) \<and> t = UINT64) vs"
  using assms
proof (induction ts)
  case (Cons tok ts)
  note r = of_type_range [of t "token_value tok"]
  have "visit_int_token tok = Inr (if token_value tok < 2 ^ 63 then NumI64 (word_of_int (token_value tok)) else NumU64 (word_of_int (token_value tok)))"
    "num_key (if token_value tok < 2 ^ 63 then NumI64 (word_of_int (token_value tok)) else NumU64 (word_of_int (token_value tok))) = IntKey (token_value tok)"
    using Cons(2) r visit_int_token_value [of tok] num_key_token [of "token_value tok"] by (simp_all del: power_numeral)
  moreover have "token_value tok < 2 ^ 63 \<or> t = UINT64" using Cons(2) r by force
  ultimately show ?case using Cons by (fastforce simp del: power_numeral)
qed simp

text \<open>
  A list in which some literal is above the \<open>int64_t\<close> range is rebuilt from \<open>uint64_t\<close> values; the field then has
  type \<open>UINT64\<close> and no literal is negative.
\<close>

lemma to_u64_list_fit:
  assumes "list_all (\<lambda>v. ((\<exists>w. v = NumI64 w) \<or> (\<exists>w. v = NumU64 w)) \<and> of_type UINT64 (num_key v)) vs"
  shows "\<exists>ns. to_u64_list vs = Inr ns \<and> map (\<lambda>w. IntKey (uint w)) ns = map num_key vs"
  using assms
proof (induction vs)
  case (Cons v vs)
  obtain n where n: "num_key v = IntKey n" "0 \<le> n" "n < 2 ^ 64" "GetNumericValue UINT64 v = Inr n"
    using Cons(2) GetNumericValue_I64 GetNumericValue_U64
    by (fastforce simp: num_key_def type_min_def type_max_def is_signed_def)
  have "uint (word_of_int n :: u64) = n" using n(2,3) by (simp add: unsigned_of_int take_bit_int_eq_self)
  then show ?case using Cons n by fastforce
qed simp

lemma build_int_list_fit:
  assumes "list_all (\<lambda>v. (\<exists>w. v = NumI64 w) \<or> (\<exists>w. v = NumU64 w) \<and> t = UINT64) vs" and "list_all (\<lambda>v. of_type t (num_key v)) vs"
  shows "\<exists>c. build_int_list_ptr vs = Inr c \<and> literals c = map num_key vs \<and>
    ((\<exists>ws. c = IntListConstantI64 ws) \<or> (\<exists>ws. c = IntListConstantU64 ws))"
proof (cases "filter is_NumI64 vs = vs")
  case True
  then have "map (\<lambda>v. IntKey (sint (get_i64 v))) vs = map num_key vs"
    by (auto simp: filter_id_conv num_key_def elim!: is_NumI64.elims)
  then show ?thesis using True by (simp add: build_int_list_ptr_def comp_def)
next
  case False
  then obtain v where "v \<in> set vs" "\<not> is_NumI64 v" by (auto simp: filter_id_conv)
  then have "t = UINT64" using assms(1) by (force simp: list_all_iff)
  then obtain ns where "to_u64_list vs = Inr ns" "map (\<lambda>w. IntKey (uint w)) ns = map num_key vs"
    using to_u64_list_fit [of vs] assms by (force simp: list_all_iff)
  moreover have "length (filter is_NumI64 vs) \<noteq> length vs" using \<open>v \<in> set vs\<close> \<open>\<not> is_NumI64 v\<close> by (metis length_filter_less less_irrefl)
  ultimately show ?thesis by (simp add: build_int_list_ptr_def)
qed

lemma visitInt_list_fit:
  assumes "list_all (\<lambda>tok. int_token tok \<and> of_type t (IntKey (token_value tok))) ts"
  shows "\<exists>c. bind_r (visit_int_tokens ts) build_int_list_ptr = Inr c \<and> literals c = map (\<lambda>tok. IntKey (token_value tok)) ts \<and>
    ((\<exists>ws. c = IntListConstantI64 ws) \<or> (\<exists>ws. c = IntListConstantU64 ws))"
proof -
  obtain vs where vs: "visit_int_tokens ts = Inr vs" "map num_key vs = map (\<lambda>tok. IntKey (token_value tok)) ts"
      "list_all (\<lambda>v. (\<exists>w. v = NumI64 w) \<or> (\<exists>w. v = NumU64 w) \<and> t = UINT64) vs"
    using visit_int_tokens_fit [OF assms] by blast
  have "list_all (of_type t) (map num_key vs)" unfolding vs(2) using assms by (simp add: list_all_iff)
  then have "list_all (\<lambda>v. of_type t (num_key v)) vs" by (simp add: list_all_iff)
  then show ?thesis using build_int_list_fit [OF vs(3)] vs(1,2) by simp
qed

text \<open>The expression of a list of integers or of their texts.\<close>

definition agrees :: "AttrTypeSchema \<Rightarrow> Expression result \<Rightarrow> ((byte list \<Rightarrow> AttrKey \<Rightarrow> bool) \<Rightarrow> bool) \<Rightarrow> bool" where
  "agrees s r P \<longleftrightarrow> (\<exists>e. r = Inr e \<and> supported s e \<and> (\<forall>A. satisfies A e = P A))"

lemma int_list_agrees:
  assumes "tokens_fit s f ts"
  shows "agrees s
    (bind_r (string_field (Some s) f) (\<lambda>b.
       if b then Inr (StrListExpression (FieldExpression f) n (StrListConstant ts))
       else bind_r (bind_r (visit_int_tokens ts) build_int_list_ptr) (\<lambda>right. Inr (IntListExpression (FieldExpression f) n right))))
    (\<lambda>A. n \<noteq> (\<exists>t \<in> set ts. A f (token_key s f t)))"
proof -
  obtain t where t: "map_of s f = Some t" using assms by (auto simp: tokens_fit_def split: option.splits)
  have str: "string_field (Some s) f = Inr (t = STRING)" using t by (simp add: string_field_def is_string_type_def GetTypeOfField_def)
  show ?thesis
  proof (cases "t = STRING")
    case True
    then show ?thesis using str t by (simp add: agrees_def token_key_def)
  next
    case False
    then have fit: "is_integer t" "list_all (\<lambda>tok. int_token tok \<and> of_type t (IntKey (token_value tok))) ts"
      using assms t by (auto simp: tokens_fit_def)
    obtain c where c: "bind_r (visit_int_tokens ts) build_int_list_ptr = Inr c" "literals c = map (\<lambda>tok. IntKey (token_value tok)) ts"
        "(\<exists>ws. c = IntListConstantI64 ws) \<or> (\<exists>ws. c = IntListConstantU64 ws)"
      using visitInt_list_fit [OF fit(2)] by blast
    have "\<forall>k \<in> set (literals c). of_type t k" using fit(2) unfolding c(2) by (auto simp: list_all_iff)
    moreover have "case c of IntListConstantI64 _ \<Rightarrow> True | IntListConstantU64 _ \<Rightarrow> True | _ \<Rightarrow> False" using c(3) by auto
    ultimately have "supported s (IntListExpression (FieldExpression f) n c)" using t fit(1) by simp
    moreover have "satisfies A (IntListExpression (FieldExpression f) n c) = (n \<noteq> (\<exists>t \<in> set ts. A f (token_key s f t)))" for A
      using False t by (simp add: c(2) token_key_def)
    ultimately show ?thesis unfolding agrees_def str c(1) bind_r_simps using False by (simp only: if_False) blast
  qed
qed

lemma comparison_ops:
  assumes "op \<in> {[61], [33, 61]}"
  shows "trans_string_to_comparison_operator op = Inr (if op = [33, 61] then NE else EQ)"
  using assms by (auto simp: trans_string_to_comparison_operator_def)

lemma field_name_visit:
  assumes "field_name fe = Some f" and "map_of s f = Some t" and "t \<noteq> STRING"
  shows "visitField_expr stod (Some s) fe = Inr (FieldExpression f)"
  using assms
  by (induction fe) (simp_all add: string_field_def is_string_type_def GetTypeOfField_def)

lemma numeric_agrees:
  assumes "op \<in> {[61], [33, 61]}" and "field_name fe = Some f" and "map_of s f = Some t" and "t \<noteq> STRING"
    and "int_token tok" and "of_type t (IntKey (token_value tok))"
  shows "agrees s (visitComparison stod (Some s) (NumericComparison fe op (INTEGER tok)))
    (\<lambda>A. (op = [33, 61]) \<noteq> A f (IntKey (token_value tok)))"
proof -
  obtain v where v: "visit_int_token tok = Inr v" "num_key v = IntKey (token_value tok)" "(\<exists>w. v = NumI64 w) \<or> (\<exists>w. v = NumU64 w) \<and> t = UINT64"
    using visit_int_tokens_fit [of t "[tok]"] assms(5,6) by (auto simp: bind_r_eq_Inr_iff)
  let ?op = "if op = [33, 61] then NE else EQ"
  let ?e = "ComparisonExpression (FieldExpression f) ?op (NumericConstant v)"
  have "visitComparison stod (Some s) (NumericComparison fe op (INTEGER tok)) = Inr ?e"
    using field_name_visit [OF assms(2-4)] comparison_ops [OF assms(1)] v(1) by (simp add: visitNumeric_def)
  moreover have "supported s ?e"
    using v assms(3,6) by (auto simp: num_key_def is_signed_def)
  moreover have "satisfies A ?e = ((op = [33, 61]) \<noteq> A f (IntKey (token_value tok)))" for A
    using v(2) by (simp add: num_key_def)
  ultimately show ?thesis unfolding agrees_def by blast
qed

lemma string_agrees:
  assumes "map_of s f = Some STRING"
  shows "op \<in> {[61], [33, 61]} \<Longrightarrow>
      agrees s (visitComparison stod (Some s) (StringComparison f op t)) (\<lambda>A. (op = [33, 61]) \<noteq> A f (StrKey (unquote t)))"
    and "agrees s (Inr (StrListExpression (FieldExpression f) n (StrListConstant ts))) (\<lambda>A. n \<noteq> (\<exists>t \<in> set ts. A f (StrKey t)))"
proof -
  have str: "not_string_field (Some s) f = Inr False" using assms by (simp add: not_string_field_def is_string_type_def GetTypeOfField_def)
  show "agrees s (visitComparison stod (Some s) (StringComparison f op t)) (\<lambda>A. (op = [33, 61]) \<noteq> A f (StrKey (unquote t)))"
    if "op \<in> {[61], [33, 61]}"
    using that comparison_ops [OF that] str assms by (simp add: agrees_def)
  show "agrees s (Inr (StrListExpression (FieldExpression f) n (StrListConstant ts))) (\<lambda>A. n \<noteq> (\<exists>t \<in> set ts. A f (StrKey t)))"
    using assms by (simp add: agrees_def)
qed

lemma visitComparison_agrees:
  assumes "comparison_ok s c"
  shows "agrees s (visitComparison stod (Some s) c) (\<lambda>A. comparison_holds s A c)"
proof (cases c)
  case (IntPipeListExpr n f ps)
  then have "quoted (case ps of INT_STRING t \<Rightarrow> t | PIPE_INT_STR t \<Rightarrow> t)" "tokens_fit s f (pipe_tokens ps)"
    using assms by (cases ps; simp)+
  moreover from this(1) have "visitInt_pipe_list ps = bind_r (visit_int_tokens (pipe_tokens ps)) build_int_list_ptr"
      "visitInt_pipe_list_string ps = StrListConstant (pipe_tokens ps)"
    by (cases ps; simp add: visitInt_pipe_list_def visitInt_pipe_list_string_def visit_views quoted_def)+
  ultimately show ?thesis using int_list_agrees [of s f "pipe_tokens ps" n] by (simp only: IntPipeListExpr visitComparison.simps comparison_holds.simps)
next
  case (StrPipeListExpr n f ps)
  then have "quoted (case ps of STRING_token t \<Rightarrow> t | PIPE_STR_STR t \<Rightarrow> t)" "map_of s f = Some STRING"
    using assms by (cases ps; simp)+
  moreover from this(1) have "visitStr_pipe_list ps = StrListConstant (str_pipe_tokens ps)"
    by (cases ps) (simp_all add: visitStr_pipe_list_def quoted_def)
  ultimately show ?thesis
    using StrPipeListExpr string_agrees(2) [of s f n "str_pipe_tokens ps"]
    by (simp add: not_string_field_def is_string_type_def GetTypeOfField_def)
next
  case (IntListExpr f n ts)
  then show ?thesis
    using assms int_list_agrees [of s f ts n]
    by (simp only: comparison_ok.simps visitComparison.simps comparison_holds.simps visitInt_value_list_def visitInt_value_list_string_def)
next
  case (StrListExpr f n ts)
  then show ?thesis
    using assms string_agrees(2) [of s f n "map unquote ts"]
    by (simp add: not_string_field_def is_string_type_def GetTypeOfField_def visitStr_value_list_def)
next
  case (NumericComparison fe op num)
  then obtain tok f t where "num = INTEGER tok" "op \<in> {[61], [33, 61]}" "field_name fe = Some f" "map_of s f = Some t" "t \<noteq> STRING"
      "int_token tok" "of_type t (IntKey (token_value tok))"
    using assms by (cases num) (auto simp: tokens_fit_def split: option.splits)
  then show ?thesis using NumericComparison numeric_agrees by (simp del: visitComparison.simps)
next
  case (StringComparison f op t)
  then show ?thesis using assms string_agrees(1) [of s f op stod t] by (simp del: visitComparison.simps)
qed

lemma visitExpr_agrees:
  assumes "condition_ok s c"
  shows "agrees s (visitExpr stod (Some s) c) (\<lambda>A. condition_holds s A c)"
  using assms
proof (induction c)
  case (LogicalExpr l op r)
  then obtain el er where e: "visitExpr stod (Some s) l = Inr el" "supported s el" "\<forall>A. satisfies A el = condition_holds s A l"
      "visitExpr stod (Some s) r = Inr er" "supported s er" "\<forall>A. satisfies A er = condition_holds s A r"
    by (auto simp: agrees_def)
  let ?op = "if op \<in> {[65, 78, 68], [97, 110, 100], [38, 38]} then LogicalAnd else LogicalOr"
  have "trans_string_to_logical_operator op = Inr ?op"
    using LogicalExpr(3) by (auto simp: trans_string_to_logical_operator_def)
  then have "visitExpr stod (Some s) (LogicalExpr l op r) = Inr (LogicalExpression el ?op er)" using e by simp
  moreover have "supported s (LogicalExpression el ?op er)" using e by simp
  moreover have "satisfies A (LogicalExpression el ?op er) = condition_holds s A (LogicalExpr l op r)" for A using e by simp
  ultimately show ?case unfolding agrees_def by blast
next
  case (CompExpr c)
  then show ?case using visitComparison_agrees by simp
qed simp_all

text \<open>
  Conditions outside \<open>condition_ok\<close> that the grammar accepts: an executor is never made for a negation, and the
  executor of an ordering comparison raises when it is run.
\<close>

lemma unsupported_condition_raises:
  shows "visitExpr stod schema (NotExpr c) = Inr e \<Longrightarrow> Executor_MakeInstance s e = Inl (Vsag INTERNAL_ERROR)"
    and "Executor_MakeInstance s (ComparisonExpression l op r) = Inr x0 \<Longrightarrow> Executor_Init R ix x0 = Inr x \<Longrightarrow>
      op \<notin> {EQ, NE} \<Longrightarrow> Executor_Run R ix b (Executor_Clear R x) = Inl (Vsag INTERNAL_ERROR)"
proof -
  show "Executor_MakeInstance s e = Inl (Vsag INTERNAL_ERROR)" if "visitExpr stod schema (NotExpr c) = Inr e"
    using that by (auto elim!: bind_rE)
  assume "Executor_MakeInstance s (ComparisonExpression l op r) = Inr x0" "Executor_Init R ix x0 = Inr x"
    and op: "op \<notin> {EQ, NE}"
  then obtain y where "x = ComparisonExecutor y op"
    by (auto simp: ComparisonExecutor_new_def Let_def elim!: bind_rE split: Expression.splits if_splits option.splits)
  then show "Executor_Run R ix b (Executor_Clear R x) = Inl (Vsag INTERNAL_ERROR)"
    using op by (auto simp: base_Clear_def split: option.split)
qed

text \<open>C4: a condition is built from comparisons of a field with an integer literal by \<open>=\<close> or \<open>!=\<close>, of a string field with a
  string by \<open>=\<close> or \<open>!=\<close>, and lists of such values (integer tokens for a string field count as strings) with \<open>IN\<close> or \<open>NOT_IN\<close>, by \<open>AND\<close>, \<open>OR\<close> and parentheses; every field is known
  to the index and every integer literal is in the range of the type of its field. (\<open>!\<close>, the orderings, arithmetic and
  floating-point literals, which the grammar also accepts, are not conditions in this sense: see
  \<open>unsupported_condition_raises\<close>.) On a well-formed index the visitor turns such a condition into an expression, an executor for
  it is made and initialised normally, and after any number of runs on other buckets, \<open>Clear\<close> and \<open>Run\<close> for a bucket give
  a filter that accepts exactly the ids that satisfy the condition with the values the index holds for them in that bucket;
  no step raises, leaves a buffer or follows a null pointer. This holds for both kinds of bitset.\<close>

theorem filter_condition_correct:
  fixes R :: "'r Roaring"
  assumes "roaring_laws R" and "ix_ok bt ix" and "condition_ok (field_type_map ix) c"
  shows "\<exists>e. visitExpr stod (Some (field_type_map ix)) c = Inr e \<and>
    (\<exists>x0 x :: 'r Executor. Executor_MakeInstance (field_type_map ix) e = Inr x0 \<and> Executor_Init R ix x0 = Inr x) \<and>
    (\<forall>x b. executed R ix e x \<longrightarrow>
      (\<exists>x'. Executor_Run R ix b (Executor_Clear R x) = Inr x' \<and>
        (\<forall>i. Executor_CheckValid R x' (uint i) = Inr (condition_holds (field_type_map ix) (carried R ix b i) c))))"
proof -
  obtain e where e: "visitExpr stod (Some (field_type_map ix)) c = Inr e" "supported (field_type_map ix) e"
      "\<forall>A. satisfies A e = condition_holds (field_type_map ix) A c"
    using visitExpr_agrees [OF assms(3)] unfolding agrees_def by blast
  show ?thesis
    using attribute_filter_correct [OF assms(1,2) e(2)] unfolding e(3) [rule_format]
    by (intro exI [of _ e] conjI [OF e(1)])
qed

text \<open>\<open>a != 7 AND b IN ["x", "y"]\<close> on an index with one id.\<close>

definition demo_condition :: ExprContext where
  "demo_condition = LogicalExpr (CompExpr (NumericComparison (FieldRef [97]) [33, 61] (INTEGER [55]))) [65, 78, 68]
     (CompExpr (StrListExpr [98] False [[34, 120, 34], [34, 121, 34]]))"

theorem filter_condition_correct_witness:
  "\<exists>ix e x0 x x'. AttributeIndex_Insert list_roaring (AttributeIndex_MakeInstance False) demo_attrs 42 2 = Inr ix \<and>
    visitExpr (\<lambda>t. Inr 0) (Some (field_type_map ix)) demo_condition = Inr e \<and>
    Executor_MakeInstance (field_type_map ix) e = Inr x0 \<and> Executor_Init list_roaring ix x0 = Inr x \<and>
    Executor_Run list_roaring ix 2 (Executor_Clear list_roaring x) = Inr x' \<and>
    Executor_CheckValid list_roaring x' (uint (42 :: u32)) = Inr False"
proof -
  let ?ix = "AttributeIndex_MakeInstance False :: u32 list AttributeIndex"
  obtain ix where ix: "AttributeIndex_Insert list_roaring ?ix demo_attrs 42 2 = Inr ix" "ix_ok SparseBitsetType ix"
      "ix_mem list_roaring ix = (\<lambda>n t k b' i'. ix_mem list_roaring ?ix n t k b' i' \<or> carries demo_attrs n t k \<and> b' = 2 \<and> i' = 42)"
      "map_of (field_type_map ix) = map_of (field_type_map ?ix) ++ map_of (rev (map (\<lambda>a. (attr_name a, GetValueType a)) demo_attrs))"
    using AttributeIndex_Insert_ok [OF list_roaring_laws ix_ok_new(1) demo_attrs_ok demo_place, of False] by auto
  have t: "map_of (field_type_map ix) [97] = Some INT8" "map_of (field_type_map ix) [98] = Some STRING"
    unfolding ix(4) by (simp_all add: demo_attrs_def AttributeIndex_MakeInstance_def)
  have v: "int_token [55]" "token_value [55] = 7" by (simp_all add: int_token_def token_value_def token_digits_def isdigit_def dec_val_def)
  have ok: "condition_ok (field_type_map ix) demo_condition"
    by (simp add: demo_condition_def t v tokens_fit_def is_integer_def type_min_def type_max_def is_signed_def)
  obtain e x0 x where e: "visitExpr (\<lambda>t. Inr 0) (Some (field_type_map ix)) demo_condition = Inr e"
      "Executor_MakeInstance (field_type_map ix) e = Inr x0" "Executor_Init list_roaring ix x0 = Inr x"
      "\<forall>x b. executed list_roaring ix e x \<longrightarrow>
        (\<exists>x'. Executor_Run list_roaring ix b (Executor_Clear list_roaring x) = Inr x' \<and>
          (\<forall>i. Executor_CheckValid list_roaring x' (uint i) =
            Inr (condition_holds (field_type_map ix) (carried list_roaring ix b i) demo_condition)))"
    using filter_condition_correct [OF list_roaring_laws ix(2) ok, of "\<lambda>t. Inr 0"] by (elim exE conjE)
  obtain x' where x': "Executor_Run list_roaring ix 2 (Executor_Clear list_roaring x) = Inr x'"
      "\<forall>i. Executor_CheckValid list_roaring x' (uint i) =
        Inr (condition_holds (field_type_map ix) (carried list_roaring ix 2 i) demo_condition)"
    using e(4) executed.init [OF e(2,3)] by blast
  have "carried list_roaring ix 2 42 [97] (IntKey 7)"
    by (simp add: carried_def GetTypeOfField_def t ix(3) demo_attrs_def carries_def)
  then have "\<not> condition_holds (field_type_map ix) (carried list_roaring ix 2 42) demo_condition" by (simp add: demo_condition_def v)
  then have "Executor_CheckValid list_roaring x' (uint (42 :: u32)) = Inr False" using x'(2) by (simp only: HOL.simp_thms)
  then show ?thesis using ix(1) e(1-3) x'(1) by blast
qed

end
