(* ===== verification/NonContinuousIO.thy ===== *)
theory NonContinuousIO
  imports BasicIO
begin

text \<open>
  A storage spread over areas of another one: \<^verbatim>\<open>src/src/io/noncontinuous_io/noncontinuous_allocator.h\<close>
  and \<^verbatim>\<open>src/src/io/noncontinuous_io/noncontinuous_io.h\<close>. The bucket storages keep one such storage for each
  bucket; all of them take their areas from one allocator of address space.

  The template argument \<open>IOTmpl\<close> is its \<open>WriteImpl\<close> and \<open>ReadImpl\<close>, the arguments \<open>wr\<close> and \<open>rd\<close>; the proofs
  hold for every storage that satisfies \<open>random_io\<close>. The allocator is shared, so its \<open>last_offset_\<close> is an argument and a
  result of the operations that ask it for an area. As in \<open>BasicIO\<close>, a \<open>uint64_t\<close> is a natural number and sums are
  taken through \<open>wrap64\<close>. \<open>std::upper_bound\<close> on the areas, whose sizes add up and are therefore sorted, is the
  first area that ends behind the offset; an iterator is the list of the areas from there on.
\<close>

section \<open>The allocator of areas\<close>

type_synonym area = "(nat \<times> nat) \<times> nat"

definition ALOGN_SIZE :: nat where
  "ALOGN_SIZE = 4096"

definition NonContinuousAllocator_Require :: "nat \<Rightarrow> nat \<Rightarrow> (nat \<times> nat) \<times> nat" where
  "NonContinuousAllocator_Require last_offset sz =
     (let sz = wrap64 (sz + ALOGN_SIZE - 1); sz = sz - sz mod ALOGN_SIZE in
      ((last_offset, sz), wrap64 (last_offset + sz)))"

section \<open>The storage\<close>

record 'io NonContinuousIO =
  nc_inner :: 'io
  nc_areas :: "area list"
  nc_size :: nat

definition get_cur_max_size :: "area list \<Rightarrow> nat" where
  "get_cur_max_size areas = (if areas = [] then 0 else snd (last areas))"

definition get_area :: "area list \<Rightarrow> nat \<Rightarrow> area list" where
  "get_area areas offset = dropWhile (\<lambda>(_, post). \<not> offset < post) areas"

definition area_start :: "area \<Rightarrow> nat \<Rightarrow> nat" where
  "area_start a offset = wrap64 (fst (fst a) + offset + (2 ^ 64 - snd a) + snd (fst a))"

text \<open>The loop of a write: \<open>areas\<close> is the iterator, \<open>data\<close> what is left to write.\<close>

fun nc_write_loop ::
    "('io \<Rightarrow> byte list \<Rightarrow> nat \<Rightarrow> 'io result) \<Rightarrow> area list \<Rightarrow> nat \<Rightarrow> byte list \<Rightarrow> 'io \<Rightarrow> 'io result" where
  "nc_write_loop wr areas start_offset [] inner = Inr inner"
| "nc_write_loop wr [] start_offset (d # ds) inner = Inl UndefinedBehaviour"
| "nc_write_loop wr (a # areas) start_offset (d # ds) inner =
     (let area_size = min (length (d # ds)) (snd (fst a) - (start_offset - fst (fst a))) in
      bind_r (wr inner (take area_size (d # ds)) start_offset)
        (nc_write_loop wr areas (case areas of [] \<Rightarrow> start_offset | a' # _ \<Rightarrow> fst (fst a')) (drop area_size (d # ds))))"

text \<open>The areas a write works on: those of the storage, or with one more when it ends behind them.\<close>

definition extend_areas :: "nat \<Rightarrow> area list \<Rightarrow> nat \<Rightarrow> area list \<times> nat" where
  "extend_areas last_offset areas end_offset =
     (let capacity = get_cur_max_size areas in
      if end_offset > capacity then
        (let (area, last_offset) = NonContinuousAllocator_Require last_offset (end_offset - capacity) in
         (areas @ [(area, wrap64 (capacity + snd area))], last_offset))
      else (areas, last_offset))"

definition NonContinuousIO_WriteImpl ::
    "('io \<Rightarrow> byte list \<Rightarrow> nat \<Rightarrow> 'io result) \<Rightarrow> nat \<Rightarrow> 'io NonContinuousIO \<Rightarrow> byte list \<Rightarrow> nat \<Rightarrow>
     ('io NonContinuousIO \<times> nat) result" where
  "NonContinuousIO_WriteImpl wr last_offset io data offset =
     (let end_offset = wrap64 (length data + offset);
          (areas, last_offset) = extend_areas last_offset (nc_areas io) end_offset in
      case get_area areas offset of
        [] \<Rightarrow> Inl UndefinedBehaviour
      | a # rest \<Rightarrow>
          bind_r (nc_write_loop wr (a # rest) (area_start a offset) data (nc_inner io)) (\<lambda>inner.
            Inr (io\<lparr>nc_inner := inner, nc_areas := areas,
                    nc_size := (if end_offset > nc_size io then end_offset else nc_size io)\<rparr>, last_offset)))"

fun nc_requests :: "area list \<Rightarrow> nat \<Rightarrow> nat \<Rightarrow> (nat \<times> nat) list result" where
  "nc_requests areas start_offset 0 = Inr []"
| "nc_requests [] start_offset (Suc n) = Inl UndefinedBehaviour"
| "nc_requests (a # areas) start_offset (Suc n) =
     (let area_size = min (Suc n) (snd (fst a) - (start_offset - fst (fst a))) in
      bind_r (nc_requests areas (case areas of [] \<Rightarrow> start_offset | a' # _ \<Rightarrow> fst (fst a')) (Suc n - area_size)) (\<lambda>reqs.
        Inr ((area_size, start_offset) # reqs)))"

definition NonContinuousIO_ReadImpl ::
    "('io \<Rightarrow> nat \<Rightarrow> nat \<Rightarrow> byte list option result) \<Rightarrow> byte list \<Rightarrow> 'io NonContinuousIO \<Rightarrow> nat \<Rightarrow> nat \<Rightarrow>
     byte list option result" where
  "NonContinuousIO_ReadImpl rd buf io sz offset =
     (if \<not> wrap64 (sz + offset) \<le> nc_size io then Inr None
      else case get_area (nc_areas io) offset of
        [] \<Rightarrow> Inl UndefinedBehaviour
      | a # rest \<Rightarrow>
          bind_r (nc_requests (a # rest) (area_start a offset) sz) (\<lambda>reqs.
          bind_r (multi_read rd (nc_inner io) buf reqs) (\<lambda>(ret, out).
            Inr (if ret then Some out else None))))"

definition mapping_offset :: "area list \<Rightarrow> nat \<Rightarrow> nat result" where
  "mapping_offset areas offset =
     (case get_area areas offset of
        [] \<Rightarrow> Inl UndefinedBehaviour
      | a # rest \<Rightarrow> (let start_size = snd a - snd (fst a) in Inr (wrap64 (fst (fst a) + (offset - start_size)))))"

section \<open>Areas\<close>

text \<open>
  Well-formed areas: none is empty, they do not overlap and lie in order below \<open>hi\<close>, and each carries the sum of
  the sizes so far. \<open>phys\<close> is the place of a logical position.
\<close>

fun areas_ok :: "nat \<Rightarrow> nat \<Rightarrow> area list \<Rightarrow> nat \<Rightarrow> bool" where
  "areas_ok cap lo [] hi \<longleftrightarrow> lo \<le> hi"
| "areas_ok cap lo (((off, sz), post) # areas) hi \<longleftrightarrow> lo \<le> off \<and> 0 < sz \<and> post = cap + sz \<and> areas_ok post (off + sz) areas hi"

fun cap_of :: "nat \<Rightarrow> area list \<Rightarrow> nat" where
  "cap_of cap [] = cap"
| "cap_of cap (a # areas) = cap_of (snd a) areas"

fun phys :: "nat \<Rightarrow> area list \<Rightarrow> nat \<Rightarrow> nat" where
  "phys cap [] k = 0"
| "phys cap (((off, sz), post) # areas) k = (if k < post then off + (k - cap) else phys post areas k)"

lemma get_cur_max_size_cap: "get_cur_max_size areas = cap_of 0 areas"
proof -
  have "areas \<noteq> [] \<Longrightarrow> snd (last areas) = cap_of cap areas" for cap
  proof (induction areas arbitrary: cap)
    case (Cons a areas)
    then show ?case by (cases areas) auto
  qed simp
  then show ?thesis by (simp add: get_cur_max_size_def)
qed

lemma cap_of_le: "areas_ok cap lo areas hi \<Longrightarrow> cap \<le> cap_of cap areas"
  by (induction cap lo areas hi rule: areas_ok.induct) auto

lemma cap_of_bound: "areas_ok cap lo areas hi \<Longrightarrow> cap_of cap areas + lo \<le> cap + hi"
  by (induction cap lo areas hi rule: areas_ok.induct) auto

lemma areas_ok_snoc:
  "areas_ok cap lo areas hi \<Longrightarrow> hi \<le> off \<Longrightarrow> 0 < sz \<Longrightarrow> areas_ok cap lo (areas @ [((off, sz), cap_of cap areas + sz)]) (off + sz)"
  by (induction cap lo areas hi rule: areas_ok.induct) auto

lemma cap_of_snoc: "cap_of cap (areas @ [a]) = snd a"
  by (induction areas arbitrary: cap) auto

lemma phys_snoc: "areas_ok cap lo areas hi \<Longrightarrow> cap \<le> k \<Longrightarrow> k < cap_of cap areas \<Longrightarrow> phys cap (areas @ [a]) k = phys cap areas k"
  by (induction cap lo areas hi rule: areas_ok.induct) auto

lemma phys_snoc_new:
  "areas_ok cap lo areas hi \<Longrightarrow> cap_of cap areas \<le> k \<Longrightarrow> k < cap_of cap areas + sz \<Longrightarrow>
    phys cap (areas @ [((off, sz), cap_of cap areas + sz)]) k = off + (k - cap_of cap areas)"
proof (induction cap lo areas hi rule: areas_ok.induct)
  case (2 cap lo off' sz' post areas hi)
  then show ?case using cap_of_le [of post "off' + sz'" areas hi] by auto
qed simp

lemma phys_range:
  "areas_ok cap lo areas hi \<Longrightarrow> cap \<le> k \<Longrightarrow> k < cap_of cap areas \<Longrightarrow> lo \<le> phys cap areas k \<and> phys cap areas k < hi"
proof (induction cap lo areas hi rule: areas_ok.induct)
  case (2 cap lo off sz post areas hi)
  have "off + sz \<le> hi" using 2(2) cap_of_bound [of post "off + sz" areas hi] cap_of_le [of post "off + sz" areas hi] by auto
  then show ?case using 2 by (cases "k < post") auto
qed simp

lemma phys_mono:
  "areas_ok cap lo areas hi \<Longrightarrow> cap \<le> j \<Longrightarrow> j < k \<Longrightarrow> k < cap_of cap areas \<Longrightarrow> phys cap areas j < phys cap areas k"
proof (induction cap lo areas hi rule: areas_ok.induct)
  case (2 cap lo off sz post areas hi)
  have "off + sz \<le> phys post areas k" if "post \<le> k" using 2 that phys_range [of post "off + sz" areas hi k] by auto
  then show ?case using 2 by (cases "k < post"; cases "j < post") auto
qed simp

lemma phys_inj:
  assumes "areas_ok 0 lo areas hi" and "j < cap_of 0 areas" and "k < cap_of 0 areas" and "phys 0 areas j = phys 0 areas k"
  shows "j = k"
  using assms phys_mono [OF assms(1), of j k] phys_mono [OF assms(1), of k j] by (metis less_irrefl linorder_neqE_nat zero_le)

text \<open>The iterator for a position inside the capacity, and the offset of the position in the inner storage.\<close>

definition iterator_at :: "nat \<Rightarrow> area list \<Rightarrow> nat \<Rightarrow> nat \<Rightarrow> area list \<Rightarrow> nat \<Rightarrow> nat \<Rightarrow> bool" where
  "iterator_at cap areas hi k it cap' lo' \<longleftrightarrow> areas_ok cap' lo' it hi \<and> cap \<le> cap' \<and> cap' \<le> k \<and> it \<noteq> [] \<and> k < snd (hd it) \<and>
     cap_of cap' it = cap_of cap areas \<and> (\<forall>j. cap' \<le> j \<longrightarrow> phys cap' it j = phys cap areas j)"

lemma get_area_ok:
  assumes "areas_ok cap lo areas hi" and "cap \<le> k" and "k < cap_of cap areas"
  shows "\<exists>cap' lo'. iterator_at cap areas hi k (get_area areas k) cap' lo'"
  using assms
proof (induction cap lo areas hi rule: areas_ok.induct)
  case (2 cap lo off sz post areas hi)
  show ?case
  proof (cases "k < post")
    case True
    then have "get_area (((off, sz), post) # areas) k = ((off, sz), post) # areas" by (simp add: get_area_def)
    then have "iterator_at cap (((off, sz), post) # areas) hi k (get_area (((off, sz), post) # areas) k) cap lo"
      using 2(2,3) True by (auto simp: iterator_at_def)
    then show ?thesis by blast
  next
    case False
    then have eq: "get_area (((off, sz), post) # areas) k = get_area areas k" by (simp add: get_area_def)
    have "areas_ok post (off + sz) areas hi" "post \<le> k" "k < cap_of post areas" using 2 False by auto
    then obtain cap' lo' where it: "iterator_at post areas hi k (get_area areas k) cap' lo'" using 2(1) by blast
    moreover have "cap \<le> post" using 2(2) by simp
    ultimately have "iterator_at cap (((off, sz), post) # areas) hi k (get_area areas k) cap' lo'"
      unfolding iterator_at_def by simp
    then show ?thesis unfolding eq by blast
  qed
qed simp

section \<open>The loops\<close>

text \<open>What a write of \<open>data\<close> at a logical position does to the bytes of the inner storage.\<close>

definition scattered :: "(nat \<Rightarrow> nat) \<Rightarrow> nat \<Rightarrow> byte list \<Rightarrow> byte list \<Rightarrow> byte list \<Rightarrow> bool" where
  "scattered at k data bs bs' \<longleftrightarrow> length bs \<le> length bs' \<and>
     (\<forall>j < length data. at (k + j) < length bs' \<and> bs' ! at (k + j) = data ! j) \<and>
     (\<forall>q < length bs. (\<forall>j < length data. q \<noteq> at (k + j)) \<longrightarrow> bs' ! q = bs ! q)"

lemma scattered_Nil [simp]: "scattered at k [] bs bs"
  by (simp add: scattered_def)

lemma scattered_append:
  assumes "scattered at k d1 bs bs1" and "scattered at (k + length d1) d2 bs1 bs2"
    and "\<forall>i < length d1. \<forall>j < length d2. at (k + i) \<noteq> at (k + length d1 + j)"
  shows "scattered at k (d1 @ d2) bs bs2"
proof -
  have "at (k + j) < length bs2 \<and> bs2 ! at (k + j) = (d1 @ d2) ! j" if j: "j < length d1 + length d2" for j
  proof (cases "j < length d1")
    case True
    then have a: "at (k + j) < length bs1" "bs1 ! at (k + j) = d1 ! j" using assms(1) by (auto simp: scattered_def)
    moreover have "\<forall>i < length d2. at (k + j) \<noteq> at (k + length d1 + i)" using assms(3) True by auto
    ultimately have "bs2 ! at (k + j) = bs1 ! at (k + j)" "length bs1 \<le> length bs2" using assms(2) by (auto simp: scattered_def)
    then show ?thesis using a True by (simp add: nth_append)
  next
    case False
    then obtain i where i: "j = length d1 + i" by (metis le_Suc_ex not_less)
    then have "i < length d2" using j by simp
    then show ?thesis using assms(2) i by (simp add: scattered_def nth_append add.assoc)
  qed
  moreover have "bs2 ! q = bs ! q" if "q < length bs" "\<forall>j < length (d1 @ d2). q \<noteq> at (k + j)" for q
  proof -
    have "\<forall>j < length d1. q \<noteq> at (k + j)" using that(2) by simp
    moreover have "\<forall>j < length d2. q \<noteq> at (k + length d1 + j)" using that(2) by (simp add: add.assoc)
    moreover have "q < length bs1" using assms(1) that(1) by (simp add: scattered_def)
    ultimately show ?thesis using assms(1,2) that(1) by (simp add: scattered_def)
  qed
  moreover have "length bs \<le> length bs2" using assms(1,2) by (simp add: scattered_def)
  ultimately show ?thesis unfolding scattered_def by simp
qed

text \<open>A write to the inner storage inside one area.\<close>

lemma written_scattered:
  assumes "written bs data off bs'" and "\<forall>j < length data. at (k + j) = off + j"
  shows "scattered at k data bs bs'"
proof -
  have w: "length bs' = max (length bs) (off + length data)" "take (length data) (drop off bs') = data"
      "\<forall>i < length bs. i < off \<or> off + length data \<le> i \<longrightarrow> bs' ! i = bs ! i"
    using assms(1) by (auto simp: written_def)
  have "bs' ! (off + j) = data ! j" if "j < length data" for j
    using that w(1) arg_cong [OF w(2), of "\<lambda>xs. xs ! j"] by simp
  moreover have "bs' ! q = bs ! q" if "q < length bs" "\<forall>j < length data. q \<noteq> off + j" for q
    using w(3) that by (metis add_diff_inverse_nat le_add_diff_inverse less_diff_conv2 linorder_not_less add.commute)
  ultimately show ?thesis using assms(2) w(1) by (auto simp: scattered_def)
qed

context random_io
begin

lemma nc_write_one_piece:
  assumes "areas_ok cap lo (a # areas) hi" and "cap \<le> k" and "k < snd a" and "start = fst (fst a) + (k - cap)"
    and "k + length data \<le> snd a" and "hi < 2 ^ 63" and "inv inner"
  shows "\<exists>inner'. wr inner data start = Inr inner' \<and> inv inner' \<and> scattered (phys cap (a # areas)) k data (bytes inner) (bytes inner')"
proof -
  obtain off sz post where a: "a = ((off, sz), post)" by (metis prod.exhaust)
  have ok: "post = cap + sz" "areas_ok post (off + sz) areas hi" "k + length data \<le> post" "start = off + (k - cap)" "cap \<le> k"
    using assms(1,2,4,5) a by auto
  have "off + sz \<le> hi" using cap_of_bound [OF ok(2)] cap_of_le [OF ok(2)] by simp
  then have "start + length data < 2 ^ 63" using ok assms(6) by linarith
  then obtain inner' where "wr inner data start = Inr inner'" "inv inner'" "written (bytes inner) data start (bytes inner')"
    using wr_ok assms(7) by blast
  moreover have "\<forall>j < length data. phys cap (a # areas) (k + j) = start + j" using ok a by auto
  ultimately show ?thesis using written_scattered by blast
qed

lemma nc_write_one_area:
  assumes "areas_ok cap lo (a # areas) hi" and "cap \<le> k" and "k < snd a" and "start = fst (fst a) + (k - cap)"
    and "k + length data \<le> snd a" and "hi < 2 ^ 63" and "inv inner"
  shows "\<exists>inner'. nc_write_loop wr (a # areas) start data inner = Inr inner' \<and> inv inner' \<and>
    scattered (phys cap (a # areas)) k data (bytes inner) (bytes inner')"
proof (cases data)
  case Nil
  then show ?thesis using assms(7) by simp
next
  case (Cons d ds)
  obtain off sz post where a: "a = ((off, sz), post)" by (metis prod.exhaust)
  have "min (length data) (sz - (start - off)) = length data" using assms(1,2,4,5) a by auto
  then show ?thesis using nc_write_one_piece [OF assms] a Cons by (auto simp: Let_def)
qed

lemma nc_write_loop_ok:
  assumes "areas_ok cap lo (a # areas) hi" and "cap \<le> k" and "k < snd a" and "start = fst (fst a) + (k - cap)"
    and "k + length data \<le> cap_of cap (a # areas)" and "hi < 2 ^ 63" and "inv inner"
  shows "\<exists>inner'. nc_write_loop wr (a # areas) start data inner = Inr inner' \<and> inv inner' \<and>
    scattered (phys cap (a # areas)) k data (bytes inner) (bytes inner')"
  using assms
proof (induction areas arbitrary: a cap lo k start data inner)
  case (Nil a cap lo k start data inner)
  show ?case by (rule nc_write_one_area [OF Nil(1,2,3,4) _ Nil(6,7)]) (use Nil(5) in simp)
next
  case (Cons b areas a cap lo k start data inner)
  show ?case
  proof (cases "k + length data \<le> snd a")
    case True
    then show ?thesis by (rule nc_write_one_area [OF Cons(2-5) _ Cons(7,8)])
  next
    case False
    obtain off sz post where a: "a = ((off, sz), post)" by (metis prod.exhaust)
    let ?n = "post - k" and ?at = "phys cap (a # b # areas)"
    let ?d1 = "take ?n data" and ?d2 = "drop ?n data"
    have ok: "areas_ok post (off + sz) (b # areas) hi" "post = cap + sz" "k < post" "start = off + (k - cap)" "cap \<le> k"
      using Cons(2-5) a by auto
    have len: "length ?d1 = ?n" "k + ?n = post" "?n < length data" using False a ok(3) by auto
    have eq: "?at (k + j) = (if k + j < post then start + j else phys post (b # areas) (k + j))" for j
      using a ok(4,5) by (auto simp: add.assoc)
    obtain inner1 where i1: "wr inner ?d1 start = Inr inner1" "inv inner1" "scattered ?at k ?d1 (bytes inner) (bytes inner1)"
      using nc_write_one_piece [OF Cons(2-5) _ Cons(7,8), of ?d1] a len(1,2) by auto
    have b: "post < snd b" using ok(1) by (cases b rule: prod.exhaust [case_product prod.exhaust]) auto
    have "post + length ?d2 \<le> cap_of post (b # areas)" using Cons(6) a len by simp
    from Cons(1) [OF ok(1) order_refl b _ this Cons(7) i1(2)] obtain inner2 where i2:
        "nc_write_loop wr (b # areas) (fst (fst b)) ?d2 inner1 = Inr inner2" "inv inner2"
        "scattered (phys post (b # areas)) post ?d2 (bytes inner1) (bytes inner2)"
      by auto
    have "scattered ?at (k + length ?d1) ?d2 (bytes inner1) (bytes inner2)"
      using i2(3) eq len a unfolding scattered_def by simp
    moreover have "?at (k + i) \<noteq> ?at (k + length ?d1 + j)" if "i < length ?d1" "j < length ?d2" for i j
      using phys_mono [OF Cons(2), of "k + i" "k + length ?d1 + j"] Cons(6) ok(5) that len by fastforce
    ultimately have "scattered ?at k (?d1 @ ?d2) (bytes inner) (bytes inner2)"
      using scattered_append [OF i1(3)] by blast
    moreover have "min (length data) (sz - (start - off)) = ?n" using ok len by auto
    moreover obtain d ds where "data = d # ds" using len(3) by (cases data) auto
    ultimately show ?thesis using i1(1) i2(1,2) a by (auto simp: Let_def simp del: phys.simps)
  qed
qed

lemma rd_piece:
  assumes "inv inner" and "\<forall>j < n. at (k + j) = start + j" and "0 < n" and "at (k + n - 1) < length (bytes inner)"
  shows "rd inner n start = Inr (Some (map (\<lambda>j. bytes inner ! at (k + j)) [0..<n]))"
proof -
  have "at (k + (n - 1)) = start + (n - 1)" using assms(2,3) by (metis One_nat_def diff_less zero_less_one)
  then have le: "start + n \<le> length (bytes inner)" using assms(3,4) by simp
  have "take n (drop start (bytes inner)) = map (\<lambda>j. bytes inner ! at (k + j)) [0..<n]"
    using le assms(2) by (intro nth_equalityI) auto
  then show ?thesis using rd_ok [OF assms(1) le] by simp
qed

lemma nc_read_loop_ok:
  assumes "areas_ok cap lo (a # areas) hi" and "cap \<le> k" and "k < snd a" and "start = fst (fst a) + (k - cap)"
    and "k + n \<le> cap_of cap (a # areas)" and "inv inner" and "n = 0 \<or> phys cap (a # areas) (k + n - 1) < length (bytes inner)"
  shows "\<exists>reqs. nc_requests (a # areas) start n = Inr reqs \<and>
    (\<forall>buf. multi_read rd inner buf reqs = Inr (True, map (\<lambda>j. bytes inner ! phys cap (a # areas) (k + j)) [0..<n]))"
  using assms
proof (induction areas arbitrary: a cap lo k start n)
  case (Nil a cap lo k start n)
  obtain off sz post where a: "a = ((off, sz), post)" by (metis prod.exhaust)
  show ?case
  proof (cases n)
    case (Suc m)
    have "min n (sz - (start - off)) = n" "\<forall>j < n. phys cap [a] (k + j) = start + j" using Nil(1-5) a by auto
    then show ?thesis using rd_piece [of inner n "phys cap [a]" k start] Nil(6,7) a Suc by (auto simp: Let_def)
  qed simp
next
  case (Cons b areas a cap lo k start n)
  obtain off sz post where a: "a = ((off, sz), post)" by (metis prod.exhaust)
  let ?at = "phys cap (a # b # areas)"
  have ok: "areas_ok post (off + sz) (b # areas) hi" "post = cap + sz" "k < post" "start = off + (k - cap)" "cap \<le> k"
    using Cons(2-5) a by auto
  have eq: "?at (k + j) = (if k + j < post then start + j else phys post (b # areas) (k + j))" for j
    using a ok(4,5) by (auto simp: add.assoc)
  let ?c = "min n (post - k)"
  have c: "min n (sz - (start - off)) = ?c" using ok by auto
  show ?case
  proof (cases n)
    case (Suc m)
    have mono: "?at (k + ?c - 1) < length (bytes inner)"
    proof (cases "?c = n")
      case False
      then have "k + ?c - 1 < k + n - 1" "k + n - 1 < cap_of cap (a # b # areas)" "cap \<le> k + ?c - 1" using Cons(6) ok by auto
      then have "?at (k + ?c - 1) < ?at (k + n - 1)" using phys_mono [OF Cons(2)] by blast
      then show ?thesis using Cons(8) Suc by linarith
    qed (use Cons(8) Suc in auto)
    have piece: "rd inner ?c start = Inr (Some (map (\<lambda>j. bytes inner ! ?at (k + j)) [0..<?c]))"
      using mono Suc ok(3) by (intro rd_piece Cons(7)) (auto simp: eq)
    have b: "post < snd b" using ok(1) by (cases b rule: prod.exhaust [case_product prod.exhaust]) auto
    have "\<exists>reqs. nc_requests (b # areas) (fst (fst b)) (n - ?c) = Inr reqs \<and>
      (\<forall>buf. multi_read rd inner buf reqs = Inr (True, map (\<lambda>j. bytes inner ! phys post (b # areas) (post + j)) [0..<n - ?c]))"
    proof (rule Cons(1) [OF ok(1) order_refl b _ _ Cons(7)])
      show "post + (n - ?c) \<le> cap_of post (b # areas)" using Cons(6) a cap_of_le [OF ok(1)] by auto
      show "n - ?c = 0 \<or> phys post (b # areas) (post + (n - ?c) - 1) < length (bytes inner)"
      proof (cases "n \<le> post - k")
        case False
        then have "post + (n - ?c) - 1 = k + (n - 1)" "post \<le> k + (n - 1)" using ok(3) by auto
        then show ?thesis using Cons(8) eq [of "n - 1"] Suc by (simp add: add.commute)
      qed simp
    qed simp
    then obtain reqs where reqs: "nc_requests (b # areas) (fst (fst b)) (n - ?c) = Inr reqs"
      "\<forall>buf. multi_read rd inner buf reqs = Inr (True, map (\<lambda>j. bytes inner ! phys post (b # areas) (post + j)) [0..<n - ?c])"
      by blast
    have "map (\<lambda>j. bytes inner ! ?at (k + j)) [0..<n] =
        map (\<lambda>j. bytes inner ! ?at (k + j)) [0..<?c] @ map (\<lambda>j. bytes inner ! phys post (b # areas) (post + j)) [0..<n - ?c]"
    proof (rule nth_equalityI)
      fix i
      assume "i < length (map (\<lambda>j. bytes inner ! ?at (k + j)) [0..<n])"
      then show "map (\<lambda>j. bytes inner ! ?at (k + j)) [0..<n] ! i =
          (map (\<lambda>j. bytes inner ! ?at (k + j)) [0..<?c] @ map (\<lambda>j. bytes inner ! phys post (b # areas) (post + j)) [0..<n - ?c]) ! i"
        using ok(3) eq [of i] by (auto simp: nth_append min_def add.commute)
    qed simp
    then show ?thesis using reqs piece c a Suc by (auto simp: Let_def)
  qed simp
qed

end

section \<open>The storage as a byte string\<close>

text \<open>
  \<open>nc_inv\<close> relates a storage to the \<open>last_offset_\<close> of the allocator it shares: its areas lie below it, and the inner
  storage reaches up to the place of its last byte. Areas given to others only move \<open>last_offset_\<close> up.
\<close>

definition nc_inv :: "('io \<Rightarrow> bool) \<Rightarrow> ('io \<Rightarrow> byte list) \<Rightarrow> nat \<Rightarrow> 'io NonContinuousIO \<Rightarrow> bool" where
  "nc_inv iv bs last_offset io \<longleftrightarrow> iv (nc_inner io) \<and> areas_ok 0 0 (nc_areas io) last_offset \<and> last_offset < 2 ^ 63 \<and>
     nc_size io \<le> cap_of 0 (nc_areas io) \<and> (\<forall>k < nc_size io. phys 0 (nc_areas io) k < length (bs (nc_inner io)))"

definition nc_bytes :: "('io \<Rightarrow> byte list) \<Rightarrow> 'io NonContinuousIO \<Rightarrow> byte list" where
  "nc_bytes bs io = map (\<lambda>k. bs (nc_inner io) ! phys 0 (nc_areas io) k) [0..<nc_size io]"

lemma areas_ok_hi: "areas_ok cap lo areas hi \<Longrightarrow> hi \<le> hi' \<Longrightarrow> areas_ok cap lo areas hi'"
  by (induction cap lo areas hi rule: areas_ok.induct) auto

lemma nc_inv_shared: "nc_inv iv bs bnd io \<Longrightarrow> bnd \<le> bnd' \<Longrightarrow> bnd' < 2 ^ 63 \<Longrightarrow> nc_inv iv bs bnd' io"
  by (auto simp: nc_inv_def areas_ok_hi)

lemma Require_ok:
  assumes "0 < sz" and "bnd + sz + 4096 \<le> 2 ^ 63"
  shows "\<exists>sz'. NonContinuousAllocator_Require bnd sz = ((bnd, sz'), bnd + sz') \<and> sz \<le> sz' \<and> sz' < sz + 4096"
proof -
  let ?n = "sz + 4095"
  have "?n - ?n mod 4096 \<le> ?n" "sz \<le> ?n - ?n mod 4096" using mod_less_divisor [of 4096 ?n] by linarith+
  then show ?thesis using assms by (auto simp: NonContinuousAllocator_Require_def ALOGN_SIZE_def Let_def)
qed

lemma area_start_iterator:
  assumes "areas_ok cap lo (a # rest) hi" and "cap \<le> k" and "k < snd a" and "hi < 2 ^ 63" and "cap_of cap (a # rest) \<le> hi"
  shows "area_start a k = fst (fst a) + (k - cap)"
proof -
  obtain off sz post where a: "a = ((off, sz), post)" by (metis prod.exhaust)
  have ok: "post = cap + sz" "areas_ok post (off + sz) rest hi" using assms(1) a by auto
  have "off + sz \<le> hi" using cap_of_bound [OF ok(2)] cap_of_le [OF ok(2)] by simp
  have post: "post \<le> 2 ^ 64" using cap_of_le [OF ok(2)] assms(4,5) a by simp
  have "off + k + (2 ^ 64 - post) + sz = off + (k - cap) + 2 ^ 64" using ok(1) assms(2) post by simp
  moreover have "off + (k - cap) < 2 ^ 64" using \<open>off + sz \<le> hi\<close> assms(2,3,4) ok(1) a by simp
  ultimately show ?thesis unfolding area_start_def a fst_conv snd_conv wrap64_def by (simp only: mod_add_self2 mod_less)
qed

text \<open>The iterator a read or a write starts from.\<close>

lemma get_area_start:
  assumes "areas_ok 0 0 areas hi" and "hi < 2 ^ 63" and "k < cap_of 0 areas"
  shows "\<exists>a rest cap lo. get_area areas k = a # rest \<and> areas_ok cap lo (a # rest) hi \<and> cap \<le> k \<and> k < snd a \<and>
    area_start a k = fst (fst a) + (k - cap) \<and> cap_of cap (a # rest) = cap_of 0 areas \<and>
    (\<forall>j. k \<le> j \<longrightarrow> phys cap (a # rest) j = phys 0 areas j)"
proof -
  obtain cap lo where it: "iterator_at 0 areas hi k (get_area areas k) cap lo" using get_area_ok [OF assms(1)] assms(3) by blast
  then obtain a rest where ar: "get_area areas k = a # rest" by (cases "get_area areas k") (auto simp: iterator_at_def)
  have ok: "areas_ok cap lo (a # rest) hi" "cap \<le> k" "k < snd a" "cap_of cap (a # rest) = cap_of 0 areas"
      "\<forall>j. cap \<le> j \<longrightarrow> phys cap (a # rest) j = phys 0 areas j"
    using it unfolding ar iterator_at_def by auto
  have "cap_of cap (a # rest) \<le> hi" using cap_of_bound [OF assms(1)] ok(4) by simp
  from area_start_iterator [OF ok(1-3) assms(2) this] show ?thesis
    using ar ok order_trans [OF ok(2)] by (intro exI [of _ a] exI [of _ rest] exI [of _ cap] exI [of _ lo]) simp
qed

lemma scattered_cong: "(\<And>j. k \<le> j \<Longrightarrow> f j = g j) \<Longrightarrow> scattered f k data bs bs' = scattered g k data bs bs'"
  by (simp add: scattered_def)

lemma extend_areas_ok:
  assumes "areas_ok 0 0 areas bnd" and "bnd < 2 ^ 63" and "bnd + n + 4096 \<le> 2 ^ 63" and "0 < n"
  shows "\<exists>areas' bnd'. extend_areas bnd areas n = (areas', bnd') \<and>
     areas_ok 0 0 areas' bnd' \<and> bnd \<le> bnd' \<and> bnd' < 2 ^ 63 \<and> n \<le> cap_of 0 areas' \<and> cap_of 0 areas \<le> cap_of 0 areas' \<and>
     (\<forall>k < cap_of 0 areas. phys 0 areas' k = phys 0 areas k) \<and> (\<forall>k < cap_of 0 areas'. cap_of 0 areas \<le> k \<longrightarrow> bnd \<le> phys 0 areas' k)"
proof (cases "n > get_cur_max_size areas")
  case True
  let ?cap = "cap_of 0 areas"
  have cap: "?cap \<le> bnd" using cap_of_bound [OF assms(1)] by simp
  have n: "n > ?cap" using True by (simp add: get_cur_max_size_cap)
  then obtain sz where sz: "NonContinuousAllocator_Require bnd (n - ?cap) = ((bnd, sz), bnd + sz)" "n - ?cap \<le> sz" "sz < n - ?cap + 4096"
    using Require_ok [of "n - ?cap" bnd] assms(3) by force
  have lt: "bnd + sz < 2 ^ 63" using sz(3) assms(3) n by linarith
  have "wrap64 (?cap + sz) = ?cap + sz" using lt cap by simp
  moreover have "areas_ok 0 0 (areas @ [((bnd, sz), ?cap + sz)]) (bnd + sz)"
    using areas_ok_snoc [OF assms(1) order_refl, of sz] sz(2) n by simp
  moreover have "\<forall>k < ?cap. phys 0 (areas @ [((bnd, sz), ?cap + sz)]) k = phys 0 areas k"
    using phys_snoc [OF assms(1)] by simp
  moreover have "\<forall>k < ?cap + sz. ?cap \<le> k \<longrightarrow> bnd \<le> phys 0 (areas @ [((bnd, sz), ?cap + sz)]) k"
    using phys_snoc_new [OF assms(1), of _ sz bnd] by auto
  ultimately show ?thesis using True sz n lt by (simp add: extend_areas_def get_cur_max_size_cap cap_of_snoc)
next
  case False
  then show ?thesis using assms(1,2) by (simp add: extend_areas_def get_cur_max_size_cap)
qed

lemma written_nthI:
  assumes "length bs' = max (length bs) (off + length data)" and "\<And>j. j < length data \<Longrightarrow> bs' ! (off + j) = data ! j"
    and "\<And>i. i < length bs \<Longrightarrow> i < off \<or> off + length data \<le> i \<Longrightarrow> bs' ! i = bs ! i"
  shows "written bs data off bs'"
proof -
  have "take (length data) (drop off bs') = data" using assms(1,2) by (intro nth_equalityI) auto
  then show ?thesis using assms(1,3) by (simp add: written_def)
qed

lemma nc_written:
  assumes "nc_inv iv bs bnd io" and "iv inner'" and w: "scattered (phys 0 areas') off data (bs (nc_inner io)) (bs inner')"
    and ok: "areas_ok 0 0 areas' bnd'" and "bnd' < 2 ^ 63" and cap: "off + length data \<le> cap_of 0 areas'"
    and caps: "cap_of 0 (nc_areas io) \<le> cap_of 0 areas'" and same: "\<forall>k < cap_of 0 (nc_areas io). phys 0 areas' k = phys 0 (nc_areas io) k"
    and "nc_size io \<le> off \<longrightarrow> nc_size io = off \<or> data \<noteq> []"
  defines "io' \<equiv> io\<lparr>nc_inner := inner', nc_areas := areas',
      nc_size := (if off + length data > nc_size io then off + length data else nc_size io)\<rparr>"
  shows "nc_inv iv bs bnd' io' \<and> written (nc_bytes bs io) data off (nc_bytes bs io')"
proof
  have inv: "nc_size io \<le> cap_of 0 (nc_areas io)" "\<forall>k < nc_size io. phys 0 (nc_areas io) k < length (bs (nc_inner io))"
    using assms(1) by (auto simp: nc_inv_def)
  have w': "length (bs (nc_inner io)) \<le> length (bs inner')"
      "\<forall>j < length data. phys 0 areas' (off + j) < length (bs inner') \<and> bs inner' ! phys 0 areas' (off + j) = data ! j"
      "\<forall>q < length (bs (nc_inner io)). (\<forall>j < length data. q \<noteq> phys 0 areas' (off + j)) \<longrightarrow> bs inner' ! q = bs (nc_inner io) ! q"
    using w by (auto simp: scattered_def)
  have size': "nc_size io' = max (nc_size io) (off + length data)" by (simp add: io'_def max_def)
  have nth: "nc_bytes bs io' ! k = bs inner' ! phys 0 areas' k" if "k < nc_size io'" for k
    using that by (simp add: nc_bytes_def io'_def)
  have old: "phys 0 areas' k < length (bs (nc_inner io))" if "k < nc_size io" for k using that inv same by simp
  have reach: "phys 0 areas' k < length (bs inner')" if "k < nc_size io'" for k
  proof (cases "k < nc_size io")
    case True
    then show ?thesis using old w'(1) by (meson less_le_trans)
  next
    case False
    then have lt: "k < off + length data" using that size' by simp
    then have "data \<noteq> []" using False assms(9) by force
    then obtain j where j: "j < length data" "k \<le> off + j" using lt by (metis Suc_pred' add_Suc_right length_greater_0_conv lessI less_Suc_eq_le)
    have "phys 0 areas' k \<le> phys 0 areas' (off + j)"
      using phys_mono [OF ok, of k "off + j"] j cap by (cases "k = off + j") auto
    then show ?thesis using w'(2) j(1) by (meson le_less_trans)
  qed
  show "nc_inv iv bs bnd' io'"
    using reach assms(2,5) ok size' inv(1) cap caps unfolding nc_inv_def by (simp add: io'_def)
  show "written (nc_bytes bs io) data off (nc_bytes bs io')"
  proof (rule written_nthI)
    show "length (nc_bytes bs io') = max (length (nc_bytes bs io)) (off + length data)" by (simp add: nc_bytes_def size')
    show "nc_bytes bs io' ! (off + j) = data ! j" if "j < length data" for j
    proof -
      have "off + j < nc_size io'" using that size' by simp
      then show ?thesis using that w'(2) nth by simp
    qed
    show "nc_bytes bs io' ! i = nc_bytes bs io ! i" if "i < length (nc_bytes bs io)" "i < off \<or> off + length data \<le> i" for i
    proof -
      have i: "i < nc_size io" using that(1) by (simp add: nc_bytes_def)
      have "phys 0 areas' i \<noteq> phys 0 areas' (off + j)" if "j < length data" for j
        using phys_inj [OF ok, of i "off + j"] i inv(1) caps cap that \<open>i < off \<or> off + length data \<le> i\<close> by auto
      then have "bs inner' ! phys 0 areas' i = bs (nc_inner io) ! phys 0 areas' i" using w'(3) old [OF i] by blast
      moreover have "i < nc_size io'" using i size' by simp
      ultimately show ?thesis using i same inv(1) nth by (simp add: nc_bytes_def)
    qed
  qed
qed

context random_io
begin

lemma nc_write_ok:
  assumes "nc_inv inv bytes bnd io" and "data \<noteq> []" and "bnd + (off + length data) + 4096 \<le> 2 ^ 63"
  shows "\<exists>io' bnd'. NonContinuousIO_WriteImpl wr bnd io data off = Inr (io', bnd') \<and> nc_inv inv bytes bnd' io' \<and> bnd \<le> bnd' \<and>
    written (nc_bytes bytes io) data off (nc_bytes bytes io') \<and>
    (\<forall>k < cap_of 0 (nc_areas io'). if k < cap_of 0 (nc_areas io) then phys 0 (nc_areas io') k = phys 0 (nc_areas io) k
       else bnd \<le> phys 0 (nc_areas io') k)"
proof -
  let ?n = "off + length data"
  have inv: "inv (nc_inner io)" "areas_ok 0 0 (nc_areas io) bnd" "bnd < 2 ^ 63" "nc_size io \<le> cap_of 0 (nc_areas io)"
      "\<forall>k < nc_size io. phys 0 (nc_areas io) k < length (bytes (nc_inner io))"
    using assms(1) by (auto simp: nc_inv_def)
  have n: "0 < ?n" "wrap64 (length data + off) = ?n" "off < ?n" using assms(2,3) by (simp_all add: add.commute)
  obtain areas' bnd' where ar: "extend_areas bnd (nc_areas io) ?n = (areas', bnd')"
     "areas_ok 0 0 areas' bnd'" "bnd \<le> bnd'" "bnd' < 2 ^ 63" "?n \<le> cap_of 0 areas'" "cap_of 0 (nc_areas io) \<le> cap_of 0 areas'"
     "\<forall>k < cap_of 0 (nc_areas io). phys 0 areas' k = phys 0 (nc_areas io) k"
     "\<forall>k < cap_of 0 areas'. cap_of 0 (nc_areas io) \<le> k \<longrightarrow> bnd \<le> phys 0 areas' k"
    using extend_areas_ok [OF inv(2,3) assms(3) n(1)] by blast
  have "off < cap_of 0 areas'" using ar(5) n(3) by linarith
  then obtain a rest cap lo where it: "get_area areas' off = a # rest" "areas_ok cap lo (a # rest) bnd'" "cap \<le> off" "off < snd a"
      "area_start a off = fst (fst a) + (off - cap)" "cap_of cap (a # rest) = cap_of 0 areas'"
      "\<forall>j. off \<le> j \<longrightarrow> phys cap (a # rest) j = phys 0 areas' j"
    using get_area_start [OF ar(2,4)] by blast
  have "?n \<le> cap_of cap (a # rest)" using ar(5) it(6) by simp
  from nc_write_loop_ok [OF it(2-5) this ar(4) inv(1)] obtain inner' where
      w: "nc_write_loop wr (a # rest) (area_start a off) data (nc_inner io) = Inr inner'" "inv inner'"
      "scattered (phys 0 areas') off data (bytes (nc_inner io)) (bytes inner')"
    using scattered_cong [of off "phys cap (a # rest)" "phys 0 areas'", OF it(7) [rule_format]] by fastforce
  let ?io' = "io\<lparr>nc_inner := inner', nc_areas := areas', nc_size := (if ?n > nc_size io then ?n else nc_size io)\<rparr>"
  have "NonContinuousIO_WriteImpl wr bnd io data off = Inr (?io', bnd')"
    unfolding NonContinuousIO_WriteImpl_def n(2) Let_def ar(1) prod.case it(1) list.case w(1) bind_r_simps ..
  moreover have "nc_inv inv bytes bnd' ?io' \<and> written (nc_bytes bytes io) data off (nc_bytes bytes ?io')"
    by (rule nc_written [OF assms(1) w(2,3) ar(2,4-7)]) (use assms(2) in simp)
  moreover have "\<forall>k < cap_of 0 (nc_areas ?io'). if k < cap_of 0 (nc_areas io) then phys 0 (nc_areas ?io') k = phys 0 (nc_areas io) k
       else bnd \<le> phys 0 (nc_areas ?io') k"
    using ar(7,8) by auto
  ultimately show ?thesis using ar(3) by blast
qed

lemma nc_read_ok:
  assumes "nc_inv inv bytes bnd io" and "0 < n"
  shows "off + n \<le> nc_size io \<Longrightarrow>
      NonContinuousIO_ReadImpl rd buf io n off = Inr (Some (take n (drop off (nc_bytes bytes io))))"
    and "nc_size io < off + n \<Longrightarrow> off + n < 2 ^ 64 \<Longrightarrow> NonContinuousIO_ReadImpl rd buf io n off = Inr None"
proof -
  have inv: "inv (nc_inner io)" "areas_ok 0 0 (nc_areas io) bnd" "bnd < 2 ^ 63" "nc_size io \<le> cap_of 0 (nc_areas io)"
      "\<forall>k < nc_size io. phys 0 (nc_areas io) k < length (bytes (nc_inner io))"
    using assms(1) by (auto simp: nc_inv_def)
  show "NonContinuousIO_ReadImpl rd buf io n off = Inr (Some (take n (drop off (nc_bytes bytes io))))" if le: "off + n \<le> nc_size io"
  proof -
    have "nc_size io < 2 ^ 64" using inv(3,4) cap_of_bound [OF inv(2)] by simp
    then have wrap: "wrap64 (n + off) = off + n" using le by (simp add: add.commute)
    have "off < cap_of 0 (nc_areas io)" using le inv(4) assms(2) by simp
    then obtain a rest cap lo where it: "get_area (nc_areas io) off = a # rest" "areas_ok cap lo (a # rest) bnd" "cap \<le> off" "off < snd a"
        "area_start a off = fst (fst a) + (off - cap)" "cap_of cap (a # rest) = cap_of 0 (nc_areas io)"
        "\<forall>j. off \<le> j \<longrightarrow> phys cap (a # rest) j = phys 0 (nc_areas io) j"
      using get_area_start [OF inv(2,3)] by blast
    have "off + n \<le> cap_of cap (a # rest)" using le inv(4) it(6) by simp
    moreover have "n = 0 \<or> phys cap (a # rest) (off + n - 1) < length (bytes (nc_inner io))"
      using inv(5) le it(7) assms(2) by simp
    ultimately obtain reqs where reqs: "nc_requests (a # rest) (area_start a off) n = Inr reqs"
        "multi_read rd (nc_inner io) buf reqs = Inr (True, map (\<lambda>j. bytes (nc_inner io) ! phys cap (a # rest) (off + j)) [0..<n])"
      using nc_read_loop_ok [OF it(2-5) _ inv(1)] by blast
    moreover have "map (\<lambda>j. bytes (nc_inner io) ! phys cap (a # rest) (off + j)) [0..<n] = take n (drop off (nc_bytes bytes io))"
      using le it(7) by (intro nth_equalityI) (auto simp: nc_bytes_def)
    ultimately show ?thesis using wrap le it(1) by (simp add: NonContinuousIO_ReadImpl_def)
  qed
  show "NonContinuousIO_ReadImpl rd buf io n off = Inr None" if "nc_size io < off + n" "off + n < 2 ^ 64"
    using that by (simp add: NonContinuousIO_ReadImpl_def add.commute)
qed

end

section \<open>Properties\<close>

text \<open>Storages that share an allocator use different places of the address space.\<close>

definition areas_apart :: "'io NonContinuousIO \<Rightarrow> 'io NonContinuousIO \<Rightarrow> bool" where
  "areas_apart io1 io2 \<longleftrightarrow> (\<forall>j < cap_of 0 (nc_areas io1). \<forall>k < cap_of 0 (nc_areas io2). phys 0 (nc_areas io1) j \<noteq> phys 0 (nc_areas io2) k)"

text \<open>C30: over any random-access storage, a storage of areas is a byte string as long as the addresses stay below \<open>2 ^ 63\<close>: a
  write of at least one byte ends normally, takes a new area when it reaches beyond the areas and changes exactly the bytes it
  names; a read of at least one byte returns the bytes of the string, or is refused when it reaches beyond the end; and the
  places of its bytes stay apart from those of every other storage that takes its areas from the same allocator.\<close>

theorem noncontinuous_io_refines:
  assumes io: "random_io iv bs wr rd" and inv: "nc_inv iv bs bnd io" and d: "data \<noteq> []" and b: "bnd + (off + length data) + 4096 \<le> 2 ^ 63"
  shows "\<exists>io' bnd'. NonContinuousIO_WriteImpl wr bnd io data off = Inr (io', bnd') \<and> nc_inv iv bs bnd' io' \<and>
    written (nc_bytes bs io) data off (nc_bytes bs io') \<and>
    (\<forall>n o' buf. 0 < n \<and> o' + n < 2 ^ 64 \<longrightarrow> NonContinuousIO_ReadImpl rd buf io' n o' =
      Inr (if o' + n \<le> length (nc_bytes bs io') then Some (take n (drop o' (nc_bytes bs io'))) else None)) \<and>
    (\<forall>other. nc_inv iv bs bnd other \<and> areas_apart io other \<longrightarrow> nc_inv iv bs bnd' other \<and> areas_apart io' other)"
proof -
  obtain io' bnd' where w: "NonContinuousIO_WriteImpl wr bnd io data off = Inr (io', bnd')" "nc_inv iv bs bnd' io'" "bnd \<le> bnd'"
      "written (nc_bytes bs io) data off (nc_bytes bs io')"
      "\<forall>k < cap_of 0 (nc_areas io'). if k < cap_of 0 (nc_areas io) then phys 0 (nc_areas io') k = phys 0 (nc_areas io) k
         else bnd \<le> phys 0 (nc_areas io') k"
    using random_io.nc_write_ok [OF io inv d b] by blast
  have len: "length (nc_bytes bs io') = nc_size io'" by (simp add: nc_bytes_def)
  have "NonContinuousIO_ReadImpl rd buf io' n o' =
      Inr (if o' + n \<le> length (nc_bytes bs io') then Some (take n (drop o' (nc_bytes bs io'))) else None)"
    if "0 < n" "o' + n < 2 ^ 64" for n o' buf
    using random_io.nc_read_ok [OF io w(2) that(1), of o' buf] that(2) len by (cases "o' + n \<le> nc_size io'") auto
  moreover have "nc_inv iv bs bnd' other \<and> areas_apart io' other" if "nc_inv iv bs bnd other" "areas_apart io other" for other
  proof
    have bnd': "bnd' < 2 ^ 63" using w(2) by (simp add: nc_inv_def)
    show "nc_inv iv bs bnd' other" by (rule nc_inv_shared [OF that(1) w(3) bnd'])
    have "phys 0 (nc_areas other) k < bnd" if "k < cap_of 0 (nc_areas other)" for k
      using phys_range [of 0 0 "nc_areas other" bnd k] that \<open>nc_inv iv bs bnd other\<close> by (simp add: nc_inv_def)
    then show "areas_apart io' other" using that(2) w(5) unfolding areas_apart_def by (metis leD)
  qed
  ultimately show ?thesis using w(1,2,4) by blast
qed

definition nc_demo :: "MemoryBlockIO NonContinuousIO" where
  "nc_demo = \<lparr>nc_inner = MemoryBlockIO_new 4096, nc_areas = [], nc_size = 0\<rparr>"

theorem noncontinuous_io_refines_witness:
  "\<exists>io' bnd'. NonContinuousIO_WriteImpl (MemoryBlockIO_WriteImpl libc_allocator) 4096 nc_demo [1, 2, 3] 2 = Inr (io', bnd') \<and>
    NonContinuousIO_ReadImpl MemoryBlockIO_ReadImpl [] io' 3 2 = Inr (Some [1, 2, 3])"
proof -
  have "mb_inv (MemoryBlockIO_new 4096)" using MemoryBlockIO_new_inv [of 4096] by simp
  then have "nc_inv mb_inv mb_bytes 4096 nc_demo" by (simp add: nc_inv_def nc_demo_def)
  from noncontinuous_io_refines [OF libc.block_io.random_io_axioms this, of "[1, 2, 3]" 2] obtain io' bnd' where
      w: "NonContinuousIO_WriteImpl (MemoryBlockIO_WriteImpl libc_allocator) 4096 nc_demo [1, 2, 3] 2 = Inr (io', bnd')"
      "written (nc_bytes mb_bytes nc_demo) [1, 2, 3] 2 (nc_bytes mb_bytes io')"
      "NonContinuousIO_ReadImpl MemoryBlockIO_ReadImpl [] io' 3 2 =
        Inr (if 2 + 3 \<le> length (nc_bytes mb_bytes io') then Some (take 3 (drop 2 (nc_bytes mb_bytes io'))) else None)"
    by auto
  then show ?thesis by (auto simp: written_def numeral_3_eq_3)
qed

text \<open>An access without bytes at the end of the areas, or before any area exists, dereferences the end iterator.\<close>

lemma noncontinuous_empty_access:
  "NonContinuousIO_ReadImpl rd buf \<lparr>nc_inner = io, nc_areas = [], nc_size = 0\<rparr> 0 0 = Inl UndefinedBehaviour"
  "NonContinuousIO_WriteImpl wr bnd \<lparr>nc_inner = io, nc_areas = [], nc_size = 0\<rparr> [] 0 = Inl UndefinedBehaviour"
  by (simp_all add: NonContinuousIO_ReadImpl_def NonContinuousIO_WriteImpl_def get_area_def extend_areas_def get_cur_max_size_def)

end
