(* ===== verification/SpscQueue.thy ===== *)
theory SpscQueue
  imports Prelude "HOL-Library.Sublist"
begin

text \<open>
  The lock-free queue between one producer and one consumer of \<^verbatim>\<open>src/src/utils/spsc_queue.h\<close>, which
  carries the tasks of the parallel searcher. The template parameter \<open>N\<close> is a power of two, \<open>2 ^ n\<close>
  here. The two indexes are \<open>uint64_t\<close> that only grow and wrap; their low \<open>n\<close> bits select a slot of the buffer.

  \<open>Push\<close> and \<open>Pop\<close> are first taken as one step each. Then they are split at their accesses to
  shared memory, and the calls of the two threads interleave in any order. Each index is stored with
  \<open>release\<close> after the slot was accessed and loaded with \<open>acquire\<close> by the other thread before it accesses
  the slot, so the accesses that matter are ordered and the interleavings describe all executions.
\<close>

section \<open>The operations\<close>

record 'a SPSCQueue =
  write_idx :: u64
  read_idx :: u64
  buffer :: "'a list"

definition slot :: "nat \<Rightarrow> u64 \<Rightarrow> nat" where
  "slot n i = unat (and i (2 ^ n - 1))"

definition looks_full :: "nat \<Rightarrow> u64 \<Rightarrow> u64 \<Rightarrow> bool" where
  "looks_full n current_write rd \<longleftrightarrow> current_write + 1 - rd \<ge> 2 ^ n"

definition SPSCQueue_Push :: "nat \<Rightarrow> 'a SPSCQueue \<Rightarrow> 'a \<Rightarrow> bool \<times> 'a SPSCQueue" where
  "SPSCQueue_Push n q item =
     (let current_write = write_idx q; next_write = current_write + 1 in
      if looks_full n current_write (read_idx q) then (False, q)
      else (True, q\<lparr>buffer := (buffer q)[slot n current_write := item], write_idx := next_write\<rparr>))"

definition SPSCQueue_Pop :: "nat \<Rightarrow> 'a SPSCQueue \<Rightarrow> 'a option \<times> 'a SPSCQueue" where
  "SPSCQueue_Pop n q =
     (let current_read = read_idx q in
      if current_read = write_idx q then (None, q)
      else (Some (buffer q ! slot n current_read), q\<lparr>read_idx := current_read + 1\<rparr>))"

section \<open>Interleaved calls\<close>

text \<open>Where the two threads are; each constructor carries the local variables.\<close>

datatype 'a producer = PIdle | PLoaded 'a u64 | PReady 'a u64 | PWritten 'a u64

datatype 'a consumer = CIdle | CLoaded u64 | CReady u64 | CTaken u64 'a

text \<open>\<open>pushed\<close> and \<open>popped\<close> record the items of the calls that returned \<open>true\<close>.\<close>

record 'a spsc_state =
  shared :: "'a SPSCQueue"
  prod_at :: "'a producer"
  cons_at :: "'a consumer"
  pushed :: "'a list"
  popped :: "'a list"

inductive spsc_step :: "nat \<Rightarrow> 'a spsc_state \<Rightarrow> 'a spsc_state \<Rightarrow> bool" for n where
  push_load: "prod_at s = PIdle \<Longrightarrow> spsc_step n s (s\<lparr>prod_at := PLoaded x (write_idx (shared s))\<rparr>)"
| push_full: "prod_at s = PLoaded x cw \<Longrightarrow> looks_full n cw (read_idx (shared s)) \<Longrightarrow> spsc_step n s (s\<lparr>prod_at := PIdle\<rparr>)"
| push_room: "prod_at s = PLoaded x cw \<Longrightarrow> \<not> looks_full n cw (read_idx (shared s)) \<Longrightarrow> spsc_step n s (s\<lparr>prod_at := PReady x cw\<rparr>)"
| push_store: "prod_at s = PReady x cw \<Longrightarrow>
    spsc_step n s (s\<lparr>prod_at := PWritten x cw, shared := (shared s)\<lparr>buffer := (buffer (shared s))[slot n cw := x]\<rparr>\<rparr>)"
| push_release: "prod_at s = PWritten x cw \<Longrightarrow>
    spsc_step n s (s\<lparr>prod_at := PIdle, shared := (shared s)\<lparr>write_idx := cw + 1\<rparr>, pushed := pushed s @ [x]\<rparr>)"
| pop_load: "cons_at s = CIdle \<Longrightarrow> spsc_step n s (s\<lparr>cons_at := CLoaded (read_idx (shared s))\<rparr>)"
| pop_empty: "cons_at s = CLoaded cr \<Longrightarrow> cr = write_idx (shared s) \<Longrightarrow> spsc_step n s (s\<lparr>cons_at := CIdle\<rparr>)"
| pop_some: "cons_at s = CLoaded cr \<Longrightarrow> cr \<noteq> write_idx (shared s) \<Longrightarrow> spsc_step n s (s\<lparr>cons_at := CReady cr\<rparr>)"
| pop_take: "cons_at s = CReady cr \<Longrightarrow> spsc_step n s (s\<lparr>cons_at := CTaken cr (buffer (shared s) ! slot n cr)\<rparr>)"
| pop_release: "cons_at s = CTaken cr x \<Longrightarrow>
    spsc_step n s (s\<lparr>cons_at := CIdle, shared := (shared s)\<lparr>read_idx := cr + 1\<rparr>, popped := popped s @ [x]\<rparr>)"

text \<open>A queue as it is constructed, with whatever its buffer holds.\<close>

definition spsc_init :: "'a list \<Rightarrow> 'a spsc_state" where
  "spsc_init xs = \<lparr>shared = \<lparr>write_idx = 0, read_idx = 0, buffer = xs\<rparr>, prod_at = PIdle, cons_at = CIdle, pushed = [], popped = []\<rparr>"

section \<open>Indexes\<close>

lemma slot_of_nat:
  assumes "n \<le> 63"
  shows "slot n (word_of_nat k) = k mod 2 ^ n"
proof -
  have m: "(2 ^ n - 1 :: u64) = mask n" by (simp add: mask_eq_exp_minus_1)
  have "slot n (word_of_nat k) = unat (take_bit n (word_of_nat k :: u64))" by (simp add: slot_def m take_bit_eq_mask)
  also have "\<dots> = take_bit n (take_bit 64 k)" by (simp add: unsigned_take_bit_eq unsigned_of_nat)
  also have "\<dots> = take_bit n k" unfolding take_bit_take_bit using assms by (simp add: min_def)
  also have "\<dots> = k mod 2 ^ n" by (rule take_bit_eq_mod)
  finally show ?thesis .
qed

lemma index_diff:
  assumes "n \<le> 63" and "r \<le> w" and "w \<le> r + 2 ^ n"
  shows "unat (word_of_nat w - word_of_nat r :: u64) = w - r"
proof -
  have "(2 :: nat) ^ n \<le> 2 ^ 63" using assms(1) by (rule power_increasing) simp
  then have "w - r < 18446744073709551616" using assms(3) by simp
  then have "unat (word_of_nat (w - r) :: u64) = w - r" by (rule unat_word_of_nat_u64)
  then show ?thesis using assms(2) by (simp add: of_nat_diff)
qed

lemma looks_full_of_nat:
  assumes "n \<le> 63" and "r \<le> w" and "w < r + 2 ^ n"
  shows "looks_full n (word_of_nat w) (word_of_nat r) \<longleftrightarrow> w + 1 = r + 2 ^ n"
proof -
  have "unat (word_of_nat (2 ^ n) :: u64) = 2 ^ n"
    using assms(1) power_increasing [of n 63 "2 :: nat"] by (intro unat_word_of_nat_u64) simp
  then have "unat (2 ^ n :: u64) = 2 ^ n" by simp
  moreover have "unat (word_of_nat w + 1 - word_of_nat r :: u64) = w + 1 - r"
    using index_diff [of n r "w + 1"] assms by (simp add: add.commute)
  ultimately have "looks_full n (word_of_nat w) (word_of_nat r) \<longleftrightarrow> 2 ^ n \<le> w + 1 - r"
    by (simp add: looks_full_def word_le_nat_alt)
  then show ?thesis using assms(2,3) by auto
qed

lemma index_eq_iff:
  assumes "n \<le> 63" and "r \<le> w" and "w < r + 2 ^ n"
  shows "(word_of_nat r :: u64) = word_of_nat w \<longleftrightarrow> r = w"
  using index_diff [of n r w] assms by auto

lemma mod_eq_close:
  assumes "r \<le> k" and "k < r + N" and "r \<le> j" and "j < r + N" and "k mod N = j mod N"
  shows "k = (j :: nat)"
proof -
  have eq: "k = j" if "k \<le> j" "j < k + N" "k mod N = j mod N" for k j :: nat
  proof -
    have "N dvd j - k" using that(1,3) by (metis mod_eq_dvd_iff_nat)
    moreover have "j - k < N" using that(1,2) by linarith
    ultimately have "j - k = 0" by (meson dvd_imp_le linorder_not_less zero_less_iff_neq_zero)
    then show ?thesis using that(1) by simp
  qed
  have "j < k + N" "k < j + N" using assms(1-4) by linarith+
  then show ?thesis using eq [of k j] eq [of j k] assms(5) by (cases "k \<le> j") auto
qed

section \<open>The invariant\<close>

text \<open>
  The indexes are the numbers of items pushed and popped, modulo \<open>2 ^ 64\<close>, fewer than \<open>2 ^ n\<close> items are in the queue, and
  the slots between the indexes hold them. What a thread knows from its checks stays true, since the other
  thread only moves its own index, and only in the direction that makes more room or more items.
\<close>

definition holds_items :: "nat \<Rightarrow> 'a spsc_state \<Rightarrow> bool" where
  "holds_items n s \<longleftrightarrow> length (buffer (shared s)) = 2 ^ n \<and>
     (\<forall>k. length (popped s) \<le> k \<and> k < length (pushed s) \<longrightarrow> buffer (shared s) ! (k mod 2 ^ n) = pushed s ! k)"

fun producer_ok :: "nat \<Rightarrow> 'a spsc_state \<Rightarrow> 'a producer \<Rightarrow> bool" where
  "producer_ok n s PIdle \<longleftrightarrow> True"
| "producer_ok n s (PLoaded x cw) \<longleftrightarrow> cw = word_of_nat (length (pushed s))"
| "producer_ok n s (PReady x cw) \<longleftrightarrow> cw = word_of_nat (length (pushed s)) \<and> length (pushed s) + 1 < length (popped s) + 2 ^ n"
| "producer_ok n s (PWritten x cw) \<longleftrightarrow> cw = word_of_nat (length (pushed s)) \<and> length (pushed s) + 1 < length (popped s) + 2 ^ n \<and>
     buffer (shared s) ! (length (pushed s) mod 2 ^ n) = x"

fun consumer_ok :: "'a spsc_state \<Rightarrow> 'a consumer \<Rightarrow> bool" where
  "consumer_ok s CIdle \<longleftrightarrow> True"
| "consumer_ok s (CLoaded cr) \<longleftrightarrow> cr = word_of_nat (length (popped s))"
| "consumer_ok s (CReady cr) \<longleftrightarrow> cr = word_of_nat (length (popped s)) \<and> length (popped s) < length (pushed s)"
| "consumer_ok s (CTaken cr x) \<longleftrightarrow> cr = word_of_nat (length (popped s)) \<and> length (popped s) < length (pushed s) \<and>
     x = pushed s ! length (popped s)"

definition spsc_inv :: "nat \<Rightarrow> 'a spsc_state \<Rightarrow> bool" where
  "spsc_inv n s \<longleftrightarrow> prefix (popped s) (pushed s) \<and> length (pushed s) < length (popped s) + 2 ^ n \<and>
     write_idx (shared s) = word_of_nat (length (pushed s)) \<and> read_idx (shared s) = word_of_nat (length (popped s)) \<and>
     holds_items n s \<and> producer_ok n s (prod_at s) \<and> consumer_ok s (cons_at s)"

lemma spsc_inv_init: "length xs = 2 ^ n \<Longrightarrow> spsc_inv n (spsc_init xs)"
  by (simp add: spsc_inv_def spsc_init_def holds_items_def)

lemmas spsc_defs = spsc_inv_def holds_items_def

lemma spsc_step_inv:
  assumes "spsc_step n s t" and "spsc_inv n s" and n: "n \<le> 63"
  shows "spsc_inv n t"
  using assms(1)
proof (cases rule: spsc_step.cases)
  case (push_store x cw)
  have inv: "prefix (popped s) (pushed s)" "length (buffer (shared s)) = 2 ^ n" "cw = word_of_nat (length (pushed s))"
      "length (pushed s) + 1 < length (popped s) + 2 ^ n"
    using assms(2) push_store by (auto simp: spsc_defs)
  have le: "length (popped s) \<le> length (pushed s)" using inv(1) by (rule prefix_length_le)
  have ne: "k mod 2 ^ n \<noteq> length (pushed s) mod 2 ^ n" if "length (popped s) \<le> k" "k < length (pushed s)" for k
    using mod_eq_close [of "length (popped s)" k "2 ^ n" "length (pushed s)"] that inv(4) le by auto
  have sl: "slot n cw = length (pushed s) mod 2 ^ n" using inv(3) slot_of_nat [OF n] by simp
  have "(buffer (shared s))[slot n cw := x] ! (k mod 2 ^ n) = pushed s ! k"
    if "length (popped s) \<le> k" "k < length (pushed s)" for k
    unfolding sl using ne [OF that] that assms(2) by (auto simp: spsc_defs)
  moreover have "consumer_ok t (cons_at t) = consumer_ok s (cons_at s)" using push_store by (cases "cons_at s") auto
  moreover have "slot n cw < length (buffer (shared s))" using sl inv(2) by simp
  ultimately show ?thesis using assms(2) push_store sl by (simp add: spsc_defs)
next
  case (push_release x cw)
  have le: "length (popped s) \<le> length (pushed s)" using assms(2) by (auto simp: spsc_defs dest: prefix_length_le)
  have "consumer_ok t (cons_at t)" using assms(2) push_release by (cases "cons_at s") (auto simp: spsc_defs nth_append)
  moreover have "buffer (shared s) ! (k mod 2 ^ n) = (pushed s @ [x]) ! k" if "length (popped s) \<le> k" "k < Suc (length (pushed s))" for k
    using that assms(2) push_release by (cases "k = length (pushed s)") (auto simp: spsc_defs nth_append)
  ultimately show ?thesis using assms(2) push_release by (auto simp: spsc_defs add.commute)
next
  case (pop_take cr)
  have "slot n cr = length (popped s) mod 2 ^ n" using assms(2) pop_take slot_of_nat [OF n] by (simp add: spsc_defs)
  then show ?thesis using assms(2) pop_take by (cases "prod_at s") (auto simp: spsc_defs)
next
  case (pop_release cr x)
  have pre: "prefix (popped s) (pushed s)" "length (popped s) < length (pushed s)" "x = pushed s ! length (popped s)"
    using assms(2) pop_release by (auto simp: spsc_defs)
  then have "prefix (popped s @ [x]) (pushed s)" by (auto simp: prefix_def nth_append neq_Nil_conv)
  moreover have "producer_ok n t (prod_at t)" using assms(2) pop_release by (cases "prod_at s") (auto simp: spsc_defs)
  ultimately show ?thesis using assms(2) pop_release by (auto simp: spsc_defs add.commute)
next
  case (push_room x cw)
  have "length (pushed s) + 1 \<noteq> length (popped s) + 2 ^ n"
    using looks_full_of_nat [OF n, of "length (popped s)" "length (pushed s)"] assms(2) push_room prefix_length_le
    by (auto simp: spsc_defs)
  then show ?thesis using assms(2) push_room by (cases "cons_at s") (auto simp: spsc_defs)
next
  case (pop_some cr)
  have "length (popped s) \<noteq> length (pushed s)" using assms(2) pop_some by (auto simp: spsc_defs)
  then show ?thesis using assms(2) pop_some by (cases "prod_at s") (auto simp: spsc_defs dest: prefix_length_le)
qed (use assms(2) in \<open>cases "prod_at s"; cases "cons_at s"; auto simp: spsc_defs\<close>)+

lemma spsc_run_inv:
  assumes "n \<le> 63" and "length xs = 2 ^ n" and "(spsc_step n)\<^sup>*\<^sup>* (spsc_init xs) s"
  shows "spsc_inv n s"
  using assms(3)
proof (induction rule: rtranclp_induct)
  case base
  show ?case by (rule spsc_inv_init [OF assms(2)])
next
  case (step s t)
  show ?case by (rule spsc_step_inv [OF step(2,3) assms(1)])
qed

lemma spsc_invD:
  assumes "spsc_inv n s"
  shows "prefix (popped s) (pushed s)" "length (popped s) \<le> length (pushed s)" "length (pushed s) < length (popped s) + 2 ^ n"
    "write_idx (shared s) = word_of_nat (length (pushed s))" "read_idx (shared s) = word_of_nat (length (popped s))"
    "producer_ok n s (prod_at s)" "consumer_ok s (cons_at s)"
  using assms prefix_length_le unfolding spsc_inv_def by blast+

lemma spsc_no_race:
  assumes "n \<le> 63" and "spsc_inv n s" and "prod_at s = PReady x cw" and "cons_at s = CReady cr"
  shows "slot n cw \<noteq> slot n cr"
proof -
  note inv = spsc_invD [OF assms(2)]
  have at: "cw = word_of_nat (length (pushed s))" "cr = word_of_nat (length (popped s))" "length (popped s) < length (pushed s)"
    using inv(6,7) unfolding assms(3,4) by simp_all
  show ?thesis
    using mod_eq_close [of "length (popped s)" "length (pushed s)" "2 ^ n" "length (popped s)"] inv(3) at(3)
    unfolding at(1,2) slot_of_nat [OF assms(1)] by force
qed

lemma spsc_full_exact:
  assumes "n \<le> 63" and "spsc_inv n s" and "prod_at s = PLoaded x cw"
  shows "looks_full n cw (read_idx (shared s)) \<longleftrightarrow> length (pushed s) = length (popped s) + (2 ^ n - 1)"
proof -
  note inv = spsc_invD [OF assms(2)]
  have "cw = word_of_nat (length (pushed s))" using inv(6) unfolding assms(3) by simp
  moreover have "length (pushed s) + 1 = length (popped s) + 2 ^ n \<longleftrightarrow> length (pushed s) = length (popped s) + (2 ^ n - 1)"
    using zero_less_power [of "2 :: nat" n] by linarith
  ultimately show ?thesis using looks_full_of_nat [OF assms(1) inv(2,3)] inv(5) by simp
qed

lemma spsc_empty_exact:
  assumes "n \<le> 63" and "spsc_inv n s" and "cons_at s = CLoaded cr"
  shows "cr = write_idx (shared s) \<longleftrightarrow> popped s = pushed s"
proof -
  note inv = spsc_invD [OF assms(2)]
  have cr: "cr = word_of_nat (length (popped s))" using inv(7) unfolding assms(3) by simp
  obtain zs where "pushed s = popped s @ zs" using inv(1) by (rule prefixE)
  then have "length (popped s) = length (pushed s) \<longleftrightarrow> popped s = pushed s" by simp
  then show ?thesis unfolding cr inv(4) index_eq_iff [OF assms(1) inv(2,3)] .
qed

section \<open>Properties\<close>

text \<open>C14: however the calls of the producer and the consumer interleave, and however often the indexes wrap, the items that
  were popped are a prefix of the items that were pushed, fewer than \<open>2 ^ n\<close> are in the queue, no slot is written while it
  is read, \<open>Push\<close> refuses exactly when \<open>2 ^ n - 1\<close> items were in the queue at its check and \<open>Pop\<close> exactly when none was.\<close>

theorem spsc_queue_fifo:
  assumes "n \<le> 63" and "length xs = 2 ^ n" and "(spsc_step n)\<^sup>*\<^sup>* (spsc_init xs) s"
  shows "prefix (popped s) (pushed s) \<and> length (pushed s) < length (popped s) + 2 ^ n \<and>
    (\<forall>x cw cr. prod_at s = PReady x cw \<and> cons_at s = CReady cr \<longrightarrow> slot n cw \<noteq> slot n cr) \<and>
    (\<forall>x cw. prod_at s = PLoaded x cw \<longrightarrow>
      (looks_full n cw (read_idx (shared s)) \<longleftrightarrow> length (pushed s) = length (popped s) + (2 ^ n - 1))) \<and>
    (\<forall>cr. cons_at s = CLoaded cr \<longrightarrow> (cr = write_idx (shared s) \<longleftrightarrow> popped s = pushed s))"
proof -
  have inv: "spsc_inv n s" by (rule spsc_run_inv [OF assms])
  show ?thesis
    using spsc_invD(1,3) [OF inv] spsc_no_race [OF assms(1) inv] spsc_full_exact [OF assms(1) inv] spsc_empty_exact [OF assms(1) inv]
    by blast
qed

text \<open>A call that is not interrupted by its own thread takes the steps of the split operation.\<close>

lemma Push_steps:
  assumes "prod_at s = PIdle"
  shows "(spsc_step n)\<^sup>*\<^sup>* s (s\<lparr>shared := snd (SPSCQueue_Push n (shared s) x), pushed := pushed s @ (if fst (SPSCQueue_Push n (shared s) x) then [x] else [])\<rparr>)"
proof (cases "looks_full n (write_idx (shared s)) (read_idx (shared s))")
  case True
  let ?s1 = "s\<lparr>prod_at := PLoaded x (write_idx (shared s))\<rparr>"
  have "spsc_step n s ?s1" "spsc_step n ?s1 (?s1\<lparr>prod_at := PIdle\<rparr>)"
    by (rule push_load [OF assms], rule push_full [of _ x "write_idx (shared s)"]) (use True in simp_all)
  moreover have "?s1\<lparr>prod_at := PIdle\<rparr> = s" using assms by simp
  ultimately show ?thesis using True by (simp add: SPSCQueue_Push_def)
next
  case False
  let ?cw = "write_idx (shared s)"
  let ?s1 = "s\<lparr>prod_at := PLoaded x ?cw\<rparr>"
  let ?s2 = "?s1\<lparr>prod_at := PReady x ?cw\<rparr>"
  let ?s3 = "?s2\<lparr>prod_at := PWritten x ?cw, shared := (shared ?s2)\<lparr>buffer := (buffer (shared ?s2))[slot n ?cw := x]\<rparr>\<rparr>"
  let ?s4 = "?s3\<lparr>prod_at := PIdle, shared := (shared ?s3)\<lparr>write_idx := ?cw + 1\<rparr>, pushed := pushed ?s3 @ [x]\<rparr>"
  have "spsc_step n s ?s1" by (rule push_load [OF assms])
  moreover have "spsc_step n ?s1 ?s2" using False by (intro push_room) simp_all
  moreover have "spsc_step n ?s2 ?s3" by (rule push_store) simp
  moreover have "spsc_step n ?s3 ?s4" by (rule push_release) simp
  ultimately have "(spsc_step n)\<^sup>*\<^sup>* s ?s4" by (meson converse_rtranclp_into_rtranclp rtranclp.rtrancl_refl)
  moreover have "?s4 = s\<lparr>shared := snd (SPSCQueue_Push n (shared s) x), pushed := pushed s @ (if fst (SPSCQueue_Push n (shared s) x) then [x] else [])\<rparr>"
    using False assms by (simp add: SPSCQueue_Push_def Let_def)
  ultimately show ?thesis by simp
qed

lemma Pop_steps:
  assumes "cons_at s = CIdle"
  shows "(spsc_step n)\<^sup>*\<^sup>* s (s\<lparr>shared := snd (SPSCQueue_Pop n (shared s)),
    popped := popped s @ (case fst (SPSCQueue_Pop n (shared s)) of None \<Rightarrow> [] | Some x \<Rightarrow> [x])\<rparr>)"
proof (cases "read_idx (shared s) = write_idx (shared s)")
  case True
  let ?s1 = "s\<lparr>cons_at := CLoaded (read_idx (shared s))\<rparr>"
  have "spsc_step n s ?s1" "spsc_step n ?s1 (?s1\<lparr>cons_at := CIdle\<rparr>)"
    by (rule pop_load [OF assms], rule pop_empty [of _ "read_idx (shared s)"]) (use True in simp_all)
  moreover have "?s1\<lparr>cons_at := CIdle\<rparr> = s" using assms by simp
  ultimately show ?thesis using True by (simp add: SPSCQueue_Pop_def)
next
  case False
  let ?cr = "read_idx (shared s)"
  let ?s1 = "s\<lparr>cons_at := CLoaded ?cr\<rparr>"
  let ?s2 = "?s1\<lparr>cons_at := CReady ?cr\<rparr>"
  let ?s3 = "?s2\<lparr>cons_at := CTaken ?cr (buffer (shared ?s2) ! slot n ?cr)\<rparr>"
  let ?s4 = "?s3\<lparr>cons_at := CIdle, shared := (shared ?s3)\<lparr>read_idx := ?cr + 1\<rparr>, popped := popped ?s3 @ [buffer (shared ?s2) ! slot n ?cr]\<rparr>"
  have "spsc_step n s ?s1" by (rule pop_load [OF assms])
  moreover have "spsc_step n ?s1 ?s2" using False by (intro pop_some) simp_all
  moreover have "spsc_step n ?s2 ?s3" by (rule pop_take) simp
  moreover have "spsc_step n ?s3 ?s4" by (rule pop_release) simp
  ultimately have "(spsc_step n)\<^sup>*\<^sup>* s ?s4" by (meson converse_rtranclp_into_rtranclp rtranclp.rtrancl_refl)
  moreover have "?s4 = s\<lparr>shared := snd (SPSCQueue_Pop n (shared s)),
      popped := popped s @ (case fst (SPSCQueue_Pop n (shared s)) of None \<Rightarrow> [] | Some x \<Rightarrow> [x])\<rparr>"
    using False assms by (simp add: SPSCQueue_Pop_def Let_def)
  ultimately show ?thesis by simp
qed

theorem spsc_queue_fifo_witness:
  "\<exists>s :: nat spsc_state. (spsc_step 2)\<^sup>*\<^sup>* (spsc_init [0, 0, 0, 0]) s \<and> pushed s = [5] \<and> popped s = [5] \<and> prefix (popped s) (pushed s)"
proof -
  let ?s0 = "spsc_init [0, 0, 0, 0 :: nat]"
  let ?s1 = "?s0\<lparr>shared := snd (SPSCQueue_Push 2 (shared ?s0) 5), pushed := [5]\<rparr>"
  let ?s2 = "?s1\<lparr>shared := snd (SPSCQueue_Pop 2 (shared ?s1)), popped := [5]\<rparr>"
  have "\<not> looks_full 2 0 0" "slot 2 0 = 0" by code_simp+
  then have "fst (SPSCQueue_Push 2 (shared ?s0) 5)" "fst (SPSCQueue_Pop 2 (shared ?s1)) = Some 5"
    by (simp_all add: spsc_init_def SPSCQueue_Push_def SPSCQueue_Pop_def)
  then have "(spsc_step 2)\<^sup>*\<^sup>* ?s0 ?s1" using Push_steps [of ?s0 2 5] by (simp add: spsc_init_def)
  moreover have "(spsc_step 2)\<^sup>*\<^sup>* ?s1 ?s2" using \<open>fst (SPSCQueue_Pop 2 (shared ?s1)) = Some 5\<close> Pop_steps [of ?s1 2] by (simp add: spsc_init_def)
  ultimately have run: "(spsc_step 2)\<^sup>*\<^sup>* ?s0 ?s2" by (rule rtranclp_trans)
  then have "prefix (popped ?s2) (pushed ?s2)" using spsc_queue_fifo [of 2 "[0, 0, 0, 0]" ?s2] by simp
  then show ?thesis using run by (intro exI [of _ ?s2]) simp
qed

end
