(* ===== verification/Spec2Isabelle.thy ===== *)
theory Spec2Isabelle
  imports TlvSection FastBitset LabelTable CodeSlotMap SparseGraph DenseGraph GraphSearch PruningStrategy ExpressionVisitor
    NonContinuousIO SpscQueue
begin

text \<open>
  A verification library for the core of VSAG, a C++ library for similarity search over vectors.

  \<^bold>\<open>The program.\<close> An index stores vectors under internal ids (\<open>InnerIdType\<close>, 32 bits) and links similar vectors by the
  edges of a graph. A search walks the graph from an entry point, keeps the best vertices in a bounded queue and
  admits only the ids a filter accepts. Around this walk stand the storages of the graph, the table that translates
  labels of the user into internal ids, the inverted index of attributes with the conditions that filter by them, byte
  storages, and a serialization format of checksummed blocks. These parts, which carry the logic that the indexes under
  \<^verbatim>\<open>src/src/algorithm\<close> share, are modelled here, each from the source file its theory names.

  \<^bold>\<open>How code is modelled.\<close> A class is a \<open>record\<close> of its fields, a method a function that returns the changed record. A
  method that can fail returns \<open>error + 'a\<close> (\<open>result\<close>): \<open>Vsag e\<close> is a \<open>VsagException\<close> with its \<open>ErrorType\<close>, other values
  are standard exceptions, and \<open>UndefinedBehaviour\<close> stands for every access outside a buffer, through a null
  pointer or an invalid iterator, so that a theorem with result \<open>Inr\<close> includes memory safety. Machine integers are words
  where they can wrap; offsets of storages are natural numbers with \<open>wrap64\<close> written out. \<open>float\<close> is its bit pattern, compared,
  negated, added and multiplied as in IEEE 754 (\<open>FloatDistance\<close>). Hash maps are partial functions, with the iteration
  order as an argument where it can be seen. Arguments stand for code outside the sources: the CRoaring library
  (\<open>Roaring\<close> with \<open>roaring_laws\<close>), memory allocation (\<open>heap_allocator\<close>), \<open>std::stod\<close>; and for parts of the program that are not
  modelled: the distances a vector storage computes, the user's filter, the skip strategy and the timer.

  \<^bold>\<open>Theories and sources.\<close>
  \<^item> \<open>Prelude\<close>: words, results, little-endian encodings, \<open>std::vector::resize\<close>; the lemmas all others share.
  \<^item> \<open>Streams\<close> (\<^verbatim>\<open>storage/stream_writer\<close>, \<^verbatim>\<open>storage/stream_reader\<close>): writers and readers; the locale \<open>byte_source\<close> is the
    contract of a reader, interpreted by the forward, bounded, slice and block readers. Every round trip below is proved
    once for a \<open>byte_source\<close>.
  \<^item> \<open>TlvSection\<close> (\<^verbatim>\<open>storage/tlv_section\<close>, \<^verbatim>\<open>storage/serialization\<close>): blocks read back, a payload reaches its
    deserializer whole, one corrupted byte is refused.
  \<^item> \<open>FastBitset\<close>, \<open>ComputableBitset\<close> (\<^verbatim>\<open>impl/bitset\<close>, \<^verbatim>\<open>attr/multi_bitset_manager\<close>): the dense bitset is a Boolean
    algebra of infinite bit vectors (locale \<open>computable_bitset\<close>); groups of bitsets change one bucket at a time.
  \<^item> \<open>LabelTable\<close> (\<^verbatim>\<open>impl/label_table\<close>): lookups agree and never answer a wrong or removed id; round trip.
  \<^item> \<open>CodeSlotMap\<close> (\<^verbatim>\<open>datacell/code_slot_map\<close>): a write-once map; concurrent allocation as interleaved atomic accesses.
  \<^item> \<open>DuplicateTracker\<close> (\<^verbatim>\<open>datacell/*_duplicate_tracker\<close>): circular lists refine a partition (locales \<open>duplicate_tracker\<close>,
    \<open>duplicate_merge\<close>, interpreted by both trackers).
  \<^item> \<open>GraphInterface\<close> (\<^verbatim>\<open>datacell/graph_interface\<close>, \<^verbatim>\<open>impl/reverse_edge\<close>): the shared state, incoming edges, and the locale
    \<open>edge_store\<close> in which the common part of \<open>Move\<close> is proved; \<open>SparseGraph\<close>, \<open>DenseGraph\<close>, \<open>CompressedGraph\<close> with
    \<open>EliasFano\<close> are the three storages: insertion and reading, deletion by versions, \<open>Move\<close>, merging, serialization.
  \<^item> \<open>BasicIO\<close> (\<^verbatim>\<open>io/common\<close>, \<^verbatim>\<open>io/memory_io\<close>, \<^verbatim>\<open>io/memory_block_io\<close>), \<open>NonContinuousIO\<close> (\<^verbatim>\<open>io/noncontinuous_io\<close>): byte
    storages refine one byte string (locales \<open>random_io\<close>, \<open>resizable_io\<close>, \<open>io_stream\<close>); \<open>DenseGraph\<close> is proved over any
    \<open>random_io\<close>.
  \<^item> \<open>DistanceHeap\<close>, \<open>FloatDistance\<close> (\<^verbatim>\<open>impl/heap\<close>): both queues keep the best records (locales \<open>ranked_cmp\<close>, \<open>record_heap\<close>).
  \<^item> \<open>VisitedList\<close> (\<^verbatim>\<open>utils/visited_list\<close>), \<open>BasicSearcher\<close> (\<^verbatim>\<open>impl/searcher/basic_searcher\<close>): the marks of a search and the
    search itself; \<open>SearchProperties\<close> proves it sound, complete when nothing cuts it short, and optimal when \<open>ef\<close> covers
    the reachable part; \<open>GraphSearch\<close> puts it on the three graph storages (locale \<open>searchable_storage\<close>).
  \<^item> \<open>PruningStrategy\<close> (\<^verbatim>\<open>impl/pruning_strategy\<close>): the selection of edges is a diverse choice, and a vertex is linked in both
    directions within the maximum degree.
  \<^item> \<open>AttributeIndex\<close>, \<open>AttrExecutor\<close>, \<open>ExpressionVisitor\<close> (\<^verbatim>\<open>attr\<close>, \<^verbatim>\<open>datacell/attribute_bucket_inverted_datacell\<close>): the index
    refines a relation between fields, values and ids, and a filter condition, from its parse tree to the bits of the
    filter, accepts exactly the ids that satisfy it.
  \<^item> \<open>SpscQueue\<close> (\<^verbatim>\<open>utils/spsc_queue\<close>): the lock-free queue of two threads is first-in first-out.

  \<^bold>\<open>Loops.\<close> There is no fuel. Loops are recursive functions with termination proofs; the search ends because each round
  takes a candidate and candidates are marked, and that the walks over duplicate groups (\<open>while_option\<close>, \<open>None\<close> when
  they do not end) end is part of the theorems on well-formed trackers.

  \<^bold>\<open>Bounds.\<close> Where an arithmetic limit of the code is reached the theorems say so: positions of a dense bitset below
  \<open>2 ^ 32 - 64\<close>, fewer than \<open>2 ^ 15\<close> bitsets in a group, at most 255 neighbours in a compressed list, version counters of
  eight bits, streams and storages shorter than \<open>2 ^ 63\<close> bytes. For several of them a further theorem shows what happens
  beyond (\<open>fast_bitset_position_wrap\<close>, \<open>multi_bitset_overflow\<close>, \<open>list_literal_wraps\<close>, \<open>sparse_graph_delete_wraps\<close>).

  \<^bold>\<open>Not modelled.\<close> The indexes themselves and their JSON parameters; quantizers, vector storages and SIMD kernels (floating
  point); file, mapped and asynchronous input and output; the parallel searcher and the iterator search; clustering
  and neighbour descent; per-vertex locks (operations are atomic steps, except in \<open>CodeSlotMap\<close> and \<open>SpscQueue\<close>); memory
  accounting and prefetching; the generated parser of filter conditions, whose parse trees are the input here.
\<close>

end
